(* ===== verification/Kernel_Prelude.thy ===== *)
theory Kernel_Prelude
  imports Main "HOL-Library.Word" "HOL-Library.Code_Target_Nat"
begin

text \<open>
  Shared vocabulary of the development: the machine integer types of the kernel's Rust code,
  results (\<open>Result\<close> and panics) as sums, little-endian byte encodings, slices of byte
  buffers, and the search loops \<open>for i in a..b\<close> the components have in common.
\<close>

unbundle bit_operations_syntax

named_theorems res_simps \<open>rules that take a fallible computation apart\<close>
named_theorems slice_simps \<open>lengths and elements of slices and of overwritten buffers\<close>

subsection \<open>Machine integers\<close>

type_synonym u8 = "8 word"
type_synonym u16 = "16 word"
type_synonym u32 = "32 word"
type_synonym u64 = "64 word"
type_synonym bytes = "u8 list"

text \<open>Rust's \<open>checked_add\<close>, \<open>checked_mul\<close>, \<open>saturating_add\<close> and \<open>saturating_sub\<close>.\<close>

definition checked_add :: "'w::len word \<Rightarrow> 'w word \<Rightarrow> 'w word option" where
  "checked_add a b = (if unat a + unat b < 2 ^ LENGTH('w) then Some (a + b) else None)"

definition checked_mul :: "'w::len word \<Rightarrow> 'w word \<Rightarrow> 'w word option" where
  "checked_mul a b = (if unat a * unat b < 2 ^ LENGTH('w) then Some (a * b) else None)"

definition saturating_add :: "'w::len word \<Rightarrow> 'w word \<Rightarrow> 'w word" where
  "saturating_add a b = (if unat a + unat b < 2 ^ LENGTH('w) then a + b else - 1)"

definition saturating_sub :: "'w::len word \<Rightarrow> 'w word \<Rightarrow> 'w word" where
  "saturating_sub a b = (if b \<le> a then a - b else 0)"

lemma unat_checked_add:
  fixes a :: "'w::len word"
  shows "checked_add a b = Some c \<Longrightarrow> unat c = unat a + unat b"
  by (auto simp: checked_add_def unat_word_ariths split: if_splits)

lemma unat_checked_mul:
  fixes a :: "'w::len word"
  shows "checked_mul a b = Some c \<Longrightarrow> unat c = unat a * unat b"
  by (auto simp: checked_mul_def unat_word_ariths split: if_splits)

lemma unat_saturating_add:
  fixes a :: "'w::len word"
  shows "unat (saturating_add a b) = min (unat a + unat b) (2 ^ LENGTH('w) - 1)"
  by (auto simp: saturating_add_def unat_word_ariths min_def unsigned_minus_1_eq_mask mask_eq_exp_minus_1)

lemma unat_saturating_sub: "unat (saturating_sub a b) = unat a - unat b"
  by (auto simp: saturating_sub_def word_le_nat_alt unat_sub)

lemma unat_plus1: "unat w < 2 ^ LENGTH('w) - 1 \<Longrightarrow> unat (w + 1 :: 'w::len word) = unat w + 1"
  by (simp add: unat_word_ariths)

lemma unat_minus1: "0 < unat w \<Longrightarrow> unat (w - 1 :: 'w::len word) = unat w - 1"
  by (metis unat_0 unat_minus_one less_numeral_extra(3))

lemma unat_add_lt:
  "unat a + unat b < 2 ^ LENGTH('w) \<Longrightarrow> unat (a + b :: 'w::len word) = unat a + unat b"
  by (simp add: unat_word_ariths)

lemma unat_mult_lt:
  "unat a * unat b < 2 ^ LENGTH('w) \<Longrightarrow> unat (a * b :: 'w::len word) = unat a * unat b"
  by (simp add: unat_word_ariths)

lemma unat_of_nat_lt: "n < 2 ^ LENGTH('w) \<Longrightarrow> unat (of_nat n :: 'w::len word) = n"
  by (simp add: unat_of_nat take_bit_nat_eq_self)

lemma unat_ucast_le:
  assumes "LENGTH('a) \<le> LENGTH('b)"
  shows "unat (ucast (w :: 'a::len word) :: 'b::len word) = unat w"
proof -
  have "unat w < 2 ^ LENGTH('b)"
    using unsigned_less [of w, where ?'a = nat] assms
    by (metis nat_power_eq_Suc_0_iff order_less_le_trans power_increasing_iff one_less_numeral_iff semiring_norm(76))
  then show ?thesis
    by (simp add: unsigned_ucast_eq take_bit_nat_eq_self)
qed

subsection \<open>Fallible computations\<close>

text \<open>
  A \<open>Result\<close> is a sum with the error on the left; \<open>rbind m f\<close> is the \<open>?\<close> operator
  followed by the rest of the function. A panic (a failed assertion, an explicit
  \<open>panic!\<close>, an index or a slice out of range) is a value of the type \<open>panic\<close>.
\<close>

definition rbind :: "'e + 'a \<Rightarrow> ('a \<Rightarrow> 'e + 'b) \<Rightarrow> 'e + 'b" where
  "rbind m f = (case m of Inl e \<Rightarrow> Inl e | Inr x \<Rightarrow> f x)"

datatype panic = Index_out_of_range | Slice_out_of_range | Panic string

type_synonym 'a or_panic = "panic + 'a"

definition assert_that :: "bool \<Rightarrow> string \<Rightarrow> unit or_panic" where
  "assert_that b msg = (if b then Inr () else Inl (Panic msg))"

definition ok_or :: "'e \<Rightarrow> 'a option \<Rightarrow> 'e + 'a" where
  "ok_or e x = (case x of None \<Rightarrow> Inl e | Some v \<Rightarrow> Inr v)"

definition map_err :: "('e \<Rightarrow> 'f) \<Rightarrow> 'e + 'a \<Rightarrow> 'f + 'a" where
  "map_err g m = (case m of Inl e \<Rightarrow> Inl (g e) | Inr x \<Rightarrow> Inr x)"

lemma rbind_simps [simp]: "rbind (Inl e) f = Inl e" "rbind (Inr x) f = f x"
  by (simp_all add: rbind_def)

lemma ok_or_simps [simp]: "ok_or e None = Inl e" "ok_or e (Some v) = Inr v"
  by (simp_all add: ok_or_def)

lemma map_err_simps [simp]: "map_err g (Inl e) = Inl (g e)" "map_err g (Inr x) = Inr x"
  by (simp_all add: map_err_def)

lemma assert_that_simps [simp]:
  "b \<Longrightarrow> assert_that b msg = Inr ()" "\<not> b \<Longrightarrow> assert_that b msg = Inl (Panic msg)"
  by (simp_all add: assert_that_def)

lemma assert_that_Inr_iff [res_simps]: "assert_that b msg = Inr u \<longleftrightarrow> b"
  by (simp add: assert_that_def)

lemma rbind_Inr_iff [res_simps]: "rbind m f = Inr y \<longleftrightarrow> (\<exists>x. m = Inr x \<and> f x = Inr y)"
  by (cases m) auto

lemma ok_or_Inr_iff [res_simps]: "ok_or e x = Inr y \<longleftrightarrow> x = Some y"
  by (cases x) auto

lemma map_err_Inr_iff [res_simps]: "map_err g m = Inr y \<longleftrightarrow> m = Inr y"
  by (cases m) auto

lemma rbind_cong [fundef_cong]:
  "m = m' \<Longrightarrow> (\<And>x. m' = Inr x \<Longrightarrow> f x = f' x) \<Longrightarrow> rbind m f = rbind m' f'"
  by (cases m') auto

lemma rbind_assoc: "rbind (rbind m f) g = rbind m (\<lambda>x. rbind (f x) g)"
  by (cases m) auto

subsection \<open>Fallible computations with state\<close>

text \<open>
  A Rust function that returns a \<open>Result\<close> and changes state keeps its changes when it returns an
  error: it is a function from the state to an outcome and the state it leaves. The outcome is a
  value, an error, or a panic.
\<close>

datatype 'e fault = Err 'e | Crash panic

type_synonym ('e, 'a) outcome = "'e fault + 'a"
type_synonym ('s, 'e, 'a) op = "'s \<Rightarrow> ('e, 'a) outcome \<times> 's"

definition sreturn :: "'a \<Rightarrow> ('s, 'e, 'a) op" where
  "sreturn x s = (Inr x, s)"

definition sfail :: "'e \<Rightarrow> ('s, 'e, 'a) op" where
  "sfail e s = (Inl (Err e), s)"

definition scrash :: "panic \<Rightarrow> ('s, 'e, 'a) op" where
  "scrash p s = (Inl (Crash p), s)"

definition sbind :: "('s, 'e, 'a) op \<Rightarrow> ('a \<Rightarrow> ('s, 'e, 'b) op) \<Rightarrow> ('s, 'e, 'b) op" where
  "sbind m f s = (case m s of (Inl e, s') \<Rightarrow> (Inl e, s') | (Inr x, s') \<Rightarrow> f x s')"

definition slift :: "('e, 'a) outcome \<Rightarrow> ('s, 'e, 'a) op" where
  "slift r s = (r, s)"

definition fault_map :: "('e \<Rightarrow> 'f) \<Rightarrow> 'e fault \<Rightarrow> 'f fault" where
  "fault_map g f = (case f of Err e \<Rightarrow> Err (g e) | Crash p \<Rightarrow> Crash p)"

definition smap_err :: "('e \<Rightarrow> 'f) \<Rightarrow> ('s, 'e, 'a) op \<Rightarrow> ('s, 'f, 'a) op" where
  "smap_err g m s = (case m s of (r, s') \<Rightarrow> (map_err (fault_map g) r, s'))"

text \<open>Inspecting an error instead of propagating it (\<open>match\<close>, \<open>is_err\<close>, \<open>let _ =\<close>); a panic still propagates.\<close>

definition stry :: "('s, 'e, 'a) op \<Rightarrow> ('s, 'f, 'e + 'a) op" where
  "stry m s = (case m s of (Inl (Err e), s') \<Rightarrow> (Inr (Inl e), s') | (Inl (Crash p), s') \<Rightarrow> (Inl (Crash p), s')
     | (Inr x, s') \<Rightarrow> (Inr (Inr x), s'))"

named_theorems op_simps \<open>evaluation of fallible computations with state\<close>

lemma sreturn_apply [op_simps]: "sreturn x s = (Inr x, s)"
  by (simp add: sreturn_def)

lemma sfail_apply [op_simps]: "sfail e s = (Inl (Err e), s)"
  by (simp add: sfail_def)

lemma scrash_apply [op_simps]: "scrash p s = (Inl (Crash p), s)"
  by (simp add: scrash_def)

lemma slift_apply [op_simps]: "slift r s = (r, s)"
  by (simp add: slift_def)

lemma sbind_value [op_simps]: "m s = (Inr x, s') \<Longrightarrow> sbind m f s = f x s'"
  by (simp add: sbind_def)

lemma sbind_fault [op_simps]: "m s = (Inl e, s') \<Longrightarrow> sbind m f s = (Inl e, s')"
  by (simp add: sbind_def)

lemma smap_err_value [op_simps]: "m s = (Inr x, s') \<Longrightarrow> smap_err g m s = (Inr x, s')"
  by (simp add: smap_err_def)

lemma smap_err_fault [op_simps]: "m s = (Inl e, s') \<Longrightarrow> smap_err g m s = (Inl (fault_map g e), s')"
  by (simp add: smap_err_def)

lemma stry_simps [op_simps]:
  "m s = (Inr x, s') \<Longrightarrow> stry m s = (Inr (Inr x), s')"
  "m s = (Inl (Err e), s') \<Longrightarrow> stry m s = (Inr (Inl e), s')"
  "m s = (Inl (Crash p), s') \<Longrightarrow> stry m s = (Inl (Crash p), s')"
  by (simp_all add: stry_def)

lemma sbind_value_iff [res_simps]:
  "sbind m f s = (Inr y, t) \<longleftrightarrow> (\<exists>x s'. m s = (Inr x, s') \<and> f x s' = (Inr y, t))"
  by (auto simp: sbind_def split: prod.splits sum.splits)

lemma smap_err_value_iff [res_simps]: "smap_err g m s = (Inr y, t) \<longleftrightarrow> m s = (Inr y, t)"
  by (auto simp: smap_err_def map_err_def split: prod.splits sum.splits)

lemma sbind_cong [fundef_cong]: "m = m' \<Longrightarrow> (\<And>x. f x = f' x) \<Longrightarrow> sbind m f = sbind m' f'"
  by (auto simp: sbind_def fun_eq_iff split: prod.splits sum.splits)

lemma sbind_assoc: "sbind (sbind m f) g s = sbind m (\<lambda>x. sbind (f x) g) s"
  by (auto simp: sbind_def split: prod.splits sum.splits)

subsection \<open>Search loops\<close>

text \<open>
  \<open>for i in a..b { if p(i) { return Some(i) } } None\<close> is \<open>List.find p [a..<b]\<close>: the
  least index of the range that satisfies \<open>p\<close>.
\<close>

lemma find_upt_Some_iff:
  "List.find P [a..<b] = Some i \<longleftrightarrow> a \<le> i \<and> i < b \<and> P i \<and> (\<forall>j. a \<le> j \<and> j < i \<longrightarrow> \<not> P j)"
proof (induction "b - a" arbitrary: a)
  case 0
  then show ?case by simp
next
  case (Suc n)
  then have "a < b" "n = b - Suc a" by simp_all
  with Suc.hyps(1) [of "Suc a"] show ?case
    by (auto simp: upt_conv_Cons Suc_le_eq dest: le_neq_implies_less)
qed

lemma find_upt_None_iff: "List.find P [a..<b] = None \<longleftrightarrow> (\<forall>j. a \<le> j \<and> j < b \<longrightarrow> \<not> P j)"
  by (auto simp: find_None_iff)

lemma find_append_None: "List.find P xs = None \<Longrightarrow> List.find P (xs @ ys) = List.find P ys"
  by (induction xs) (auto split: if_splits)

subsection \<open>Slices\<close>

text \<open>
  \<open>&xs[off..off + n]\<close> is \<open>subslice off n xs\<close>; \<open>xs[off..].copy_from_slice(src)\<close> is
  \<open>overwrite off src xs\<close>. Both are used only where the source's range is in bounds, which
  the operations check or the model turns into a panic.
\<close>

definition subslice :: "nat \<Rightarrow> nat \<Rightarrow> 'a list \<Rightarrow> 'a list" where
  "subslice off n xs = take n (drop off xs)"

definition overwrite :: "nat \<Rightarrow> 'a list \<Rightarrow> 'a list \<Rightarrow> 'a list" where
  "overwrite off src xs = take off xs @ src @ drop (off + length src) xs"

lemma length_subslice [slice_simps]: "off + n \<le> length xs \<Longrightarrow> length (subslice off n xs) = n"
  by (simp add: subslice_def)

lemma nth_subslice [slice_simps]: "off + n \<le> length xs \<Longrightarrow> i < n \<Longrightarrow> subslice off n xs ! i = xs ! (off + i)"
  by (simp add: subslice_def)

lemma length_overwrite [slice_simps]:
  "off + length src \<le> length xs \<Longrightarrow> length (overwrite off src xs) = length xs"
  by (simp add: overwrite_def)

lemma nth_overwrite [slice_simps]:
  "off + length src \<le> length xs \<Longrightarrow> i < length xs \<Longrightarrow>
   overwrite off src xs ! i = (if off \<le> i \<and> i < off + length src then src ! (i - off) else xs ! i)"
  by (auto simp: overwrite_def nth_append min_def)

lemma slice_overwrite_same:
  "off + length src \<le> length xs \<Longrightarrow> subslice off (length src) (overwrite off src xs) = src"
  by (rule nth_equalityI) (auto simp: slice_simps)

lemma slice_overwrite_disjoint:
  assumes "off + length src \<le> length xs" "o2 + n \<le> length xs"
    and "o2 + n \<le> off \<or> off + length src \<le> o2"
  shows "subslice o2 n (overwrite off src xs) = subslice o2 n xs"
proof -
  have len: "length (overwrite off src xs) = length xs"
    using assms(1) by (rule length_overwrite)
  show ?thesis
  proof (rule nth_equalityI)
    show "length (subslice o2 n (overwrite off src xs)) = length (subslice o2 n xs)"
      using assms(2) by (simp add: length_subslice len)
  next
    fix i
    assume "i < length (subslice o2 n (overwrite off src xs))"
    then have "i < n"
      using assms(2) by (simp add: length_subslice len)
    then show "subslice o2 n (overwrite off src xs) ! i = subslice o2 n xs ! i"
      using assms by (auto simp: nth_subslice len nth_overwrite)
  qed
qed

lemma slice_append_left: "off + n \<le> length xs \<Longrightarrow> subslice off n (xs @ ys) = subslice off n xs"
  by (simp add: subslice_def)

lemma overwrite_whole: "length src = length xs \<Longrightarrow> overwrite 0 src xs = src"
  by (simp add: overwrite_def)

lemma overwrite_overwrite:
  assumes "length src = length src'" "off + length src \<le> length xs"
  shows "overwrite off src' (overwrite off src xs) = overwrite off src' xs"
  using assms by (simp add: overwrite_def)

lemma overwrite_slice_id: "off + n \<le> length xs \<Longrightarrow> overwrite off (subslice off n xs) xs = xs"
  by (simp add: overwrite_def subslice_def) (metis append_take_drop_id drop_drop add.commute)

subsection \<open>Strings\<close>

text \<open>
  A Rust string is its UTF-8 bytes. \<open>utf8_char b\<close> is what pushing \<open>b as char\<close> appends for a byte
  \<open>b\<close>; \<open>split_on c s\<close> is \<open>s.split(c)\<close> for an ASCII separator.
\<close>

type_synonym rstring = bytes

definition ascii :: "string \<Rightarrow> rstring" where
  "ascii s = map of_char s"

definition utf8_char :: "u8 \<Rightarrow> rstring" where
  "utf8_char b = (if b < 0x80 then [b] else [0xC0 OR drop_bit 6 b, 0x80 OR (b AND 0x3F)])"

fun split_on :: "'a \<Rightarrow> 'a list \<Rightarrow> 'a list list" where
  "split_on c [] = [[]]"
| "split_on c (x # xs) = (if x = c then [] # split_on c xs
     else (case split_on c xs of [] \<Rightarrow> [[x]] | w # ws \<Rightarrow> (x # w) # ws))"

lemma split_on_not_Nil [simp]: "split_on c xs \<noteq> []"
  by (induction xs) (auto split: list.splits)

lemma split_on_absent: "c \<notin> set xs \<Longrightarrow> split_on c xs = [xs]"
  by (induction xs) auto

lemma split_on_append: "c \<notin> set xs \<Longrightarrow> split_on c (xs @ c # ys) = xs # split_on c ys"
  by (induction xs) auto

lemma split_on_pieces: "w \<in> set (split_on c xs) \<Longrightarrow> c \<notin> set w"
proof (induction xs arbitrary: w)
  case (Cons x xs)
  then show ?case
    by (cases "split_on c xs") (auto split: if_splits)
qed simp

text \<open>The inverse of splitting.\<close>

fun join_on :: "'a \<Rightarrow> 'a list list \<Rightarrow> 'a list" where
  "join_on c [] = []"
| "join_on c [w] = w"
| "join_on c (w # ws) = w @ c # join_on c ws"

lemma join_on_Cons: "ws \<noteq> [] \<Longrightarrow> join_on c (w # ws) = w @ c # join_on c ws"
  by (cases ws) auto

lemma join_split_on: "join_on c (split_on c xs) = xs"
proof (induction xs)
  case (Cons x xs)
  obtain w ws where "split_on c xs = w # ws"
    by (cases "split_on c xs") auto
  with Cons show ?case
    by (cases ws) auto
qed simp

subsection \<open>Little-endian encodings\<close>

text \<open>
  \<open>to_le_bytes\<close> and \<open>from_le_bytes\<close> at every width: byte \<open>i\<close> holds the bits
  \<open>8 * i .. 8 * i + 7\<close>.
\<close>

definition to_le_bytes :: "'w::len word \<Rightarrow> bytes" where
  "to_le_bytes w = map (\<lambda>i. ucast (drop_bit (8 * i) w)) [0..<LENGTH('w) div 8]"

fun from_le_bytes :: "bytes \<Rightarrow> 'w::len word" where
  "from_le_bytes [] = 0"
| "from_le_bytes (b # bs) = ucast b OR push_bit 8 (from_le_bytes bs)"

lemma length_to_le_bytes [simp]: "length (to_le_bytes (w :: 'w::len word)) = LENGTH('w) div 8"
  by (simp add: to_le_bytes_def)

lemma bit_from_le_bytes:
  "bit (from_le_bytes bs :: 'w::len word) i \<longleftrightarrow>
     i < LENGTH('w) \<and> i div 8 < length bs \<and> bit (bs ! (i div 8)) (i mod 8)"
proof (induction bs arbitrary: i)
  case Nil
  then show ?case by simp
next
  case (Cons b bs)
  show ?case
  proof (cases "i < 8")
    case True
    then show ?thesis
      by (auto simp: bit_or_iff bit_push_bit_iff bit_ucast_iff)
  next
    case False
    then have "i div 8 = Suc ((i - 8) div 8)" "i mod 8 = (i - 8) mod 8"
      by (simp_all add: div_if mod_if)
    then show ?thesis
      using False Cons.IH [of "i - 8"]
      by (auto simp: bit_or_iff bit_push_bit_iff bit_ucast_iff dest: bit_imp_le_length)
  qed
qed

lemma from_to_le_bytes:
  assumes "8 dvd LENGTH('w)"
  shows "from_le_bytes (to_le_bytes (w :: 'w::len word)) = w"
proof (rule bit_word_eqI)
  fix n
  assume n: "n < LENGTH('w)"
  then have "n div 8 < LENGTH('w) div 8"
    using assms by (metis dvd_mult_div_cancel div_less_iff_less_mult mult.commute zero_less_numeral)
  with n show "bit (from_le_bytes (to_le_bytes w) :: 'w word) n = bit w n"
    by (simp add: bit_from_le_bytes to_le_bytes_def bit_ucast_iff bit_drop_bit_eq)
qed

lemma to_from_le_bytes:
  assumes "length bs = LENGTH('w) div 8" "8 dvd LENGTH('w)"
  shows "to_le_bytes (from_le_bytes bs :: 'w::len word) = bs"
proof (rule nth_equalityI)
  show "length (to_le_bytes (from_le_bytes bs :: 'w word)) = length bs"
    using assms by simp
next
  fix i
  assume "i < length (to_le_bytes (from_le_bytes bs :: 'w word))"
  then have i: "i < LENGTH('w) div 8" by simp
  show "to_le_bytes (from_le_bytes bs :: 'w word) ! i = bs ! i"
  proof (rule bit_word_eqI)
    fix n
    assume n: "n < LENGTH(8)"
    then have n8: "n < 8" by simp
    then have "(8 * i + n) div 8 = i" "(8 * i + n) mod 8 = n"
      by simp_all
    moreover have "8 * i + n < LENGTH('w)"
      using i n8 by linarith
    ultimately show "bit (to_le_bytes (from_le_bytes bs :: 'w word) ! i) n = bit (bs ! i) n"
      using i n8 assms(1)
      by (simp add: to_le_bytes_def bit_ucast_iff bit_drop_bit_eq bit_from_le_bytes)
  qed
qed

end
