(* ===== verification/Boot_Info.thy ===== *)
theory Boot_Info
  imports Kernel_Prelude
begin

text \<open>
  The boot handoff of \<^verbatim>\<open>libs/indo-core/src/lib.rs\<close>: the memory map the bootloader fills in
  and the validation of the handoff structure at kernel entry. A \<open>PhysAddr\<close> or \<open>VirtAddr\<close>
  is the \<open>u64\<close> it wraps.
\<close>

type_synonym phys_addr = u64
type_synonym virt_addr = u64

datatype memory_region_kind =
  Usable | Reserved | AcpiReclaimable | AcpiNvs | Mmio | BootloaderCode | KernelCode | Unknown

record memory_region =
  mr_start :: phys_addr
  mr_length :: u64
  mr_kind :: memory_region_kind

definition region_end :: "memory_region \<Rightarrow> phys_addr" where
  "region_end r = mr_start r + mr_length r"

definition region_contains :: "memory_region \<Rightarrow> phys_addr \<Rightarrow> bool" where
  "region_contains r addr \<longleftrightarrow> mr_start r \<le> addr \<and> addr < region_end r"

definition MAX_MEMORY_REGIONS :: nat where
  "MAX_MEMORY_REGIONS = 256"

text \<open>\<open>regions\<close> is the fixed array of 256 entries; only the first \<open>count\<close> are valid.\<close>

record memory_map =
  mm_regions :: "memory_region list"
  mm_count :: nat

definition map_entries :: "memory_map \<Rightarrow> memory_region list or_panic" where
  "map_entries m = (if mm_count m \<le> length (mm_regions m) then Inr (take (mm_count m) (mm_regions m))
     else Inl Slice_out_of_range)"

definition usable_regions :: "memory_map \<Rightarrow> memory_region list or_panic" where
  "usable_regions m = rbind (map_entries m) (\<lambda>es. Inr (filter (\<lambda>r. mr_kind r = Usable) es))"

definition total_usable_bytes :: "memory_map \<Rightarrow> u64 or_panic" where
  "total_usable_bytes m = rbind (usable_regions m) (\<lambda>rs. Inr (sum_list (map mr_length rs)))"

definition BOOT_INFO_MAGIC :: u64 where
  "BOOT_INFO_MAGIC = 0x4F444E4900000001"

definition BOOT_PROTOCOL_VERSION :: u32 where
  "BOOT_PROTOCOL_VERSION = 1"

text \<open>The fields of \<open>BootInfo\<close> other than the framebuffer description, which the kernel's core does not read.\<close>

record boot_info =
  bi_magic :: u64
  bi_protocol_version :: u32
  bi_memory_map :: memory_map
  bi_rsdp_addr :: phys_addr
  bi_kernel_phys_start :: phys_addr
  bi_kernel_phys_end :: phys_addr
  bi_kernel_virt_base :: virt_addr
  bi_rela_dyn_vaddr :: u64
  bi_rela_dyn_size :: u64

datatype boot_info_error =
    BadMagic u64 u64
  | VersionMismatch u32 u32
  | EmptyMemoryMap

definition boot_info_validate :: "boot_info \<Rightarrow> boot_info_error + unit" where
  "boot_info_validate b =
     (if bi_magic b \<noteq> BOOT_INFO_MAGIC then Inl (BadMagic BOOT_INFO_MAGIC (bi_magic b))
      else if bi_protocol_version b \<noteq> BOOT_PROTOCOL_VERSION
        then Inl (VersionMismatch BOOT_PROTOCOL_VERSION (bi_protocol_version b))
      else if mm_count (bi_memory_map b) = 0 then Inl EmptyMemoryMap
      else Inr ())"

lemma map_entries_Inr [res_simps]:
  "map_entries m = Inr es \<longleftrightarrow> mm_count m \<le> length (mm_regions m) \<and> es = take (mm_count m) (mm_regions m)"
  by (auto simp: map_entries_def)

lemma usable_regions_Inr [res_simps]:
  "usable_regions m = Inr rs \<longleftrightarrow> mm_count m \<le> length (mm_regions m) \<and>
     rs = filter (\<lambda>r. mr_kind r = Usable) (take (mm_count m) (mm_regions m))"
  by (auto simp: usable_regions_def res_simps)

end
