(* ===== verification/Pmm.thy ===== *)
theory Pmm
  imports Boot_Info
begin

text \<open>
  The physical memory manager (\<^verbatim>\<open>indo-kernel/src/memory/pmm.rs\<close>): a bitmap with one bit per
  4 KiB frame, a reference count per frame, and the counters \<open>TOTAL_FRAMES\<close> and
  \<open>FREE_FRAMES\<close>. The two static arrays are functions on indices whose operations panic at an
  index beyond the array's length, as Rust's bounds check does.
\<close>

definition PAGE_SIZE :: u64 where
  "PAGE_SIZE = 4096"

definition MAX_FRAMES :: nat where
  "MAX_FRAMES = 4194304"

definition BITMAP_SIZE :: nat where
  "BITMAP_SIZE = 524288"

record pmm =
  bitmap :: "nat \<Rightarrow> u8"
  refcounts :: "nat \<Rightarrow> u8"
  total_frames :: nat
  free_frames :: u64

subsection \<open>Bitmap operations\<close>

definition bitmap_set :: "nat \<Rightarrow> pmm \<Rightarrow> pmm or_panic" where
  "bitmap_set index s =
     (let byte_index = index div 8; bit_offset = index mod 8 in
      if byte_index < BITMAP_SIZE
      then Inr (s\<lparr>bitmap := (bitmap s)(byte_index := bitmap s byte_index OR push_bit bit_offset 1)\<rparr>)
      else Inl Index_out_of_range)"

definition bitmap_clear :: "nat \<Rightarrow> pmm \<Rightarrow> pmm or_panic" where
  "bitmap_clear index s =
     (let byte_index = index div 8; bit_offset = index mod 8 in
      if byte_index < BITMAP_SIZE
      then Inr (s\<lparr>bitmap := (bitmap s)(byte_index := bitmap s byte_index AND NOT (push_bit bit_offset 1))\<rparr>)
      else Inl Index_out_of_range)"

definition bitmap_test :: "nat \<Rightarrow> pmm \<Rightarrow> bool or_panic" where
  "bitmap_test index s =
     (let byte_index = index div 8; bit_offset = index mod 8 in
      if byte_index < BITMAP_SIZE
      then Inr (bitmap s byte_index AND push_bit bit_offset 1 \<noteq> 0)
      else Inl Index_out_of_range)"

definition refcount_get :: "nat \<Rightarrow> pmm \<Rightarrow> u8 or_panic" where
  "refcount_get index s = (if index < MAX_FRAMES then Inr (refcounts s index) else Inl Index_out_of_range)"

definition refcount_set :: "nat \<Rightarrow> u8 \<Rightarrow> pmm \<Rightarrow> pmm or_panic" where
  "refcount_set index c s = (if index < MAX_FRAMES then Inr (s\<lparr>refcounts := (refcounts s)(index := c)\<rparr>)
     else Inl Index_out_of_range)"

subsection \<open>Initialisation\<close>

text \<open>The two loops over the memory map, then the reservation of frame 0.\<close>

definition max_region_end :: "memory_region list \<Rightarrow> u64" where
  "max_region_end es = fold (\<lambda>r max_addr. let end_addr = mr_start r + mr_length r in
     if end_addr > max_addr then end_addr else max_addr) es 0"

definition region_start_frame :: "memory_region \<Rightarrow> nat" where
  "region_start_frame r = unat (mr_start r div PAGE_SIZE)"

definition region_end_frame :: "memory_region \<Rightarrow> nat" where
  "region_end_frame r = unat ((mr_start r + mr_length r + PAGE_SIZE - 1) div PAGE_SIZE)"

fun clear_frames :: "nat list \<Rightarrow> pmm \<Rightarrow> pmm or_panic" where
  "clear_frames [] s = Inr s"
| "clear_frames (frame # fs) s =
     rbind (bitmap_clear frame s) (\<lambda>s. clear_frames fs (s\<lparr>free_frames := free_frames s + 1\<rparr>))"

fun free_regions :: "memory_region list \<Rightarrow> pmm \<Rightarrow> pmm or_panic" where
  "free_regions [] s = Inr s"
| "free_regions (r # rs) s =
     rbind (clear_frames [region_start_frame r ..< min (region_end_frame r) (total_frames s)] s)
       (free_regions rs)"

definition reserve_frame_0 :: "pmm \<Rightarrow> pmm or_panic" where
  "reserve_frame_0 s =
     rbind (bitmap_test 0 s) (\<lambda>used.
       if \<not> used then rbind (bitmap_set 0 s) (\<lambda>s. Inr (s\<lparr>free_frames := free_frames s - 1\<rparr>))
       else Inr s)"

definition pmm_init :: "memory_map \<Rightarrow> pmm \<Rightarrow> pmm or_panic" where
  "pmm_init mm s =
     rbind (map_entries mm) (\<lambda>es.
     let total = unat ((max_region_end es + PAGE_SIZE - 1) div PAGE_SIZE);
         total = (if total > MAX_FRAMES then MAX_FRAMES else total);
         s = s\<lparr>total_frames := total, bitmap := (\<lambda>_. 0xFF), free_frames := 0\<rparr>
     in rbind (usable_regions mm) (\<lambda>rs.
        rbind (free_regions rs s) reserve_frame_0))"

subsection \<open>Allocation, release and reference counts\<close>

definition frame_index :: "phys_addr \<Rightarrow> nat" where
  "frame_index frame = unat (frame div PAGE_SIZE)"

fun alloc_scan :: "nat list \<Rightarrow> pmm \<Rightarrow> (phys_addr option \<times> pmm) or_panic" where
  "alloc_scan [] s = Inr (None, s)"
| "alloc_scan (index # rest) s =
     rbind (bitmap_test index s) (\<lambda>used.
       if \<not> used then
         rbind (bitmap_set index s) (\<lambda>s.
         rbind (refcount_set index 1 s) (\<lambda>s.
         Inr (Some (of_nat index * PAGE_SIZE), s\<lparr>free_frames := free_frames s - 1\<rparr>)))
       else alloc_scan rest s)"

definition alloc_frame :: "pmm \<Rightarrow> (phys_addr option \<times> pmm) or_panic" where
  "alloc_frame s = alloc_scan [1..<total_frames s] s"

definition free_frame :: "phys_addr \<Rightarrow> pmm \<Rightarrow> pmm or_panic" where
  "free_frame frame s =
     (let index = frame_index frame in
      rbind (assert_that (index \<noteq> 0) ''cannot free frame 0 (BIOS/IVT)'') (\<lambda>_.
      rbind (assert_that (index < total_frames s) ''frame address out of range'') (\<lambda>_.
      rbind (assert_that (frame mod PAGE_SIZE = 0) ''frame not page-aligned'') (\<lambda>_.
      rbind (bitmap_test index s) (\<lambda>used.
        if \<not> used then Inl (Panic ''double-free detected'')
        else rbind (refcount_get index s) (\<lambda>rc.
          if rc \<noteq> 1 then Inl (Panic ''free_frame: refcount != 1'')
          else rbind (bitmap_clear index s) (\<lambda>s.
            rbind (refcount_set index 0 s) (\<lambda>s.
            Inr (s\<lparr>free_frames := free_frames s + 1\<rparr>)))))))))"

definition incref :: "phys_addr \<Rightarrow> pmm \<Rightarrow> pmm or_panic" where
  "incref frame s =
     (let index = frame_index frame in
      rbind (assert_that (index < total_frames s) ''frame address out of range'') (\<lambda>_.
      rbind (bitmap_test index s) (\<lambda>used.
      rbind (assert_that used ''incref on unallocated frame'') (\<lambda>_.
      rbind (refcount_get index s) (\<lambda>old.
        if old < 255 then refcount_set index (saturating_add old 1) s else Inr s)))))"

definition decref :: "phys_addr \<Rightarrow> pmm \<Rightarrow> pmm or_panic" where
  "decref frame s =
     (let index = frame_index frame in
      rbind (assert_that (index < total_frames s) ''frame address out of range'') (\<lambda>_.
      rbind (bitmap_test index s) (\<lambda>used.
        if \<not> used then Inl (Panic ''decref on unallocated frame'')
        else rbind (refcount_get index s) (\<lambda>rc.
          rbind (assert_that (rc > 0) ''decref: refcount already 0'') (\<lambda>_.
          rbind (refcount_set index (rc - 1) s) (\<lambda>s.
            if rc - 1 = 0
            then rbind (bitmap_clear index s) (\<lambda>s. Inr (s\<lparr>free_frames := free_frames s + 1\<rparr>))
            else Inr s))))))"

definition get_refcount :: "phys_addr \<Rightarrow> pmm \<Rightarrow> u8 or_panic" where
  "get_refcount frame s =
     (let index = frame_index frame in
      rbind (assert_that (index < total_frames s) ''frame address out of range'') (\<lambda>_.
      refcount_get index s))"

fun mark_frames :: "nat list \<Rightarrow> pmm \<Rightarrow> pmm or_panic" where
  "mark_frames [] s = Inr s"
| "mark_frames (frame # fs) s =
     (if frame < total_frames s then
        rbind (bitmap_test frame s) (\<lambda>used.
          if \<not> used
          then rbind (bitmap_set frame s) (\<lambda>s. mark_frames fs (s\<lparr>free_frames := free_frames s - 1\<rparr>))
          else mark_frames fs s)
      else mark_frames fs s)"

definition mark_region_used :: "u64 \<Rightarrow> u64 \<Rightarrow> pmm \<Rightarrow> pmm or_panic" where
  "mark_region_used phys_start phys_end s =
     (let start_frame = unat (phys_start div PAGE_SIZE);
          end_frame = unat ((phys_end + PAGE_SIZE - 1) div PAGE_SIZE)
      in mark_frames [start_frame..<end_frame] s)"

subsection \<open>Abstract view of the bitmap\<close>

text \<open>
  \<open>frame_used s i\<close> reads bit \<open>i\<close>; within the tracked range the bitmap operations never panic
  and act on exactly that bit.
\<close>

named_theorems pmm_simps \<open>evaluation of the bitmap and counter operations in range\<close>

definition frame_used :: "pmm \<Rightarrow> nat \<Rightarrow> bool" where
  "frame_used s i \<longleftrightarrow> bit (bitmap s (i div 8)) (i mod 8)"

definition mark_used :: "nat \<Rightarrow> pmm \<Rightarrow> pmm" where
  "mark_used i s = s\<lparr>bitmap := (bitmap s)(i div 8 := bitmap s (i div 8) OR push_bit (i mod 8) 1)\<rparr>"

definition mark_free :: "nat \<Rightarrow> pmm \<Rightarrow> pmm" where
  "mark_free i s = s\<lparr>bitmap := (bitmap s)(i div 8 := bitmap s (i div 8) AND NOT (push_bit (i mod 8) 1))\<rparr>"

definition free_set :: "pmm \<Rightarrow> nat set" where
  "free_set s = {i. i < total_frames s \<and> \<not> frame_used s i}"

lemma and_push_bit_1_neq_0: "(w AND 2 ^ k \<noteq> 0) \<longleftrightarrow> bit (w :: 'w::len word) k"
  using bit_iff_and_push_bit_not_eq_0 [of w k] by simp

lemma bitmap_ops_in_range [pmm_simps]:
  assumes "i < MAX_FRAMES"
  shows "bitmap_test i s = Inr (frame_used s i)"
    and "bitmap_set i s = Inr (mark_used i s)"
    and "bitmap_clear i s = Inr (mark_free i s)"
    and "refcount_get i s = Inr (refcounts s i)"
    and "refcount_set i c s = Inr (s\<lparr>refcounts := (refcounts s)(i := c)\<rparr>)"
proof -
  from assms have "i div 8 < BITMAP_SIZE"
    by (simp add: MAX_FRAMES_def BITMAP_SIZE_def)
  with assms show "bitmap_test i s = Inr (frame_used s i)"
    and "bitmap_set i s = Inr (mark_used i s)"
    and "bitmap_clear i s = Inr (mark_free i s)"
    and "refcount_get i s = Inr (refcounts s i)"
    and "refcount_set i c s = Inr (s\<lparr>refcounts := (refcounts s)(i := c)\<rparr>)"
    by (simp_all add: bitmap_test_def bitmap_set_def bitmap_clear_def refcount_get_def
        refcount_set_def frame_used_def mark_used_def mark_free_def and_push_bit_1_neq_0 Let_def)
qed

lemma div_mod_8_eq: "i div 8 = j div 8 \<Longrightarrow> i mod 8 = j mod 8 \<Longrightarrow> i = (j::nat)"
  by (metis div_mult_mod_eq)

lemma frame_used_mark_used [simp]: "frame_used (mark_used i s) j \<longleftrightarrow> j = i \<or> frame_used s j"
proof -
  have "j mod 8 < 8" by simp
  then show ?thesis
    using div_mod_8_eq [of j i] by (auto simp: frame_used_def mark_used_def bit_or_iff bit_exp_iff possible_bit_word)
qed

lemma frame_used_mark_free [simp]: "frame_used (mark_free i s) j \<longleftrightarrow> j \<noteq> i \<and> frame_used s j"
proof -
  have "j mod 8 < 8" by simp
  then show ?thesis
    using div_mod_8_eq [of j i] by (auto simp: frame_used_def mark_free_def bit_and_iff bit_not_iff bit_exp_iff possible_bit_word)
qed

lemma mark_fields [simp]:
  "refcounts (mark_used i s) = refcounts s" "refcounts (mark_free i s) = refcounts s"
  "total_frames (mark_used i s) = total_frames s" "total_frames (mark_free i s) = total_frames s"
  "free_frames (mark_used i s) = free_frames s" "free_frames (mark_free i s) = free_frames s"
  by (simp_all add: mark_used_def mark_free_def)

lemma frame_used_updates [simp]:
  "frame_used (s\<lparr>refcounts := r\<rparr>) = frame_used s"
  "frame_used (s\<lparr>free_frames := n\<rparr>) = frame_used s"
  "frame_used (s\<lparr>total_frames := t\<rparr>) = frame_used s"
  by (simp_all add: frame_used_def fun_eq_iff)

lemma finite_free_set [simp]: "finite (free_set s)"
  by (simp add: free_set_def)

lemma free_set_updates [simp]:
  "free_set (s\<lparr>refcounts := r\<rparr>) = free_set s" "free_set (s\<lparr>free_frames := n\<rparr>) = free_set s"
  by (simp_all add: free_set_def)

lemma free_set_mark_used [simp]: "free_set (mark_used i s) = free_set s - {i}"
  by (auto simp: free_set_def)

lemma free_set_mark_free [simp]:
  "i < total_frames s \<Longrightarrow> free_set (mark_free i s) = insert i (free_set s)"
  by (auto simp: free_set_def)

lemma card_free_set_le: "card (free_set s) \<le> total_frames s"
proof -
  have "free_set s \<subseteq> {..<total_frames s}"
    by (auto simp: free_set_def)
  from card_mono [OF _ this] show ?thesis by simp
qed

subsection \<open>Addresses of frames\<close>

lemma frame_index_of_nat [simp]:
  assumes "i < MAX_FRAMES"
  shows "frame_index (of_nat i * PAGE_SIZE) = i"
    and "of_nat i * PAGE_SIZE mod PAGE_SIZE = (0 :: u64)"
proof -
  have i: "unat (of_nat i :: u64) = i"
    using assms by (simp add: unat_of_nat MAX_FRAMES_def)
  then have p: "unat (of_nat i * PAGE_SIZE) = i * 4096"
    using assms by (simp add: unat_word_ariths PAGE_SIZE_def MAX_FRAMES_def)
  then show "frame_index (of_nat i * PAGE_SIZE) = i"
    by (simp add: frame_index_def unat_div PAGE_SIZE_def)
  have "unat (of_nat i * PAGE_SIZE mod PAGE_SIZE :: u64) = 0"
    using p by (simp add: unat_mod PAGE_SIZE_def)
  then show "of_nat i * PAGE_SIZE mod PAGE_SIZE = (0 :: u64)"
    by (simp add: unat_eq_0)
qed

lemma aligned_frame_address:
  assumes "frame mod PAGE_SIZE = 0"
  shows "of_nat (frame_index frame) * PAGE_SIZE = frame"
  using assms div_mult_mod_eq [of frame PAGE_SIZE] by (simp add: frame_index_def)

subsection \<open>The allocator's invariant\<close>

text \<open>
  The counter of free frames is the number of clear bits, only used frames have holders, and
  frame 0 (when it is tracked at all) is used and has no holder.
\<close>

definition pmm_inv :: "pmm \<Rightarrow> bool" where
  "pmm_inv s \<longleftrightarrow> total_frames s \<le> MAX_FRAMES \<and>
     unat (free_frames s) = card (free_set s) \<and>
     0 \<notin> free_set s \<and> refcounts s 0 = 0 \<and>
     (\<forall>i < total_frames s. 0 < refcounts s i \<longrightarrow> frame_used s i)"

definition reserved_frame :: "pmm \<Rightarrow> nat \<Rightarrow> bool" where
  "reserved_frame s i \<longleftrightarrow> i < total_frames s \<and> frame_used s i \<and> refcounts s i = 0"

definition alloc_at :: "nat \<Rightarrow> pmm \<Rightarrow> pmm" where
  "alloc_at i s = (mark_used i s)\<lparr>refcounts := (refcounts s)(i := 1), free_frames := free_frames s - 1\<rparr>"

definition release_at :: "nat \<Rightarrow> pmm \<Rightarrow> pmm" where
  "release_at i s = (mark_free i s)\<lparr>refcounts := (refcounts s)(i := 0), free_frames := free_frames s + 1\<rparr>"

lemma alloc_at_fields [simp]:
  "total_frames (alloc_at i s) = total_frames s" "refcounts (alloc_at i s) = (refcounts s)(i := 1)"
  "frame_used (alloc_at i s) j \<longleftrightarrow> j = i \<or> frame_used s j" "free_set (alloc_at i s) = free_set s - {i}"
  "free_frames (alloc_at i s) = free_frames s - 1"
  by (simp_all add: alloc_at_def)

lemma release_at_fields [simp]:
  "total_frames (release_at i s) = total_frames s" "refcounts (release_at i s) = (refcounts s)(i := 0)"
  "frame_used (release_at i s) j \<longleftrightarrow> j \<noteq> i \<and> frame_used s j"
  "i < total_frames s \<Longrightarrow> free_set (release_at i s) = insert i (free_set s)"
  "free_frames (release_at i s) = free_frames s + 1"
  by (simp_all add: release_at_def)

lemma unat_free_frames_dec:
  "unat (free_frames s) = card (free_set s) \<Longrightarrow> i \<in> free_set s \<Longrightarrow>
   unat (free_frames s - 1) = card (free_set s - {i})"
  by (subst unat_minus1) (auto simp: card_Diff_singleton card_gt_0_iff)

lemma unat_free_frames_inc:
  assumes "unat (free_frames s) = card (free_set s)" "i \<notin> free_set s" "total_frames s \<le> MAX_FRAMES"
  shows "unat (free_frames s + 1) = card (insert i (free_set s))"
proof -
  have "unat (free_frames s) \<le> MAX_FRAMES"
    using assms(1,3) card_free_set_le [of s] by simp
  then have "unat (free_frames s + 1) = unat (free_frames s) + 1"
    by (intro unat_plus1) (simp add: MAX_FRAMES_def)
  with assms(1,2) show ?thesis by simp
qed

lemma pmm_inv_alloc_at: "pmm_inv s \<Longrightarrow> i \<in> free_set s \<Longrightarrow> pmm_inv (alloc_at i s)"
  by (cases "i = 0") (auto simp: pmm_inv_def unat_free_frames_dec)

lemma pmm_inv_release_at:
  assumes "pmm_inv s" "i \<noteq> 0" "i < total_frames s" "frame_used s i"
  shows "pmm_inv (release_at i s)"
proof -
  have "i \<notin> free_set s"
    using assms by (simp add: free_set_def)
  with assms show ?thesis
    by (auto simp: pmm_inv_def unat_free_frames_inc)
qed

subsection \<open>Every operation in terms of the abstract view\<close>

lemma alloc_scan_eq:
  assumes "\<forall>i \<in> set is. i < MAX_FRAMES"
  shows "alloc_scan is s = (case List.find (\<lambda>i. \<not> frame_used s i) is of
      None \<Rightarrow> Inr (None, s) | Some i \<Rightarrow> Inr (Some (of_nat i * PAGE_SIZE), alloc_at i s))"
  using assms
proof (induction "is")
  case Nil
  then show ?case by simp
next
  case (Cons i rest)
  then have "i < MAX_FRAMES" by simp
  with Cons show ?case
    by (simp add: pmm_simps alloc_at_def)
qed

lemma alloc_frame_eq:
  assumes "total_frames s \<le> MAX_FRAMES"
  shows "alloc_frame s = (case List.find (\<lambda>i. \<not> frame_used s i) [1..<total_frames s] of
      None \<Rightarrow> Inr (None, s) | Some i \<Rightarrow> Inr (Some (of_nat i * PAGE_SIZE), alloc_at i s))"
  using assms unfolding alloc_frame_def by (intro alloc_scan_eq) auto

lemma alloc_frame_Some:
  assumes "total_frames s \<le> MAX_FRAMES" "alloc_frame s = Inr (Some a, s')"
  obtains i where "i \<in> free_set s" "0 < i" "\<forall>j. 0 < j \<and> j < i \<longrightarrow> frame_used s j"
    "a = of_nat i * PAGE_SIZE" "s' = alloc_at i s"
proof -
  from assms obtain i where i: "List.find (\<lambda>i. \<not> frame_used s i) [1..<total_frames s] = Some i"
      "a = of_nat i * PAGE_SIZE" "s' = alloc_at i s"
    by (auto simp: alloc_frame_eq split: option.splits)
  then show ?thesis
    by (intro that [of i]) (auto simp: find_upt_Some_iff free_set_def)
qed

lemma alloc_frame_None:
  assumes "pmm_inv s"
  shows "alloc_frame s = Inr (None, s) \<longleftrightarrow> free_set s = {}"
proof -
  have "List.find (\<lambda>i. \<not> frame_used s i) [1..<total_frames s] = None \<longleftrightarrow> free_set s = {}"
    using assms by (auto simp: find_upt_None_iff free_set_def pmm_inv_def Suc_le_eq)
      (metis gr0I)
  then show ?thesis
    using assms by (auto simp: alloc_frame_eq pmm_inv_def split: option.splits)
qed

lemma free_frame_Inr:
  assumes "total_frames s \<le> MAX_FRAMES"
  shows "free_frame frame s = Inr s' \<longleftrightarrow> frame_index frame \<noteq> 0 \<and> frame_index frame < total_frames s \<and>
     frame mod PAGE_SIZE = 0 \<and> frame_used s (frame_index frame) \<and>
     refcounts s (frame_index frame) = 1 \<and> s' = release_at (frame_index frame) s"
proof (cases "frame_index frame < total_frames s")
  case True
  with assms have "frame_index frame < MAX_FRAMES" by simp
  with True show ?thesis
    by (cases "frame_used s (frame_index frame)"; cases "refcounts s (frame_index frame) = 1")
      (simp_all add: free_frame_def Let_def res_simps pmm_simps release_at_def eq_commute [of s'])
next
  case False
  then show ?thesis
    by (simp add: free_frame_def Let_def res_simps)
qed

lemma incref_Inr:
  assumes "total_frames s \<le> MAX_FRAMES"
  shows "incref frame s = Inr s' \<longleftrightarrow> frame_index frame < total_frames s \<and>
     frame_used s (frame_index frame) \<and>
     s' = s\<lparr>refcounts := (refcounts s)(frame_index frame := saturating_add (refcounts s (frame_index frame)) 1)\<rparr>"
proof (cases "frame_index frame < total_frames s")
  case True
  have sat: "\<not> c < 255 \<Longrightarrow> saturating_add c 1 = c" for c :: u8
  proof -
    assume "\<not> c < 255"
    then have "unat c = 255"
      using unsigned_less [of c, where ?'a = nat] by (simp add: word_less_nat_alt)
    then have "unat (saturating_add c 1) = unat c"
      by (simp add: unat_saturating_add)
    then show ?thesis by (rule unsigned_word_eqI)
  qed
  from True assms have "frame_index frame < MAX_FRAMES" by simp
  with True show ?thesis
    by (auto simp: incref_def Let_def res_simps pmm_simps sat)
next
  case False
  then show ?thesis
    by (simp add: incref_def Let_def res_simps)
qed

lemma decref_Inr:
  assumes "total_frames s \<le> MAX_FRAMES"
  shows "decref frame s = Inr s' \<longleftrightarrow> frame_index frame < total_frames s \<and>
     frame_used s (frame_index frame) \<and> 0 < refcounts s (frame_index frame) \<and>
     s' = (if refcounts s (frame_index frame) = 1 then release_at (frame_index frame) s
           else s\<lparr>refcounts := (refcounts s)(frame_index frame := refcounts s (frame_index frame) - 1)\<rparr>)"
proof (cases "frame_index frame < total_frames s")
  case True
  with assms have "frame_index frame < MAX_FRAMES" by simp
  with True show ?thesis
    by (auto simp: decref_def Let_def res_simps pmm_simps release_at_def mark_free_def split: if_splits)
next
  case False
  then show ?thesis
    by (simp add: decref_def Let_def res_simps)
qed

lemma mark_frames_ok:
  assumes "total_frames s \<le> MAX_FRAMES" "unat (free_frames s) = card (free_set s)"
  shows "\<exists>s'. mark_frames is s = Inr s' \<and> total_frames s' = total_frames s \<and> refcounts s' = refcounts s \<and>
     free_set s' = free_set s - set is \<and>
     (\<forall>i. frame_used s' i \<longleftrightarrow> frame_used s i \<or> i < total_frames s \<and> i \<in> set is) \<and>
     unat (free_frames s') = card (free_set s')"
  using assms
proof (induction "is" arbitrary: s)
  case Nil
  then show ?case by simp
next
  case (Cons i rest)
  show ?case
  proof (cases "i \<in> free_set s")
    case True
    let ?s = "(mark_used i s)\<lparr>free_frames := free_frames s - 1\<rparr>"
    have "unat (free_frames ?s) = card (free_set ?s)"
      using Cons.prems True by (simp add: unat_free_frames_dec)
    then obtain s' where s': "mark_frames rest ?s = Inr s'" "total_frames s' = total_frames s"
      "refcounts s' = refcounts s" "free_set s' = free_set s - {i} - set rest"
      "\<forall>j. frame_used s' j \<longleftrightarrow> (j = i \<or> frame_used s j) \<or> j < total_frames s \<and> j \<in> set rest"
      "unat (free_frames s') = card (free_set s')"
      using Cons.IH [of ?s] Cons.prems by auto
    have "mark_frames (i # rest) s = Inr s'"
      using True Cons.prems s'(1) by (simp add: free_set_def pmm_simps)
    with s' True show ?thesis by (auto simp: free_set_def)
  next
    case False
    then have "mark_frames (i # rest) s = mark_frames rest s"
      using Cons.prems by (auto simp: free_set_def pmm_simps)
    with False show ?thesis
      using Cons.IH [OF Cons.prems] by (auto simp: free_set_def)
  qed
qed

subsection \<open>Invariant preservation\<close>

lemma pmm_inv_held_frame: "pmm_inv s \<Longrightarrow> 0 < refcounts s i \<Longrightarrow> i \<noteq> 0"
  by (cases "i = 0") (simp_all add: pmm_inv_def)

lemma pmm_inv_alloc_frame: "pmm_inv s \<Longrightarrow> alloc_frame s = Inr (r, s') \<Longrightarrow> pmm_inv s'"
proof (cases r)
  case None
  assume "pmm_inv s" "alloc_frame s = Inr (r, s')"
  with None show ?thesis
    by (auto simp: alloc_frame_eq pmm_inv_def split: option.splits)
next
  case (Some a)
  assume inv: "pmm_inv s" and eq: "alloc_frame s = Inr (r, s')"
  from inv have "total_frames s \<le> MAX_FRAMES" by (simp add: pmm_inv_def)
  then obtain i where "i \<in> free_set s" "s' = alloc_at i s"
    using alloc_frame_Some eq Some by metis
  with inv show ?thesis by (simp add: pmm_inv_alloc_at)
qed

lemma pmm_inv_free_frame: "pmm_inv s \<Longrightarrow> free_frame f s = Inr s' \<Longrightarrow> pmm_inv s'"
  by (simp add: free_frame_Inr pmm_inv_def [THEN iffD1] pmm_inv_release_at)

lemma pmm_inv_incref:
  assumes "pmm_inv s" "0 < refcounts s (frame_index f)" "incref f s = Inr s'"
  shows "pmm_inv s'"
proof -
  have "total_frames s \<le> MAX_FRAMES" "frame_index f \<noteq> 0"
    using assms(1,2) pmm_inv_held_frame by (auto simp: pmm_inv_def)
  then show ?thesis
    using assms by (auto simp: incref_Inr pmm_inv_def)
qed

lemma pmm_inv_decref:
  assumes "pmm_inv s" "decref f s = Inr s'"
  shows "pmm_inv s'"
proof -
  have t: "total_frames s \<le> MAX_FRAMES"
    using assms(1) by (simp add: pmm_inv_def)
  have nz: "frame_index f \<noteq> 0"
    using assms t pmm_inv_held_frame by (auto simp: decref_Inr)
  show ?thesis
  proof (cases "refcounts s (frame_index f) = 1")
    case True
    then show ?thesis
      using assms nz t by (simp add: decref_Inr pmm_inv_release_at)
  next
    case False
    then show ?thesis
      using assms nz t by (auto simp: decref_Inr pmm_inv_def)
  qed
qed

lemma pmm_inv_mark_frames:
  assumes "pmm_inv s" "mark_frames is s = Inr s'"
  shows "pmm_inv s'"
proof -
  have "total_frames s \<le> MAX_FRAMES" "unat (free_frames s) = card (free_set s)"
    using assms(1) by (simp_all add: pmm_inv_def)
  from mark_frames_ok [OF this, of "is"] show ?thesis
    using assms by (auto simp: pmm_inv_def)
qed

lemma pmm_inv_mark_region_used: "pmm_inv s \<Longrightarrow> mark_region_used a b s = Inr s' \<Longrightarrow> pmm_inv s'"
  by (simp add: mark_region_used_def Let_def pmm_inv_mark_frames)

text \<open>
  The clients of the allocator: any sequence of its operations, with the one obligation the code
  documents for \<open>incref\<close> (the frame has a holder).
\<close>

inductive pmm_step :: "pmm \<Rightarrow> pmm \<Rightarrow> bool" where
  step_alloc: "alloc_frame s = Inr (r, s') \<Longrightarrow> pmm_step s s'"
| step_free: "free_frame f s = Inr s' \<Longrightarrow> pmm_step s s'"
| step_incref: "0 < refcounts s (frame_index f) \<Longrightarrow> incref f s = Inr s' \<Longrightarrow> pmm_step s s'"
| step_decref: "decref f s = Inr s' \<Longrightarrow> pmm_step s s'"
| step_mark: "mark_region_used a b s = Inr s' \<Longrightarrow> pmm_step s s'"

lemmas pmm_inv_ops = pmm_inv_alloc_frame pmm_inv_free_frame pmm_inv_incref pmm_inv_decref
  pmm_inv_mark_region_used

lemma pmm_step_inv: "pmm_step s s' \<Longrightarrow> pmm_inv s \<Longrightarrow> pmm_inv s'"
  by (induction rule: pmm_step.induct) (blast intro: pmm_inv_ops)+

lemma pmm_steps_inv: "pmm_step\<^sup>*\<^sup>* s s' \<Longrightarrow> pmm_inv s \<Longrightarrow> pmm_inv s'"
  by (induction rule: rtranclp_induct) (blast intro: pmm_step_inv)+

lemma reserved_alloc_frame:
  assumes "pmm_inv s" "reserved_frame s i" "alloc_frame s = Inr (r, s')"
  shows "reserved_frame s' i \<and> r \<noteq> Some (of_nat i * PAGE_SIZE)"
proof (cases r)
  case None
  with assms show ?thesis
    by (auto simp: alloc_frame_eq pmm_inv_def split: option.splits)
next
  case (Some a)
  from assms(1) have t: "total_frames s \<le> MAX_FRAMES" by (simp add: pmm_inv_def)
  then obtain j where j: "j \<in> free_set s" "a = of_nat j * PAGE_SIZE" "s' = alloc_at j s"
    using alloc_frame_Some assms(3) Some by metis
  then have "j \<noteq> i" "j < MAX_FRAMES" "i < MAX_FRAMES"
    using assms(2) t by (auto simp: reserved_frame_def free_set_def)
  then have "a \<noteq> of_nat i * PAGE_SIZE"
    using j(2) by (metis frame_index_of_nat(1))
  with j Some assms(2) \<open>j \<noteq> i\<close> show ?thesis
    by (auto simp: reserved_frame_def)
qed

lemma reserved_step:
  assumes "pmm_step s s'" "pmm_inv s" "reserved_frame s i"
  shows "reserved_frame s' i"
  using assms(1)
proof cases
  case step_alloc
  then show ?thesis using assms reserved_alloc_frame by blast
next
  case (step_mark a b)
  have "total_frames s \<le> MAX_FRAMES" "unat (free_frames s) = card (free_set s)"
    using assms(2) by (simp_all add: pmm_inv_def)
  from mark_frames_ok [OF this, of "[unat (a div PAGE_SIZE)..<unat ((b + PAGE_SIZE - 1) div PAGE_SIZE)]"]
  show ?thesis
    using step_mark assms(3) by (auto simp: mark_region_used_def Let_def reserved_frame_def)
qed (use assms(2,3) in \<open>auto simp: free_frame_Inr incref_Inr decref_Inr pmm_inv_def reserved_frame_def split: if_splits\<close>)

lemma reserved_steps:
  "pmm_step\<^sup>*\<^sup>* s s' \<Longrightarrow> pmm_inv s \<Longrightarrow> reserved_frame s i \<Longrightarrow> reserved_frame s' i"
  by (induction rule: rtranclp_induct) (blast intro: reserved_step pmm_steps_inv)+

subsection \<open>Initialisation\<close>

definition region_frames :: "memory_region \<Rightarrow> nat list" where
  "region_frames r = [region_start_frame r ..< region_end_frame r]"

definition pmm_counted :: "pmm \<Rightarrow> bool" where
  "pmm_counted s \<longleftrightarrow> total_frames s \<le> MAX_FRAMES \<and> unat (free_frames s) = card (free_set s)"

lemma clear_frames_ok:
  assumes "pmm_counted s" "distinct is" "set is \<inter> free_set s = {}" "\<forall>i \<in> set is. i < total_frames s"
  shows "\<exists>s'. clear_frames is s = Inr s' \<and> pmm_counted s' \<and> total_frames s' = total_frames s \<and>
     refcounts s' = refcounts s \<and> (\<forall>i. frame_used s' i \<longleftrightarrow> frame_used s i \<and> i \<notin> set is)"
  using assms
proof (induction "is" arbitrary: s)
  case Nil
  then show ?case by simp
next
  case (Cons i rest)
  let ?s = "(mark_free i s)\<lparr>free_frames := free_frames s + 1\<rparr>"
  have i: "i < total_frames s" "i \<notin> free_set s" "i < MAX_FRAMES"
    using Cons.prems by (auto simp: pmm_counted_def)
  have "pmm_counted ?s"
    using Cons.prems(1) i by (simp add: pmm_counted_def unat_free_frames_inc)
  moreover have "set rest \<inter> free_set ?s = {}"
    using Cons.prems i by auto
  ultimately obtain s' where s': "clear_frames rest ?s = Inr s'" "pmm_counted s'"
      "total_frames s' = total_frames s" "refcounts s' = refcounts s"
      "\<forall>j. frame_used s' j \<longleftrightarrow> (j \<noteq> i \<and> frame_used s j) \<and> j \<notin> set rest"
    using Cons.IH [of ?s] Cons.prems by auto
  moreover have "clear_frames (i # rest) s = Inr s'"
    using s'(1) i by (simp add: pmm_simps)
  ultimately show ?case by auto
qed

lemma free_regions_ok:
  assumes "pmm_counted s" "distinct (concat (map region_frames rs))"
    and "set (concat (map region_frames rs)) \<inter> free_set s = {}"
  shows "\<exists>s'. free_regions rs s = Inr s' \<and> pmm_counted s' \<and> total_frames s' = total_frames s \<and>
     refcounts s' = refcounts s \<and>
     (\<forall>i. frame_used s' i \<longleftrightarrow>
        frame_used s i \<and> \<not> (i < total_frames s \<and> i \<in> set (concat (map region_frames rs))))"
  using assms
proof (induction rs arbitrary: s)
  case Nil
  then show ?case by simp
next
  case (Cons r rs)
  let ?is = "[region_start_frame r ..< min (region_end_frame r) (total_frames s)]"
  have sub: "set ?is \<subseteq> set (region_frames r)"
    by (auto simp: region_frames_def)
  have "\<exists>s'. clear_frames ?is s = Inr s' \<and> pmm_counted s' \<and> total_frames s' = total_frames s \<and>
     refcounts s' = refcounts s \<and> (\<forall>i. frame_used s' i \<longleftrightarrow> frame_used s i \<and> i \<notin> set ?is)"
  proof (rule clear_frames_ok [OF Cons.prems(1)])
    show "set ?is \<inter> free_set s = {}"
      using Cons.prems(3) sub by auto
  qed auto
  then obtain s1 where s1: "clear_frames ?is s = Inr s1" "pmm_counted s1" "total_frames s1 = total_frames s"
      "refcounts s1 = refcounts s" "\<And>i. frame_used s1 i \<longleftrightarrow> frame_used s i \<and> i \<notin> set ?is"
    by blast
  have "set (concat (map region_frames rs)) \<inter> free_set s1 = {}"
  proof -
    have "free_set s1 \<subseteq> free_set s \<union> set (region_frames r)"
      using s1 sub by (auto simp: free_set_def)
    then show ?thesis
      using Cons.prems(2,3) by auto
  qed
  with Cons.IH [OF s1(2)] Cons.prems(2) obtain s2 where s2: "free_regions rs s1 = Inr s2" "pmm_counted s2"
      "total_frames s2 = total_frames s1" "refcounts s2 = refcounts s1"
      "\<forall>i. frame_used s2 i \<longleftrightarrow>
         frame_used s1 i \<and> \<not> (i < total_frames s1 \<and> i \<in> set (concat (map region_frames rs)))"
    by auto
  have "\<forall>i. frame_used s2 i \<longleftrightarrow>
      frame_used s i \<and> \<not> (i < total_frames s \<and> i \<in> set (concat (map region_frames (r # rs))))"
    using s1(3,5) s2(5) by (auto simp: region_frames_def)
  then show ?case
    using s1 s2 by auto
qed

lemma reserve_frame_0_ok:
  assumes "pmm_counted s" "\<forall>i. refcounts s i = 0" "total_frames s = 0 \<Longrightarrow> frame_used s 0"
  shows "\<exists>s'. reserve_frame_0 s = Inr s' \<and> pmm_inv s' \<and> total_frames s' = total_frames s \<and>
     refcounts s' = refcounts s \<and> (\<forall>i. frame_used s' i \<longleftrightarrow> i = 0 \<or> frame_used s i)"
proof (cases "frame_used s 0")
  case True
  then show ?thesis
    using assms by (auto simp: reserve_frame_0_def pmm_simps MAX_FRAMES_def pmm_inv_def pmm_counted_def free_set_def)
next
  case False
  with assms(3) have "0 \<in> free_set s"
    by (auto simp: free_set_def)
  with False assms(1,2) show ?thesis
    by (auto simp: reserve_frame_0_def pmm_simps MAX_FRAMES_def pmm_inv_def pmm_counted_def unat_free_frames_dec)
qed

lemma pmm_init_ok:
  assumes "usable_regions mm = Inr rs" "distinct (concat (map region_frames rs))" "\<forall>i. refcounts s i = 0"
  shows "\<exists>s'. pmm_init mm s = Inr s' \<and> pmm_inv s' \<and> refcounts s' = refcounts s \<and>
     total_frames s' = min MAX_FRAMES
       (unat ((max_region_end (projr (map_entries mm)) + PAGE_SIZE - 1) div PAGE_SIZE)) \<and>
     (\<forall>i. frame_used s' i \<longleftrightarrow> i = 0 \<or> total_frames s' \<le> i \<or> i \<notin> set (concat (map region_frames rs)))"
proof -
  obtain es where es: "map_entries mm = Inr es"
    using assms(1) by (auto simp: usable_regions_def res_simps)
  define total where "total = min MAX_FRAMES (unat ((max_region_end es + PAGE_SIZE - 1) div PAGE_SIZE))"
  define s1 where "s1 = s\<lparr>total_frames := total, bitmap := (\<lambda>_. 0xFF), free_frames := 0\<rparr>"
  have used1: "frame_used s1 i" for i
  proof -
    have "bit (0xFF :: u8) k" if "k < 8" for k
    proof -
      have "(0xFF :: u8) = - 1" by simp
      then show ?thesis
        using that by (simp only: bit_minus_1_iff possible_bit_word) simp
    qed
    then show ?thesis
      by (simp add: frame_used_def s1_def)
  qed
  then have "pmm_counted s1" "free_set s1 = {}"
    by (simp_all add: pmm_counted_def free_set_def s1_def total_def)
  with free_regions_ok [of s1 rs] assms(2) obtain s2 where s2: "free_regions rs s1 = Inr s2"
      "pmm_counted s2" "total_frames s2 = total" "refcounts s2 = refcounts s"
      "\<forall>i. frame_used s2 i \<longleftrightarrow> \<not> (i < total \<and> i \<in> set (concat (map region_frames rs)))"
    using used1 by (auto simp: s1_def)
  with reserve_frame_0_ok [of s2] assms(3) obtain s3 where s3: "reserve_frame_0 s2 = Inr s3" "pmm_inv s3"
      "total_frames s3 = total" "refcounts s3 = refcounts s" "\<forall>i. frame_used s3 i \<longleftrightarrow> i = 0 \<or> frame_used s2 i"
    by auto
  have "pmm_init mm s = Inr s3"
    using es assms(1) s2(1) s3(1)
    by (auto simp: pmm_init_def Let_def s1_def total_def min_def split: if_splits)
  with s3 s2(5) es show ?thesis by (auto simp: total_def)
qed

subsection \<open>The frame allocator interface\<close>

text \<open>
  What the rest of the kernel relies on: an allocation takes one available frame and makes the
  caller its only owner, it fails exactly when no frame is available, and a single owner can give
  its frame back.
\<close>

locale frame_allocator =
  fixes alloc :: "'s \<Rightarrow> (phys_addr option \<times> 's) or_panic"
    and release :: "phys_addr \<Rightarrow> 's \<Rightarrow> 's or_panic"
    and inv :: "'s \<Rightarrow> bool"
    and avail :: "'s \<Rightarrow> phys_addr set"
    and owned :: "'s \<Rightarrow> phys_addr set"
  assumes finite_avail: "inv s \<Longrightarrow> finite (avail s)"
    and avail_not_owned: "inv s \<Longrightarrow> avail s \<inter> owned s = {}"
    and alloc_none: "inv s \<Longrightarrow> avail s = {} \<Longrightarrow> alloc s = Inr (None, s)"
    and alloc_some: "inv s \<Longrightarrow> avail s \<noteq> {} \<Longrightarrow>
      \<exists>a s'. alloc s = Inr (Some a, s') \<and> a \<in> avail s \<and> inv s' \<and>
        avail s' = avail s - {a} \<and> owned s' = insert a (owned s)"
    and release_owned: "inv s \<Longrightarrow> a \<in> owned s \<Longrightarrow>
      \<exists>s'. release a s = Inr s' \<and> inv s' \<and> avail s' = insert a (avail s) \<and> owned s' = owned s - {a}"

text \<open>A client that takes \<open>n\<close> frames, and one that gives a list of frames back.\<close>

fun alloc_many :: "('s \<Rightarrow> ('a option \<times> 's) or_panic) \<Rightarrow> nat \<Rightarrow> 's \<Rightarrow> ('a list \<times> 's) or_panic" where
  "alloc_many alloc 0 s = Inr ([], s)"
| "alloc_many alloc (Suc n) s = rbind (alloc s) (\<lambda>(r, s).
     case r of None \<Rightarrow> Inr ([], s)
     | Some a \<Rightarrow> rbind (alloc_many alloc n s) (\<lambda>(as, s). Inr (a # as, s)))"

fun release_many :: "('a \<Rightarrow> 's \<Rightarrow> 's or_panic) \<Rightarrow> 'a list \<Rightarrow> 's \<Rightarrow> 's or_panic" where
  "release_many release [] s = Inr s"
| "release_many release (a # as) s = rbind (release a s) (release_many release as)"

context frame_allocator begin

lemma alloc_many_distinct:
  "inv s \<Longrightarrow> \<exists>as s'. alloc_many alloc n s = Inr (as, s') \<and> inv s' \<and> distinct as \<and>
     length as = min n (card (avail s)) \<and> set as \<subseteq> avail s \<and>
     avail s' = avail s - set as \<and> owned s' = owned s \<union> set as"
proof (induction n arbitrary: s)
  case 0
  then show ?case by simp
next
  case (Suc n)
  show ?case
  proof (cases "avail s = {}")
    case True
    then show ?thesis using Suc.prems by (simp add: alloc_none)
  next
    case False
    then obtain a s1 where a: "alloc s = Inr (Some a, s1)" "a \<in> avail s" "inv s1"
        "avail s1 = avail s - {a}" "owned s1 = insert a (owned s)"
      using alloc_some Suc.prems by blast
    from Suc.IH [OF a(3), unfolded a(4,5)] obtain as s2 where r: "alloc_many alloc n s1 = Inr (as, s2)" "inv s2" "distinct as"
        "length as = min n (card (avail s - {a}))" "set as \<subseteq> avail s - {a}"
        "avail s2 = avail s - {a} - set as" "owned s2 = insert a (owned s) \<union> set as"
      by blast
    have "card (avail s) = Suc (card (avail s - {a}))"
      using a(2) finite_avail Suc.prems by (metis card.remove)
    then have "length (a # as) = min (Suc n) (card (avail s))"
      using r(4) by simp
    moreover have "avail s2 = avail s - set (a # as)" "owned s2 = owned s \<union> set (a # as)"
      "set (a # as) \<subseteq> avail s" "distinct (a # as)"
      using a(2) r(3,5,6,7) by auto
    moreover have "alloc_many alloc (Suc n) s = Inr (a # as, s2)"
      using a(1) r(1) by simp
    ultimately show ?thesis using r(2) by blast
  qed
qed

lemma release_many_owned:
  "inv s \<Longrightarrow> distinct as \<Longrightarrow> set as \<subseteq> owned s \<Longrightarrow>
   \<exists>s'. release_many release as s = Inr s' \<and> inv s' \<and>
     avail s' = avail s \<union> set as \<and> owned s' = owned s - set as"
proof (induction as arbitrary: s)
  case Nil
  then show ?case by simp
next
  case (Cons a as)
  then obtain s1 where s1: "release a s = Inr s1" "inv s1" "avail s1 = insert a (avail s)"
      "owned s1 = owned s - {a}"
    using release_owned by (metis list.set_intros(1) subset_iff)
  with Cons.prems have "set as \<subseteq> owned s1" by auto
  from Cons.IH [OF s1(2) _ this] Cons.prems(2) obtain s2 where
    "release_many release as s1 = Inr s2" "inv s2" "avail s2 = avail s1 \<union> set as" "owned s2 = owned s1 - set as"
    by auto
  with s1 show ?case by (intro exI [of _ s2]) auto
qed

lemma alloc_release_many:
  assumes "inv s"
  shows "\<exists>as s1 s2. alloc_many alloc n s = Inr (as, s1) \<and> release_many release as s1 = Inr s2 \<and>
    inv s2 \<and> avail s2 = avail s \<and> owned s2 = owned s"
proof -
  obtain as s1 where s1: "alloc_many alloc n s = Inr (as, s1)" "inv s1" "distinct as" "set as \<subseteq> avail s"
      "avail s1 = avail s - set as" "owned s1 = owned s \<union> set as"
    using alloc_many_distinct [OF assms] by blast
  moreover from this have "avail s1 \<union> set as = avail s" "owned s1 - set as = owned s"
    using avail_not_owned [OF assms] by auto
  ultimately obtain s2 where "release_many release as s1 = Inr s2" "inv s2"
      "avail s2 = avail s" "owned s2 = owned s"
    using release_many_owned [of s1 as] by auto
  with s1(1) show ?thesis by blast
qed

end

definition frame_addr :: "nat \<Rightarrow> phys_addr" where
  "frame_addr i = of_nat i * PAGE_SIZE"

definition pmm_avail :: "pmm \<Rightarrow> phys_addr set" where
  "pmm_avail s = frame_addr ` free_set s"

definition pmm_owned :: "pmm \<Rightarrow> phys_addr set" where
  "pmm_owned s = frame_addr ` {i. i < total_frames s \<and> frame_used s i \<and> refcounts s i = 1}"

lemma inj_on_frame_addr: "n \<le> MAX_FRAMES \<Longrightarrow> inj_on frame_addr {..<n}"
  by (rule inj_on_inverseI [of _ frame_index]) (simp add: frame_addr_def)

lemma frame_addr_image_diff:
  "A \<subseteq> {..<n} \<Longrightarrow> i < n \<Longrightarrow> n \<le> MAX_FRAMES \<Longrightarrow> frame_addr ` (A - {i}) = frame_addr ` A - {frame_addr i}"
  by (subst inj_on_image_set_diff [OF inj_on_frame_addr [of n]]) auto

interpretation frames: frame_allocator alloc_frame free_frame pmm_inv pmm_avail pmm_owned
proof
  fix s
  assume inv: "pmm_inv s"
  then have t: "total_frames s \<le> MAX_FRAMES" by (simp add: pmm_inv_def)
  let ?own = "\<lambda>s. {i. i < total_frames s \<and> frame_used s i \<and> refcounts s i = 1}"
  have fs: "free_set s \<subseteq> {..<total_frames s}" by (auto simp: free_set_def)
  show "finite (pmm_avail s)" by (simp add: pmm_avail_def)
  show "pmm_avail s \<inter> pmm_owned s = {}"
    using t by (auto simp: pmm_avail_def pmm_owned_def free_set_def frame_addr_def)
      (metis frame_index_of_nat(1) order_less_le_trans)
  show "alloc_frame s = Inr (None, s)" if "pmm_avail s = {}"
    using that inv by (simp add: alloc_frame_None pmm_avail_def)
  show "\<exists>a s'. alloc_frame s = Inr (Some a, s') \<and> a \<in> pmm_avail s \<and> pmm_inv s' \<and>
      pmm_avail s' = pmm_avail s - {a} \<and> pmm_owned s' = insert a (pmm_owned s)"
    if ne: "pmm_avail s \<noteq> {}"
  proof -
    from ne inv have "alloc_frame s \<noteq> Inr (None, s)"
      by (simp add: alloc_frame_None pmm_avail_def)
    then obtain a s' where al: "alloc_frame s = Inr (Some a, s')"
      using t by (auto simp: alloc_frame_eq split: option.splits)
    then obtain i where i: "i \<in> free_set s" "a = of_nat i * PAGE_SIZE" "s' = alloc_at i s"
      using alloc_frame_Some t by metis
    have "?own s' = insert i (?own s)"
      using i by (auto simp: free_set_def)
    then have "pmm_owned s' = insert a (pmm_owned s)"
      by (simp add: pmm_owned_def i(2) frame_addr_def)
    moreover have "pmm_avail s' = pmm_avail s - {a}"
      using i fs t frame_addr_image_diff [of "free_set s" "total_frames s" i]
      by (auto simp: pmm_avail_def frame_addr_def)
    ultimately show ?thesis
      using al i inv pmm_inv_alloc_at by (auto simp: pmm_avail_def frame_addr_def)
  qed
  show "\<exists>s'. free_frame a s = Inr s' \<and> pmm_inv s' \<and> pmm_avail s' = insert a (pmm_avail s) \<and>
      pmm_owned s' = pmm_owned s - {a}" if own: "a \<in> pmm_owned s" for a
  proof -
    from own obtain i where i: "i < total_frames s" "frame_used s i" "refcounts s i = 1" "a = frame_addr i"
      by (auto simp: pmm_owned_def)
    then have ix: "frame_index a = i" "a mod PAGE_SIZE = 0" "i \<noteq> 0"
      using t inv pmm_inv_held_frame [of s i] by (auto simp: frame_addr_def)
    then have fr: "free_frame a s = Inr (release_at i s)"
      using i t by (simp add: free_frame_Inr)
    have "?own (release_at i s) = ?own s - {i}" by auto
    then have "pmm_owned (release_at i s) = pmm_owned s - {a}"
      using frame_addr_image_diff [of "?own s" "total_frames s" i] i t by (auto simp: pmm_owned_def)
    moreover have "pmm_avail (release_at i s) = insert a (pmm_avail s)"
      using i by (simp add: pmm_avail_def)
    ultimately show ?thesis
      using fr inv i ix pmm_inv_release_at by auto
  qed
qed

subsection \<open>Reference counting runs\<close>

text \<open>The same operation on one frame, \<open>n\<close> times in a row.\<close>

fun repeat_op :: "nat \<Rightarrow> ('s \<Rightarrow> 's or_panic) \<Rightarrow> 's \<Rightarrow> 's or_panic" where
  "repeat_op 0 f s = Inr s"
| "repeat_op (Suc n) f s = rbind (f s) (repeat_op n f)"

definition with_refcount :: "nat \<Rightarrow> nat \<Rightarrow> pmm \<Rightarrow> pmm" where
  "with_refcount i n s = s\<lparr>refcounts := (refcounts s)(i := of_nat n)\<rparr>"

lemma with_refcount_fields [simp]:
  "total_frames (with_refcount i n s) = total_frames s" "frame_used (with_refcount i n s) = frame_used s"
  "refcounts (with_refcount i n s) = (refcounts s)(i := of_nat n)"
  "release_at i (with_refcount i n s) = release_at i s"
  by (simp_all add: with_refcount_def release_at_def mark_free_def frame_used_def fun_eq_iff)

lemma with_refcount_self: "refcounts s i = of_nat n \<Longrightarrow> with_refcount i n s = s"
  by (auto simp: with_refcount_def fun_upd_idem)

lemma incref_with_refcount:
  assumes "total_frames s \<le> MAX_FRAMES" "i = frame_index frame" "i < total_frames s" "frame_used s i" "n \<le> 255"
  shows "incref frame (with_refcount i n s) = Inr (with_refcount i (min 255 (Suc n)) s)"
proof -
  have "saturating_add (of_nat n) 1 = (of_nat (min 255 (Suc n)) :: u8)"
    by (rule unsigned_word_eqI [where ?'a = nat])
      (use assms(5) in \<open>auto simp: unat_saturating_add unat_of_nat min_def unat_word_ariths\<close>)
  with assms show ?thesis
    by (subst incref_Inr) (simp_all add: with_refcount_def)
qed

lemma repeat_incref:
  assumes "total_frames s \<le> MAX_FRAMES" "i = frame_index frame" "i < total_frames s" "frame_used s i" "n \<le> 255"
  shows "repeat_op k (incref frame) (with_refcount i n s) = Inr (with_refcount i (min 255 (n + k)) s)"
  using assms(5)
proof (induction k arbitrary: n)
  case 0
  then show ?case by (simp add: min_def)
next
  case (Suc k)
  have "min 255 (min 255 (Suc n) + k) = min 255 (n + Suc k)" by simp
  with Suc show ?case
    by (simp only: repeat_op.simps incref_with_refcount [OF assms(1-4) Suc.prems] rbind_simps)
qed

lemma decref_with_refcount:
  assumes "total_frames s \<le> MAX_FRAMES" "i = frame_index frame" "i < total_frames s" "frame_used s i" "n < 255"
  shows "decref frame (with_refcount i (Suc n) s) =
     Inr (if n = 0 then release_at i s else with_refcount i n s)"
proof -
  have n: "unat (1 + of_nat n :: u8) = Suc n" "unat (of_nat n :: u8) = n"
    using assms(5) by (simp_all add: unat_word_ariths unat_of_nat)
  then have pos: "0 < (1 + of_nat n :: u8)" and z: "(of_nat n = (0 :: u8)) \<longleftrightarrow> n = 0"
    by (auto simp: word_less_nat_alt simp flip: unat_eq_0)
  show ?thesis
    using assms pos z by (subst decref_Inr) (auto simp: with_refcount_def release_at_def mark_free_def)
qed

lemma repeat_decref:
  assumes "total_frames s \<le> MAX_FRAMES" "i = frame_index frame" "i < total_frames s" "frame_used s i"
  shows "n \<le> 255 \<Longrightarrow> k < n \<Longrightarrow>
    repeat_op k (decref frame) (with_refcount i n s) = Inr (with_refcount i (n - k) s)"
proof (induction k arbitrary: n)
  case 0
  then show ?case by simp
next
  case (Suc k)
  then obtain m where m: "n = Suc m" "m < 255" "0 < m"
    by (cases n) auto
  with Suc decref_with_refcount [OF assms m(2)] show ?case by simp
qed

lemma repeat_op_add: "repeat_op (m + n) f s = rbind (repeat_op m f s) (repeat_op n f)"
  by (induction m arbitrary: s) (auto simp: rbind_assoc fun_eq_iff intro!: rbind_cong)

lemma repeat_decref_release:
  assumes "total_frames s \<le> MAX_FRAMES" "i = frame_index frame" "i < total_frames s" "frame_used s i"
    and "0 < n" "n \<le> 255"
  shows "repeat_op n (decref frame) (with_refcount i n s) = Inr (release_at i s)"
proof -
  obtain m where m: "n = Suc m" "m < 255"
    using assms(5,6) by (cases n) auto
  have "repeat_op (m + 1) (decref frame) (with_refcount i n s) = Inr (release_at i s)"
    unfolding repeat_op_add
    using repeat_decref [OF assms(1-4), of n m] decref_with_refcount [OF assms(1-4), of 0] m by simp
  then show ?thesis by (simp add: m)
qed

subsection \<open>Properties\<close>

text \<open>
  C5. From the boot initialisation on, under any sequence of allocations, releases,
  reference count changes and reservations, the allocator's invariant holds: \<open>FREE_FRAMES\<close> is
  the number of clear bits, held frames are marked used, frame 0 is never free. The usable
  regions of the memory map must not share a frame.
\<close>

theorem pmm_reachable_inv:
  assumes "usable_regions mm = Inr rs" "distinct (concat (map region_frames rs))"
    and "\<forall>i. refcounts bss i = 0" "pmm_init mm bss = Inr s" "pmm_step\<^sup>*\<^sup>* s t"
  shows "pmm_inv t"
  using pmm_init_ok [OF assms(1-3)] assms(4,5) pmm_steps_inv by auto

text \<open>
  C27. Initialisation succeeds and afterwards a tracked frame is free exactly if it is
  not frame 0 and lies in the page range of a usable region; the usable regions must not share frames. The page range is rounded outwards, so a frame that
  lies only partly in a usable region is free even if the rest of it belongs to a region of another kind; and the
  frames of the allocator's own bitmap are only used if the memory map says so. The comment on the function promises otherwise.
\<close>

theorem pmm_init_frames:
  assumes "usable_regions mm = Inr rs" "distinct (concat (map region_frames rs))"
    and "\<forall>i. refcounts bss i = 0"
  shows "\<exists>s. pmm_init mm bss = Inr s \<and>
    free_set s = {i. i < total_frames s \<and> i \<noteq> 0 \<and>
      (\<exists>r \<in> set rs. region_start_frame r \<le> i \<and> i < region_end_frame r)}"
  using pmm_init_ok [OF assms] by (fastforce simp: free_set_def region_frames_def)

text \<open>
  C15. \<open>alloc_frame\<close> fails exactly when no frame is free; otherwise it returns the
  page-aligned address of the lowest free frame, marks that frame used with one holder, and
  changes nothing else of the bitmap or the counts.
\<close>

theorem alloc_frame_lowest_free:
  assumes "pmm_inv s"
  shows "alloc_frame s =
    (if free_set s = {} then Inr (None, s)
     else let i = Min (free_set s) in Inr (Some (frame_addr i), alloc_at i s))"
proof (cases "free_set s = {}")
  case True
  then show ?thesis using alloc_frame_None [OF assms] by simp
next
  case False
  from assms have t: "total_frames s \<le> MAX_FRAMES" by (simp add: pmm_inv_def)
  from False alloc_frame_None [OF assms] obtain a s' where eq: "alloc_frame s = Inr (Some a, s')"
    using t by (auto simp: alloc_frame_eq split: option.splits)
  with t obtain i where i: "i \<in> free_set s" "\<forall>j. 0 < j \<and> j < i \<longrightarrow> frame_used s j"
      "a = of_nat i * PAGE_SIZE" "s' = alloc_at i s"
    using alloc_frame_Some by metis
  have "i \<le> j" if j: "j \<in> free_set s" for j
  proof (rule ccontr)
    assume "\<not> i \<le> j"
    moreover have "j \<noteq> 0"
      using j assms by (metis pmm_inv_def)
    moreover have "\<not> frame_used s j"
      using j by (simp add: free_set_def)
    ultimately show False using i(2) by auto
  qed
  then have "Min (free_set s) = i"
    using i(1) by (intro Min_eqI) auto
  then show ?thesis
    using False eq i by (simp add: Let_def frame_addr_def)
qed

text \<open>
  Taking \<open>n\<close> frames gives pairwise distinct available frames, as many as there are
  up to \<open>n\<close>, all owned by the caller alone; giving them all back restores the sets of
  available and of owned frames.
\<close>

theorem alloc_many_release_many:
  assumes "pmm_inv s"
  shows "\<exists>as s1 s2. alloc_many alloc_frame n s = Inr (as, s1) \<and> distinct as \<and>
     length as = min n (card (free_set s)) \<and> set as \<subseteq> pmm_avail s \<and> set as \<subseteq> pmm_owned s1 \<and>
     release_many free_frame as s1 = Inr s2 \<and> pmm_avail s2 = pmm_avail s \<and> pmm_owned s2 = pmm_owned s"
proof -
  have "card (pmm_avail s) = card (free_set s)"
    unfolding pmm_avail_def
    using assms by (intro card_image inj_on_subset [OF inj_on_frame_addr [of "total_frames s"]])
      (auto simp: pmm_inv_def free_set_def)
  with frames.alloc_many_distinct [OF assms, of n] frames.alloc_release_many [OF assms, of n]
  show ?thesis by auto
qed

text \<open>
  \<open>free_frame\<close> succeeds exactly on the page-aligned address of a tracked frame other than
  frame 0 that is in use with a single holder, then only that frame becomes free; and a second
  release of the same frame panics as a double free.
\<close>

theorem free_frame_exact:
  assumes "pmm_inv s"
  shows "((\<exists>s'. free_frame frame s = Inr s') \<longleftrightarrow> frame \<in> pmm_owned s) \<and>
    (\<forall>s'. free_frame frame s = Inr s' \<longrightarrow>
      free_set s' = insert (frame_index frame) (free_set s) \<and> pmm_inv s' \<and>
      free_frame frame s' = Inl (Panic ''double-free detected''))"
proof (intro conjI allI impI)
  have t: "total_frames s \<le> MAX_FRAMES"
    using assms by (simp add: pmm_inv_def)
  show "(\<exists>s'. free_frame frame s = Inr s') \<longleftrightarrow> frame \<in> pmm_owned s"
  proof
    assume "\<exists>s'. free_frame frame s = Inr s'"
    then show "frame \<in> pmm_owned s"
      unfolding free_frame_Inr [OF t] pmm_owned_def
      by (metis (mono_tags, lifting) aligned_frame_address frame_addr_def imageI mem_Collect_eq)
  qed (use assms frames.release_owned in blast)
  fix s'
  assume ok: "free_frame frame s = Inr s'"
  then have i: "frame_index frame < total_frames s" "frame mod PAGE_SIZE = 0" "0 < frame_index frame"
      "s' = release_at (frame_index frame) s"
    by (simp_all add: free_frame_Inr [OF t])
  moreover from i t have "frame_index frame < MAX_FRAMES" by simp
  ultimately show "free_set s' = insert (frame_index frame) (free_set s)" "pmm_inv s'"
      "free_frame frame s' = Inl (Panic ''double-free detected'')"
    using ok assms pmm_inv_free_frame [of s frame s']
    by (simp_all add: free_frame_def Let_def pmm_simps)
qed

text \<open>
  C25. A frame reserved at boot (in use without a holder, such as the kernel image after
  \<open>mark_region_used\<close>, or frame 0) stays reserved under every sequence of operations and is
  never returned by an allocation.
\<close>

theorem reserved_never_allocated:
  assumes "pmm_inv s" "reserved_frame s i" "pmm_step\<^sup>*\<^sup>* s t" "alloc_frame t = Inr (r, u)"
  shows "reserved_frame t i \<and> r \<noteq> Some (frame_addr i)"
  using reserved_steps [OF assms(3,1,2)] reserved_alloc_frame [OF pmm_steps_inv [OF assms(3,1)] _ assms(4)]
  by (simp add: frame_addr_def)

text \<open>
  Below the saturation point reference counts balance: a frame with one holder that is
  shared \<open>k\<close> more times survives \<open>k\<close> releases with one holder left, in the state it had
  before, and the next release frees it.
\<close>

theorem refcount_balance:
  assumes "pmm_inv s" "frame \<in> pmm_owned s" "k \<le> 254"
  shows "rbind (repeat_op k (incref frame) s) (repeat_op k (decref frame)) = Inr s \<and>
    decref frame s = Inr (release_at (frame_index frame) s) \<and>
    frame_index frame \<in> free_set (release_at (frame_index frame) s)"
proof (intro conjI)
  from assms(1) have t: "total_frames s \<le> MAX_FRAMES" by (simp add: pmm_inv_def)
  from assms(2) t have i: "frame_index frame < total_frames s" "frame_used s (frame_index frame)"
      "refcounts s (frame_index frame) = 1"
    by (auto simp: pmm_owned_def frame_addr_def)
  have self: "with_refcount (frame_index frame) 1 s = s"
    using i(3) by (simp add: with_refcount_self)
  have "repeat_op k (incref frame) s = Inr (with_refcount (frame_index frame) (Suc k) s)"
    using repeat_incref [OF t refl i(1,2), of 1 k] assms(3) self by (simp add: min_def)
  moreover have "repeat_op k (decref frame) (with_refcount (frame_index frame) (Suc k) s) = Inr s"
    using repeat_decref [OF t refl i(1,2), of "Suc k" k] assms(3) self by simp
  ultimately show "rbind (repeat_op k (incref frame) s) (repeat_op k (decref frame)) = Inr s"
    by simp
  show "decref frame s = Inr (release_at (frame_index frame) s)"
    using decref_with_refcount [OF t refl i(1,2), of 0] self by simp
  show "frame_index frame \<in> free_set (release_at (frame_index frame) s)"
    using i(1) by simp
qed

text \<open>
  C26. Beyond it they do not: once a frame has been shared 255 or more times (so that it
  has more than 255 holders), 255 releases already make it available for a new allocation,
  although holders remain.
\<close>

theorem refcount_saturation_frees_shared:
  assumes "pmm_inv s" "frame \<in> pmm_owned s" "255 \<le> k"
  shows "\<exists>s1 s2. repeat_op k (incref frame) s = Inr s1 \<and> repeat_op 255 (decref frame) s1 = Inr s2 \<and>
     frame_index frame \<in> free_set s2"
proof -
  from assms(1) have t: "total_frames s \<le> MAX_FRAMES" by (simp add: pmm_inv_def)
  from assms(2) t have i: "frame_index frame < total_frames s" "frame_used s (frame_index frame)"
      "refcounts s (frame_index frame) = 1"
    by (auto simp: pmm_owned_def frame_addr_def)
  have "repeat_op k (incref frame) s = Inr (with_refcount (frame_index frame) 255 s)"
    using repeat_incref [OF t refl i(1,2), of 1 k] assms(3) i(3)
    by (simp add: min_def with_refcount_self)
  moreover have "repeat_op 255 (decref frame) (with_refcount (frame_index frame) 255 s)
      = Inr (release_at (frame_index frame) s)"
    using repeat_decref_release [OF t refl i(1,2), of 255] by simp
  ultimately show ?thesis
    using i(1) by auto
qed

subsection \<open>A concrete machine\<close>

text \<open>Four frames: three usable, one reserved; after initialisation frames 1 and 2 are free.\<close>

definition ex_map :: memory_map where
  "ex_map = \<lparr>mm_regions = [\<lparr>mr_start = 0, mr_length = 0x3000, mr_kind = Usable\<rparr>,
     \<lparr>mr_start = 0x3000, mr_length = 0x1000, mr_kind = Reserved\<rparr>], mm_count = 2\<rparr>"

definition bss_pmm :: pmm where
  "bss_pmm = \<lparr>bitmap = (\<lambda>_. 0), refcounts = (\<lambda>_. 0), total_frames = 0, free_frames = 0\<rparr>"

definition ex_regions :: "memory_region list" where
  "ex_regions = [\<lparr>mr_start = 0, mr_length = 0x3000, mr_kind = Usable\<rparr>]"

definition ex_pmm :: pmm where
  "ex_pmm = projr (pmm_init ex_map bss_pmm)"

lemma ex_map_facts:
  "usable_regions ex_map = Inr ex_regions" "distinct (concat (map region_frames ex_regions))"
  "\<forall>i. refcounts bss_pmm i = 0"
proof -
  show "usable_regions ex_map = Inr ex_regions" by code_simp
  show "distinct (concat (map region_frames ex_regions))" by code_simp
  show "\<forall>i. refcounts bss_pmm i = 0" by (simp add: bss_pmm_def)
qed

lemma ex_pmm_init: "pmm_init ex_map bss_pmm = Inr ex_pmm" "pmm_inv ex_pmm"
  using pmm_init_ok [OF ex_map_facts] by (auto simp: ex_pmm_def)

lemma ex_pmm_fields: "total_frames ex_pmm = 4" "refcounts ex_pmm = (\<lambda>_. 0)"
  "frame_used ex_pmm i \<longleftrightarrow> i \<noteq> 1 \<and> i \<noteq> 2"
proof -
  have total: "unat ((max_region_end (projr (map_entries ex_map)) + PAGE_SIZE - 1) div PAGE_SIZE) = 4"
    by (simp add: max_region_end_def map_entries_def ex_map_def PAGE_SIZE_def)
  have frames: "concat (map region_frames ex_regions) = [0, 1, 2]"
    by (simp add: ex_regions_def region_frames_def region_start_frame_def region_end_frame_def
        PAGE_SIZE_def upt_rec)
  have ini: "pmm_init ex_map bss_pmm = Inr ex_pmm"
    by (rule ex_pmm_init)
  show t: "total_frames ex_pmm = 4" and "refcounts ex_pmm = (\<lambda>_. 0)"
    using pmm_init_ok [OF ex_map_facts] ini total by (auto simp: MAX_FRAMES_def bss_pmm_def)
  show "frame_used ex_pmm i \<longleftrightarrow> i \<noteq> 1 \<and> i \<noteq> 2"
    using pmm_init_ok [OF ex_map_facts] ini frames t by auto
qed

lemma ex_pmm_free_set: "free_set ex_pmm = {1, 2}"
  by (auto simp: free_set_def ex_pmm_fields)

text \<open>The same machine after one allocation: frame 1 has a holder.\<close>

definition ex_pmm1 :: pmm where
  "ex_pmm1 = alloc_at 1 ex_pmm"

lemma ex_pmm1_facts: "pmm_inv ex_pmm1" "0x1000 \<in> pmm_owned ex_pmm1" "reserved_frame ex_pmm1 3"
proof -
  show "pmm_inv ex_pmm1"
    unfolding ex_pmm1_def by (rule pmm_inv_alloc_at [OF ex_pmm_init(2)]) (simp add: ex_pmm_free_set)
  have "frame_addr 1 = 0x1000"
    by (simp add: frame_addr_def PAGE_SIZE_def)
  then show "0x1000 \<in> pmm_owned ex_pmm1"
    by (auto simp: pmm_owned_def ex_pmm1_def ex_pmm_fields image_iff intro!: exI [of _ 1])
  show "reserved_frame ex_pmm1 3"
    by (simp add: reserved_frame_def ex_pmm1_def ex_pmm_fields)
qed

theorem pmm_reachable_inv_witness: "pmm_inv ex_pmm"
  by (rule pmm_reachable_inv [OF ex_map_facts ex_pmm_init(1)]) simp

theorem pmm_init_frames_witness:
  "\<exists>s. pmm_init ex_map bss_pmm = Inr s \<and> free_set s = {1, 2} \<and> 3 \<notin> free_set s"
proof -
  obtain s where s: "pmm_init ex_map bss_pmm = Inr s"
    using pmm_init_frames [OF ex_map_facts] by blast
  with ex_pmm_init(1) have "s = ex_pmm" by simp
  with s ex_pmm_free_set show ?thesis by simp
qed

theorem alloc_frame_lowest_free_witness: "alloc_frame ex_pmm = Inr (Some 0x1000, ex_pmm1)"
  using alloc_frame_lowest_free [OF ex_pmm_init(2)]
  by (simp add: ex_pmm_free_set ex_pmm1_def frame_addr_def PAGE_SIZE_def)

theorem alloc_many_release_many_witness:
  "\<exists>as s1 s2. alloc_many alloc_frame 5 ex_pmm = Inr (as, s1) \<and> distinct as \<and> length as = 2 \<and>
     release_many free_frame as s1 = Inr s2 \<and> pmm_avail s2 = pmm_avail ex_pmm"
  using alloc_many_release_many [OF ex_pmm_init(2), of 5] by (auto simp: ex_pmm_free_set)

theorem free_frame_exact_witness:
  "\<exists>s'. free_frame 0x1000 ex_pmm1 = Inr s' \<and> free_frame 0x1000 s' = Inl (Panic ''double-free detected'')"
  using free_frame_exact [OF ex_pmm1_facts(1), of "0x1000"] ex_pmm1_facts(2) by blast

theorem reserved_never_allocated_witness:
  "\<exists>r u. alloc_frame ex_pmm1 = Inr (r, u) \<and> r \<noteq> Some (frame_addr 3)"
proof -
  have "alloc_frame ex_pmm1 \<noteq> Inl e" for e
    using alloc_frame_eq [of ex_pmm1] ex_pmm1_facts(1) by (auto simp: pmm_inv_def split: option.splits)
  then obtain r u where "alloc_frame ex_pmm1 = Inr (r, u)"
    by (metis sum.exhaust surj_pair)
  with reserved_never_allocated [OF ex_pmm1_facts(1,3) rtranclp.rtrancl_refl this] show ?thesis
    by blast
qed

theorem refcount_balance_witness:
  "rbind (repeat_op 200 (incref 0x1000) ex_pmm1) (repeat_op 200 (decref 0x1000)) = Inr ex_pmm1"
  using refcount_balance [OF ex_pmm1_facts(1,2), of 200] by simp

theorem refcount_saturation_frees_shared_witness:
  "\<exists>s1 s2. repeat_op 300 (incref 0x1000) ex_pmm1 = Inr s1 \<and> repeat_op 255 (decref 0x1000) s1 = Inr s2 \<and>
     1 \<in> free_set s2"
proof -
  have "frame_index 0x1000 = 1"
    by (simp add: frame_index_def PAGE_SIZE_def)
  with refcount_saturation_frees_shared [OF ex_pmm1_facts(1,2), of 300] show ?thesis by simp
qed

end
