(* ===== verification/Pipe.thy ===== *)
theory Pipe
  imports Kernel_Prelude
begin

text \<open>
  Pipes (\<^verbatim>\<open>indo-kernel/src/process/pipe.rs\<close>, the pipe table of \<^verbatim>\<open>process/mod.rs\<close> and the transfer
  loops of \<open>sys_read\<close> and \<open>sys_write\<close>): a ring of 512 bytes with 32-bit counters of the bytes read
  and written so far. The locale is what the two ends rely on: bytes come out in the order they went
  in, for any interleaving of reads and writes.
\<close>

subsection \<open>The pipe\<close>

definition PIPE_SIZE :: nat where
  "PIPE_SIZE = 512"

record pipe =
  pipe_data :: bytes
  pipe_nread :: u32
  pipe_nwrite :: u32
  pipe_read_open :: bool
  pipe_write_open :: bool
  pipe_refcount :: u16

definition pipe_new :: pipe where
  "pipe_new = \<lparr>pipe_data = replicate PIPE_SIZE 0, pipe_nread = 0, pipe_nwrite = 0,
     pipe_read_open = True, pipe_write_open = True, pipe_refcount = 2\<rparr>"

definition pipe_close :: "bool \<Rightarrow> pipe \<Rightarrow> pipe" where
  "pipe_close writable p = (if writable then p\<lparr>pipe_write_open := False\<rparr> else p\<lparr>pipe_read_open := False\<rparr>)"

subsection \<open>Transfers\<close>

text \<open>The loop of \<open>sys_read\<close>: the bytes it copies, from the counters it loaded before.\<close>

function pipe_read_loop :: "pipe \<Rightarrow> nat \<Rightarrow> nat \<Rightarrow> bytes" where
  "pipe_read_loop p count total_read =
     (if total_read < count \<and> unat (pipe_nread p) + total_read < unat (pipe_nwrite p)
      then pipe_data p ! ((unat (pipe_nread p) + total_read) mod PIPE_SIZE) # pipe_read_loop p count (Suc total_read)
      else [])"
  by auto
termination by (relation "measure (\<lambda>(p, count, total_read). count - total_read)") auto

declare pipe_read_loop.simps [simp del]

definition pipe_get :: "nat \<Rightarrow> pipe \<Rightarrow> bytes \<times> pipe" where
  "pipe_get count p =
     (let bs = pipe_read_loop p count 0 in
      if bs = [] then ([], p)
      else (bs, p\<lparr>pipe_nread := of_nat (unat (pipe_nread p) + length bs)\<rparr>))"

text \<open>The loop of \<open>sys_write\<close>: how many bytes it stored before it ended or found the pipe full.\<close>

definition pipe_full :: "pipe \<Rightarrow> bool" where
  "pipe_full p \<longleftrightarrow> pipe_nwrite p = - 1 \<or> pipe_nwrite p \<ge> pipe_nread p + of_nat PIPE_SIZE"

fun pipe_put :: "bytes \<Rightarrow> nat \<Rightarrow> pipe \<Rightarrow> nat \<times> pipe" where
  "pipe_put [] written p = (written, p)"
| "pipe_put (byte # buf) written p =
     (if pipe_full p then (written, p)
      else pipe_put buf (Suc written)
        (p\<lparr>pipe_data := (pipe_data p)[unat (pipe_nwrite p) mod PIPE_SIZE := byte],
           pipe_nwrite := pipe_nwrite p + 1\<rparr>))"

subsection \<open>The pipe table\<close>

definition MAX_PIPES :: nat where
  "MAX_PIPES = 16"

type_synonym pipe_table = "pipe option list"

definition alloc_pipe :: "pipe_table \<Rightarrow> nat option \<times> pipe_table" where
  "alloc_pipe pipes = (case List.find (\<lambda>i. pipes ! i = None) [0..<MAX_PIPES] of
     Some i \<Rightarrow> (Some i, pipes[i := Some pipe_new])
   | None \<Rightarrow> (None, pipes))"

definition free_pipe :: "nat \<Rightarrow> pipe_table \<Rightarrow> pipe_table" where
  "free_pipe idx pipes = (if idx < MAX_PIPES then pipes[idx := None] else pipes)"

subsection \<open>Byte channels\<close>

datatype channel_op = Put bytes | Get nat

text \<open>Running a sequence of operations collects what went in and what came out.\<close>

fun channel_run :: "(bytes \<Rightarrow> 's \<Rightarrow> nat \<times> 's) \<Rightarrow> (nat \<Rightarrow> 's \<Rightarrow> bytes \<times> 's) \<Rightarrow> channel_op list \<Rightarrow> 's \<Rightarrow> bytes \<times> bytes \<times> 's" where
  "channel_run put get [] s = ([], [], s)"
| "channel_run put get (Put bs # ops) s = (case put bs s of (n, s') \<Rightarrow>
     case channel_run put get ops s' of (ins, outs, s'') \<Rightarrow> (take n bs @ ins, outs, s''))"
| "channel_run put get (Get k # ops) s = (case get k s of (bs, s') \<Rightarrow>
     case channel_run put get ops s' of (ins, outs, s'') \<Rightarrow> (ins, bs @ outs, s''))"

locale byte_channel =
  fixes ok :: "'s \<Rightarrow> bool"
    and contents :: "'s \<Rightarrow> bytes"
    and room :: "'s \<Rightarrow> nat"
    and put :: "bytes \<Rightarrow> 's \<Rightarrow> nat \<times> 's"
    and get :: "nat \<Rightarrow> 's \<Rightarrow> bytes \<times> 's"
  assumes put_law: "ok s \<Longrightarrow> put bs s = (n, s') \<Longrightarrow>
      n = min (length bs) (room s) \<and> ok s' \<and> contents s' = contents s @ take n bs"
    and get_law: "ok s \<Longrightarrow> get k s = (bs, s') \<Longrightarrow>
      bs = take k (contents s) \<and> ok s' \<and> contents s' = drop k (contents s)"
begin

lemma run_fifo:
  "ok s \<Longrightarrow> channel_run put get ops s = (ins, outs, s') \<Longrightarrow> ok s' \<and> contents s @ ins = outs @ contents s'"
proof (induction ops arbitrary: s ins outs)
  case (Cons x ops)
  show ?case
  proof (cases x)
    case (Put bs)
    obtain n t where p: "put bs s = (n, t)" by fastforce
    obtain i e where r: "channel_run put get ops t = (i, e, s')" and io: "ins = take n bs @ i" "outs = e"
      using Cons.prems(2) p by (auto simp: Put split: prod.splits)
    from put_law [OF Cons.prems(1) p] Cons.IH [OF _ r] show ?thesis
      by (auto simp: io)
  next
    case (Get k)
    obtain bs t where g: "get k s = (bs, t)" by fastforce
    obtain i e where r: "channel_run put get ops t = (i, e, s')" and io: "ins = i" "outs = bs @ e"
      using Cons.prems(2) g by (auto simp: Get split: prod.splits)
    from get_law [OF Cons.prems(1) g] have t: "ok t" "bs = take k (contents s)" "contents t = drop k (contents s)" by auto
    have u: "ok s'" "contents t @ i = e @ contents s'" using Cons.IH [OF t(1) r] by auto
    have "contents s @ i = bs @ (contents t @ i)" by (simp add: t(2,3))
    with u show ?thesis by (simp add: io)
  qed
qed auto

end

subsection \<open>The pipe is a byte channel\<close>

definition pipe_ok :: "pipe \<Rightarrow> bool" where
  "pipe_ok p \<longleftrightarrow> length (pipe_data p) = PIPE_SIZE \<and> pipe_nread p \<le> pipe_nwrite p
     \<and> unat (pipe_nwrite p) \<le> unat (pipe_nread p) + PIPE_SIZE"

definition pipe_contents :: "pipe \<Rightarrow> bytes" where
  "pipe_contents p = map (\<lambda>i. pipe_data p ! (i mod PIPE_SIZE)) [unat (pipe_nread p)..<unat (pipe_nwrite p)]"

text \<open>Free space, as the writer sees it: none once the read counter is within 512 of its maximum.\<close>

definition pipe_room :: "pipe \<Rightarrow> nat" where
  "pipe_room p = (if unat (pipe_nread p) + PIPE_SIZE < 2 ^ 32
     then unat (pipe_nread p) + PIPE_SIZE - unat (pipe_nwrite p) else 0)"

lemma pipe_full_room: "pipe_ok p \<Longrightarrow> pipe_full p \<longleftrightarrow> pipe_room p = 0"
proof -
  assume ok: "pipe_ok p"
  have w: "unat (pipe_nread p + of_nat PIPE_SIZE) =
      (if unat (pipe_nread p) + PIPE_SIZE < 2 ^ 32 then unat (pipe_nread p) + PIPE_SIZE
       else unat (pipe_nread p) + PIPE_SIZE - 2 ^ 32)"
    using unsigned_less [of "pipe_nread p", where ?'a = nat]
    by (simp add: PIPE_SIZE_def unat_word_ariths nat_mod_eq_iff le_mod_geq)
  have m: "pipe_nwrite p = - 1 \<longleftrightarrow> unat (pipe_nwrite p) = 2 ^ 32 - 1"
  proof
    assume "unat (pipe_nwrite p) = 2 ^ 32 - 1"
    then have "unat (pipe_nwrite p) = unat (- 1 :: u32)"
      by (simp add: unsigned_minus_1_eq_mask mask_eq_exp_minus_1)
    then show "pipe_nwrite p = - 1" by (rule unsigned_word_eqI)
  qed (simp add: unsigned_minus_1_eq_mask mask_eq_exp_minus_1)
  show ?thesis
    using ok unsigned_less [of "pipe_nread p", where ?'a = nat] unsigned_less [of "pipe_nwrite p", where ?'a = nat]
    unfolding pipe_full_def m word_le_nat_alt w pipe_room_def pipe_ok_def
    by (auto simp: PIPE_SIZE_def)
qed

lemma pipe_contents_length [simp]: "length (pipe_contents p) = unat (pipe_nwrite p) - unat (pipe_nread p)"
  by (simp add: pipe_contents_def)

lemma pipe_store:
  fixes b :: u8
  assumes "pipe_ok p" "\<not> pipe_full p"
  defines "p' \<equiv> p\<lparr>pipe_data := (pipe_data p)[unat (pipe_nwrite p) mod PIPE_SIZE := b], pipe_nwrite := pipe_nwrite p + 1\<rparr>"
  shows "pipe_ok p' \<and> pipe_contents p' = pipe_contents p @ [b] \<and> Suc (pipe_room p') = pipe_room p
    \<and> pipe_nread p' = pipe_nread p"
proof -
  let ?r = "unat (pipe_nread p)" and ?w = "unat (pipe_nwrite p)"
  have room: "?r + PIPE_SIZE < 2 ^ 32" "?w < ?r + PIPE_SIZE" "?r \<le> ?w"
    using assms(1,2) pipe_full_room [OF assms(1)] by (auto simp: pipe_room_def pipe_ok_def word_le_nat_alt split: if_splits)
  have w': "unat (pipe_nwrite p + 1) = Suc ?w"
    using room unat_plus1 [of "pipe_nwrite p"] by simp
  have other: "(pipe_data p)[?w mod PIPE_SIZE := b] ! (i mod PIPE_SIZE) = pipe_data p ! (i mod PIPE_SIZE)"
    if "?r \<le> i" "i < ?w" for i
  proof -
    have "i mod PIPE_SIZE \<noteq> ?w mod PIPE_SIZE"
    proof
      assume "i mod PIPE_SIZE = ?w mod PIPE_SIZE"
      then have "PIPE_SIZE dvd ?w - i"
        using that mod_eq_dvd_iff_nat [of i ?w PIPE_SIZE] by simp
      then have "PIPE_SIZE \<le> ?w - i" using that by (intro dvd_imp_le) auto
      then show False using that room by linarith
    qed
    then show ?thesis by simp
  qed
  have len: "?w mod PIPE_SIZE < length (pipe_data p)"
    using assms(1) by (simp add: pipe_ok_def PIPE_SIZE_def)
  have "pipe_contents p' = pipe_contents p @ [b]"
    using room other len by (simp add: p'_def pipe_contents_def w')
  moreover have "pipe_ok p'"
    using assms(1) room w' by (simp add: p'_def pipe_ok_def word_le_nat_alt)
  ultimately show ?thesis
    using room w' by (simp add: p'_def pipe_room_def)
qed

lemma pipe_put_law:
  "pipe_ok p \<Longrightarrow> pipe_put bs written p = (n, p') \<Longrightarrow>
   n = written + min (length bs) (pipe_room p) \<and> pipe_ok p' \<and>
   pipe_contents p' = pipe_contents p @ take (n - written) bs \<and> pipe_nread p' = pipe_nread p"
proof (induction bs written p rule: pipe_put.induct)
  case (2 b bs written p)
  show ?case
  proof (cases "pipe_full p")
    case True
    with 2 show ?thesis by (auto simp: pipe_full_room)
  next
    case False
    note s = pipe_store [OF 2(2) False, of b]
    from 2(1) [OF False] s 2(3) False show ?thesis
      by (auto simp: Suc_diff_le min_def)
  qed
qed simp

lemma pipe_read_loop_value:
  "pipe_read_loop p count k = take (count - k) (drop k (pipe_contents p))"
proof (induction p count k rule: pipe_read_loop.induct)
  case (1 p count k)
  let ?r = "unat (pipe_nread p)" and ?w = "unat (pipe_nwrite p)"
  show ?case
  proof (cases "k < count \<and> ?r + k < ?w")
    case True
    then have d: "drop k (pipe_contents p) = pipe_data p ! ((?r + k) mod PIPE_SIZE) # drop (Suc k) (pipe_contents p)"
      by (subst Cons_nth_drop_Suc [symmetric]) (auto simp: pipe_contents_def)
    have "count - k = Suc (count - Suc k)" using True by (simp add: Suc_diff_Suc)
    then show ?thesis
      using True 1 by (subst pipe_read_loop.simps) (simp add: d)
  next
    case False
    then show ?thesis
      by (subst pipe_read_loop.simps) auto
  qed
qed

lemma pipe_get_law:
  assumes "pipe_ok p" "pipe_get k p = (bs, p')"
  shows "bs = take k (pipe_contents p) \<and> pipe_ok p' \<and> pipe_contents p' = drop k (pipe_contents p)"
proof -
  let ?r = "unat (pipe_nread p)" and ?w = "unat (pipe_nwrite p)"
  have bs: "bs = take k (pipe_contents p)"
    using assms(2) by (auto simp: pipe_get_def pipe_read_loop_value Let_def split: if_splits)
  show ?thesis
  proof (cases "bs = []")
    case True
    then have "p' = p" "k = 0 \<or> pipe_contents p = []"
      using assms(2) bs by (auto simp: pipe_get_def pipe_read_loop_value Let_def split: if_splits)
    then show ?thesis using assms(1) bs True by auto
  next
    case False
    let ?n = "min (?w - ?r) k"
    have le: "?r \<le> ?w" using assms(1) by (simp add: pipe_ok_def word_le_nat_alt)
    have len: "length bs = ?n" by (simp add: bs)
    have "unat (of_nat (?r + length bs) :: u32) = ?r + length bs"
      using le len unsigned_less [of "pipe_nwrite p", where ?'a = nat] by (intro unat_of_nat_lt) simp
    moreover have "p' = p\<lparr>pipe_nread := of_nat (?r + length bs)\<rparr>"
      using assms(2) False by (auto simp: pipe_get_def Let_def split: if_splits)
    ultimately obtain m where m: "p' = p\<lparr>pipe_nread := m\<rparr>" "unat m = ?r + ?n"
      using len by metis
    have "pipe_contents p' = drop k (pipe_contents p)"
      using le by (simp add: pipe_contents_def m drop_map min_def)
    moreover have "pipe_ok p'"
      using assms(1) le by (simp add: pipe_ok_def word_le_nat_alt m)
    ultimately show ?thesis using bs by simp
  qed
qed

interpretation pp: byte_channel pipe_ok pipe_contents pipe_room "\<lambda>bs. pipe_put bs 0" pipe_get
proof
  fix p bs n p'
  assume "pipe_ok p" "pipe_put bs 0 p = (n, p')"
  from pipe_put_law [OF this]
  show "n = min (length bs) (pipe_room p) \<and> pipe_ok p' \<and> pipe_contents p' = pipe_contents p @ take n bs" by simp
qed (rule pipe_get_law)

text \<open>
  C6. A pipe delivers every byte it accepted exactly once and in order: for any sequence of reads and
  writes from its creation on, what was accepted is what was read followed by what it still holds,
  which is never more than 512 bytes.
\<close>

theorem pipe_fifo:
  assumes "channel_run (\<lambda>bs. pipe_put bs 0) pipe_get ops pipe_new = (accepted, delivered, p)"
  shows "accepted = delivered @ pipe_contents p \<and> length (pipe_contents p) \<le> PIPE_SIZE"
proof -
  have "pipe_ok pipe_new" "pipe_contents pipe_new = []"
    by (simp_all add: pipe_ok_def pipe_new_def pipe_contents_def)
  with pp.run_fifo [OF _ assms] show ?thesis
    by (auto simp: pipe_ok_def)
qed

theorem pipe_fifo_witness:
  "\<exists>p. channel_run (\<lambda>bs. pipe_put bs 0) pipe_get [Put [1, 2, 3], Get 2, Put [4], Get 1] pipe_new =
     ([1, 2, 3, 4], [1, 2, 3], p) \<and> pipe_contents p = [4]"
proof -
  have r: "fst (channel_run (\<lambda>bs. pipe_put bs 0) pipe_get [Put [1, 2, 3], Get 2, Put [4], Get 1] pipe_new) = [1, 2, 3, 4]"
    "fst (snd (channel_run (\<lambda>bs. pipe_put bs 0) pipe_get [Put [1, 2, 3], Get 2, Put [4], Get 1] pipe_new)) = [1, 2, 3]"
    by code_simp+
  obtain i e p where c: "channel_run (\<lambda>bs. pipe_put bs 0) pipe_get [Put [1, 2, 3], Get 2, Put [4], Get 1] pipe_new = (i, e, p)"
    by (rule prod_cases3)
  with r pipe_fifo [OF c] show ?thesis by auto
qed

text \<open>
  The counters do not wrap: after about four gigabytes (once the number of bytes read is within
  512 of the 32-bit maximum) the pipe accepts no byte any more, whatever is read from it.
\<close>

theorem pipe_exhausted:
  assumes "pipe_ok p" "2 ^ 32 \<le> unat (pipe_nread p) + PIPE_SIZE"
    and "channel_run (\<lambda>bs. pipe_put bs 0) pipe_get ops p = (accepted, delivered, p')"
  shows "accepted = [] \<and> 2 ^ 32 \<le> unat (pipe_nread p') + PIPE_SIZE"
  using assms
proof (induction ops arbitrary: p accepted delivered)
  case (Cons x ops)
  show ?case
  proof (cases x)
    case (Put bs)
    obtain n t where t: "pipe_put bs 0 p = (n, t)" by fastforce
    have "n = 0" "pipe_ok t" "pipe_nread t = pipe_nread p"
      using pipe_put_law [OF Cons.prems(1) t] Cons.prems(2) by (auto simp: pipe_room_def)
    with Cons.IH [of t] Cons.prems t show ?thesis by (auto simp: Put split: prod.splits)
  next
    case (Get k)
    obtain bs t where t: "pipe_get k p = (bs, t)" by fastforce
    have le: "unat (pipe_nread p) \<le> unat (pipe_nread t)"
    proof (cases "bs = []")
      case True
      then show ?thesis using t by (auto simp: pipe_get_def Let_def split: if_splits)
    next
      case False
      have "length bs \<le> unat (pipe_nwrite p) - unat (pipe_nread p)"
        using pipe_get_law [OF Cons.prems(1) t] by simp
      moreover have "unat (pipe_nread p) \<le> unat (pipe_nwrite p)"
        using Cons.prems(1) by (simp add: pipe_ok_def word_le_nat_alt)
      ultimately have "unat (pipe_nread p) + length bs < 2 ^ 32"
        using unsigned_less [of "pipe_nwrite p", where ?'a = nat] by simp
      then have "unat (of_nat (unat (pipe_nread p) + length bs) :: u32) = unat (pipe_nread p) + length bs"
        by (intro unat_of_nat_lt) simp
      moreover have "pipe_nread t = of_nat (unat (pipe_nread p) + length bs)"
        using t False by (auto simp: pipe_get_def Let_def split: if_splits)
      ultimately show ?thesis by simp
    qed
    have "pipe_ok t" using pipe_get_law [OF Cons.prems(1) t] by simp
    with Cons.IH [of t] Cons.prems t le show ?thesis by (auto simp: Get split: prod.splits)
  qed
qed auto

theorem pipe_exhausted_witness:
  "let p = pipe_new\<lparr>pipe_nread := - 512, pipe_nwrite := - 512\<rparr> in
   pipe_contents p = [] \<and> pipe_put [7] 0 p = (0, p)"
proof -
  let ?p = "pipe_new\<lparr>pipe_nread := - 512, pipe_nwrite := - 512\<rparr>"
  have ok: "pipe_ok ?p" by (simp add: pipe_ok_def pipe_new_def)
  have "unat (pipe_nread ?p) = 2 ^ 32 - 512" by simp
  then have big: "2 ^ 32 \<le> unat (pipe_nread ?p) + PIPE_SIZE" by (simp add: PIPE_SIZE_def)
  obtain n t where t: "pipe_put [7] 0 ?p = (n, t)" by fastforce
  have run: "channel_run (\<lambda>bs. pipe_put bs 0) pipe_get [Put [7]] ?p = (take n [7], [], t)"
    by (simp add: t del: pipe_put.simps)
  have "n = 0"
    using pipe_exhausted [OF ok big run] by (cases n) auto
  moreover have "pipe_full ?p"
    using pipe_full_room [OF ok] big by (simp add: pipe_room_def)
  ultimately show ?thesis
    by (simp add: Let_def pipe_contents_def)
qed

end
