(* ===== verification/Process.thy ===== *)
theory Process
  imports Pipe
begin

text \<open>
  The process structure (\<^verbatim>\<open>indo-kernel/src/process/process.rs\<close>): construction of kernel and user
  processes with their initial stack frames, the working directory, pending signals, and what dropping
  a process does to the pipes it holds. Process ids are slot numbers of the process table. The saved
  FPU state is opaque to the code and is left out. Open VFS files are shared cells, so a file handle
  is the address of one. Kernel stacks come from the allocator, which is a parameter.
\<close>

subsection \<open>Constants and types\<close>

definition MAX_PROCESSES :: nat where "MAX_PROCESSES = 32"
definition KERNEL_STACK_SIZE :: u64 where "KERNEL_STACK_SIZE = 8192"
definition MAX_FDS :: nat where "MAX_FDS = 16"
definition MAX_FILE_HANDLES :: nat where "MAX_FILE_HANDLES = 16"
definition MAX_MMAP_REGIONS :: nat where "MAX_MMAP_REGIONS = 16"
definition MAX_PIPES_PER_PROCESS :: nat where "MAX_PIPES_PER_PROCESS = 8"

type_synonym pid = nat

datatype fd_type =
    FdNone | FdStdin | FdStdout | FdStderr | FdNull | FdTty
  | FdPipe nat bool
  | FdFsFile nat

datatype wake_reason =
    WakeNone | WakeSleep u64 | WakeKeyboard | WakePipeRead nat | WakePipeWrite nat | WakeWaitForChild pid

datatype process_state = Ready | Running | Blocked | Zombie

record process =
  p_pid :: pid
  p_state :: process_state
  p_stack_pointer :: u64
  p_kernel_stack_base :: u64
  p_pml4_phys :: u64
  p_saved_cr3 :: u64
  p_user_rip :: "u64 option"
  p_user_rsp :: "u64 option"
  p_exit_code :: u64
  p_terminated_by_signal :: bool
  p_stop_signal :: nat
  p_is_user :: bool
  p_parent_pid :: "pid option"
  p_parent_generation :: u32
  p_generation :: u32
  p_wake_reason :: wake_reason
  p_fd_types :: "fd_type list"
  p_fd_flags :: "u8 list"
  p_file_handles :: "nat option list"
  p_heap_start :: u64
  p_heap_end :: u64
  p_cwd :: bytes
  p_mmap_regions :: "(u64 \<times> u64) list"
  p_mmap_count :: nat
  p_signals_pending :: u32
  p_signals_blocked :: u32
  p_signal_handlers :: "u64 list"
  p_pgid :: u64
  p_pipe_count :: u8

subsection \<open>Initial stack frames\<close>

text \<open>
  Kernel stacks are quadwords by address, page tables quadwords by physical address, and user memory
  bytes by the address space (the physical address of its top page table) and the address in it.
\<close>

record machine =
  m_kernel :: "u64 \<Rightarrow> u64"
  m_tables :: "u64 \<Rightarrow> u64"
  m_user :: "u64 \<Rightarrow> u64 \<Rightarrow> u8"

fun write_words :: "u64 \<Rightarrow> u64 list \<Rightarrow> (u64 \<Rightarrow> u64) \<Rightarrow> u64 \<Rightarrow> u64" where
  "write_words a [] m = m"
| "write_words a (v # vs) m = write_words (a + 8) vs (m(a := v))"

fun write_bytes :: "u64 \<Rightarrow> bytes \<Rightarrow> (u64 \<Rightarrow> u8) \<Rightarrow> u64 \<Rightarrow> u8" where
  "write_bytes a [] m = m"
| "write_bytes a (v # vs) m = write_bytes (a + 1) vs (m(a := v))"

definition write_user :: "u64 \<Rightarrow> u64 \<Rightarrow> bytes \<Rightarrow> machine \<Rightarrow> machine" where
  "write_user pml4 a bs m = m\<lparr>m_user := (m_user m)(pml4 := write_bytes a bs (m_user m pml4))\<rparr>"

definition read_user :: "u64 \<Rightarrow> u64 \<Rightarrow> nat \<Rightarrow> machine \<Rightarrow> bytes" where
  "read_user pml4 a n m = map (\<lambda>i. m_user m pml4 (a + of_nat i)) [0..<n]"

definition setup_initial_stack_frame_kernel :: "u64 \<Rightarrow> u64 \<Rightarrow> machine \<Rightarrow> u64 \<times> machine" where
  "setup_initial_stack_frame_kernel stack_top entry_virt m =
     (let sp = stack_top - 20 * 8 in
      (sp, m\<lparr>m_kernel := write_words sp (replicate 15 0 @ [entry_virt, 0x08, 0x202, stack_top, 0x10]) (m_kernel m)\<rparr>))"

definition setup_initial_stack_frame_user :: "u64 \<Rightarrow> u64 \<Rightarrow> u64 \<Rightarrow> u64 \<Rightarrow> u64 \<Rightarrow> machine \<Rightarrow> u64 \<times> machine" where
  "setup_initial_stack_frame_user user_cs user_ss stack_top user_rip user_rsp m =
     (let sp = stack_top - 20 * 8 in
      (sp, m\<lparr>m_kernel := write_words sp (replicate 15 0 @ [user_rip, user_cs, 0x202, user_rsp, user_ss]) (m_kernel m)\<rparr>))"

definition root_cwd :: bytes where
  "root_cwd = (replicate 256 0)[0 := 0x2F]"

definition new_kernel :: "pid \<Rightarrow> u64 \<Rightarrow> u64 \<Rightarrow> u64 option \<Rightarrow> machine \<Rightarrow> process option \<times> machine" where
  "new_kernel pid entry_virt cr3 stack m = (case stack of
     None \<Rightarrow> (None, m)
   | Some stack_base \<Rightarrow>
       (case setup_initial_stack_frame_kernel (stack_base + KERNEL_STACK_SIZE) entry_virt m of (sp, m') \<Rightarrow>
         (Some \<lparr>p_pid = pid, p_state = Ready, p_stack_pointer = sp, p_kernel_stack_base = stack_base,
            p_pml4_phys = cr3, p_saved_cr3 = 0, p_user_rip = None, p_user_rsp = None, p_exit_code = 0,
            p_terminated_by_signal = False, p_stop_signal = 0, p_is_user = False, p_parent_pid = None,
            p_parent_generation = 0, p_generation = 0, p_wake_reason = WakeNone,
            p_fd_types = replicate MAX_FDS FdNone, p_fd_flags = replicate MAX_FDS 0,
            p_file_handles = replicate MAX_FILE_HANDLES None, p_heap_start = 0, p_heap_end = 0, p_cwd = root_cwd,
            p_mmap_regions = replicate MAX_MMAP_REGIONS (0, 0), p_mmap_count = 0, p_signals_pending = 0,
            p_signals_blocked = 0, p_signal_handlers = replicate 32 0, p_pgid = 0, p_pipe_count = 0\<rparr>, m')))"

definition new_user ::
  "u64 \<Rightarrow> u64 \<Rightarrow> pid \<Rightarrow> u64 \<Rightarrow> u64 \<Rightarrow> u64 \<Rightarrow> pid option \<Rightarrow> u32 \<Rightarrow> u64 option \<Rightarrow> machine \<Rightarrow> process option \<times> machine" where
  "new_user user_cs user_ss pid user_rip user_rsp pml4 parent_pid parent_generation stack m = (case stack of
     None \<Rightarrow> (None, m)
   | Some stack_base \<Rightarrow>
       (case setup_initial_stack_frame_user user_cs user_ss (stack_base + KERNEL_STACK_SIZE) user_rip user_rsp m of (sp, m') \<Rightarrow>
         (Some \<lparr>p_pid = pid, p_state = Ready, p_stack_pointer = sp, p_kernel_stack_base = stack_base,
            p_pml4_phys = pml4, p_saved_cr3 = 0, p_user_rip = Some user_rip, p_user_rsp = Some user_rsp,
            p_exit_code = 0, p_terminated_by_signal = False, p_stop_signal = 0, p_is_user = True,
            p_parent_pid = parent_pid, p_parent_generation = parent_generation, p_generation = 0,
            p_wake_reason = WakeNone,
            p_fd_types = (replicate MAX_FDS FdNone)[0 := FdStdin, 1 := FdStdout, 2 := FdStderr],
            p_fd_flags = replicate MAX_FDS 0, p_file_handles = replicate MAX_FILE_HANDLES None,
            p_heap_start = 0, p_heap_end = 0, p_cwd = root_cwd,
            p_mmap_regions = replicate MAX_MMAP_REGIONS (0, 0), p_mmap_count = 0, p_signals_pending = 0,
            p_signals_blocked = 0, p_signal_handlers = replicate 32 0, p_pgid = 0, p_pipe_count = 0\<rparr>, m')))"

subsection \<open>Working directory\<close>

text \<open>The stored bytes up to the first zero; \<open>valid_utf8\<close> is the check of \<open>core::str::from_utf8\<close>.\<close>

definition cwd_str :: "(bytes \<Rightarrow> bool) \<Rightarrow> process \<Rightarrow> rstring" where
  "cwd_str valid_utf8 p =
     (let bs = takeWhile (\<lambda>b. b \<noteq> 0) (p_cwd p) in if valid_utf8 bs then bs else [0x2F])"

definition set_cwd :: "rstring \<Rightarrow> process \<Rightarrow> process" where
  "set_cwd path p =
     (let copy_len = min (length path) 255 in p\<lparr>p_cwd := overwrite 0 (take copy_len path) (replicate 256 0)\<rparr>)"

subsection \<open>Signals\<close>

definition signal_bit :: "nat \<Rightarrow> u32" where
  "signal_bit signum = push_bit (signum - 1) 1"

definition send_signal :: "nat \<Rightarrow> process \<Rightarrow> process" where
  "send_signal signum p = (if signum = 0 \<or> signum > 31 then p
     else p\<lparr>p_signals_pending := p_signals_pending p OR signal_bit signum\<rparr>)"

definition has_pending_signal :: "process \<Rightarrow> nat option" where
  "has_pending_signal p =
     (let pending = p_signals_pending p AND NOT (p_signals_blocked p) in
      if pending = 0 then None
      else map_option Suc (List.find (\<lambda>i. pending AND push_bit i 1 \<noteq> 0) [0..<32]))"

definition signal_handler :: "nat \<Rightarrow> process \<Rightarrow> u64" where
  "signal_handler signum p = (if signum = 0 \<or> signum > 31 then 0 else p_signal_handlers p ! (signum - 1))"

definition clear_pending_signal :: "nat \<Rightarrow> process \<Rightarrow> process" where
  "clear_pending_signal signum p = (if signum = 0 \<or> signum > 31 then p
     else p\<lparr>p_signals_pending := p_signals_pending p AND NOT (signal_bit signum)\<rparr>)"

subsection \<open>Dropping a process\<close>

text \<open>Closing one end and giving up one reference; the slot is freed with the last reference.\<close>

definition drop_pipe_ref :: "nat \<Rightarrow> bool \<Rightarrow> pipe_table \<Rightarrow> pipe_table" where
  "drop_pipe_ref idx writable pipes = (case pipes ! idx of
     None \<Rightarrow> pipes
   | Some p \<Rightarrow>
       let p = pipe_close writable p; old = pipe_refcount p in
       if old = 1 then pipes[idx := None]
       else if old > 0 then pipes[idx := Some (p\<lparr>pipe_refcount := old - 1\<rparr>)]
       else pipes[idx := Some p])"

definition pipe_fds :: "process \<Rightarrow> (nat \<times> bool) list" where
  "pipe_fds p = concat (map (\<lambda>fd. case fd of FdPipe idx w \<Rightarrow> if idx < MAX_PIPES then [(idx, w)] else [] | _ \<Rightarrow> []) (p_fd_types p))"

definition drop_process_pipes :: "process \<Rightarrow> pipe_table \<Rightarrow> pipe_table" where
  "drop_process_pipes p pipes = fold (\<lambda>(idx, w). drop_pipe_ref idx w) (pipe_fds p) pipes"

text \<open>The address space and the kernel stack a dropped process gives back.\<close>

definition drop_process_memory :: "process \<Rightarrow> u64 option \<times> u64 option" where
  "drop_process_memory p =
     (if p_is_user p \<and> p_pml4_phys p \<noteq> 0 then Some (p_pml4_phys p) else None,
      if p_kernel_stack_base p \<noteq> 0 then Some (p_kernel_stack_base p) else None)"

end
