(* ===== verification/User_Memory.thy ===== *)
theory User_Memory
  imports Process
begin

text \<open>
  The checks a system call makes on user addresses (\<^verbatim>\<open>indo-kernel/src/syscall/mod.rs\<close>): the range
  check, the walk of the four page-table levels for every page of a buffer, and the copying of path strings from
  user memory.
\<close>

subsection \<open>Address ranges\<close>

definition USER_ADDR_MAX :: u64 where "USER_ADDR_MAX = 0x00007FFFFFFFFFFF"

definition is_valid_user_range :: "u64 \<Rightarrow> u64 \<Rightarrow> bool" where
  "is_valid_user_range addr len =
     (if addr = 0 \<or> len = 0 then False
      else let end_addr = addr + len in end_addr > addr \<and> end_addr \<le> USER_ADDR_MAX)"

subsection \<open>Page tables\<close>

text \<open>Entries of x86-64 page tables: the present, user-accessible and huge-page bits and the frame address.\<close>

definition pte_present :: "u64 \<Rightarrow> bool" where "pte_present e \<longleftrightarrow> bit e 0"
definition pte_user :: "u64 \<Rightarrow> bool" where "pte_user e \<longleftrightarrow> bit e 2"
definition pte_huge :: "u64 \<Rightarrow> bool" where "pte_huge e \<longleftrightarrow> bit e 7"
definition pte_addr :: "u64 \<Rightarrow> u64" where "pte_addr e = e AND 0x000FFFFFFFFFF000"

definition table_entry :: "machine \<Rightarrow> u64 \<Rightarrow> u64 \<Rightarrow> u64" where
  "table_entry m table idx = m_tables m (table + 8 * (idx AND 0x1FF))"

text \<open>One iteration of the page loop: go on, or leave it with an answer.\<close>

datatype walk = NextPage | Answer bool

definition walk_page :: "machine \<Rightarrow> u64 \<Rightarrow> u64 \<Rightarrow> walk" where
  "walk_page m pml4 virt =
     (let pml4_entry = table_entry m pml4 (drop_bit 39 virt) in
      if \<not> pte_present pml4_entry then Answer False
      else let pdpt_entry = table_entry m (pte_addr pml4_entry) (drop_bit 30 virt) in
      if \<not> pte_present pdpt_entry then Answer False
      else if pte_huge pdpt_entry then Answer (pte_user pdpt_entry)
      else let pd_entry = table_entry m (pte_addr pdpt_entry) (drop_bit 21 virt) in
      if \<not> pte_present pd_entry then Answer False
      else if pte_huge pd_entry then Answer (pte_user pd_entry)
      else let pt_entry = table_entry m (pte_addr pd_entry) (drop_bit 12 virt) in
      if \<not> pte_present pt_entry then Answer False
      else if \<not> pte_user pt_entry then Answer False
      else NextPage)"

fun walk_pages :: "machine \<Rightarrow> u64 \<Rightarrow> u64 list \<Rightarrow> bool" where
  "walk_pages m pml4 [] = True"
| "walk_pages m pml4 (page # pages) = (case walk_page m pml4 (page * 4096) of
     NextPage \<Rightarrow> walk_pages m pml4 pages | Answer ok \<Rightarrow> ok)"

definition is_user_buffer_mapped :: "machine \<Rightarrow> u64 \<Rightarrow> u64 \<Rightarrow> u64 \<Rightarrow> bool" where
  "is_user_buffer_mapped m pml4 addr len =
     (if len = 0 \<or> addr = 0 then False
      else let start_page = addr div 4096; end_page = (addr + len - 1) div 4096 in
        walk_pages m pml4 (map of_nat [unat start_page..<Suc (unat end_page)]))"

subsection \<open>Path strings\<close>

text \<open>
  The loop over at most 4096 bytes: \<open>None\<close> is the early return with EFAULT. The path is empty if the
  bytes are not valid UTF-8.
\<close>

fun read_path_bytes :: "machine \<Rightarrow> u64 \<Rightarrow> u64 \<Rightarrow> nat \<Rightarrow> bytes option" where
  "read_path_bytes m pml4 a 0 = Some []"
| "read_path_bytes m pml4 a (Suc n) =
     (if \<not> is_valid_user_range a 1 then None
      else if \<not> is_user_buffer_mapped m pml4 a 1 then None
      else let byte = m_user m pml4 a in
        if byte = 0 then Some [] else map_option ((#) byte) (read_path_bytes m pml4 (a + 1) n))"

definition read_user_path :: "(bytes \<Rightarrow> bool) \<Rightarrow> machine \<Rightarrow> u64 \<Rightarrow> u64 \<Rightarrow> rstring option" where
  "read_user_path valid_utf8 m pml4 path_ptr =
     map_option (\<lambda>bs. if valid_utf8 bs then bs else []) (read_path_bytes m pml4 path_ptr 4096)"

subsection \<open>What the checks accept\<close>

lemma valid_user_range_iff:
  "is_valid_user_range addr len \<longleftrightarrow> 0 < unat addr \<and> 0 < unat len \<and> unat addr + unat len \<le> 0x00007FFFFFFFFFFF"
proof -
  have zero: "w = 0 \<longleftrightarrow> unat w = 0" for w :: u64 by (simp add: unat_eq_0)
  have sum: "unat (addr + len) = (unat addr + unat len) mod 2 ^ 64"
    by (simp add: unat_word_ariths)
  have max: "unat USER_ADDR_MAX = 0x00007FFFFFFFFFFF" by (simp add: USER_ADDR_MAX_def)
  have bounds: "unat addr < 2 ^ 64" "unat len < 2 ^ 64"
    using unsigned_less [of addr] unsigned_less [of len] by simp_all
  show ?thesis
  proof (cases "unat addr + unat len < 2 ^ 64")
    case True
    then have "unat (addr + len) = unat addr + unat len" using sum by simp
    then show ?thesis
      unfolding is_valid_user_range_def Let_def zero word_less_nat_alt word_le_nat_alt max by auto
  next
    case False
    then have "unat (addr + len) = unat addr + unat len - 2 ^ 64"
      unfolding sum using bounds by (simp add: mod_if)
    then have "\<not> unat addr < unat (addr + len)" using bounds by simp
    then show ?thesis
      using False unfolding is_valid_user_range_def Let_def zero word_less_nat_alt by auto
  qed
qed

text \<open>
  The range check accepts exactly the non-empty ranges that start above zero and end
  within the lower half, as unbounded arithmetic: no length makes the sum wrap around past the check.
\<close>

theorem user_range_bounds:
  "is_valid_user_range addr len \<longleftrightarrow> 0 < unat addr \<and> 0 < unat len \<and> unat addr + unat len \<le> 0x00007FFFFFFFFFFF"
  by (rule valid_user_range_iff)

text \<open>The translation of an address: the entry that maps it, with 1 GiB, 2 MiB and 4 KiB pages.\<close>

definition leaf_entry :: "machine \<Rightarrow> u64 \<Rightarrow> u64 \<Rightarrow> u64 option" where
  "leaf_entry m pml4 virt =
     (let e4 = table_entry m pml4 (drop_bit 39 virt) in
      if \<not> pte_present e4 then None
      else let e3 = table_entry m (pte_addr e4) (drop_bit 30 virt) in
      if \<not> pte_present e3 then None
      else if pte_huge e3 then Some e3
      else let e2 = table_entry m (pte_addr e3) (drop_bit 21 virt) in
      if \<not> pte_present e2 then None
      else if pte_huge e2 then Some e2
      else let e1 = table_entry m (pte_addr e2) (drop_bit 12 virt) in
      if \<not> pte_present e1 then None else Some e1)"

definition in_huge_page :: "machine \<Rightarrow> u64 \<Rightarrow> u64 \<Rightarrow> bool" where
  "in_huge_page m pml4 virt =
     (let e4 = table_entry m pml4 (drop_bit 39 virt); e3 = table_entry m (pte_addr e4) (drop_bit 30 virt);
          e2 = table_entry m (pte_addr e3) (drop_bit 21 virt) in pte_huge e3 \<or> pte_huge e2)"

definition user_leaf :: "machine \<Rightarrow> u64 \<Rightarrow> u64 \<Rightarrow> bool" where
  "user_leaf m pml4 virt = (case leaf_entry m pml4 virt of None \<Rightarrow> False | Some e \<Rightarrow> pte_user e)"

lemma walk_page_small:
  "\<not> in_huge_page m pml4 virt \<Longrightarrow> walk_page m pml4 virt = (if user_leaf m pml4 virt then NextPage else Answer False)"
  by (simp add: walk_page_def in_huge_page_def user_leaf_def leaf_entry_def Let_def)

lemma walk_pages_small:
  assumes "\<forall>page \<in> set pages. \<not> in_huge_page m pml4 (page * 4096)"
  shows "walk_pages m pml4 pages \<longleftrightarrow> (\<forall>page \<in> set pages. user_leaf m pml4 (page * 4096))"
  using assms by (induction pages) (simp_all add: walk_page_small)

text \<open>An address is translated like the start of its page.\<close>

lemma page_drop_bit:
  fixes a :: u64
  assumes "12 \<le> k"
  shows "drop_bit k (a div 4096 * 4096) = drop_bit k a"
proof -
  have "a div 4096 * 4096 = push_bit 12 (drop_bit 12 a)"
    by (simp add: push_bit_eq_mult drop_bit_eq_div)
  moreover have "drop_bit k (push_bit 12 (drop_bit 12 a)) = drop_bit k a"
    using assms by (intro bit_word_eqI) (auto simp: bit_drop_bit_eq bit_push_bit_iff dest: bit_imp_le_length)
  ultimately show ?thesis by simp
qed

lemma page_start_same:
  "user_leaf m pml4 (a div 4096 * 4096) = user_leaf m pml4 a"
  "in_huge_page m pml4 (a div 4096 * 4096) = in_huge_page m pml4 a"
  by (simp_all add: user_leaf_def leaf_entry_def in_huge_page_def Let_def page_drop_bit)

lemma unat_div_4096: "unat (a div 4096 :: u64) = unat a div 4096"
  by (simp add: unat_div)

text \<open>For a buffer in the user range that no huge page maps, the walk decides whether the last entry for every byte has the user bit.\<close>

lemma buffer_leaves:
  assumes "is_valid_user_range addr len" "\<forall>i < unat len. \<not> in_huge_page m pml4 (addr + of_nat i)"
  shows "is_user_buffer_mapped m pml4 addr len \<longleftrightarrow> (\<forall>i < unat len. user_leaf m pml4 (addr + of_nat i))"
proof -
  note v = assms(1) [unfolded valid_user_range_iff]
  let ?pages = "map of_nat [unat (addr div 4096)..<Suc (unat ((addr + len - 1) div 4096))] :: u64 list"
  have last: "unat (addr + len - 1) = unat addr + unat len - 1"
  proof -
    have "unat (addr + len) = unat addr + unat len" using v by (simp add: unat_word_ariths)
    then show ?thesis using v by (simp add: unat_minus1)
  qed
  have byte: "unat (addr + of_nat i) = unat addr + i" if "i < unat len" for i
    using that v by (simp add: unat_word_ariths unat_of_nat)
  have pages: "set ?pages = (\<lambda>i. (addr + of_nat i) div 4096) ` {..<unat len}"
  proof (intro set_eqI iffI)
    fix page assume "page \<in> set ?pages"
    then obtain n where n: "page = of_nat n" "unat addr div 4096 \<le> n" "n \<le> (unat addr + unat len - 1) div 4096"
      by (auto simp: unat_div_4096 last)
    define i where "i = max (n * 4096) (unat addr) - unat addr"
    have i: "i < unat len" "(unat addr + i) div 4096 = n"
      using n(2,3) v unfolding i_def by (auto simp: max_def)
    then have "unat ((addr + of_nat i) div 4096) = n" by (simp add: unat_div_4096 byte)
    moreover have "of_nat (unat ((addr + of_nat i) div 4096)) = (addr + of_nat i) div 4096" by simp
    ultimately have "page = (addr + of_nat i) div 4096" using n(1) by simp
    with i(1) show "page \<in> (\<lambda>i. (addr + of_nat i) div 4096) ` {..<unat len}" by blast
  next
    fix page assume "page \<in> (\<lambda>i. (addr + of_nat i) div 4096) ` {..<unat len}"
    then obtain i where i: "i < unat len" "page = (addr + of_nat i) div 4096" by blast
    have "unat page = (unat addr + i) div 4096" using i byte by (simp add: unat_div_4096)
    moreover have "unat addr div 4096 \<le> (unat addr + i) div 4096" "(unat addr + i) div 4096 \<le> (unat addr + unat len - 1) div 4096"
      using i(1) by (auto intro: div_le_mono)
    ultimately have "unat page \<in> {unat (addr div 4096)..<Suc (unat ((addr + len - 1) div 4096))}"
      by (simp add: unat_div_4096 last)
    then show "page \<in> set ?pages" unfolding set_map set_upt by (intro image_eqI [of _ _ "unat page"]) simp_all
  qed
  have "is_user_buffer_mapped m pml4 addr len = walk_pages m pml4 ?pages"
    using v by (auto simp: is_user_buffer_mapped_def Let_def)
  also have "\<dots> = (\<forall>page \<in> set ?pages. user_leaf m pml4 (page * 4096))"
    by (rule walk_pages_small, unfold pages) (use assms(2) in \<open>auto simp: page_start_same\<close>)
  also have "\<dots> = (\<forall>i < unat len. user_leaf m pml4 (addr + of_nat i))"
    unfolding pages by (auto simp: page_start_same)
  finally show ?thesis .
qed

text \<open>
  The processor lets a user program access an address if the entries of all four levels are present and have the user bit.
  The tables above a page for user access have it too if they were made by the mapping code.
\<close>

definition walk_entries :: "machine \<Rightarrow> u64 \<Rightarrow> u64 \<Rightarrow> u64 list" where
  "walk_entries m pml4 virt =
     (let e4 = table_entry m pml4 (drop_bit 39 virt); e3 = table_entry m (pte_addr e4) (drop_bit 30 virt);
          e2 = table_entry m (pte_addr e3) (drop_bit 21 virt); e1 = table_entry m (pte_addr e2) (drop_bit 12 virt)
      in [e4, e3, e2, e1])"

definition user_access :: "machine \<Rightarrow> u64 \<Rightarrow> u64 \<Rightarrow> bool" where
  "user_access m pml4 virt \<longleftrightarrow> list_all (\<lambda>e. pte_present e \<and> pte_user e) (walk_entries m pml4 virt)"

definition user_tables :: "machine \<Rightarrow> u64 \<Rightarrow> u64 \<Rightarrow> bool" where
  "user_tables m pml4 virt \<longleftrightarrow> (pte_user (last (walk_entries m pml4 virt)) \<longrightarrow> list_all pte_user (walk_entries m pml4 virt))"

lemma user_access_leaf:
  assumes "\<not> in_huge_page m pml4 virt"
  shows "user_access m pml4 virt \<Longrightarrow> user_leaf m pml4 virt"
    and "user_leaf m pml4 virt \<Longrightarrow> user_tables m pml4 virt \<Longrightarrow> user_access m pml4 virt"
  using assms by (auto simp: user_access_def user_tables_def walk_entries_def user_leaf_def leaf_entry_def in_huge_page_def Let_def split: if_splits)

text \<open>
  C14. For a buffer in the user range that no huge page maps: if the processor lets the program access every byte
  of it, the page-table walk answers yes. If the walk answers yes, the processor allows every access, provided that the
  tables above pages with the user bit have the user bit as well. The walk itself looks at this bit only in
  the last level.
\<close>

theorem buffer_mapped_exact:
  assumes "is_valid_user_range addr len" "\<forall>i < unat len. \<not> in_huge_page m pml4 (addr + of_nat i)"
  shows "((\<forall>i < unat len. user_access m pml4 (addr + of_nat i)) \<longrightarrow> is_user_buffer_mapped m pml4 addr len) \<and>
    (is_user_buffer_mapped m pml4 addr len \<and> (\<forall>i < unat len. user_tables m pml4 (addr + of_nat i)) \<longrightarrow>
      (\<forall>i < unat len. user_access m pml4 (addr + of_nat i)))"
  unfolding buffer_leaves [OF assms] using assms(2) user_access_leaf by blast

text \<open>One user page, at 0x1000, below the tables at 0x2000, 0x3000, 0x4000 and 0x5000.\<close>

definition one_page_machine :: machine where
  "one_page_machine = \<lparr>m_kernel = (\<lambda>_. 0),
     m_tables = (\<lambda>_. 0)(0x2000 := 0x3007, 0x3000 := 0x4007, 0x4000 := 0x5007, 0x5008 := 0x6007), m_user = (\<lambda>_ _. 0)\<rparr>"

lemma one_page_mapped:
  "\<not> in_huge_page one_page_machine 0x2000 0x1000" "user_access one_page_machine 0x2000 0x1000"
  "\<not> in_huge_page one_page_machine 0x2000 0x1001" "user_access one_page_machine 0x2000 0x1001"
  by (simp_all add: in_huge_page_def user_access_def walk_entries_def table_entry_def one_page_machine_def Let_def
      pte_present_def pte_user_def pte_huge_def pte_addr_def bit_iff_odd drop_bit_eq_div)

theorem buffer_mapped_exact_witness:
  "is_valid_user_range 0x1000 2 \<and> is_user_buffer_mapped one_page_machine 0x2000 0x1000 2"
proof -
  have valid: "is_valid_user_range 0x1000 2" by (simp add: is_valid_user_range_def USER_ADDR_MAX_def)
  have bytes: "i = 0 \<or> i = 1" if "i < 2" for i :: nat using that by auto
  have "\<forall>i < unat (2 :: u64). \<not> in_huge_page one_page_machine 0x2000 (0x1000 + of_nat i)"
    using one_page_mapped by (auto dest!: bytes)
  moreover have "\<forall>i < unat (2 :: u64). user_access one_page_machine 0x2000 (0x1000 + of_nat i)"
    using one_page_mapped by (auto dest!: bytes)
  ultimately show ?thesis using buffer_mapped_exact [OF valid] valid by blast
qed

end
