(* ===== verification/Scheduler.thy ===== *)
theory Scheduler
  imports User_Memory
begin

text \<open>
  The round-robin scheduler (\<^verbatim>\<open>indo-kernel/src/process/scheduler.rs\<close>): the process table, spawning,
  the timer tick with its quantum, switching, killing, reaping, re-parenting and signal delivery. Table
  indices are in range in every state that satisfies the invariant proved below, so the model reads
  the table without a bounds check.
\<close>

subsection \<open>State\<close>

definition DEFAULT_QUANTUM :: nat where "DEFAULT_QUANTUM = 5"

record scheduler =
  s_processes :: "process option list"
  s_generations :: "u32 list"
  s_current_pid :: "pid option"
  s_tick_counter :: nat
  s_quantum :: nat
  s_idle_pid :: pid

definition scheduler_new :: scheduler where
  "scheduler_new = \<lparr>s_processes = replicate MAX_PROCESSES None, s_generations = replicate MAX_PROCESSES 0,
     s_current_pid = None, s_tick_counter = 0, s_quantum = DEFAULT_QUANTUM, s_idle_pid = 0\<rparr>"

definition scheduler_init :: "scheduler \<Rightarrow> scheduler" where
  "scheduler_init s = s\<lparr>s_processes := replicate (length (s_processes s)) None, s_current_pid := None, s_tick_counter := 0\<rparr>"

definition update_process :: "pid \<Rightarrow> (process \<Rightarrow> process) \<Rightarrow> scheduler \<Rightarrow> scheduler" where
  "update_process pid f s = s\<lparr>s_processes := (s_processes s)[pid := map_option f (s_processes s ! pid)]\<rparr>"

definition current_process :: "scheduler \<Rightarrow> process option" where
  "current_process s = (case s_current_pid s of None \<Rightarrow> None | Some pid \<Rightarrow> s_processes s ! pid)"

definition sp_of :: "pid \<Rightarrow> scheduler \<Rightarrow> u64" where
  "sp_of pid s = (case s_processes s ! pid of None \<Rightarrow> 0 | Some p \<Rightarrow> p_stack_pointer p)"

subsection \<open>Spawning\<close>

definition spawn_idle :: "u64 \<Rightarrow> u64 \<Rightarrow> u64 \<Rightarrow> scheduler \<times> machine \<Rightarrow> scheduler \<times> machine" where
  "spawn_idle entry_virt cr3 stack = (\<lambda>(s, m). case new_kernel 0 entry_virt cr3 (Some stack) m of
     (None, m') \<Rightarrow> (s, m')
   | (Some p, m') \<Rightarrow> (s\<lparr>s_processes := (s_processes s)[0 := Some (p\<lparr>p_generation := 1\<rparr>)], s_idle_pid := 0\<rparr>, m'))"

definition free_pid :: "scheduler \<Rightarrow> pid option" where
  "free_pid s = List.find (\<lambda>i. s_processes s ! i = None) [1..<MAX_PROCESSES]"

definition spawn_kernel :: "u64 \<Rightarrow> u64 \<Rightarrow> u64 option \<Rightarrow> scheduler \<times> machine \<Rightarrow> pid option \<times> scheduler \<times> machine" where
  "spawn_kernel entry_virt cr3 stack = (\<lambda>(s, m). case free_pid s of
     None \<Rightarrow> (None, s, m)
   | Some pid \<Rightarrow>
       let gen = s_generations s ! pid + 1;
           s = s\<lparr>s_generations := (s_generations s)[pid := gen]\<rparr> in
       (case new_kernel pid entry_virt cr3 stack m of
          (None, m') \<Rightarrow> (None, s, m')
        | (Some p, m') \<Rightarrow>
            (Some pid, s\<lparr>s_processes := (s_processes s)[pid := Some (p\<lparr>p_state := Ready, p_generation := gen\<rparr>)]\<rparr>, m')))"

definition parent_generation_of :: "pid option \<Rightarrow> scheduler \<Rightarrow> u32" where
  "parent_generation_of parent s = (case parent of
     None \<Rightarrow> 0
   | Some p \<Rightarrow> if p < length (s_processes s) then (case s_processes s ! p of None \<Rightarrow> 0 | Some proc \<Rightarrow> p_generation proc) else 0)"

definition spawn_user ::
  "u64 \<Rightarrow> u64 \<Rightarrow> u64 \<Rightarrow> u64 \<Rightarrow> u64 \<Rightarrow> pid option \<Rightarrow> u64 option \<Rightarrow> scheduler \<times> machine \<Rightarrow> pid option \<times> scheduler \<times> machine" where
  "spawn_user user_cs user_ss user_rip user_rsp pml4 parent stack = (\<lambda>(s, m). case free_pid s of
     None \<Rightarrow> (None, s, m)
   | Some pid \<Rightarrow>
       let parent_gen = parent_generation_of parent s;
           gen = s_generations s ! pid + 1;
           s = s\<lparr>s_generations := (s_generations s)[pid := gen]\<rparr> in
       (case new_user user_cs user_ss pid user_rip user_rsp pml4 parent parent_gen stack m of
          (None, m') \<Rightarrow> (None, s, m')
        | (Some p, m') \<Rightarrow>
            (Some pid, s\<lparr>s_processes := (s_processes s)[pid := Some (p\<lparr>p_generation := gen, p_pgid := of_nat pid\<rparr>)]\<rparr>, m')))"

definition get_generation :: "pid \<Rightarrow> scheduler \<Rightarrow> u32" where
  "get_generation pid s = (if pid < length (s_generations s) then s_generations s ! pid else 0)"

subsection \<open>Choosing and switching\<close>

definition is_ready :: "scheduler \<Rightarrow> pid \<Rightarrow> bool" where
  "is_ready s pid = (case s_processes s ! pid of None \<Rightarrow> False | Some p \<Rightarrow> p_state p = Ready)"

definition find_next_ready :: "pid \<Rightarrow> scheduler \<Rightarrow> pid option" where
  "find_next_ready after_pid s =
     (let start = (after_pid + 1) mod MAX_PROCESSES in
      case List.find (\<lambda>check_pid. check_pid \<noteq> s_idle_pid s \<and> is_ready s check_pid)
             (map (\<lambda>i. (start + i) mod MAX_PROCESSES) [0..<MAX_PROCESSES]) of
        Some pid \<Rightarrow> Some pid
      | None \<Rightarrow> if is_ready s (s_idle_pid s) then Some (s_idle_pid s) else None)"

definition set_running :: "process \<Rightarrow> process" where
  "set_running p = p\<lparr>p_state := Running\<rparr>"

definition preempt :: "process \<Rightarrow> process" where
  "preempt p = (if p_state p = Running then p\<lparr>p_state := Ready\<rparr> else p)"

definition preempt_current :: "scheduler \<Rightarrow> scheduler" where
  "preempt_current s = (case s_current_pid s of None \<Rightarrow> s | Some old \<Rightarrow> update_process old preempt s)"

text \<open>The process after the current one, made the running one.\<close>

definition run_next :: "scheduler \<Rightarrow> pid \<times> scheduler" where
  "run_next s =
     (let next_pid = find_next_ready (case s_current_pid s of Some old \<Rightarrow> old | None \<Rightarrow> 0) s;
          new_pid = (case next_pid of Some pid \<Rightarrow> pid | None \<Rightarrow> s_idle_pid s)
      in (new_pid, (update_process new_pid set_running s)\<lparr>s_current_pid := Some new_pid\<rparr>))"

definition switch_next :: "scheduler \<Rightarrow> u64 \<times> scheduler" where
  "switch_next s = (case run_next (preempt_current s) of (new_pid, s') \<Rightarrow> (sp_of new_pid s', s'))"

definition save_current_sp :: "u64 \<Rightarrow> u64 \<Rightarrow> scheduler \<Rightarrow> scheduler" where
  "save_current_sp sp cr3 s = (case s_current_pid s of
     None \<Rightarrow> s
   | Some pid \<Rightarrow> update_process pid (\<lambda>p. p\<lparr>p_stack_pointer := sp, p_saved_cr3 := cr3\<rparr>) s)"

definition dispatch_first :: "pid \<Rightarrow> scheduler \<Rightarrow> u64 \<times> scheduler" where
  "dispatch_first pid s =
     (let s = (update_process pid set_running s)\<lparr>s_current_pid := Some pid, s_tick_counter := 0\<rparr> in (sp_of pid s, s))"

definition current_stack_pointer :: "scheduler \<Rightarrow> u64 \<times> scheduler" where
  "current_stack_pointer s = (case s_current_pid s of
     None \<Rightarrow> (0, s)
   | Some pid \<Rightarrow>
       (case s_processes s ! pid of
          Some p \<Rightarrow> (p_stack_pointer p, s)
        | None \<Rightarrow>
            let s = s\<lparr>s_current_pid := None\<rparr> in
            (case find_next_ready 0 s of
               None \<Rightarrow> (0, s)
             | Some next \<Rightarrow>
                 (sp_of next s, update_process next set_running (s\<lparr>s_current_pid := Some next\<rparr>)))))"

subsection \<open>Children\<close>

definition is_child_of :: "pid \<Rightarrow> pid \<Rightarrow> u32 \<Rightarrow> scheduler \<Rightarrow> bool" where
  "is_child_of child_pid parent_pid parent_gen s =
     (child_pid < length (s_processes s) \<and>
      (case s_processes s ! child_pid of
         None \<Rightarrow> False
       | Some p \<Rightarrow> p_parent_pid p = Some parent_pid \<and> p_parent_generation p = parent_gen))"

definition find_any_zombie_child :: "scheduler \<Rightarrow> (pid \<times> pid \<times> u64) option" where
  "find_any_zombie_child s = (case s_current_pid s of
     None \<Rightarrow> None
   | Some parent \<Rightarrow>
       let parent_gen = get_generation parent s in
       Option.bind (List.find (\<lambda>i. is_child_of i parent parent_gen s \<and>
             (case s_processes s ! i of None \<Rightarrow> False | Some p \<Rightarrow> p_state p = Zombie)) [0..<MAX_PROCESSES])
         (\<lambda>i. map_option (\<lambda>p. (p_pid p, parent, p_exit_code p)) (s_processes s ! i)))"

definition find_any_stopped_child :: "pid \<Rightarrow> u32 \<Rightarrow> scheduler \<Rightarrow> (pid \<times> nat) option" where
  "find_any_stopped_child parent_pid parent_gen s =
     Option.bind (List.find (\<lambda>i. is_child_of i parent_pid parent_gen s \<and>
           (case s_processes s ! i of None \<Rightarrow> False
            | Some p \<Rightarrow> p_state p = Blocked \<and> p_wake_reason p = WakeNone \<and> p_stop_signal p \<noteq> 0)) [0..<MAX_PROCESSES])
       (\<lambda>i. map_option (\<lambda>p. (p_pid p, p_stop_signal p)) (s_processes s ! i))"

definition reap_zombie :: "pid \<Rightarrow> scheduler \<Rightarrow> scheduler" where
  "reap_zombie pid s = s\<lparr>s_processes := (s_processes s)[pid := None]\<rparr>"

definition reparent_orphans_to_init :: "pid \<Rightarrow> pid \<Rightarrow> scheduler \<Rightarrow> scheduler" where
  "reparent_orphans_to_init init_pid old_parent s =
     (let init_gen = s_generations s ! init_pid in
      s\<lparr>s_processes := map (map_option (\<lambda>p. if p_parent_pid p = Some old_parent
          then p\<lparr>p_parent_pid := Some init_pid, p_parent_generation := init_gen\<rparr> else p)) (s_processes s)\<rparr>)"

definition kill_process :: "pid \<Rightarrow> scheduler \<Rightarrow> u64 \<times> scheduler" where
  "kill_process init_pid s =
     (let s = (case s_current_pid s of
          None \<Rightarrow> s
        | Some old \<Rightarrow> update_process old (\<lambda>p. p\<lparr>p_state := Zombie\<rparr>) (reparent_orphans_to_init init_pid old s))
      in case run_next s of (new_pid, s') \<Rightarrow> (sp_of new_pid s', s'))"

subsection \<open>Signal delivery\<close>

definition clear_signal :: "nat \<Rightarrow> process \<Rightarrow> process" where
  "clear_signal signum p = p\<lparr>p_signals_pending := p_signals_pending p AND NOT (signal_bit signum)\<rparr>"

definition terminate_by :: "nat \<Rightarrow> process \<Rightarrow> process" where
  "terminate_by signum p = clear_signal signum
     (p\<lparr>p_state := Zombie, p_exit_code := of_nat signum, p_terminated_by_signal := True\<rparr>)"

definition default_action :: "nat \<Rightarrow> process \<Rightarrow> process" where
  "default_action signum p =
     (if signum = 2 \<or> signum = 3 then terminate_by signum p
      else if signum = 20 then
        clear_signal signum (p\<lparr>p_state := Blocked, p_wake_reason := WakeNone, p_stop_signal := signum\<rparr>)
      else if signum = 18 \<or> signum = 19 then clear_signal signum p
      else terminate_by signum p)"

definition wake_waiting_parent :: "pid \<Rightarrow> scheduler \<Rightarrow> scheduler" where
  "wake_waiting_parent pid s = (case s_processes s ! pid of
     None \<Rightarrow> s
   | Some proc \<Rightarrow> (case p_parent_pid proc of
       None \<Rightarrow> s
     | Some parent \<Rightarrow> update_process parent (\<lambda>pp.
         if p_generation pp = p_parent_generation proc \<and> p_wake_reason pp = WakeWaitForChild pid
         then pp\<lparr>p_state := Ready, p_wake_reason := WakeNone\<rparr> else pp) s))"

text \<open>Redirecting the saved user context to a handler, with the interrupted address as its return address.\<close>

definition deliver_to_handler :: "pid \<Rightarrow> nat \<Rightarrow> u64 \<Rightarrow> process \<Rightarrow> scheduler \<times> machine \<Rightarrow> scheduler \<times> machine" where
  "deliver_to_handler pid signum handler_addr proc = (\<lambda>(s, m).
     let sp = p_stack_pointer proc; target_pml4 = p_pml4_phys proc in
     if sp = 0 \<or> target_pml4 = 0 then (s, m)
     else
       let iret_base = sp + 15 * 8;
           orig_rip = m_kernel m iret_base;
           orig_rsp = m_kernel m (iret_base + 24) in
       if orig_rsp < 8 \<or> orig_rsp - 8 > USER_ADDR_MAX then
         (update_process pid (\<lambda>p. clear_signal signum
            (p\<lparr>p_state := Zombie, p_exit_code := 11, p_terminated_by_signal := True\<rparr>)) s, m)
       else
         (update_process pid (clear_signal signum) s,
          (write_user target_pml4 (orig_rsp - 8) (to_le_bytes orig_rip) m)\<lparr>
            m_kernel := (m_kernel m)(iret_base := handler_addr, iret_base + 24 := orig_rsp - 8, sp + 5 * 8 := of_nat signum)\<rparr>))"

definition deliver_signal :: "pid \<Rightarrow> scheduler \<times> machine \<Rightarrow> scheduler \<times> machine" where
  "deliver_signal pid = (\<lambda>(s, m). case s_processes s ! pid of
     None \<Rightarrow> (s, m)
   | Some proc \<Rightarrow>
       if \<not> p_is_user proc then (s, m)
       else (case has_pending_signal proc of
         None \<Rightarrow> (s, m)
       | Some signum \<Rightarrow>
           let handler = signal_handler signum proc in
           if handler = 0 then (wake_waiting_parent pid (update_process pid (default_action signum) s), m)
           else if handler = 1 then (update_process pid (clear_signal signum) s, m)
           else deliver_to_handler pid signum handler proc (s, m)))"

definition switch_next_force :: "scheduler \<times> machine \<Rightarrow> u64 \<times> scheduler \<times> machine" where
  "switch_next_force = (\<lambda>(s, m). case run_next (preempt_current s) of (new_pid, s') \<Rightarrow>
     (sp_of new_pid s', if new_pid \<noteq> 0 then deliver_signal new_pid (s', m) else (s', m)))"

subsection \<open>The timer tick\<close>

definition wake_sleeper :: "u64 \<Rightarrow> process \<Rightarrow> process" where
  "wake_sleeper now p = (case p_wake_reason p of
     WakeSleep deadline \<Rightarrow>
       if p_state p = Blocked \<and> now \<ge> deadline then p\<lparr>p_state := Ready, p_wake_reason := WakeNone\<rparr> else p
   | _ \<Rightarrow> p)"

definition wake_sleepers :: "u64 \<Rightarrow> scheduler \<Rightarrow> scheduler" where
  "wake_sleepers now s = s\<lparr>s_processes := map (map_option (wake_sleeper now)) (s_processes s)\<rparr>"

definition on_tick :: "u64 \<Rightarrow> scheduler \<times> machine \<Rightarrow> u64 \<times> scheduler \<times> machine" where
  "on_tick now = (\<lambda>(s, m).
     let s = wake_sleepers now (s\<lparr>s_tick_counter := s_tick_counter s + 1\<rparr>) in
     if s_tick_counter s \<ge> s_quantum s then
       (case switch_next (s\<lparr>s_tick_counter := 0\<rparr>) of (new_sp, s') \<Rightarrow>
          (new_sp, case s_current_pid s' of
             None \<Rightarrow> (s', m) | Some next_pid \<Rightarrow> if next_pid \<noteq> 0 then deliver_signal next_pid (s', m) else (s', m)))
     else (case current_stack_pointer s of (sp, s') \<Rightarrow> (sp, s', m)))"

subsection \<open>Choosing the next process\<close>

text \<open>The number of slots passed over on the way round from \<open>a\<close> to \<open>b\<close>.\<close>

definition slot_distance :: "pid \<Rightarrow> pid \<Rightarrow> nat" where
  "slot_distance a b = (b + (2 * MAX_PROCESSES - 1 - a mod MAX_PROCESSES)) mod MAX_PROCESSES"

lemma slot_distance_less: "slot_distance a b < MAX_PROCESSES"
  by (simp add: slot_distance_def MAX_PROCESSES_def)

lemma round_mod: "((a + 1) mod 32 + x) mod 32 = (a mod 32 + 1 + x) mod (32 :: nat)"
  by (metis mod_add_left_eq)

lemma round_slot:
  assumes "b < MAX_PROCESSES"
  shows "((a + 1) mod MAX_PROCESSES + slot_distance a b) mod MAX_PROCESSES = b"
proof -
  have "((a + 1) mod 32 + (b + (63 - a mod 32)) mod 32) mod 32 = ((a + 1) mod 32 + (b + (63 - a mod 32))) mod 32"
    by (rule mod_add_right_eq)
  also have "\<dots> = (a mod 32 + 1 + (b + (63 - a mod 32))) mod 32"
    by (rule round_mod)
  also have "a mod 32 + 1 + (b + (63 - a mod 32)) = b + 64"
    using mod_less_divisor [of 32 a] by linarith
  also have "(b + 64) mod 32 = b"
    using assms mod_mult_self1 [of b 2 32] by (simp add: MAX_PROCESSES_def)
  finally show ?thesis unfolding slot_distance_def MAX_PROCESSES_def by simp
qed

lemma slot_distance_round:
  assumes "i < MAX_PROCESSES"
  shows "slot_distance a (((a + 1) mod MAX_PROCESSES + i) mod MAX_PROCESSES) = i"
proof -
  have "(((a + 1) mod 32 + i) mod 32 + (63 - a mod 32)) mod 32 = ((a + 1) mod 32 + i + (63 - a mod 32)) mod 32"
    by (rule mod_add_left_eq)
  also have "\<dots> = (a mod 32 + 1 + (i + (63 - a mod 32))) mod 32"
    unfolding add.assoc by (rule round_mod [unfolded add.assoc])
  also have "a mod 32 + 1 + (i + (63 - a mod 32)) = i + 64"
    using mod_less_divisor [of 32 a] by linarith
  also have "(i + 64) mod 32 = i"
    using assms mod_mult_self1 [of i 2 32] by (simp add: MAX_PROCESSES_def)
  finally show ?thesis unfolding slot_distance_def MAX_PROCESSES_def by simp
qed

lemma find_next_ready_cases:
  assumes "find_next_ready a s = r" "s_idle_pid s < MAX_PROCESSES"
  shows "(\<exists>pid < MAX_PROCESSES. r = Some pid \<and> pid \<noteq> s_idle_pid s \<and> is_ready s pid \<and>
      (\<forall>q < MAX_PROCESSES. q \<noteq> s_idle_pid s \<and> is_ready s q \<longrightarrow> slot_distance a pid \<le> slot_distance a q))
    \<or> (\<forall>q < MAX_PROCESSES. q \<noteq> s_idle_pid s \<longrightarrow> \<not> is_ready s q) \<and>
      r = (if is_ready s (s_idle_pid s) then Some (s_idle_pid s) else None)"
proof -
  let ?slot = "\<lambda>i. ((a + 1) mod MAX_PROCESSES + i) mod MAX_PROCESSES"
  let ?good = "\<lambda>pid. pid \<noteq> s_idle_pid s \<and> is_ready s pid"
  show ?thesis
  proof (cases "List.find ?good (map ?slot [0..<MAX_PROCESSES])")
    case None
    have "\<not> ?good q" if "q < MAX_PROCESSES" for q
    proof -
      have "?slot (slot_distance a q) \<in> set (map ?slot [0..<MAX_PROCESSES])"
        unfolding set_map by (rule imageI) (simp add: slot_distance_less)
      then have "q \<in> set (map ?slot [0..<MAX_PROCESSES])" unfolding round_slot [OF that] .
      moreover have "\<not> (\<exists>x. x \<in> set (map ?slot [0..<MAX_PROCESSES]) \<and> ?good x)"
        using None unfolding find_None_iff .
      ultimately show ?thesis by blast
    qed
    moreover have "r = (if is_ready s (s_idle_pid s) then Some (s_idle_pid s) else None)"
      using None assms(1) by (simp add: find_next_ready_def)
    ultimately show ?thesis by blast
  next
    case (Some pid)
    then obtain i where i: "i < MAX_PROCESSES" "pid = ?slot i" "?good pid" "\<forall>j < i. \<not> ?good (?slot j)"
      by (auto simp: find_Some_iff)
    have "slot_distance a pid \<le> slot_distance a q" if "q < MAX_PROCESSES" "?good q" for q
    proof (rule ccontr)
      assume "\<not> slot_distance a pid \<le> slot_distance a q"
      then have "slot_distance a q < i" using slot_distance_round [OF i(1), of a] i(2) by simp
      with i(4) have "\<not> ?good (?slot (slot_distance a q))" by blast
      with that(2) show False unfolding round_slot [OF that(1)] by blast
    qed
    moreover have "pid < MAX_PROCESSES" using i(2) by (simp add: MAX_PROCESSES_def)
    moreover have "r = Some pid" using Some assms(1) by (simp add: find_next_ready_def)
    ultimately show ?thesis using i(3) by blast
  qed
qed

text \<open>
  C18. The choice of the next process: among the ready processes other than idle the first one
  in cyclic order after the given one; the idle process only if no other is ready; nothing only if
  idle is not ready either.
\<close>

theorem find_next_ready_spec:
  assumes "s_idle_pid s < MAX_PROCESSES"
  shows "(find_next_ready a s = Some pid \<longleftrightarrow>
      (pid < MAX_PROCESSES \<and> pid \<noteq> s_idle_pid s \<and> is_ready s pid \<and>
        (\<forall>q < MAX_PROCESSES. q \<noteq> s_idle_pid s \<and> is_ready s q \<longrightarrow> slot_distance a pid \<le> slot_distance a q))
      \<or> (pid = s_idle_pid s \<and> is_ready s pid \<and> (\<forall>q < MAX_PROCESSES. q \<noteq> s_idle_pid s \<longrightarrow> \<not> is_ready s q)))"
proof (cases "\<forall>q < MAX_PROCESSES. q \<noteq> s_idle_pid s \<longrightarrow> \<not> is_ready s q")
  case True
  then have "find_next_ready a s = (if is_ready s (s_idle_pid s) then Some (s_idle_pid s) else None)"
    using find_next_ready_cases [OF refl assms, of a] by blast
  with True show ?thesis by (cases "pid < MAX_PROCESSES") auto
next
  case False
  then obtain p where p: "p < MAX_PROCESSES" "find_next_ready a s = Some p" "p \<noteq> s_idle_pid s" "is_ready s p"
      "\<forall>q < MAX_PROCESSES. q \<noteq> s_idle_pid s \<and> is_ready s q \<longrightarrow> slot_distance a p \<le> slot_distance a q"
    using find_next_ready_cases [OF refl assms, of a] by blast
  have "pid = p" if "pid < MAX_PROCESSES" "slot_distance a pid \<le> slot_distance a p" "slot_distance a p \<le> slot_distance a pid"
    using round_slot [OF that(1), of a] round_slot [OF p(1), of a] le_antisym [OF that(2,3)] by simp
  moreover have "find_next_ready a s = Some pid \<longleftrightarrow> pid = p" using p(2) by auto
  moreover have "\<not> (pid = s_idle_pid s \<and> is_ready s pid \<and> (\<forall>q < MAX_PROCESSES. q \<noteq> s_idle_pid s \<longrightarrow> \<not> is_ready s q))"
    using False by blast
  ultimately show ?thesis using p(1,3,4,5) by blast
qed

subsection \<open>The table invariant\<close>

text \<open>
  What the table promises: it has all its slots; a process is in the slot of its number; only the
  current process is running; parents are other slots; the current slot and the idle slot are occupied; and idle
  is a kernel process without a parent that is always ready or running.
\<close>

definition slot_ok :: "pid option \<Rightarrow> pid \<Rightarrow> process \<Rightarrow> bool" where
  "slot_ok cur i p = (p_pid p = i \<and> (p_state p = Running \<longrightarrow> cur = Some i)
     \<and> (case p_parent_pid p of None \<Rightarrow> True | Some q \<Rightarrow> q < MAX_PROCESSES \<and> q \<noteq> i)
     \<and> (i = 0 \<longrightarrow> \<not> p_is_user p \<and> p_parent_pid p = None \<and> (p_state p = Ready \<or> p_state p = Running)))"

definition occupied :: "scheduler \<Rightarrow> pid \<Rightarrow> bool" where
  "occupied s i = (i < MAX_PROCESSES \<and> s_processes s ! i \<noteq> None)"

definition sched_inv :: "scheduler \<Rightarrow> bool" where
  "sched_inv s = (length (s_processes s) = MAX_PROCESSES \<and> length (s_generations s) = MAX_PROCESSES
     \<and> s_idle_pid s = 0 \<and> occupied s 0
     \<and> (case s_current_pid s of None \<Rightarrow> True | Some c \<Rightarrow> occupied s c)
     \<and> (\<forall>i < MAX_PROCESSES. case s_processes s ! i of None \<Rightarrow> True | Some p \<Rightarrow> slot_ok (s_current_pid s) i p))"

lemma sched_invD:
  assumes "sched_inv s"
  shows "length (s_processes s) = MAX_PROCESSES" "length (s_generations s) = MAX_PROCESSES" "s_idle_pid s = 0" "occupied s 0"
    and "s_current_pid s = Some c \<Longrightarrow> occupied s c"
    and "i < MAX_PROCESSES \<Longrightarrow> s_processes s ! i = Some p \<Longrightarrow> slot_ok (s_current_pid s) i p"
  using assms unfolding sched_inv_def by (auto split: option.splits)

lemma sched_invI:
  assumes "length (s_processes s) = MAX_PROCESSES" "length (s_generations s) = MAX_PROCESSES" "s_idle_pid s = 0" "occupied s 0"
    and "\<And>c. s_current_pid s = Some c \<Longrightarrow> occupied s c"
    and "\<And>i p. i < MAX_PROCESSES \<Longrightarrow> s_processes s ! i = Some p \<Longrightarrow> slot_ok (s_current_pid s) i p"
  shows "sched_inv s"
  using assms unfolding sched_inv_def by (auto split: option.splits)

lemma update_process_simps [simp]:
  "s_generations (update_process pid f s) = s_generations s"
  "s_current_pid (update_process pid f s) = s_current_pid s"
  "s_idle_pid (update_process pid f s) = s_idle_pid s"
  "s_tick_counter (update_process pid f s) = s_tick_counter s"
  "s_quantum (update_process pid f s) = s_quantum s"
  "length (s_processes (update_process pid f s)) = length (s_processes s)"
  by (simp_all add: update_process_def)

lemma update_process_nth:
  "s_processes (update_process pid f s) ! i =
     (if i = pid \<and> i < length (s_processes s) then map_option f (s_processes s ! i) else s_processes s ! i)"
  by (cases "pid < length (s_processes s)") (auto simp: update_process_def nth_list_update list_update_beyond)

lemma update_process_None [simp]:
  "s_processes (update_process pid f s) ! i = None \<longleftrightarrow> s_processes s ! i = None"
  by (simp add: update_process_nth)

lemma occupied_update [simp]: "occupied (update_process pid f s) i = occupied s i"
  by (simp add: occupied_def)

text \<open>A change of one process that keeps its slot's promise keeps the invariant.\<close>

lemma update_process_inv:
  assumes "sched_inv s"
    and "\<And>p. pid < MAX_PROCESSES \<Longrightarrow> s_processes s ! pid = Some p \<Longrightarrow> slot_ok (s_current_pid s) pid p
      \<Longrightarrow> slot_ok (s_current_pid s) pid (f p)"
  shows "sched_inv (update_process pid f s)"
proof (rule sched_invI)
  fix i p
  assume i: "i < MAX_PROCESSES" and "s_processes (update_process pid f s) ! i = Some p"
  then show "slot_ok (s_current_pid (update_process pid f s)) i p"
    using assms(2) sched_invD(6) [OF assms(1) i] sched_invD(1) [OF assms(1)]
    by (auto simp: update_process_nth split: if_splits)
qed (use sched_invD [OF assms(1)] in simp_all)

text \<open>Nobody runs: the table between taking the processor from one process and giving it to the next.\<close>

definition nobody_runs :: "scheduler \<Rightarrow> bool" where
  "nobody_runs s = (\<forall>i < MAX_PROCESSES. case s_processes s ! i of None \<Rightarrow> True | Some p \<Rightarrow> p_state p \<noteq> Running)"

lemma preempt_not_running: "p_state (preempt p) \<noteq> Running"
  by (simp add: preempt_def)

lemma preempt_current_inv:
  assumes "sched_inv s"
  shows "sched_inv (preempt_current s)" "nobody_runs (preempt_current s)" "s_current_pid (preempt_current s) = s_current_pid s"
proof -
  show "sched_inv (preempt_current s)"
    unfolding preempt_current_def
    by (auto intro!: update_process_inv [OF assms] assms simp: preempt_def slot_ok_def split: option.split)
  show "nobody_runs (preempt_current s)"
    unfolding nobody_runs_def
  proof (intro allI impI)
    fix i assume i: "i < MAX_PROCESSES"
    show "case s_processes (preempt_current s) ! i of None \<Rightarrow> True | Some p \<Rightarrow> p_state p \<noteq> Running"
      using sched_invD(6) [OF assms i] i sched_invD(1) [OF assms]
      by (auto simp: preempt_current_def update_process_nth preempt_not_running slot_ok_def split: option.splits if_splits)
  qed
  show "s_current_pid (preempt_current s) = s_current_pid s"
    by (simp add: preempt_current_def split: option.split)
qed

lemma is_ready_occupied: "is_ready s i \<Longrightarrow> i < MAX_PROCESSES \<Longrightarrow> occupied s i"
  by (auto simp: is_ready_def occupied_def split: option.splits)

text \<open>With nobody running there is always someone to run: idle at least.\<close>

lemma find_next_ready_total:
  assumes "sched_inv s" "nobody_runs s"
  obtains pid where "find_next_ready a s = Some pid" "pid < MAX_PROCESSES" "is_ready s pid" "occupied s pid"
proof -
  obtain p where p: "s_processes s ! 0 = Some p"
    using sched_invD(4) [OF assms(1)] by (auto simp: occupied_def)
  have "p_state p \<noteq> Running"
    using assms(2) p unfolding nobody_runs_def by (auto simp: MAX_PROCESSES_def dest: spec [of _ 0])
  with sched_invD(6) [OF assms(1) _ p] have idle: "is_ready s 0"
    using p by (auto simp: slot_ok_def is_ready_def MAX_PROCESSES_def)
  then have "\<exists>pid < MAX_PROCESSES. find_next_ready a s = Some pid \<and> is_ready s pid"
    using find_next_ready_cases [OF refl, of s a] sched_invD(3) [OF assms(1)]
    by (auto simp: MAX_PROCESSES_def)
  then show thesis using that is_ready_occupied by blast
qed

lemma run_next_inv:
  assumes "sched_inv s" "nobody_runs s" "run_next s = (pid, s')"
  shows "sched_inv s'" "s_current_pid s' = Some pid" "is_ready s pid" "pid < MAX_PROCESSES"
    "find_next_ready (case s_current_pid s of Some old \<Rightarrow> old | None \<Rightarrow> 0) s = Some pid"
    "s' = (update_process pid set_running s)\<lparr>s_current_pid := Some pid\<rparr>"
proof -
  obtain q where q: "find_next_ready (case s_current_pid s of Some old \<Rightarrow> old | None \<Rightarrow> 0) s = Some q"
      "q < MAX_PROCESSES" "is_ready s q" "occupied s q"
    by (rule find_next_ready_total [OF assms(1,2)])
  have eq: "pid = q" "s' = (update_process q set_running s)\<lparr>s_current_pid := Some q\<rparr>"
    using assms(3) q(1) by (auto simp: run_next_def Let_def)
  with q show "s_current_pid s' = Some pid" "is_ready s pid" "pid < MAX_PROCESSES"
    "find_next_ready (case s_current_pid s of Some old \<Rightarrow> old | None \<Rightarrow> 0) s = Some pid"
    "s' = (update_process pid set_running s)\<lparr>s_current_pid := Some pid\<rparr>" by simp_all
  show "sched_inv s'"
  proof (rule sched_invI)
    fix i p
    assume i: "i < MAX_PROCESSES" and p: "s_processes s' ! i = Some p"
    then obtain p0 where p0: "s_processes s ! i = Some p0" "p = (if i = q then set_running p0 else p0)"
      using eq(2) sched_invD(1) [OF assms(1)] by (auto simp: update_process_nth split: if_splits)
    have "p_state p0 \<noteq> Running"
      using assms(2) p0(1) i unfolding nobody_runs_def by (auto dest!: spec [of _ i])
    with sched_invD(6) [OF assms(1) i p0(1)] p0(2) eq(2) show "slot_ok (s_current_pid s') i p"
      by (auto simp: slot_ok_def set_running_def)
  qed (use eq(2) q(4) sched_invD [OF assms(1)] in \<open>simp_all add: occupied_def\<close>)
qed

lemma switch_next_inv:
  assumes "sched_inv s" "switch_next s = (sp, s')"
  shows "sched_inv s'"
  using assms(2) run_next_inv(1) [OF preempt_current_inv(1,2) [OF assms(1)]]
  by (auto simp: switch_next_def split: prod.splits)

text \<open>
  A step that leaves the slots' numbers, parents and kinds alone and puts nobody but the current process in the
  running state.
\<close>

definition tame :: "(process \<Rightarrow> process) \<Rightarrow> bool" where
  "tame f = (\<forall>p. p_pid (f p) = p_pid p \<and> p_parent_pid (f p) = p_parent_pid p \<and> p_is_user (f p) = p_is_user p
     \<and> (p_state (f p) = Running \<longrightarrow> p_state p = Running))"

lemma tame_slot_ok:
  assumes "tame f" "slot_ok cur i p" "i = 0 \<Longrightarrow> p_state p = Ready \<or> p_state p = Running \<Longrightarrow> p_state (f p) = Ready \<or> p_state (f p) = Running"
  shows "slot_ok cur i (f p)"
  using assms unfolding slot_ok_def tame_def by auto

lemma tame_update_inv:
  assumes "sched_inv s" "tame f" "pid \<noteq> 0"
  shows "sched_inv (update_process pid f s)"
  by (rule update_process_inv [OF assms(1)]) (use assms(2,3) in \<open>auto intro: tame_slot_ok\<close>)

lemma tame_clear_signal [simp]: "tame (clear_signal n)"
  by (simp add: tame_def clear_signal_def)

lemma tame_terminate_by [simp]: "tame (terminate_by n)"
  by (simp add: tame_def terminate_by_def clear_signal_def)

lemma tame_default_action [simp]: "tame (default_action n)"
  by (simp add: tame_def default_action_def terminate_by_def clear_signal_def)

lemma wake_waiting_parent_inv: "sched_inv s \<Longrightarrow> sched_inv (wake_waiting_parent pid s)"
  unfolding wake_waiting_parent_def
  by (auto intro!: update_process_inv simp: slot_ok_def split: option.split)

lemma wake_waiting_parent_simps [simp]:
  "s_current_pid (wake_waiting_parent pid s) = s_current_pid s"
  "s_idle_pid (wake_waiting_parent pid s) = s_idle_pid s"
  "s_tick_counter (wake_waiting_parent pid s) = s_tick_counter s"
  "s_quantum (wake_waiting_parent pid s) = s_quantum s"
  by (simp_all add: wake_waiting_parent_def split: option.split)

lemma deliver_signal_simps [simp]:
  "s_current_pid (fst (deliver_signal pid st)) = s_current_pid (fst st)"
  "s_idle_pid (fst (deliver_signal pid st)) = s_idle_pid (fst st)"
  "s_tick_counter (fst (deliver_signal pid st)) = s_tick_counter (fst st)"
  "s_quantum (fst (deliver_signal pid st)) = s_quantum (fst st)"
  by (cases st; simp add: deliver_signal_def deliver_to_handler_def Let_def split: option.split)+

lemma deliver_signal_inv:
  assumes "sched_inv (fst st)" "pid \<noteq> 0"
  shows "sched_inv (fst (deliver_signal pid st))"
proof -
  obtain s m where st: "st = (s, m)" by (cases st)
  have "tame (\<lambda>p. clear_signal n (p\<lparr>p_state := Zombie, p_exit_code := 11, p_terminated_by_signal := True\<rparr>))" for n
    by (simp add: tame_def clear_signal_def)
  then show ?thesis
    using assms unfolding st
    by (auto simp: deliver_signal_def deliver_to_handler_def Let_def intro!: tame_update_inv wake_waiting_parent_inv split: option.split)
qed

lemma switch_next_force_inv:
  assumes "sched_inv (fst st)"
  shows "sched_inv (fst (snd (switch_next_force st)))"
proof -
  obtain s m where st: "st = (s, m)" by (cases st)
  obtain pid s' where r: "run_next (preempt_current s) = (pid, s')" by (cases "run_next (preempt_current s)")
  have "sched_inv s'"
    using run_next_inv(1) [OF preempt_current_inv(1,2) r] assms by (simp add: st)
  then show ?thesis
    using r deliver_signal_inv [of "(s', m)" pid] by (simp add: st switch_next_force_def)
qed

lemma wake_sleeper_slot_ok: "slot_ok cur i p \<Longrightarrow> slot_ok cur i (wake_sleeper now p)"
  by (auto simp: slot_ok_def wake_sleeper_def split: wake_reason.split option.split)

lemma map_slots_inv:
  assumes "sched_inv s" "\<And>i p. i < MAX_PROCESSES \<Longrightarrow> s_processes s ! i = Some p \<Longrightarrow> slot_ok (s_current_pid s) i p
    \<Longrightarrow> slot_ok (s_current_pid s) i (f p)"
  shows "sched_inv (s\<lparr>s_processes := map (map_option f) (s_processes s)\<rparr>)"
  by (rule sched_invI)
    (use assms(2) sched_invD [OF assms(1)] in \<open>auto simp: occupied_def\<close>)

lemma counter_inv [simp]: "sched_inv (s\<lparr>s_tick_counter := n\<rparr>) = sched_inv s"
  by (simp add: sched_inv_def occupied_def [abs_def] cong: option.case_cong)

lemma current_stack_pointer_inv:
  assumes "sched_inv s"
  shows "snd (current_stack_pointer s) = s"
  using sched_invD(5) [OF assms]
  by (auto simp: current_stack_pointer_def occupied_def split: option.split)

lemma wake_sleepers_inv: "sched_inv s \<Longrightarrow> sched_inv (wake_sleepers now s)"
  unfolding wake_sleepers_def by (rule map_slots_inv) (auto intro: wake_sleeper_slot_ok)

lemma on_tick_inv:
  assumes "sched_inv (fst st)"
  shows "sched_inv (fst (snd (on_tick now st)))"
proof -
  obtain s m where st: "st = (s, m)" by (cases st)
  let ?s = "wake_sleepers now (s\<lparr>s_tick_counter := s_tick_counter s + 1\<rparr>)"
  have inv: "sched_inv ?s" using assms by (simp add: st wake_sleepers_inv)
  show ?thesis
  proof (cases "s_tick_counter ?s \<ge> s_quantum ?s")
    case True
    obtain sp s' where sw: "switch_next (?s\<lparr>s_tick_counter := 0\<rparr>) = (sp, s')" by (cases "switch_next (?s\<lparr>s_tick_counter := 0\<rparr>)")
    have "sched_inv s'" by (rule switch_next_inv [OF _ sw]) (use inv in simp)
    then show ?thesis
      using True sw deliver_signal_inv [of "(s', m)"]
      by (auto simp: st on_tick_def Let_def split: option.split)
  next
    case False
    then show ?thesis
      using inv current_stack_pointer_inv [OF inv]
      by (simp add: st on_tick_def Let_def case_prod_beta)
  qed
qed

lemma reparent_inv:
  assumes "sched_inv s" "init_pid < MAX_PROCESSES" "\<And>p. s_processes s ! init_pid = Some p \<Longrightarrow> p_parent_pid p = None"
  shows "sched_inv (reparent_orphans_to_init init_pid old s)"
  unfolding reparent_orphans_to_init_def Let_def
  by (rule map_slots_inv [OF assms(1)]) (use assms(2,3) in \<open>auto simp: slot_ok_def split: option.splits\<close>)

lemma kill_process_inv:
  assumes "sched_inv s" "init_pid < MAX_PROCESSES" "\<And>p. s_processes s ! init_pid = Some p \<Longrightarrow> p_parent_pid p = None"
    and "s_current_pid s = Some c" "c \<noteq> 0"
  shows "sched_inv (snd (kill_process init_pid s))"
proof -
  let ?kill = "\<lambda>p. p\<lparr>p_state := Zombie\<rparr>"
  let ?s = "update_process c ?kill (reparent_orphans_to_init init_pid c s)"
  have rep: "sched_inv (reparent_orphans_to_init init_pid c s)" by (rule reparent_inv [OF assms(1-3)])
  have inv: "sched_inv ?s"
    by (rule tame_update_inv [OF rep]) (use assms(5) in \<open>simp_all add: tame_def\<close>)
  have cur: "s_current_pid ?s = Some c" using assms(4) by (simp add: reparent_orphans_to_init_def Let_def)
  have "nobody_runs ?s"
    unfolding nobody_runs_def
  proof (intro allI impI)
    fix i assume i: "i < MAX_PROCESSES"
    show "case s_processes ?s ! i of None \<Rightarrow> True | Some p \<Rightarrow> p_state p \<noteq> Running"
    proof (cases "i = c")
      case True
      then show ?thesis using i sched_invD(1) [OF rep] by (auto simp: update_process_nth split: option.splits)
    next
      case False
      then show ?thesis using sched_invD(6) [OF inv i] cur by (auto simp: slot_ok_def split: option.splits)
    qed
  qed
  then show ?thesis
    using run_next_inv(1) [OF inv] assms(4) by (auto simp: kill_process_def Let_def split: prod.splits)
qed

lemma free_pid_Some:
  assumes "free_pid s = Some pid"
  shows "0 < pid" "pid < MAX_PROCESSES" "s_processes s ! pid = None"
proof -
  have "pid \<in> set [1..<MAX_PROCESSES] \<and> s_processes s ! pid = None"
    using assms unfolding free_pid_def find_Some_iff by (metis nth_mem)
  then show "0 < pid" "pid < MAX_PROCESSES" "s_processes s ! pid = None" by auto
qed

lemma place_inv:
  assumes "sched_inv s" "0 < pid" "pid < MAX_PROCESSES" "slot_ok None pid p" "length gens = MAX_PROCESSES"
  shows "sched_inv (s\<lparr>s_generations := gens, s_processes := (s_processes s)[pid := Some p]\<rparr>)"
proof -
  have "slot_ok (s_current_pid s) i p'" if "i < MAX_PROCESSES" "(s_processes s)[pid := Some p] ! i = Some p'" for i p'
    using that assms(3,4) sched_invD(1,6) [OF assms(1)]
    by (cases "i = pid") (auto simp: slot_ok_def)
  moreover have "(s_processes s)[pid := Some p] ! c \<noteq> None" if "occupied s c" for c
    using that assms(3) sched_invD(1) [OF assms(1)] by (cases "c = pid") (auto simp: occupied_def)
  ultimately show ?thesis
    using sched_invD [OF assms(1)] assms(2,5) by (intro sched_invI) (simp_all add: occupied_def)
qed

lemma generations_inv:
  "sched_inv s \<Longrightarrow> length gens = MAX_PROCESSES \<Longrightarrow> sched_inv (s\<lparr>s_generations := gens\<rparr>)"
  by (simp add: sched_inv_def occupied_def [abs_def] cong: option.case_cong)

lemma spawn_kernel_inv:
  assumes "sched_inv (fst st)"
  shows "sched_inv (fst (snd (spawn_kernel entry_virt cr3 stack st)))"
  using assms
  by (cases st)
    (auto simp: spawn_kernel_def new_kernel_def setup_initial_stack_frame_kernel_def Let_def slot_ok_def
      dest: free_pid_Some sched_invD(2) intro!: place_inv generations_inv split: option.split)

lemma spawn_user_inv:
  assumes "sched_inv (fst st)" "\<And>q. parent = Some q \<Longrightarrow> occupied (fst st) q"
  shows "sched_inv (fst (snd (spawn_user user_cs user_ss user_rip user_rsp pml4 parent stack st)))"
proof (cases "free_pid (fst st)")
  case None
  then show ?thesis using assms(1) by (cases st) (simp add: spawn_user_def)
next
  case (Some pid)
  note f = free_pid_Some [OF this]
  have "q \<noteq> pid \<and> q < MAX_PROCESSES" if "parent = Some q" for q
    using assms(2) [OF that] f(3) by (auto simp: occupied_def)
  then show ?thesis
    using Some f assms(1) sched_invD(2) [OF assms(1)]
    by (cases st) (auto simp: spawn_user_def new_user_def setup_initial_stack_frame_user_def Let_def slot_ok_def
      intro!: place_inv generations_inv split: option.split)
qed

lemma spawn_idle_inv: "sched_inv (fst (spawn_idle entry_virt cr3 stack (scheduler_init scheduler_new, m)))"
  by (rule sched_invI)
    (auto simp: spawn_idle_def new_kernel_def setup_initial_stack_frame_kernel_def Let_def scheduler_init_def
      scheduler_new_def occupied_def slot_ok_def MAX_PROCESSES_def nth_list_update split: if_splits)

lemma reap_zombie_inv:
  assumes "sched_inv s" "pid \<noteq> 0" "s_current_pid s \<noteq> Some pid"
  shows "sched_inv (reap_zombie pid s)"
proof -
  have "occupied (reap_zombie pid s) c" if "occupied s c" "c \<noteq> pid" for c
    using that by (simp add: occupied_def reap_zombie_def)
  moreover have "slot_ok (s_current_pid s) i p" if "i < MAX_PROCESSES" "(s_processes s)[pid := None] ! i = Some p" for i p
    using that sched_invD(1,6) [OF assms(1)] by (cases "i = pid") auto
  ultimately show ?thesis
    using sched_invD [OF assms(1)] assms(2,3) by (intro sched_invI) (auto simp: reap_zombie_def)
qed

lemma save_current_sp_inv: "sched_inv s \<Longrightarrow> sched_inv (save_current_sp sp cr3 s)"
  unfolding save_current_sp_def
  by (auto intro!: update_process_inv simp: slot_ok_def split: option.split)

lemma dispatch_first_inv:
  assumes "sched_inv s" "s_current_pid s = None" "occupied s pid"
  shows "sched_inv (snd (dispatch_first pid s))"
proof (rule sched_invI)
  fix i p
  assume i: "i < MAX_PROCESSES" and "s_processes (snd (dispatch_first pid s)) ! i = Some p"
  then show "slot_ok (s_current_pid (snd (dispatch_first pid s))) i p"
    using sched_invD(6) [OF assms(1) i] assms(2) sched_invD(1) [OF assms(1)]
    by (auto simp: dispatch_first_def Let_def update_process_nth set_running_def slot_ok_def split: if_splits)
qed (use sched_invD [OF assms(1)] assms(3) in \<open>simp_all add: dispatch_first_def Let_def occupied_def\<close>)

subsection \<open>Round-robin liveness\<close>

text \<open>
  What can happen to the table: a timer tick, a process giving up the processor, a process ending, or
  anything else (spawning, waking, reaping) as a function.
\<close>

datatype sched_event = Tick u64 | Yield | Exit pid | Other "scheduler \<Rightarrow> scheduler"

fun sched_step :: "sched_event \<Rightarrow> scheduler \<times> machine \<Rightarrow> scheduler \<times> machine" where
  "sched_step (Tick now) st = snd (on_tick now st)"
| "sched_step Yield st = snd (switch_next_force st)"
| "sched_step (Exit init_pid) st = (snd (kill_process init_pid (fst st)), snd st)"
| "sched_step (Other f) st = (f (fst st), snd st)"

definition is_tick :: "sched_event \<Rightarrow> bool" where
  "is_tick e = (case e of Tick _ \<Rightarrow> True | _ \<Rightarrow> False)"

definition current_or_0 :: "scheduler \<Rightarrow> pid" where
  "current_or_0 s = (case s_current_pid s of Some old \<Rightarrow> old | None \<Rightarrow> 0)"

text \<open>Process \<open>q\<close> is ready and waits for the processor.\<close>

definition waiting :: "pid \<Rightarrow> scheduler \<Rightarrow> bool" where
  "waiting q s = (length (s_processes s) = MAX_PROCESSES \<and> s_idle_pid s = 0 \<and> q \<noteq> 0 \<and> q < MAX_PROCESSES \<and> is_ready s q
     \<and> (case s_current_pid s of None \<Rightarrow> True | Some c \<Rightarrow> occupied s c) \<and> s_tick_counter s < s_quantum s)"

text \<open>An event that keeps \<open>q\<close> waiting and does not touch the processor.\<close>

definition harmless :: "pid \<Rightarrow> (scheduler \<Rightarrow> scheduler) \<Rightarrow> bool" where
  "harmless q f = (\<forall>s. waiting q s \<longrightarrow> waiting q (f s) \<and> s_current_pid (f s) = s_current_pid s
     \<and> s_tick_counter (f s) = s_tick_counter s \<and> s_quantum (f s) = s_quantum s)"

text \<open>Ticks left until \<open>q\<close> must have run.\<close>

definition ticks_left :: "pid \<Rightarrow> scheduler \<Rightarrow> nat" where
  "ticks_left q s = slot_distance (current_or_0 s) q * s_quantum s + (s_quantum s - s_tick_counter s)"

lemma slot_distance_step:
  assumes "p < MAX_PROCESSES" "q < MAX_PROCESSES" "slot_distance c p \<le> slot_distance c q" "p \<noteq> q"
  shows "slot_distance p q < slot_distance c q"
proof -
  let ?x = "slot_distance c p" and ?y = "slot_distance c q"
  have "?x \<noteq> ?y" using round_slot [OF assms(1), of c] round_slot [OF assms(2), of c] assms(4) by metis
  with assms(3) have less: "?x < ?y" by simp
  have p: "((c + 1) mod 32 + ?x) mod 32 = p" and q: "((c + 1) mod 32 + ?y) mod 32 = q"
    using round_slot [OF assms(1)] round_slot [OF assms(2)] by (simp_all add: MAX_PROCESSES_def)
  have "((p + 1) mod 32 + (?y - ?x - 1)) mod 32 = (p + 1 + (?y - ?x - 1)) mod 32"
    by (rule mod_add_left_eq)
  also have "p + 1 + (?y - ?x - 1) = p + (?y - ?x)" using less by simp
  also have "(p + (?y - ?x)) mod 32 = (((c + 1) mod 32 + ?x) mod 32 + (?y - ?x)) mod 32"
    by (simp only: p)
  also have "\<dots> = ((c + 1) mod 32 + ?x + (?y - ?x)) mod 32"
    by (rule mod_add_left_eq)
  also have "\<dots> = q" using less q by simp
  finally have "((p + 1) mod MAX_PROCESSES + (?y - ?x - 1)) mod MAX_PROCESSES = q" by (simp add: MAX_PROCESSES_def)
  then have "slot_distance p q = ?y - ?x - 1"
    using slot_distance_round [of "?y - ?x - 1" p] slot_distance_less [of c q] by fastforce
  with less show ?thesis by simp
qed

lemma is_ready_update:
  assumes "is_ready s q" "q \<noteq> pid \<or> (\<forall>p. p_state p = Ready \<longrightarrow> p_state (f p) = Ready)"
  shows "is_ready (update_process pid f s) q"
  using assms by (auto simp: is_ready_def update_process_nth split: option.splits)

text \<open>Giving the processor away moves it to \<open>q\<close> or closer to it.\<close>

lemma run_next_closer:
  assumes "length (s_processes s) = MAX_PROCESSES" "s_idle_pid s = 0" "q \<noteq> 0" "q < MAX_PROCESSES" "is_ready s q"
    and "run_next s = (p, s')"
  shows "s_current_pid s' = Some p" "p \<noteq> q \<Longrightarrow> slot_distance p q < slot_distance (current_or_0 s) q"
    "occupied s' p" "p \<noteq> q \<Longrightarrow> is_ready s' q" "length (s_processes s') = MAX_PROCESSES"
    "s_idle_pid s' = 0" "s_tick_counter s' = s_tick_counter s" "s_quantum s' = s_quantum s" "p \<noteq> 0"
proof -
  obtain r where r: "r < MAX_PROCESSES" "find_next_ready (current_or_0 s) s = Some r" "r \<noteq> 0" "is_ready s r"
      "slot_distance (current_or_0 s) r \<le> slot_distance (current_or_0 s) q"
    using find_next_ready_cases [OF refl, of s "current_or_0 s"] assms(2-5) by auto
  have eq: "p = r" "s' = (update_process r set_running s)\<lparr>s_current_pid := Some r\<rparr>"
    using assms(6) r(2) by (auto simp: run_next_def current_or_0_def Let_def)
  have occ: "occupied s r" using is_ready_occupied [OF r(4,1)] .
  show "p \<noteq> q \<Longrightarrow> is_ready s' q"
    using is_ready_update [OF assms(5), of r set_running] eq by (simp add: is_ready_def)
  show "p \<noteq> q \<Longrightarrow> slot_distance p q < slot_distance (current_or_0 s) q"
    using slot_distance_step [OF r(1) assms(4) r(5)] eq(1) by simp
  show "s_current_pid s' = Some p" "occupied s' p" "length (s_processes s') = MAX_PROCESSES"
    "s_idle_pid s' = 0" "s_tick_counter s' = s_tick_counter s" "s_quantum s' = s_quantum s" "p \<noteq> 0"
    using eq occ assms(1,2) r(3) by (simp_all add: occupied_def)
qed

lemma preempt_current_simps [simp]:
  "length (s_processes (preempt_current s)) = length (s_processes s)" "s_current_pid (preempt_current s) = s_current_pid s"
  "s_idle_pid (preempt_current s) = s_idle_pid s" "s_tick_counter (preempt_current s) = s_tick_counter s"
  "s_quantum (preempt_current s) = s_quantum s" "current_or_0 (preempt_current s) = current_or_0 s"
  by (simp_all add: preempt_current_def current_or_0_def split: option.split)

lemma is_ready_preempt: "is_ready s q \<Longrightarrow> is_ready (preempt_current s) q"
  by (auto simp: preempt_current_def preempt_def intro!: is_ready_update split: option.split)

lemma is_ready_wake_parent: "is_ready s q \<Longrightarrow> is_ready (wake_waiting_parent pid s) q"
  by (auto simp: wake_waiting_parent_def intro!: is_ready_update split: option.split if_splits)

lemma wake_waiting_parent_table [simp]:
  "length (s_processes (wake_waiting_parent pid s)) = length (s_processes s)"
  "occupied (wake_waiting_parent pid s) c = occupied s c"
  by (simp_all add: wake_waiting_parent_def split: option.split)

lemma deliver_signal_keeps:
  shows "is_ready (fst st) q \<Longrightarrow> pid \<noteq> q \<Longrightarrow> is_ready (fst (deliver_signal pid st)) q"
    and "length (s_processes (fst (deliver_signal pid st))) = length (s_processes (fst st))"
    and "occupied (fst (deliver_signal pid st)) c = occupied (fst st) c"
  by (cases st; auto simp: deliver_signal_def deliver_to_handler_def Let_def
      intro!: is_ready_update is_ready_wake_parent split: option.split)+

text \<open>A switch, with the signals delivered to the process switched to.\<close>

definition closer :: "pid \<Rightarrow> scheduler \<Rightarrow> scheduler \<Rightarrow> bool" where
  "closer q s s' = (s_current_pid s' = Some q \<or> waiting q s' \<and> s_quantum s' = s_quantum s
     \<and> slot_distance (current_or_0 s') q < slot_distance (current_or_0 s) q)"

lemma switch_closer:
  assumes "waiting q s" "run_next (preempt_current s) = (p, s')"
  shows "closer q s s' \<and> closer q s (fst (deliver_signal p (s', m)))" "s_current_pid s' = Some p" "p \<noteq> 0"
    "s_tick_counter s' = s_tick_counter s"
proof -
  note w = assms(1) [unfolded waiting_def]
  have r: "is_ready (preempt_current s) q" using w is_ready_preempt by blast
  note c = run_next_closer [OF _ _ _ _ r assms(2), simplified]
  show "s_current_pid s' = Some p" "p \<noteq> 0" "s_tick_counter s' = s_tick_counter s"
    using w c(1,7,9) by simp_all
  show "closer q s s' \<and> closer q s (fst (deliver_signal p (s', m)))"
  proof (cases "p = q")
    case True
    then show ?thesis using w c(1) by (simp add: closer_def)
  next
    case False
    then show ?thesis
      using w c deliver_signal_keeps [where st = "(s', m)"] by (simp add: closer_def waiting_def current_or_0_def)
  qed
qed

lemma closer_ticks_left:
  assumes "closer q s s'" "s_current_pid s' \<noteq> Some q" "waiting q s" "s_tick_counter s = s_tick_counter s'"
  shows "waiting q s' \<and> s_quantum s' = s_quantum s \<and> ticks_left q s' \<le> ticks_left q s"
  using assms by (auto simp: closer_def ticks_left_def)

lemma wake_sleepers_simps [simp]:
  "length (s_processes (wake_sleepers now s)) = length (s_processes s)" "s_current_pid (wake_sleepers now s) = s_current_pid s"
  "s_idle_pid (wake_sleepers now s) = s_idle_pid s" "s_tick_counter (wake_sleepers now s) = s_tick_counter s"
  "s_quantum (wake_sleepers now s) = s_quantum s" "current_or_0 (wake_sleepers now s) = current_or_0 s"
  by (simp_all add: wake_sleepers_def current_or_0_def)

lemma wake_sleepers_counter: "wake_sleepers now (s\<lparr>s_tick_counter := n\<rparr>) = (wake_sleepers now s)\<lparr>s_tick_counter := n\<rparr>"
  by (simp add: wake_sleepers_def)

lemma wake_sleepers_nth:
  "i < length (s_processes s) \<Longrightarrow> s_processes (wake_sleepers now s) ! i = map_option (wake_sleeper now) (s_processes s ! i)"
  by (simp add: wake_sleepers_def)

lemma wake_sleeper_ready: "p_state p = Ready \<Longrightarrow> wake_sleeper now p = p"
  by (simp add: wake_sleeper_def split: wake_reason.split)

lemma waiting_wake:
  assumes "waiting q s" "n < s_quantum s"
  shows "waiting q ((wake_sleepers now s)\<lparr>s_tick_counter := n\<rparr>)"
proof -
  note w = assms(1) [unfolded waiting_def]
  have "is_ready (wake_sleepers now s) q"
    using w by (auto simp: is_ready_def wake_sleepers_nth wake_sleeper_ready split: option.splits)
  moreover have "occupied (wake_sleepers now s) c = occupied s c" for c
    using w by (auto simp: occupied_def wake_sleepers_nth)
  ultimately show ?thesis
    using w assms(2) by (simp add: waiting_def is_ready_def occupied_def cong: option.case_cong)
qed

lemma tick_progress:
  assumes "waiting q s"
    and s'_def: "s' = fst (snd (on_tick now (s, m)))"
  shows "s_current_pid s' = Some q \<or> waiting q s' \<and> s_quantum s' = s_quantum s \<and> ticks_left q s' + 1 \<le> ticks_left q s"
proof (cases "s_tick_counter s + 1 \<ge> s_quantum s")
  case True
  let ?s = "(wake_sleepers now s)\<lparr>s_tick_counter := 0\<rparr>"
  have less: "s_tick_counter s < s_quantum s" using assms(1) by (simp add: waiting_def)
  then have w: "waiting q ?s" using waiting_wake [OF assms(1), of 0 now] by simp
  obtain p s1 where r: "run_next (preempt_current ?s) = (p, s1)" by (cases "run_next (preempt_current ?s)")
  note c = switch_closer [OF w r]
  have s': "s' = fst (deliver_signal p (s1, m))"
    unfolding s'_def using True r c(2,3) by (simp add: on_tick_def Let_def wake_sleepers_counter switch_next_def)
  with c(1) have cl: "closer q ?s s'" by blast
  have tick: "s_tick_counter s' = 0" using c(4) s' by simp
  show ?thesis
  proof (cases "s_current_pid s' = Some q")
    case False
    with cl have *: "waiting q s'" "s_quantum s' = s_quantum s" "slot_distance (current_or_0 s') q + 1 \<le> slot_distance (current_or_0 s) q"
      by (simp_all add: closer_def) (simp add: current_or_0_def)
    have "(slot_distance (current_or_0 s') q + 1) * s_quantum s \<le> slot_distance (current_or_0 s) q * s_quantum s"
      by (rule mult_le_mono1 [OF *(3)])
    moreover have "1 \<le> s_quantum s - s_tick_counter s" using less by simp
    ultimately have "ticks_left q s' + 1 \<le> ticks_left q s"
      unfolding ticks_left_def *(2) tick add_mult_distrib by linarith
    with * show ?thesis by blast
  qed simp
next
  case False
  let ?s = "(wake_sleepers now s)\<lparr>s_tick_counter := s_tick_counter s + 1\<rparr>"
  have w: "waiting q ?s" using waiting_wake [OF assms(1), of "s_tick_counter s + 1" now] False by simp
  have "snd (current_stack_pointer ?s) = ?s"
    using w by (auto simp: waiting_def current_stack_pointer_def occupied_def split: option.splits)
  then have "s' = ?s"
    unfolding s'_def using False by (simp add: on_tick_def Let_def wake_sleepers_counter case_prod_beta)
  moreover have "ticks_left q ?s + 1 \<le> ticks_left q s"
    using False by (simp add: ticks_left_def current_or_0_def)
  ultimately show ?thesis using w by simp
qed

lemma exit_progress:
  assumes "waiting q s" "s_current_pid s \<noteq> Some q"
    and s'_def: "s' = snd (kill_process init_pid s)"
  shows "s_current_pid s' = Some q \<or> waiting q s' \<and> s_quantum s' = s_quantum s \<and> ticks_left q s' \<le> ticks_left q s"
proof -
  note w = assms(1) [unfolded waiting_def]
  define s1 where "s1 = (case s_current_pid s of None \<Rightarrow> s
    | Some old \<Rightarrow> update_process old (\<lambda>p. p\<lparr>p_state := Zombie\<rparr>) (reparent_orphans_to_init init_pid old s))"
  have rep: "is_ready (reparent_orphans_to_init init_pid old s) q" for old
    using w by (auto simp: reparent_orphans_to_init_def Let_def is_ready_def split: option.splits)
  have s1: "length (s_processes s1) = MAX_PROCESSES" "s_idle_pid s1 = 0" "is_ready s1 q" "s_tick_counter s1 = s_tick_counter s"
      "s_quantum s1 = s_quantum s" "current_or_0 s1 = current_or_0 s"
    unfolding s1_def using w assms(2) rep is_ready_update [OF rep]
    by (auto simp: reparent_orphans_to_init_def Let_def current_or_0_def split: option.split)
  obtain p s2 where r: "run_next s1 = (p, s2)" by (cases "run_next s1")
  have "s' = s2" unfolding s'_def kill_process_def s1_def [symmetric] Let_def r by simp
  note c = run_next_closer [OF s1(1,2) _ _ s1(3) r]
  show ?thesis
  proof (cases "p = q")
    case True
    then show ?thesis using c(1) w \<open>s' = s2\<close> by simp
  next
    case False
    then have "closer q s s2" using c w s1 by (simp add: closer_def waiting_def current_or_0_def)
    moreover have "s_current_pid s2 \<noteq> Some q" using c(1) w False by simp
    ultimately show ?thesis using closer_ticks_left [of q s s2] assms(1) c(7) w s1(4) \<open>s' = s2\<close> by simp
  qed
qed

lemma sched_step_progress:
  assumes "waiting q (fst st)" "\<And>f. e = Other f \<Longrightarrow> harmless q f" "s_current_pid (fst st) \<noteq> Some q"
    and "s' = fst (sched_step e st)"
  shows "s_current_pid s' = Some q \<or> waiting q s' \<and> s_quantum s' = s_quantum (fst st)
    \<and> ticks_left q s' + (if is_tick e then 1 else 0) \<le> ticks_left q (fst st)"
proof (cases e)
  case (Tick now)
  then show ?thesis using tick_progress [OF assms(1), of s' now "snd st"] assms(4) by (simp add: is_tick_def)
next
  case Yield
  obtain s m where st: "st = (s, m)" by (cases st)
  obtain p s1 where r: "run_next (preempt_current s) = (p, s1)" by (cases "run_next (preempt_current s)")
  note c = switch_closer [OF _ r, of q]
  have s': "s' = fst (deliver_signal p (s1, m))"
    using assms(1,4) r c(3) by (simp add: st Yield switch_next_force_def)
  then have "closer q s s'" "s_tick_counter s = s_tick_counter s'" using c(1,4) assms(1) by (simp_all add: st)
  then show ?thesis
    using closer_ticks_left [of q s s'] assms(1) by (auto simp: st Yield is_tick_def)
next
  case (Exit init_pid)
  then show ?thesis using exit_progress [OF assms(1,3), of s' init_pid] assms(4) by (simp add: is_tick_def)
next
  case (Other f)
  with assms(1,2) have "waiting q (f (fst st)) \<and> s_current_pid (f (fst st)) = s_current_pid (fst st)
     \<and> s_tick_counter (f (fst st)) = s_tick_counter (fst st) \<and> s_quantum (f (fst st)) = s_quantum (fst st)"
    by (simp add: harmless_def)
  with Other assms(4) show ?thesis by (simp add: is_tick_def ticks_left_def current_or_0_def)
qed

lemma runs_within_ticks_left:
  assumes "waiting q (fst st)" "\<And>f. Other f \<in> set evs \<Longrightarrow> harmless q f" "ticks_left q (fst st) \<le> length (filter is_tick evs)"
  shows "\<exists>n \<le> length evs. s_current_pid (fst (fold sched_step (take n evs) st)) = Some q"
  using assms
proof (induction evs arbitrary: st)
  case Nil
  then show ?case by (simp add: ticks_left_def waiting_def)
next
  case (Cons e evs)
  show ?case
  proof (cases "s_current_pid (fst st) = Some q")
    case True
    then show ?thesis by (intro exI [of _ 0]) simp
  next
    case False
    let ?st = "sched_step e st"
    have "s_current_pid (fst ?st) = Some q \<or> waiting q (fst ?st) \<and> ticks_left q (fst ?st) \<le> length (filter is_tick evs)"
      using sched_step_progress [OF Cons.prems(1) _ False refl, of e] Cons.prems(2,3) by (auto split: if_splits)
    then have "\<exists>n \<le> length evs. s_current_pid (fst (fold sched_step (take n evs) ?st)) = Some q"
    proof
      assume "s_current_pid (fst ?st) = Some q"
      then show ?thesis by (intro exI [of _ 0]) simp
    next
      assume "waiting q (fst ?st) \<and> ticks_left q (fst ?st) \<le> length (filter is_tick evs)"
      then show ?thesis using Cons.IH [of ?st] Cons.prems(2) by auto
    qed
    then obtain n where "n \<le> length evs" "s_current_pid (fst (fold sched_step (take n evs) ?st)) = Some q" by blast
    then show ?thesis by (intro exI [of _ "Suc n"]) simp
  qed
qed

lemma ticks_left_le: "waiting q s \<Longrightarrow> ticks_left q s \<le> MAX_PROCESSES * s_quantum s"
proof -
  assume "waiting q s"
  have "(slot_distance (current_or_0 s) q + 1) * s_quantum s \<le> MAX_PROCESSES * s_quantum s"
    using slot_distance_less [of "current_or_0 s" q] by (intro mult_le_mono1) simp
  then show ?thesis unfolding ticks_left_def add_mult_distrib by linarith
qed

text \<open>
  C3. No process starves: a ready process is given the processor after at most one quantum of timer
  ticks per slot of the table, whatever the other processes do meanwhile, yielding, ending or changing the
  table, as long as they leave it ready.
\<close>

theorem round_robin_liveness:
  assumes "waiting q s" "\<And>f. Other f \<in> set evs \<Longrightarrow> harmless q f"
    and "MAX_PROCESSES * s_quantum s \<le> length (filter is_tick evs)"
  shows "\<exists>n \<le> length evs. s_current_pid (fst (fold sched_step (take n evs) (s, m))) = Some q"
  by (rule runs_within_ticks_left) (use assms ticks_left_le [OF assms(1)] in auto)

text \<open>Idle and two kernel processes, the first of them running.\<close>

definition zero_machine :: machine where
  "zero_machine = \<lparr>m_kernel = (\<lambda>_. 0), m_tables = (\<lambda>_. 0), m_user = (\<lambda>_ _. 0)\<rparr>"

definition example_process :: "pid \<Rightarrow> process_state \<Rightarrow> process" where
  "example_process pid st = (the (fst (new_kernel pid 0x1000 0 (Some 0x8000) zero_machine)))\<lparr>p_state := st, p_generation := 1\<rparr>"

definition example_table :: scheduler where
  "example_table = scheduler_new\<lparr>s_processes := (replicate MAX_PROCESSES None)
     [0 := Some (example_process 0 Ready), 1 := Some (example_process 1 Running), 2 := Some (example_process 2 Ready)],
     s_current_pid := Some 1\<rparr>"

lemma example_process_simps [simp]:
  "p_pid (example_process pid st) = pid" "p_state (example_process pid st) = st" "p_parent_pid (example_process pid st) = None"
  "p_is_user (example_process pid st) = False" "p_wake_reason (example_process pid st) = WakeNone"
  "p_generation (example_process pid st) = 1" "p_signals_pending (example_process pid st) = 0"
  by (simp_all add: example_process_def new_kernel_def setup_initial_stack_frame_kernel_def Let_def)

lemma example_table_waiting: "waiting 2 example_table" "s_quantum example_table = 5"
  by (simp_all add: waiting_def example_table_def scheduler_new_def is_ready_def occupied_def MAX_PROCESSES_def DEFAULT_QUANTUM_def)

theorem round_robin_liveness_witness:
  "\<exists>n \<le> 160. s_current_pid (fst (fold sched_step (take n (replicate 160 (Tick 0))) (example_table, zero_machine))) = Some 2"
  using round_robin_liveness [OF example_table_waiting(1), of "replicate 160 (Tick 0)" zero_machine]
  by (simp add: is_tick_def MAX_PROCESSES_def example_table_waiting(2))

theorem find_next_ready_spec_witness:
  "s_idle_pid example_table < MAX_PROCESSES \<and> find_next_ready 1 example_table = Some 2"
proof -
  have ready: "is_ready example_table q \<longleftrightarrow> q = 0 \<or> q = 2" if "q < MAX_PROCESSES" for q
    using that by (auto simp: is_ready_def example_table_def scheduler_new_def nth_list_update MAX_PROCESSES_def)
  have idle: "s_idle_pid example_table = 0" by (simp add: example_table_def scheduler_new_def)
  show ?thesis
    using find_next_ready_spec [of example_table 1 2] ready by (auto simp: idle MAX_PROCESSES_def)
qed

subsection \<open>Signals that end the process being switched to\<close>

lemma preempt_keeps [simp]:
  "p_stack_pointer (preempt p) = p_stack_pointer p" "p_is_user (preempt p) = p_is_user p" "p_parent_pid (preempt p) = p_parent_pid p"
  "has_pending_signal (preempt p) = has_pending_signal p" "signal_handler n (preempt p) = signal_handler n p"
  by (simp_all add: preempt_def has_pending_signal_def signal_handler_def)

lemma set_running_keeps [simp]:
  "p_stack_pointer (set_running p) = p_stack_pointer p" "p_is_user (set_running p) = p_is_user p" "p_parent_pid (set_running p) = p_parent_pid p"
  "has_pending_signal (set_running p) = has_pending_signal p" "signal_handler n (set_running p) = signal_handler n p"
  by (simp_all add: set_running_def has_pending_signal_def signal_handler_def)

lemma wake_sleeper_keeps [simp]:
  "p_stack_pointer (wake_sleeper now p) = p_stack_pointer p" "p_is_user (wake_sleeper now p) = p_is_user p" "p_parent_pid (wake_sleeper now p) = p_parent_pid p"
  "has_pending_signal (wake_sleeper now p) = has_pending_signal p" "signal_handler n (wake_sleeper now p) = signal_handler n p"
  by (simp_all add: wake_sleeper_def has_pending_signal_def signal_handler_def split: wake_reason.split)

lemma fatal_default_action:
  "signum \<notin> {18, 19, 20} \<Longrightarrow> default_action signum p = terminate_by signum p"
  by (simp add: default_action_def)

lemma deliver_fatal_signal:
  assumes "s_processes s ! q = Some p" "q < length (s_processes s)" "p_is_user p" "p_parent_pid p \<noteq> Some q"
    and "has_pending_signal p = Some signum" "signal_handler signum p = 0" "signum \<notin> {18, 19, 20}"
  shows "\<exists>s'. deliver_signal q (s, m) = (s', m) \<and> s_current_pid s' = s_current_pid s
    \<and> s_processes s' ! q = Some (terminate_by signum p)"
proof -
  let ?s = "update_process q (default_action signum) s"
  have p: "s_processes ?s ! q = Some (terminate_by signum p)"
    using assms(1,2,7) by (simp add: update_process_nth fatal_default_action)
  have "p_parent_pid (terminate_by signum p) = p_parent_pid p" by (simp add: terminate_by_def clear_signal_def)
  then have "s_processes (wake_waiting_parent q ?s) ! q = Some (terminate_by signum p)"
    using p assms(4) by (auto simp: wake_waiting_parent_def update_process_nth split: option.split)
  moreover have "deliver_signal q (s, m) = (wake_waiting_parent q ?s, m)"
    using assms by (simp add: deliver_signal_def Let_def)
  ultimately show ?thesis by simp
qed

text \<open>
  C37. A fatal signal pending on the process a timer tick switches to turns it into a
  zombie, and the tick still returns its stack pointer and leaves it the current process: the dead
  process keeps the processor, while its parent may already reap it.
\<close>

theorem killed_process_resumes:
  assumes "sched_inv s" "s_quantum s \<le> s_tick_counter s + 1"
    and "find_next_ready (current_or_0 s) (preempt_current ((wake_sleepers now s)\<lparr>s_tick_counter := 0\<rparr>)) = Some q"
    and "s_processes s ! q = Some p" "q < MAX_PROCESSES" "p_is_user p" "p_parent_pid p \<noteq> Some q"
    and "has_pending_signal p = Some signum" "signal_handler signum p = 0" "signum \<notin> {18, 19, 20}"
  shows "\<exists>s'. on_tick now (s, m) = (p_stack_pointer p, s', m) \<and> s_current_pid s' = Some q
    \<and> map_option p_state (s_processes s' ! q) = Some Zombie"
proof -
  define s0 where "s0 = preempt_current ((wake_sleepers now s)\<lparr>s_tick_counter := 0\<rparr>)"
  have len: "length (s_processes s0) = MAX_PROCESSES" using sched_invD(1) [OF assms(1)] by (simp add: s0_def)
  define p0 where "p0 = (if s_current_pid s = Some q then preempt (wake_sleeper now p) else wake_sleeper now p)"
  have p0: "s_processes s0 ! q = Some p0"
    using assms(4,5) sched_invD(1) [OF assms(1)]
    by (auto simp: s0_def p0_def preempt_current_def update_process_nth wake_sleepers_nth split: option.split)
  define s1 where "s1 = (update_process q set_running s0)\<lparr>s_current_pid := Some q\<rparr>"
  have p1: "s_processes s1 ! q = Some (set_running p0)" "q < length (s_processes s1)"
    using p0 len assms(5) by (simp_all add: s1_def update_process_nth)
  have keep: "p_stack_pointer (set_running p0) = p_stack_pointer p" "p_is_user (set_running p0)" "p_parent_pid (set_running p0) \<noteq> Some q"
      "has_pending_signal (set_running p0) = Some signum" "signal_handler signum (set_running p0) = 0"
    using assms(6-9) by (simp_all add: p0_def)
  have "run_next s0 = (q, s1)"
    using assms(3) by (simp add: run_next_def s0_def s1_def current_or_0_def Let_def)
  then have sw: "switch_next ((wake_sleepers now s)\<lparr>s_tick_counter := 0\<rparr>) = (p_stack_pointer p, s1)"
    using p1(1) keep(1) by (simp add: switch_next_def s0_def sp_of_def)
  have "q \<noteq> 0"
    using sched_invD(6) [OF assms(1,5,4)] assms(6) by (auto simp: slot_ok_def)
  then have "on_tick now (s, m) = (p_stack_pointer p, deliver_signal q (s1, m))"
    using assms(2) sw by (simp add: on_tick_def Let_def wake_sleepers_counter s1_def)
  moreover have "s_current_pid s1 = Some q" by (simp add: s1_def)
  ultimately show ?thesis
    using deliver_fatal_signal [OF p1 keep(2-5) assms(10), of m] by (auto simp: terminate_by_def clear_signal_def)
qed

text \<open>A user process with an interrupt from the keyboard pending, about to be switched to.\<close>

definition signalled_table :: scheduler where
  "signalled_table = (update_process 2 (\<lambda>p. p\<lparr>p_is_user := True, p_signals_pending := 2\<rparr>) example_table)\<lparr>s_tick_counter := 4\<rparr>"

lemma signalled_table_facts:
  "sched_inv signalled_table" "s_current_pid signalled_table = Some 1" "s_idle_pid signalled_table = 0"
  "s_quantum signalled_table = 5" "s_tick_counter signalled_table = 4"
  "s_processes signalled_table ! 2 = Some ((example_process 2 Ready)\<lparr>p_is_user := True, p_signals_pending := 2\<rparr>)"
  "i < MAX_PROCESSES \<Longrightarrow> s_processes signalled_table ! i = (if i = 0 then Some (example_process 0 Ready)
     else if i = 1 then Some (example_process 1 Running)
     else if i = 2 then Some ((example_process 2 Ready)\<lparr>p_is_user := True, p_signals_pending := 2\<rparr>) else None)"
  by (auto simp: signalled_table_def example_table_def scheduler_new_def update_process_nth MAX_PROCESSES_def
      DEFAULT_QUANTUM_def nth_list_update occupied_def slot_ok_def intro!: sched_invI split: if_splits)

theorem killed_process_resumes_witness:
  "\<exists>s'. on_tick 0 (signalled_table, zero_machine) = (p_stack_pointer (example_process 2 Ready), s', zero_machine)
     \<and> s_current_pid s' = Some 2 \<and> map_option p_state (s_processes s' ! 2) = Some Zombie"
proof -
  let ?p = "(example_process 2 Ready)\<lparr>p_is_user := True, p_signals_pending := 2\<rparr>"
  let ?s = "preempt_current ((wake_sleepers 0 signalled_table)\<lparr>s_tick_counter := 0\<rparr>)"
  have ready: "is_ready ?s i = (i < 3)" if "i < MAX_PROCESSES" for i
    using that sched_invD(1) [OF signalled_table_facts(1)]
    by (simp add: is_ready_def preempt_current_def update_process_nth wake_sleepers_nth signalled_table_facts(2,7)
        wake_sleeper_def preempt_def)
  have "find_next_ready 1 ?s = Some 2"
    using ready by (simp add: find_next_ready_def Let_def MAX_PROCESSES_def signalled_table_facts(3) upt_rec)
  moreover have "has_pending_signal ?p = Some 2" "signal_handler 2 ?p = 0" by code_simp+
  ultimately show ?thesis
    using killed_process_resumes [OF signalled_table_facts(1), of 0 2 ?p 2 zero_machine] signalled_table_facts(2-6)
    by (simp add: current_or_0_def MAX_PROCESSES_def)
qed

end
