(* ===== verification/Process_Events.thy ===== *)
theory Process_Events
  imports Scheduler
begin

text \<open>
  The events of \<^verbatim>\<open>indo-kernel/src/process/mod.rs\<close> that wake or signal processes from outside:
  \<open>keyboard_wake\<close>, \<open>wake_wait_for_child\<close> and \<open>send_signal_to_fg\<close>, with the body of
  \<open>init_main\<close> (\<^verbatim>\<open>process/init.rs\<close>). The wake-up log is left out. Collecting the slots to wake first and
  waking them afterwards is a map over the slots, since waking one does not change what another waits for.
\<close>

subsection \<open>Waking\<close>

definition wake :: "process \<Rightarrow> process" where
  "wake p = p\<lparr>p_state := Ready, p_wake_reason := WakeNone\<rparr>"

definition pipe_readable :: "pipe_table \<Rightarrow> nat \<Rightarrow> bool" where
  "pipe_readable pipes idx = (idx < MAX_PIPES \<and> (case pipes ! idx of
     None \<Rightarrow> False | Some p \<Rightarrow> pipe_nread p < pipe_nwrite p \<or> \<not> pipe_write_open p))"

definition pipe_has_space :: "pipe \<Rightarrow> bool" where
  "pipe_has_space p \<longleftrightarrow> pipe_nwrite p < pipe_nread p + of_nat PIPE_SIZE"

definition pipe_writable :: "pipe_table \<Rightarrow> nat \<Rightarrow> bool" where
  "pipe_writable pipes idx = (idx < MAX_PIPES \<and> (case pipes ! idx of
     None \<Rightarrow> False | Some p \<Rightarrow> pipe_has_space p \<or> \<not> pipe_read_open p))"

definition slot_is_zombie :: "scheduler \<Rightarrow> pid \<Rightarrow> bool" where
  "slot_is_zombie s pid = (case s_processes s ! pid of None \<Rightarrow> False | Some p \<Rightarrow> p_state p = Zombie)"

definition keyboard_wakes :: "pipe_table \<Rightarrow> scheduler \<Rightarrow> process \<Rightarrow> bool" where
  "keyboard_wakes pipes s p = (p_state p = Blocked \<and> (case p_wake_reason p of
     WakeKeyboard \<Rightarrow> True
   | WakePipeRead idx \<Rightarrow> pipe_readable pipes idx
   | WakePipeWrite idx \<Rightarrow> pipe_writable pipes idx
   | WakeWaitForChild child \<Rightarrow> child < MAX_PROCESSES \<and> slot_is_zombie s child
   | _ \<Rightarrow> False))"

definition keyboard_wake :: "pipe_table \<Rightarrow> scheduler \<Rightarrow> scheduler" where
  "keyboard_wake pipes s =
     s\<lparr>s_processes := map (map_option (\<lambda>p. if keyboard_wakes pipes s p then wake p else p)) (s_processes s)\<rparr>"

text \<open>A change of every slot but that of idle.\<close>

definition map_user_slots :: "(process \<Rightarrow> process) \<Rightarrow> scheduler \<Rightarrow> scheduler" where
  "map_user_slots f s = s\<lparr>s_processes := take 1 (s_processes s) @ map (map_option f) (drop 1 (s_processes s))\<rparr>"

definition wake_wait_for_child :: "pid \<Rightarrow> scheduler \<Rightarrow> scheduler" where
  "wake_wait_for_child zombie_pid = map_user_slots (\<lambda>p.
     if p_state p = Blocked \<and> (p_wake_reason p = WakeWaitForChild zombie_pid \<or> p_wake_reason p = WakeWaitForChild 0)
     then wake p else p)"

subsection \<open>Signals from the terminal\<close>

definition find_user_in_state :: "process_state \<Rightarrow> scheduler \<Rightarrow> process option" where
  "find_user_in_state st s = Option.bind
     (List.find (\<lambda>i. case s_processes s ! i of None \<Rightarrow> False | Some p \<Rightarrow> p_is_user p \<and> p_state p = st) [1..<MAX_PROCESSES])
     (\<lambda>i. s_processes s ! i)"

definition fg_pgid :: "scheduler \<Rightarrow> u64 option" where
  "fg_pgid s = (case find_user_in_state Running s of
     Some p \<Rightarrow> Some (p_pgid p)
   | None \<Rightarrow> map_option p_pgid (find_user_in_state Ready s))"

definition signal_reaches :: "nat \<Rightarrow> u64 \<Rightarrow> process \<Rightarrow> bool" where
  "signal_reaches signum pgid p =
     (p_is_user p \<and> p_pgid p = pgid \<and> p_state p \<noteq> Zombie \<and> p_signals_blocked p AND signal_bit signum = 0)"

definition signal_process :: "nat \<Rightarrow> process \<Rightarrow> process" where
  "signal_process signum p =
     (if signum = 2 \<or> signum = 3 then p\<lparr>p_state := Zombie, p_exit_code := of_nat signum, p_terminated_by_signal := True\<rparr>
      else if signum = 20 then p\<lparr>p_state := Blocked, p_wake_reason := WakeNone, p_stop_signal := signum\<rparr>
      else if signum = 18 then
        (if p_state p = Blocked \<and> p_wake_reason p = WakeNone then p\<lparr>p_state := Ready\<rparr> else p)
      else p)"

definition killed_pids :: "nat \<Rightarrow> u64 \<Rightarrow> scheduler \<Rightarrow> pid list" where
  "killed_pids signum pgid s =
     (if signum = 2 \<or> signum = 3
      then concat (map (\<lambda>slot. case slot of None \<Rightarrow> [] | Some p \<Rightarrow> if signal_reaches signum pgid p then [p_pid p] else [])
             (drop 1 (s_processes s)))
      else [])"

definition wake_parents_of :: "pid \<Rightarrow> scheduler \<Rightarrow> scheduler" where
  "wake_parents_of killed_pid = map_user_slots (\<lambda>p.
     if p_wake_reason p = WakeWaitForChild killed_pid \<or> p_wake_reason p = WakeWaitForChild 0 then wake p else p)"

definition inline_wakes :: "pipe_table \<Rightarrow> process \<Rightarrow> bool" where
  "inline_wakes pipes p = (p_state p = Blocked \<and> (case p_wake_reason p of
     WakeKeyboard \<Rightarrow> True
   | WakePipeRead idx \<Rightarrow> pipe_readable pipes idx
   | WakePipeWrite idx \<Rightarrow> idx < MAX_PIPES \<and> (case pipes ! idx of None \<Rightarrow> False | Some q \<Rightarrow> pipe_has_space q)
   | _ \<Rightarrow> False))"

definition send_signal_to_fg :: "nat \<Rightarrow> pipe_table \<Rightarrow> scheduler \<Rightarrow> scheduler" where
  "send_signal_to_fg signum pipes s =
     (let s1 = (case fg_pgid s of
          None \<Rightarrow> s
        | Some pgid \<Rightarrow>
            fold wake_parents_of (killed_pids signum pgid s)
              (map_user_slots (\<lambda>p. if signal_reaches signum pgid p then signal_process signum p else p) s))
      in s1\<lparr>s_processes := map (map_option (\<lambda>p. if inline_wakes pipes p then wake p else p)) (s_processes s1)\<rparr>)"

subsection \<open>The kernel's reaper\<close>

definition orphan_zombies :: "scheduler \<Rightarrow> pid list" where
  "orphan_zombies s = concat (map (\<lambda>i. case s_processes s ! i of
     None \<Rightarrow> [] | Some p \<Rightarrow> if p_parent_pid p = Some 1 \<and> p_state p = Zombie then [p_pid p] else []) [0..<MAX_PROCESSES])"

subsection \<open>The table invariant\<close>

lemma wake_slot_ok: "slot_ok cur i p \<Longrightarrow> slot_ok cur i (wake p)"
  by (auto simp: slot_ok_def wake_def)

lemma keyboard_wake_inv: "sched_inv s \<Longrightarrow> sched_inv (keyboard_wake pipes s)"
  unfolding keyboard_wake_def by (rule map_slots_inv) (auto intro: wake_slot_ok)

lemma map_user_slots_simps [simp]:
  "s_current_pid (map_user_slots f s) = s_current_pid s" "s_idle_pid (map_user_slots f s) = s_idle_pid s"
  "s_generations (map_user_slots f s) = s_generations s"
  "length (s_processes (map_user_slots f s)) = length (s_processes s)"
  by (simp_all add: map_user_slots_def)

lemma map_user_slots_nth:
  "i < length (s_processes s) \<Longrightarrow> s_processes (map_user_slots f s) ! i =
     (if i = 0 then s_processes s ! i else map_option f (s_processes s ! i))"
  by (cases "s_processes s") (auto simp: map_user_slots_def nth_Cons')

lemma map_user_slots_inv:
  assumes "sched_inv s" "\<And>i p. i \<noteq> 0 \<Longrightarrow> slot_ok (s_current_pid s) i p \<Longrightarrow> slot_ok (s_current_pid s) i (f p)"
  shows "sched_inv (map_user_slots f s)"
proof (rule sched_invI)
  fix i p
  assume "i < MAX_PROCESSES" "s_processes (map_user_slots f s) ! i = Some p"
  then show "slot_ok (s_current_pid (map_user_slots f s)) i p"
    using assms(2) sched_invD(1,6) [OF assms(1)] by (auto simp: map_user_slots_nth split: if_splits)
qed (use sched_invD [OF assms(1)] in \<open>auto simp: occupied_def map_user_slots_nth\<close>)

lemma wake_wait_for_child_inv: "sched_inv s \<Longrightarrow> sched_inv (wake_wait_for_child pid s)"
  unfolding wake_wait_for_child_def by (rule map_user_slots_inv) (auto intro: wake_slot_ok)

lemma wake_parents_of_inv: "sched_inv s \<Longrightarrow> sched_inv (wake_parents_of pid s)"
  unfolding wake_parents_of_def by (rule map_user_slots_inv) (auto intro: wake_slot_ok)

lemma send_signal_to_fg_inv:
  assumes "sched_inv s"
  shows "sched_inv (send_signal_to_fg signum pipes s)"
proof -
  have signal: "sched_inv (map_user_slots (\<lambda>p. if signal_reaches signum pgid p then signal_process signum p else p) s)" for pgid
    by (rule map_user_slots_inv [OF assms]) (auto simp: slot_ok_def signal_process_def)
  have fold: "sched_inv t \<Longrightarrow> sched_inv (fold wake_parents_of pids t)" for t pids
    by (induction pids arbitrary: t) (simp_all add: wake_parents_of_inv)
  have inline: "sched_inv t \<Longrightarrow>
      sched_inv (t\<lparr>s_processes := map (map_option (\<lambda>p. if inline_wakes pipes p then wake p else p)) (s_processes t)\<rparr>)" for t
    by (rule map_slots_inv) (auto intro: wake_slot_ok)
  show ?thesis
    unfolding send_signal_to_fg_def Let_def
    by (rule inline) (use signal fold assms in \<open>auto split: option.split\<close>)
qed

subsection \<open>An interrupt revives waiting processes\<close>

text \<open>
  C38. The interrupt key kills every process of the foreground group that does not
  block the signal, and then makes those of them that were waiting for any child ready again, since a killed
  process still has its wait recorded: it goes on running with the exit status of a killed one.
\<close>

theorem interrupt_revives_waiter:
  assumes "sched_inv s" "fg_pgid s = Some pgid" "signum = 2 \<or> signum = 3"
    and "0 < i" "i < MAX_PROCESSES" "s_processes s ! i = Some p" "signal_reaches signum pgid p"
    and "p_wake_reason p = WakeWaitForChild 0"
  shows "\<exists>p'. s_processes (send_signal_to_fg signum pipes s) ! i = Some p' \<and> p_state p' = Ready
    \<and> p_exit_code p' = of_nat signum \<and> p_terminated_by_signal p'"
proof -
  let ?kill = "\<lambda>p. if signal_reaches signum pgid p then signal_process signum p else p"
  let ?s = "map_user_slots ?kill s"
  let ?P = "\<lambda>t q. length (s_processes t) = MAX_PROCESSES \<and> s_processes t ! i = Some q \<and> p_exit_code q = of_nat signum \<and> p_terminated_by_signal q"
  have len: "length (s_processes s) = MAX_PROCESSES" by (rule sched_invD(1) [OF assms(1)])
  obtain q where q: "?P ?s q" "p_wake_reason q = WakeWaitForChild 0"
    using assms(3-8) len by (auto simp: map_user_slots_nth signal_process_def)
  have "Some p \<in> set (drop 1 (s_processes s))"
    using assms(4-6) len by (auto simp: in_set_conv_nth intro!: exI [of _ "i - 1"])
  then have killed: "killed_pids signum pgid s \<noteq> []"
    using assms(3,7) by (auto simp: killed_pids_def intro!: bexI [of _ "Some p"])
  have keep: "\<exists>q'. ?P (fold wake_parents_of pids t) q' \<and> p_state q' = Ready \<and> p_wake_reason q' = WakeNone"
    if "?P t q" "p_state q = Ready" "p_wake_reason q = WakeNone" for t q pids
    using that
  proof (induction pids arbitrary: t)
    case (Cons pid pids)
    have "?P (wake_parents_of pid t) q"
      using Cons.prems assms(4,5) by (simp add: wake_parents_of_def map_user_slots_nth)
    then show ?case using Cons.IH Cons.prems(2,3) by simp
  qed auto
  obtain pid pids where pids: "killed_pids signum pgid s = pid # pids" using killed by (cases "killed_pids signum pgid s") auto
  have "?P (wake_parents_of pid ?s) (wake q)"
    using q assms(4,5) by (simp add: wake_parents_of_def map_user_slots_nth wake_def)
  from keep [OF this, of pids] obtain q' where
    "?P (fold wake_parents_of (killed_pids signum pgid s) ?s) q'" "p_state q' = Ready"
    unfolding pids by (auto simp: wake_def)
  then show ?thesis
    using assms(2,5) by (auto simp: send_signal_to_fg_def Let_def inline_wakes_def)
qed

text \<open>A child in the foreground and its parent, of the same group, waiting for any child.\<close>

definition waiting_parent :: process where
  "waiting_parent = (example_process 2 Blocked)\<lparr>p_is_user := True, p_pgid := 2, p_wake_reason := WakeWaitForChild 0\<rparr>"

definition foreground_table :: scheduler where
  "foreground_table = update_process 2 (\<lambda>_. waiting_parent)
     (update_process 1 (\<lambda>p. p\<lparr>p_is_user := True, p_pgid := 2, p_parent_pid := Some 2\<rparr>) example_table)"

lemma foreground_table_nth:
  "i < MAX_PROCESSES \<Longrightarrow> s_processes foreground_table ! i = (if i = 0 then Some (example_process 0 Ready)
     else if i = 1 then Some ((example_process 1 Running)\<lparr>p_is_user := True, p_pgid := 2, p_parent_pid := Some 2\<rparr>)
     else if i = 2 then Some waiting_parent else None)"
  by (simp add: foreground_table_def example_table_def scheduler_new_def update_process_nth MAX_PROCESSES_def nth_list_update)

lemma foreground_table_inv: "sched_inv foreground_table"
proof (rule sched_invI)
  fix i p
  assume "i < MAX_PROCESSES" "s_processes foreground_table ! i = Some p"
  moreover have "s_current_pid foreground_table = Some 1" by (simp add: foreground_table_def example_table_def)
  ultimately show "slot_ok (s_current_pid foreground_table) i p"
    by (auto simp: foreground_table_nth slot_ok_def waiting_parent_def MAX_PROCESSES_def split: if_splits)
qed (auto simp: foreground_table_def example_table_def scheduler_new_def occupied_def MAX_PROCESSES_def)

theorem interrupt_revives_waiter_witness:
  "\<exists>p'. s_processes (send_signal_to_fg 2 (replicate MAX_PIPES None) foreground_table) ! 2 = Some p' \<and> p_state p' = Ready
    \<and> p_exit_code p' = 2 \<and> p_terminated_by_signal p'"
proof -
  have "List.find (\<lambda>i. case s_processes foreground_table ! i of None \<Rightarrow> False | Some p \<Rightarrow> p_is_user p \<and> p_state p = Running)
      (1 # [2..<MAX_PROCESSES]) = Some 1"
    by (simp add: foreground_table_nth MAX_PROCESSES_def)
  moreover have "[1..<MAX_PROCESSES] = 1 # [2..<MAX_PROCESSES]" by (simp add: upt_conv_Cons MAX_PROCESSES_def)
  ultimately have "fg_pgid foreground_table = Some 2"
    by (simp add: fg_pgid_def find_user_in_state_def foreground_table_nth MAX_PROCESSES_def)
  moreover have "signal_reaches 2 2 waiting_parent"
    by (simp add: signal_reaches_def waiting_parent_def example_process_def new_kernel_def setup_initial_stack_frame_kernel_def Let_def)
  ultimately show ?thesis
    using interrupt_revives_waiter [OF foreground_table_inv, of 2 2 2 waiting_parent "replicate MAX_PIPES None"]
    by (simp add: foreground_table_nth MAX_PROCESSES_def waiting_parent_def)
qed

end
