(* ===== verification/Keyboard.thy ===== *)
theory Keyboard
  imports Kernel_Prelude
begin

text \<open>
  The console: terminal flags (\<^verbatim>\<open>indo-kernel/src/tty.rs\<close>) and the keyboard driver with its line
  discipline (\<^verbatim>\<open>indo-kernel/src/keyboard.rs\<close>). Bytes echoed to the serial port are part of the state.
  Sending a signal to the foreground group is left to the caller: an input returns the signal to send.
\<close>

subsection \<open>Terminal settings\<close>

definition SIGINT_CHAR :: u8 where "SIGINT_CHAR = 0x03"
definition SIGTSTP_CHAR :: u8 where "SIGTSTP_CHAR = 0x1A"
definition SIGQUIT_CHAR :: u8 where "SIGQUIT_CHAR = 0x1C"

definition ICANON :: u8 where "ICANON = 0x01"
definition ECHO :: u8 where "ECHO = 0x02"
definition ISIG :: u8 where "ISIG = 0x04"

record tty =
  tty_lflags :: u8
  tty_iflag :: u8
  tty_oflag :: u8

definition tty_initial :: tty where
  "tty_initial = \<lparr>tty_lflags = ICANON OR ECHO OR ISIG, tty_iflag = 0, tty_oflag = 0\<rparr>"

definition is_canonical :: "tty \<Rightarrow> bool" where
  "is_canonical t \<longleftrightarrow> tty_lflags t AND ICANON \<noteq> 0"

definition is_echo :: "tty \<Rightarrow> bool" where
  "is_echo t \<longleftrightarrow> tty_lflags t AND ECHO \<noteq> 0"

definition is_sig_enabled :: "tty \<Rightarrow> bool" where
  "is_sig_enabled t \<longleftrightarrow> tty_lflags t AND ISIG \<noteq> 0"

record termios =
  tio_iflag :: u32
  tio_oflag :: u32
  tio_cflag :: u32
  tio_lflag :: u32
  tio_cc :: bytes

definition termios_cc :: bytes where
  "termios_cc = (replicate 32 0)[0 := 1, 1 := 28, 2 := 127, 3 := 3, 4 := 26]"

definition default_cooked :: termios where
  "default_cooked = \<lparr>tio_iflag = 0, tio_oflag = 0, tio_cflag = 0, tio_lflag = ucast (ICANON OR ECHO OR ISIG),
     tio_cc = termios_cc\<rparr>"

definition default_raw :: termios where
  "default_raw = \<lparr>tio_iflag = 0, tio_oflag = 0, tio_cflag = 0, tio_lflag = 0, tio_cc = termios_cc\<rparr>"

definition tty_apply_termios :: "termios \<Rightarrow> tty \<Rightarrow> tty" where
  "tty_apply_termios t _ = \<lparr>tty_lflags = ucast (tio_lflag t), tty_iflag = ucast (tio_iflag t),
     tty_oflag = ucast (tio_oflag t)\<rparr>"

definition check_signal_char :: "tty \<Rightarrow> u8 \<Rightarrow> u8" where
  "check_signal_char t byte =
     (if \<not> is_sig_enabled t then 0
      else if byte = SIGINT_CHAR then 2
      else if byte = SIGTSTP_CHAR then 20
      else if byte = SIGQUIT_CHAR then 3
      else 0)"

subsection \<open>Line discipline\<close>

definition LINE_BUF_SIZE :: nat where
  "LINE_BUF_SIZE = 4096"

record console =
  con_tty :: tty
  con_buf :: bytes
  con_r :: nat
  con_w :: nat
  con_e :: nat
  con_shift :: bool
  con_wake_pending :: bool
  con_serial :: bytes

definition serial_write :: "bytes \<Rightarrow> console \<Rightarrow> console" where
  "serial_write bs c = c\<lparr>con_serial := con_serial c @ bs\<rparr>"

definition console_initial :: console where
  "console_initial = \<lparr>con_tty = tty_initial, con_buf = replicate LINE_BUF_SIZE 0, con_r = 0, con_w = 0, con_e = 0,
     con_shift = False, con_wake_pending = False, con_serial = []\<rparr>"

text \<open>Appending a byte at the edit index, if there is space, with its echo.\<close>

definition line_append :: "u8 \<Rightarrow> console \<Rightarrow> console" where
  "line_append byte c =
     (if con_e c < LINE_BUF_SIZE then
        let c = c\<lparr>con_buf := (con_buf c)[con_e c := byte], con_e := con_e c + 1\<rparr> in
        if is_echo (con_tty c) then serial_write [byte] c else c
      else c)"

definition line_discipline_input :: "u8 \<Rightarrow> console \<Rightarrow> u8 option \<times> console" where
  "line_discipline_input byte c =
     (let sig = check_signal_char (con_tty c) byte in
      if sig \<noteq> 0 then
        (Some sig, serial_write [94, if sig = 2 then 67 else if sig = 3 then 92 else if sig = 20 then 90 else 63, 10] c)
      else if byte = 10 then
        (None, (serial_write [10] c)\<lparr>con_w := con_e c, con_wake_pending := True\<rparr>)
      else if byte = 0x08 \<or> byte = 0x7F then
        (None,
         if con_e c > con_r c \<and> is_canonical (con_tty c) then
           serial_write [0x08, 32, 0x08] (c\<lparr>con_e := con_e c - 1\<rparr>)
         else if \<not> is_canonical (con_tty c) then line_append byte c
         else c)
      else
        (None,
         if con_e c < LINE_BUF_SIZE then
           let c = line_append byte c in
           if \<not> is_canonical (con_tty c) then c\<lparr>con_w := con_e c, con_wake_pending := True\<rparr> else c
         else c))"

text \<open>\<open>read_line\<close> copies committed bytes, or returns \<open>None\<close>: the process is blocked and the call returns 0.\<close>

definition read_line :: "nat \<Rightarrow> console \<Rightarrow> bytes option \<times> console" where
  "read_line n c =
     (if con_r c < con_w c then
        let available = con_w c - con_r c;
            to_read = min n available;
            bs = subslice (con_r c) to_read (con_buf c);
            c = c\<lparr>con_r := con_r c + to_read\<rparr>
        in (Some bs, if con_r c = con_w c \<and> con_e c = con_w c then c\<lparr>con_r := 0, con_w := 0, con_e := 0\<rparr> else c)
      else (None, c))"

subsection \<open>Scan codes\<close>

definition SCANCODE_TO_ASCII :: "u8 list" where
  "SCANCODE_TO_ASCII =
     [0, 0, 49, 50, 51, 52, 53, 54, 55, 56, 57, 48, 45, 61, 0, 0,
      113, 119, 101, 114, 116, 121, 117, 105, 111, 112, 91, 93, 0, 0, 97, 115,
      100, 102, 103, 104, 106, 107, 108, 59, 39, 96, 0, 92, 122, 120, 99, 118,
      98, 110, 109, 44, 46, 47, 0, 42, 0, 32, 0, 0, 0, 0, 0, 0,
      0, 0, 0, 0, 0, 0, 0, 0, 0, 0, 45, 0, 0, 0, 43, 0] @ replicate 48 0"

definition shifted :: "u8 \<Rightarrow> u8" where
  "shifted key =
     (if 97 \<le> key \<and> key \<le> 122 then key - 97 + 65
      else case map_of [(49, 33), (50, 64), (51, 35), (52, 36), (53, 37), (54, 94), (55, 38), (56, 42), (57, 40),
          (48, 41), (45, 95), (61, 43), (91, 123), (93, 125), (92, 124), (59, 58), (39, 34), (96, 126), (44, 60),
          (46, 62), (47, 63)] key of
        Some c \<Rightarrow> c | None \<Rightarrow> key)"

definition keyboard_handler :: "u8 \<Rightarrow> console \<Rightarrow> u8 option \<times> console" where
  "keyboard_handler scancode c =
     (if scancode AND 0x80 \<noteq> 0 then
        let make = scancode AND 0x7F in
        (None, if make = 0x2A \<or> make = 0x36 then c\<lparr>con_shift := False\<rparr> else c)
      else if scancode = 0x2A \<or> scancode = 0x36 then (None, c\<lparr>con_shift := True\<rparr>)
      else if scancode = 0x0E then line_discipline_input 0x08 c
      else if scancode = 0x1C then line_discipline_input 10 c
      else if scancode = 0x39 then line_discipline_input 32 c
      else if unat scancode < length SCANCODE_TO_ASCII then
        let key = SCANCODE_TO_ASCII ! unat scancode in
        if key \<noteq> 0 then line_discipline_input (if con_shift c then shifted key else key) c else (None, c)
      else (None, c))"

subsection \<open>Typing a line\<close>

text \<open>What a canonical-mode user means: a byte is appended, a backspace removes the last one.\<close>

fun edit_line :: "bytes \<Rightarrow> bytes \<Rightarrow> bytes" where
  "edit_line line [] = line"
| "edit_line line (b # bs) =
     edit_line (if b = 0x08 \<or> b = 0x7F then butlast line
                else if length line < LINE_BUF_SIZE then line @ [b] else line) bs"

definition text_key :: "u8 \<Rightarrow> bool" where
  "text_key b \<longleftrightarrow> b \<noteq> 10 \<and> b \<noteq> SIGINT_CHAR \<and> b \<noteq> SIGTSTP_CHAR \<and> b \<noteq> SIGQUIT_CHAR"

definition type_keys :: "bytes \<Rightarrow> console \<Rightarrow> console" where
  "type_keys bs c = fold (\<lambda>b c. snd (line_discipline_input b c)) bs c"

lemma check_signal_text: "text_key b \<Longrightarrow> check_signal_char t b = 0"
  by (simp add: check_signal_char_def text_key_def)

lemma serial_write_fields [simp]:
  "con_tty (serial_write bs c) = con_tty c" "con_buf (serial_write bs c) = con_buf c"
  "con_r (serial_write bs c) = con_r c" "con_w (serial_write bs c) = con_w c" "con_e (serial_write bs c) = con_e c"
  by (simp_all add: serial_write_def)

lemma input_text_key:
  assumes "text_key b" "is_canonical (con_tty c)" "length (con_buf c) = LINE_BUF_SIZE"
    and "con_r c = 0" "con_e c \<le> LINE_BUF_SIZE"
  defines "c' \<equiv> snd (line_discipline_input b c)"
  shows "con_tty c' = con_tty c \<and> con_r c' = 0 \<and> con_w c' = con_w c \<and> length (con_buf c') = LINE_BUF_SIZE
    \<and> con_e c' \<le> LINE_BUF_SIZE \<and> take (con_e c') (con_buf c') = edit_line (take (con_e c) (con_buf c)) [b]"
proof (cases "b = 0x08 \<or> b = 0x7F")
  case True
  then show ?thesis
    using assms(2-5) check_signal_text [OF assms(1)]
    by (auto simp: c'_def line_discipline_input_def butlast_take)
next
  case False
  then have "b \<noteq> 10" using assms(1) by (simp add: text_key_def)
  with False show ?thesis
    using assms(2-5) check_signal_text [OF assms(1)]
    by (auto simp: c'_def line_discipline_input_def line_append_def Let_def take_Suc_conv_app_nth)
qed

lemma type_keys_edit:
  assumes "list_all text_key bs" "is_canonical (con_tty c)" "length (con_buf c) = LINE_BUF_SIZE"
    and "con_r c = 0" "con_e c \<le> LINE_BUF_SIZE"
  shows "con_tty (type_keys bs c) = con_tty c \<and> con_r (type_keys bs c) = 0 \<and> con_w (type_keys bs c) = con_w c \<and>
    length (con_buf (type_keys bs c)) = LINE_BUF_SIZE \<and> con_e (type_keys bs c) \<le> LINE_BUF_SIZE \<and>
    take (con_e (type_keys bs c)) (con_buf (type_keys bs c)) = edit_line (take (con_e c) (con_buf c)) bs"
  using assms
proof (induction bs arbitrary: c)
  case (Cons b bs)
  let ?c = "snd (line_discipline_input b c)"
  have step: "type_keys (b # bs) c = type_keys bs ?c" by (simp add: type_keys_def)
  have b: "text_key b" "list_all text_key bs" using Cons.prems(1) by simp_all
  note k = input_text_key [OF b(1) Cons.prems(2-5)]
  have "edit_line (take (con_e ?c) (con_buf ?c)) bs = edit_line (take (con_e c) (con_buf c)) (b # bs)"
    using k by simp
  with Cons.IH [of ?c] b(2) k Cons.prems(2) show ?case
    unfolding step by simp
qed (simp add: type_keys_def)



text \<open>
  C36. The documented order of the indices, read \<open>\<le>\<close> committed \<open>\<le>\<close> edited, is not kept: a backspace typed
  right after Enter, before the line is read, moves the edit index below the committed one. A reader that comes at once
  still gets the line; but the next character overwrites the last byte of the committed line, and a reader that comes then gets
  the line with this byte replaced.
\<close>

theorem backspace_reopens_committed_line:
  assumes "is_canonical (con_tty c)" "con_r c < con_w c" "con_e c = con_w c" "con_w c \<le> length (con_buf c)"
    and "text_key b" "b \<noteq> 0x08" "b \<noteq> 0x7F" "con_w c \<le> LINE_BUF_SIZE"
    and "c1 = snd (line_discipline_input 0x08 c)" "c2 = snd (line_discipline_input b c1)"
  shows "con_e c1 < con_w c1
    \<and> fst (read_line (con_w c - con_r c) c1) = Some (subslice (con_r c) (con_w c - con_r c) (con_buf c))
    \<and> fst (read_line (con_w c - con_r c) c2) =
    Some (subslice (con_r c) (con_w c - con_r c - 1) (con_buf c) @ [b])"
proof -
  have bs: "text_key 0x08" by (simp add: text_key_def SIGINT_CHAR_def SIGTSTP_CHAR_def SIGQUIT_CHAR_def)
  have c1: "c1 = serial_write [0x08, 32, 0x08] (c\<lparr>con_e := con_e c - 1\<rparr>)"
    using assms(1-3,9) check_signal_text [OF bs] by (simp add: line_discipline_input_def)
  have e: "con_e c - 1 < LINE_BUF_SIZE" using assms(2,3,8) by simp
  have "b \<noteq> 10" using assms(5) by (simp add: text_key_def)
  then have c2: "con_r c2 = con_r c" "con_w c2 = con_w c" "con_buf c2 = (con_buf c)[con_w c - 1 := b]"
    using assms(1,3,6,7,10) e check_signal_text [OF assms(5)]
    by (auto simp: c1 line_discipline_input_def line_append_def Let_def)
  have "subslice (con_r c) (con_w c - con_r c) ((con_buf c)[con_w c - 1 := b]) =
      subslice (con_r c) (con_w c - con_r c - 1) (con_buf c) @ [b]"
    using assms(2,4) by (intro nth_equalityI) (auto simp: subslice_def nth_append nth_list_update)
  then have "fst (read_line (con_w c - con_r c) c2) =
      Some (subslice (con_r c) (con_w c - con_r c - 1) (con_buf c) @ [b])"
    using assms(2) c2 by (simp add: read_line_def Let_def)
  moreover have "fst (read_line (con_w c - con_r c) c1) = Some (subslice (con_r c) (con_w c - con_r c) (con_buf c))"
    using assms(2) by (simp add: c1 read_line_def Let_def)
  moreover have "con_e c1 < con_w c1" using assms(2,3) by (simp add: c1)
  ultimately show ?thesis by simp
qed

theorem backspace_reopens_committed_line_witness:
  "\<exists>c :: console. con_buf c ! 0 = 97 \<and> con_w c = 1 \<and>
     fst (read_line 1 (snd (line_discipline_input 98 (snd (line_discipline_input 0x08 c))))) = Some [98]"
proof -
  let ?c = "console_initial\<lparr>con_buf := 97 # replicate 4095 0, con_w := 1, con_e := 1\<rparr>"
  have c: "is_canonical (con_tty ?c)" "con_r ?c < con_w ?c" "con_e ?c = con_w ?c" "con_w ?c \<le> length (con_buf ?c)"
    "text_key 98" "(98 :: u8) \<noteq> 0x08" "(98 :: u8) \<noteq> 0x7F" "con_w ?c \<le> LINE_BUF_SIZE"
    by (simp_all add: console_initial_def is_canonical_def tty_initial_def ICANON_def ECHO_def ISIG_def
        text_key_def SIGINT_CHAR_def SIGTSTP_CHAR_def SIGQUIT_CHAR_def LINE_BUF_SIZE_def)
  from backspace_reopens_committed_line [OF c refl refl] show ?thesis
    by (intro exI [of _ ?c]) (simp add: console_initial_def subslice_def)
qed

end
