(* ===== verification/Vfs_Types.thy ===== *)
theory Vfs_Types
  imports Kernel_Prelude
begin

text \<open>
  The errors of the virtual file system layer (\<^verbatim>\<open>indo-kernel/src/vfs/mod.rs\<close>), shared by the
  filesystems below it and the system calls above it.
\<close>

datatype vfs_error =
    NotFound | PermissionDenied | AlreadyExists | NotFile | NotDirectory | TooManyOpenFiles
  | InvalidSeek | NoSpace | IoError | BadPath

fun vfs_error_to_errno :: "vfs_error \<Rightarrow> int" where
  "vfs_error_to_errno NotFound = - 2"
| "vfs_error_to_errno PermissionDenied = - 1"
| "vfs_error_to_errno AlreadyExists = - 17"
| "vfs_error_to_errno NotFile = - 20"
| "vfs_error_to_errno NotDirectory = - 20"
| "vfs_error_to_errno TooManyOpenFiles = - 24"
| "vfs_error_to_errno InvalidSeek = - 29"
| "vfs_error_to_errno NoSpace = - 28"
| "vfs_error_to_errno IoError = - 5"
| "vfs_error_to_errno BadPath = - 2"

end
