(* ===== verification/Block.thy ===== *)
theory Block
  imports Kernel_Prelude
begin

text \<open>
  Block devices (\<^verbatim>\<open>indo-kernel/src/block\<close>): the \<open>BlockDevice\<close> trait, the RAM disk and the device
  registry. A device is a record of the trait's methods over the device's state; the locale
  \<open>block_device\<close> states what a filesystem relies on and the RAM disk is its model.
\<close>

subsection \<open>Errors and the device interface\<close>

datatype block_error =
    InvalidBufferSize | OutOfBounds | DeviceNotReady | BlockIoError | ReadOnly
  | TooManyDevices | DeviceAlreadyExists | NoSuchDevice

fun block_error_to_errno :: "block_error \<Rightarrow> int" where
  "block_error_to_errno InvalidBufferSize = - 22"
| "block_error_to_errno OutOfBounds = - 22"
| "block_error_to_errno DeviceNotReady = - 19"
| "block_error_to_errno BlockIoError = - 5"
| "block_error_to_errno ReadOnly = - 30"
| "block_error_to_errno TooManyDevices = - 24"
| "block_error_to_errno DeviceAlreadyExists = - 17"
| "block_error_to_errno NoSuchDevice = - 19"

text \<open>
  \<open>dev_read lba n\<close> fills a buffer of \<open>n\<close> bytes, \<open>dev_write lba buf\<close> stores one. Reads take the
  device by shared reference and leave its contents as they are.
\<close>

record 'd blockdev =
  dev_read :: "u64 \<Rightarrow> nat \<Rightarrow> 'd \<Rightarrow> (block_error, bytes) outcome"
  dev_write :: "u64 \<Rightarrow> bytes \<Rightarrow> ('d, block_error, unit) op"
  dev_sector_size :: "'d \<Rightarrow> u32"
  dev_total_sectors :: "'d \<Rightarrow> u64"

definition read_sector :: "'d blockdev \<Rightarrow> u64 \<Rightarrow> nat \<Rightarrow> ('d, block_error, bytes) op" where
  "read_sector dev lba n d = (dev_read dev lba n d, d)"

definition write_sector :: "'d blockdev \<Rightarrow> u64 \<Rightarrow> bytes \<Rightarrow> ('d, block_error, unit) op" where
  "write_sector dev lba buf d = dev_write dev lba buf d"

subsection \<open>RAM disk\<close>

record ramdisk =
  rd_data :: bytes
  rd_sector_size :: u32
  rd_total_sectors :: u64

definition ramdisk_new :: "u64 \<Rightarrow> u32 \<Rightarrow> ramdisk or_panic" where
  "ramdisk_new num_sectors sector_size =
     rbind (assert_that (num_sectors > 0) ''RAM disk: num_sectors must be > 0'') (\<lambda>_.
     rbind (assert_that (sector_size > 0) ''RAM disk: sector_size must be > 0'') (\<lambda>_.
     rbind (ok_or (Panic ''RAM disk: size overflow'') (checked_mul num_sectors (ucast sector_size))) (\<lambda>total_bytes.
     rbind (assert_that (total_bytes \<le> 16 * 1024 * 1024) ''RAM disk: size exceeds 16 MiB limit'') (\<lambda>_.
     Inr \<lparr>rd_data = replicate (unat total_bytes) 0, rd_sector_size = sector_size,
          rd_total_sectors = num_sectors\<rparr>))))"

text \<open>The checks both operations share, then the byte offset of the sector.\<close>

definition ramdisk_offset :: "ramdisk \<Rightarrow> u64 \<Rightarrow> nat \<Rightarrow> (block_error, nat) outcome" where
  "ramdisk_offset r lba n =
     (if n \<noteq> unat (rd_sector_size r) then Inl (Err InvalidBufferSize)
      else if lba \<ge> rd_total_sectors r then Inl (Err OutOfBounds)
      else rbind (ok_or (Err OutOfBounds) (checked_mul lba (ucast (rd_sector_size r)))) (\<lambda>off. Inr (unat off)))"

definition ramdisk_read :: "u64 \<Rightarrow> nat \<Rightarrow> ramdisk \<Rightarrow> (block_error, bytes) outcome" where
  "ramdisk_read lba n r =
     rbind (ramdisk_offset r lba n) (\<lambda>offset.
       if offset + unat (rd_sector_size r) \<le> length (rd_data r)
       then Inr (subslice offset (unat (rd_sector_size r)) (rd_data r))
       else Inl (Crash Slice_out_of_range))"

definition ramdisk_write :: "u64 \<Rightarrow> bytes \<Rightarrow> (ramdisk, block_error, unit) op" where
  "ramdisk_write lba buf r =
     (case ramdisk_offset r lba (length buf) of
        Inl e \<Rightarrow> (Inl e, r)
      | Inr offset \<Rightarrow>
          if offset + unat (rd_sector_size r) \<le> length (rd_data r)
          then (Inr (), r\<lparr>rd_data := overwrite offset buf (rd_data r)\<rparr>)
          else (Inl (Crash Slice_out_of_range), r))"

definition ramdisk_dev :: "ramdisk blockdev" where
  "ramdisk_dev = \<lparr>dev_read = ramdisk_read, dev_write = ramdisk_write,
     dev_sector_size = rd_sector_size, dev_total_sectors = rd_total_sectors\<rparr>"

subsection \<open>Device registry\<close>

type_synonym 'd registry = "'d option list"

definition MAX_DEVICES :: nat where
  "MAX_DEVICES = 16"

definition registry_new :: "'d registry" where
  "registry_new = replicate MAX_DEVICES None"

definition registry_register :: "'d \<Rightarrow> 'd registry \<Rightarrow> (block_error + nat) \<times> 'd registry" where
  "registry_register device reg =
     (case List.find (\<lambda>i. reg ! i = None) [0..<MAX_DEVICES] of
        Some i \<Rightarrow> (Inr i, reg[i := Some device])
      | None \<Rightarrow> (Inl TooManyDevices, reg))"

definition registry_get :: "nat \<Rightarrow> 'd registry \<Rightarrow> 'd option" where
  "registry_get dev_id reg = (if dev_id \<ge> MAX_DEVICES then None else reg ! dev_id)"

definition registry_unregister :: "nat \<Rightarrow> 'd registry \<Rightarrow> 'd option \<times> 'd registry" where
  "registry_unregister dev_id reg =
     (if dev_id \<ge> MAX_DEVICES then (None, reg) else (reg ! dev_id, reg[dev_id := None]))"

subsection \<open>What filesystems rely on\<close>

text \<open>
  A well-behaved device over an abstract sequence of sectors: a read in range returns the sector,
  a write in range replaces it and no other, and a request out of range or with a buffer of the
  wrong size is an error that changes nothing.
\<close>

locale block_device =
  fixes dev :: "'d blockdev"
    and disk_inv :: "'d \<Rightarrow> bool"
    and sectors :: "'d \<Rightarrow> nat \<Rightarrow> bytes"
  assumes read_in_range: "disk_inv d \<Longrightarrow> lba < dev_total_sectors dev d \<Longrightarrow>
      dev_read dev lba (unat (dev_sector_size dev d)) d = Inr (sectors d (unat lba))"
    and sector_length: "disk_inv d \<Longrightarrow> i < unat (dev_total_sectors dev d) \<Longrightarrow>
      length (sectors d i) = unat (dev_sector_size dev d)"
    and write_in_range: "disk_inv d \<Longrightarrow> lba < dev_total_sectors dev d \<Longrightarrow>
      length buf = unat (dev_sector_size dev d) \<Longrightarrow>
      \<exists>d'. dev_write dev lba buf d = (Inr (), d') \<and> disk_inv d' \<and>
        dev_sector_size dev d' = dev_sector_size dev d \<and>
        dev_total_sectors dev d' = dev_total_sectors dev d \<and>
        (\<forall>i < unat (dev_total_sectors dev d). sectors d' i = (if i = unat lba then buf else sectors d i))"
    and read_out_of_range: "disk_inv d \<Longrightarrow> dev_total_sectors dev d \<le> lba \<Longrightarrow>
      dev_read dev lba (unat (dev_sector_size dev d)) d = Inl (Err OutOfBounds)"
    and write_out_of_range: "disk_inv d \<Longrightarrow> dev_total_sectors dev d \<le> lba \<Longrightarrow>
      length buf = unat (dev_sector_size dev d) \<Longrightarrow> dev_write dev lba buf d = (Inl (Err OutOfBounds), d)"

definition ramdisk_inv :: "ramdisk \<Rightarrow> bool" where
  "ramdisk_inv r \<longleftrightarrow> 0 < rd_sector_size r \<and>
     unat (rd_total_sectors r) * unat (rd_sector_size r) = length (rd_data r) \<and>
     length (rd_data r) < 2 ^ 64"

definition ramdisk_sectors :: "ramdisk \<Rightarrow> nat \<Rightarrow> bytes" where
  "ramdisk_sectors r i = subslice (i * unat (rd_sector_size r)) (unat (rd_sector_size r)) (rd_data r)"

lemma sector_in_disk:
  assumes "ramdisk_inv r" "i < unat (rd_total_sectors r)"
  shows "i * unat (rd_sector_size r) + unat (rd_sector_size r) \<le> length (rd_data r)"
proof -
  have "Suc i * unat (rd_sector_size r) \<le> unat (rd_total_sectors r) * unat (rd_sector_size r)"
    using assms(2) by (intro mult_le_mono1) simp
  then show ?thesis
    using assms(1) by (simp add: ramdisk_inv_def add.commute)
qed

lemma ramdisk_offset_in_range:
  assumes "ramdisk_inv r" "lba < rd_total_sectors r"
  shows "ramdisk_offset r lba (unat (rd_sector_size r)) = Inr (unat lba * unat (rd_sector_size r))"
proof -
  have s: "unat (ucast (rd_sector_size r) :: u64) = unat (rd_sector_size r)"
    by (simp add: unat_ucast_le)
  have "unat lba * unat (rd_sector_size r) < 2 ^ 64"
    using sector_in_disk [OF assms(1), of "unat lba"] assms by (simp add: ramdisk_inv_def word_less_nat_alt)
  then have "checked_mul lba (ucast (rd_sector_size r)) = Some (lba * ucast (rd_sector_size r))"
    by (simp add: checked_mul_def s)
  with unat_checked_mul [OF this] assms show ?thesis
    by (simp add: ramdisk_offset_def s)
qed

lemma ramdisk_new_inv: "ramdisk_new n sz = Inr r \<Longrightarrow> ramdisk_inv r"
proof -
  assume a: "ramdisk_new n sz = Inr r"
  have s: "unat (ucast sz :: u64) = unat sz"
    by (simp add: unat_ucast_le)
  from a obtain t where t: "checked_mul n (ucast sz) = Some t" "0 < sz"
      "r = \<lparr>rd_data = replicate (unat t) 0, rd_sector_size = sz, rd_total_sectors = n\<rparr>"
    by (auto simp: ramdisk_new_def res_simps)
  then show ?thesis
    using unat_checked_mul [OF t(1)] unsigned_less [of t, where ?'a = nat] by (simp add: ramdisk_inv_def s)
qed

lemma ramdisk_sectors_write:
  assumes "ramdisk_inv r" "length buf = unat (rd_sector_size r)" "j < unat (rd_total_sectors r)"
    and "i < unat (rd_total_sectors r)"
  shows "ramdisk_sectors (r\<lparr>rd_data := overwrite (j * unat (rd_sector_size r)) buf (rd_data r)\<rparr>) i
    = (if i = j then buf else ramdisk_sectors r i)"
proof (cases "i = j")
  case True
  then show ?thesis
    using sector_in_disk [OF assms(1,3)] slice_overwrite_same [of "j * length buf" buf "rd_data r"]
    by (simp add: ramdisk_sectors_def flip: assms(2))
next
  case False
  let ?n = "unat (rd_sector_size r)"
  have "i * ?n + ?n \<le> j * ?n \<or> j * ?n + ?n \<le> i * ?n"
  proof (cases "i < j")
    case True
    then have "Suc i * ?n \<le> j * ?n" by (intro mult_le_mono1) simp
    then show ?thesis by simp
  next
    case f: False
    with False have "Suc j * ?n \<le> i * ?n" by (intro mult_le_mono1) simp
    then show ?thesis by simp
  qed
  with False show ?thesis
    using sector_in_disk [OF assms(1,3)] sector_in_disk [OF assms(1,4)] assms(2)
      slice_overwrite_disjoint [of "j * ?n" buf "rd_data r" "i * ?n" ?n]
    by (simp add: ramdisk_sectors_def)
qed

lemma ramdisk_write_in_range:
  assumes "ramdisk_inv r" "lba < rd_total_sectors r" "length buf = unat (rd_sector_size r)"
  shows "ramdisk_write lba buf r =
      (Inr (), r\<lparr>rd_data := overwrite (unat lba * unat (rd_sector_size r)) buf (rd_data r)\<rparr>)"
    and "ramdisk_inv (r\<lparr>rd_data := overwrite (unat lba * unat (rd_sector_size r)) buf (rd_data r)\<rparr>)"
proof -
  have fit: "unat lba * unat (rd_sector_size r) + unat (rd_sector_size r) \<le> length (rd_data r)"
    using assms by (intro sector_in_disk) (simp_all add: word_less_nat_alt)
  show "ramdisk_write lba buf r =
      (Inr (), r\<lparr>rd_data := overwrite (unat lba * unat (rd_sector_size r)) buf (rd_data r)\<rparr>)"
    using fit assms(3) ramdisk_offset_in_range [OF assms(1,2)] by (simp add: ramdisk_write_def)
  show "ramdisk_inv (r\<lparr>rd_data := overwrite (unat lba * unat (rd_sector_size r)) buf (rd_data r)\<rparr>)"
    using assms fit by (simp add: ramdisk_inv_def length_overwrite)
qed

lemmas ramdisk_dev_simps = ramdisk_dev_def ramdisk_read_def ramdisk_offset_def

interpretation rd: block_device ramdisk_dev ramdisk_inv ramdisk_sectors
proof
  fix d lba
  assume "ramdisk_inv d" "lba < dev_total_sectors ramdisk_dev d"
  then show "dev_read ramdisk_dev lba (unat (dev_sector_size ramdisk_dev d)) d = Inr (ramdisk_sectors d (unat lba))"
    using sector_in_disk [of d "unat lba"]
    by (simp add: ramdisk_dev_def ramdisk_read_def ramdisk_offset_in_range ramdisk_sectors_def word_less_nat_alt)
next
  fix d i
  assume "ramdisk_inv d" "i < unat (dev_total_sectors ramdisk_dev d)"
  then show "length (ramdisk_sectors d i) = unat (dev_sector_size ramdisk_dev d)"
    using sector_in_disk [of d i] by (simp add: ramdisk_dev_def ramdisk_sectors_def length_subslice)
next
  fix d lba and buf :: bytes
  assume a: "ramdisk_inv d" "lba < dev_total_sectors ramdisk_dev d" "length buf = unat (dev_sector_size ramdisk_dev d)"
  then have "\<forall>i < unat (rd_total_sectors d).
      ramdisk_sectors (d\<lparr>rd_data := overwrite (unat lba * unat (rd_sector_size d)) buf (rd_data d)\<rparr>) i
      = (if i = unat lba then buf else ramdisk_sectors d i)"
    using ramdisk_sectors_write [of d buf "unat lba"] by (simp add: ramdisk_dev_def word_less_nat_alt)
  with a ramdisk_write_in_range [of d lba buf]
  show "\<exists>d'. dev_write ramdisk_dev lba buf d = (Inr (), d') \<and> ramdisk_inv d' \<and>
        dev_sector_size ramdisk_dev d' = dev_sector_size ramdisk_dev d \<and>
        dev_total_sectors ramdisk_dev d' = dev_total_sectors ramdisk_dev d \<and>
        (\<forall>i < unat (dev_total_sectors ramdisk_dev d).
          ramdisk_sectors d' i = (if i = unat lba then buf else ramdisk_sectors d i))"
    by (simp add: ramdisk_dev_def)
qed (simp_all add: ramdisk_dev_def ramdisk_read_def ramdisk_write_def ramdisk_offset_def)

subsection \<open>The RAM disk as an array of sectors\<close>

text \<open>A history of write requests, and what it leaves in one sector.\<close>

definition ramdisk_writes :: "(u64 \<times> bytes) list \<Rightarrow> ramdisk \<Rightarrow> ramdisk" where
  "ramdisk_writes ws r = fold (\<lambda>(lba, buf) r. snd (ramdisk_write lba buf r)) ws r"

definition sector_after :: "u32 \<Rightarrow> (u64 \<times> bytes) list \<Rightarrow> u64 \<Rightarrow> bytes" where
  "sector_after sz ws lba =
     fold (\<lambda>(l, buf) s. if l = lba \<and> length buf = unat sz then buf else s) ws (replicate (unat sz) 0)"

lemma ramdisk_writes_ok:
  assumes "ramdisk_new n sz = Inr r"
  shows "ramdisk_inv (ramdisk_writes ws r) \<and> rd_sector_size (ramdisk_writes ws r) = sz \<and>
    rd_total_sectors (ramdisk_writes ws r) = n \<and>
    (\<forall>lba < n. ramdisk_sectors (ramdisk_writes ws r) (unat lba) = sector_after sz ws lba)"
proof (induction ws rule: rev_induct)
  case Nil
  have r: "rd_sector_size r = sz" "rd_total_sectors r = n" "rd_data r = replicate (length (rd_data r)) 0"
    using assms by (auto simp: ramdisk_new_def res_simps)
  have "ramdisk_sectors r (unat lba) = replicate (unat sz) 0" if "lba < n" for lba
  proof -
    have "unat lba * unat sz + unat sz \<le> length (rd_data r)"
      using sector_in_disk [OF ramdisk_new_inv [OF assms], of "unat lba"] that r(1,2) by (simp add: word_less_nat_alt)
    then show ?thesis
      by (simp add: ramdisk_sectors_def r(1) subslice_def) (subst r(3), simp add: min_def)
  qed
  then show ?case
    using r ramdisk_new_inv [OF assms] by (simp add: ramdisk_writes_def sector_after_def)
next
  case (snoc w ws)
  obtain lba buf where w: "w = (lba, buf)" by fastforce
  let ?r = "ramdisk_writes ws r"
  have step: "ramdisk_writes (ws @ [w]) r = snd (ramdisk_write lba buf ?r)"
    "sector_after sz (ws @ [w]) l = (if lba = l \<and> length buf = unat sz then buf else sector_after sz ws l)" for l
    by (simp_all add: ramdisk_writes_def sector_after_def w)
  show ?case
  proof (cases "length buf = unat sz \<and> lba < n")
    case True
    then have wr: "length buf = unat (rd_sector_size ?r)" "lba < rd_total_sectors ?r" using snoc by simp_all
    note ok = ramdisk_write_in_range [OF conjunct1 [OF snoc] wr(2,1)]
    have "ramdisk_sectors (snd (ramdisk_write lba buf ?r)) (unat l) = (if lba = l then buf else sector_after sz ws l)"
      if "l < n" for l
      using ramdisk_sectors_write [OF conjunct1 [OF snoc] wr(1), of "unat lba" "unat l"] that snoc wr(2)
      by (auto simp: ok(1) word_less_nat_alt dest: unsigned_word_eqI)
    then show ?thesis
      using ok snoc True by (auto simp: step)
  next
    case False
    then have "ramdisk_write lba buf ?r = (Inl (Err (if length buf \<noteq> unat sz then InvalidBufferSize else OutOfBounds)), ?r)"
      using snoc by (auto simp: ramdisk_write_def ramdisk_offset_def)
    then show ?thesis
      using snoc False by (auto simp: step)
  qed
qed

text \<open>
  C22. A RAM disk behaves as an array of zero-initialised sectors: after any history of
  write requests, valid or not, a read with a buffer of the sector's size returns what the last valid
  write to that sector stored; other reads are \<open>InvalidBufferSize\<close> or \<open>OutOfBounds\<close>, and no request
  panics.
\<close>

theorem ramdisk_refines_sectors:
  assumes "ramdisk_new n sz = Inr r"
  shows "ramdisk_read lba len (ramdisk_writes ws r) =
    (if len \<noteq> unat sz then Inl (Err InvalidBufferSize)
     else if lba \<ge> n then Inl (Err OutOfBounds)
     else Inr (sector_after sz ws lba))"
proof (cases "len = unat sz \<and> lba < n")
  case True
  with rd.read_in_range [of "ramdisk_writes ws r" lba] ramdisk_writes_ok [OF assms, of ws] show ?thesis
    by (auto simp: ramdisk_dev_def)
next
  case False
  with ramdisk_writes_ok [OF assms, of ws] show ?thesis
    by (auto simp: ramdisk_read_def ramdisk_offset_def)
qed

theorem ramdisk_refines_sectors_witness:
  "\<exists>r. ramdisk_new 2 4 = Inr r \<and>
     ramdisk_read 1 4 (ramdisk_writes [(1, [1, 2, 3, 4]), (9, [0, 0, 0, 0]), (1, [7])] r) = Inr [1, 2, 3, 4]"
proof -
  have n: "ramdisk_new 2 4 = Inr \<lparr>rd_data = replicate 8 0, rd_sector_size = 4, rd_total_sectors = 2\<rparr>"
    by (simp add: ramdisk_new_def checked_mul_def)
  show ?thesis
    using n ramdisk_refines_sectors [OF n, of 1 4 "[(1, [1, 2, 3, 4]), (9, [0, 0, 0, 0]), (1, [7])]"]
    by (simp add: sector_after_def word_le_nat_alt)
qed

subsection \<open>Registered devices\<close>

text \<open>
  Registering a device in a table of sixteen slots gives it the lowest free id, under which it is
  found until that id is unregistered, which returns it; devices under other ids are not affected, and
  registering fails with \<open>TooManyDevices\<close> exactly when no slot is free.
\<close>

theorem registry_ids:
  assumes "length reg = MAX_DEVICES" "registry_register device reg = (r, reg')"
  shows "(r = Inl TooManyDevices \<longleftrightarrow> None \<notin> set reg) \<and>
    (\<forall>i. r = Inr i \<longrightarrow> registry_get i reg = None \<and> (\<forall>j < i. registry_get j reg \<noteq> None) \<and>
       registry_get i reg' = Some device \<and> (\<forall>j. j \<noteq> i \<longrightarrow> registry_get j reg' = registry_get j reg) \<and>
       registry_unregister i reg' = (Some device, reg))"
proof (cases "List.find (\<lambda>i. reg ! i = None) [0..<MAX_DEVICES]")
  case None
  then have "None \<notin> set reg"
    using assms(1) by (auto simp: find_upt_None_iff in_set_conv_nth)
  then show ?thesis
    using assms None by (auto simp: registry_register_def)
next
  case (Some i)
  then have i: "i < length reg" "reg ! i = None" "\<forall>j < i. reg ! j \<noteq> None"
    using assms(1) by (simp_all add: find_upt_Some_iff)
  have "None \<in> set reg" using i(1,2) nth_mem by fastforce
  moreover have "reg[i := None] = reg" using i(2) list_update_id [of reg i] by simp
  ultimately show ?thesis
    using assms Some i by (auto simp: registry_register_def registry_get_def registry_unregister_def)
qed

theorem registry_ids_witness:
  "registry_register (5 :: nat) registry_new = (Inr 0, registry_new[0 := Some 5]) \<and>
   registry_get 0 (registry_new[0 := Some (5 :: nat)]) = Some 5"
proof -
  have r: "registry_register (5 :: nat) registry_new = (Inr 0, registry_new[0 := Some 5])"
    by code_simp
  have "length (registry_new :: nat registry) = MAX_DEVICES" by (simp add: registry_new_def)
  from registry_ids [OF this r] r show ?thesis by simp
qed

end
