(* ===== verification/Fat_Bpb.thy ===== *)
theory Fat_Bpb
  imports Vfs_Types Block
begin

text \<open>
  The on-disk structures of the FAT driver (\<^verbatim>\<open>indo-kernel/src/fat32.rs\<close>): the parameter block of
  the boot sector and the 32-byte directory entries with their 8.3 names.
\<close>

subsection \<open>Parameter block\<close>

datatype fat_variant = Fat16 | Fat32

record fat_bpb =
  bpb_variant :: fat_variant
  bytes_per_sector :: u16
  sectors_per_cluster :: u8
  reserved_sectors :: u16
  num_fats :: u8
  root_cluster :: u32
  fat_size_sectors :: u32
  bpb_total_sectors :: u32
  base_sector :: u32
  data_start_sector :: u32
  bytes_per_cluster :: u32
  root_entry_count :: u16
  root_dir_start_sector :: u32
  root_dir_sectors :: u32

definition le16_at :: "bytes \<Rightarrow> nat \<Rightarrow> u16" where
  "le16_at buf i = from_le_bytes (subslice i 2 buf)"

definition le32_at :: "bytes \<Rightarrow> nat \<Rightarrow> u32" where
  "le32_at buf i = from_le_bytes (subslice i 4 buf)"

definition fat_bpb_parse :: "bytes \<Rightarrow> u32 \<Rightarrow> vfs_error + fat_bpb" where
  "fat_bpb_parse buf base =
     (if length buf < 512 then Inl IoError
      else let bps = le16_at buf 11; spc = buf ! 13; rs = le16_at buf 14; nf = buf ! 16 in
      if bps = 0 \<or> spc = 0 then Inl IoError
      else let bpc = ucast bps * ucast spc;
               fat_sz32 = le32_at buf 36; fat_sz16 = le16_at buf 22; rec = le16_at buf 17 in
      rbind
        (if fat_sz16 \<noteq> 0 \<and> rec \<noteq> 0
         then Inr (Fat16, ucast fat_sz16,
                let ts16 = le16_at buf 19 in if ts16 \<noteq> 0 then ucast ts16 else le32_at buf 32, 0)
         else if fat_sz32 \<noteq> 0 then Inr (Fat32, fat_sz32, le32_at buf 32, le32_at buf 44)
         else Inl IoError)
        (\<lambda>(variant, fat_size, total, root).
          let fat_area_end = ucast rs + ucast nf * fat_size;
              rd_sectors = (ucast rec * 32 + (ucast bps - 1)) div ucast bps
          in Inr \<lparr>bpb_variant = variant, bytes_per_sector = bps, sectors_per_cluster = spc,
                reserved_sectors = rs, num_fats = nf, root_cluster = root, fat_size_sectors = fat_size,
                bpb_total_sectors = total, base_sector = base,
                data_start_sector = (if variant = Fat16 then fat_area_end + rd_sectors else fat_area_end),
                bytes_per_cluster = bpc, root_entry_count = rec,
                root_dir_start_sector = (if variant = Fat16 then fat_area_end else 0),
                root_dir_sectors = (if variant = Fat16 then rd_sectors else 0)\<rparr>))"

definition cluster_to_sector :: "fat_bpb \<Rightarrow> u32 \<Rightarrow> u32" where
  "cluster_to_sector bpb cluster =
     base_sector bpb + data_start_sector bpb + saturating_sub cluster 2 * ucast (sectors_per_cluster bpb)"

definition fat_eoc :: "fat_bpb \<Rightarrow> u32" where
  "fat_eoc bpb = (case bpb_variant bpb of Fat16 \<Rightarrow> 0xFFF8 | Fat32 \<Rightarrow> 0x0FFFFFF8)"

definition max_cluster :: "fat_bpb \<Rightarrow> u32" where
  "max_cluster bpb = (case bpb_variant bpb of Fat16 \<Rightarrow> 0xFFF0 | Fat32 \<Rightarrow> 0x0FFFFFF0)"

definition fat_area_sectors :: "fat_bpb \<Rightarrow> u32" where
  "fat_area_sectors bpb = ucast (reserved_sectors bpb) + ucast (num_fats bpb) * fat_size_sectors bpb"

subsection \<open>Directory entries\<close>

record fat_dir_entry =
  de_name :: rstring
  de_attributes :: u8
  de_first_cluster :: u32
  de_size :: u32
  de_is_lfn :: bool

definition to_lower :: "u8 \<Rightarrow> u8" where
  "to_lower b = (if 65 \<le> b \<and> b \<le> 90 then b + 32 else b)"

definition to_upper :: "u8 \<Rightarrow> u8" where
  "to_upper b = (if 97 \<le> b \<and> b \<le> 122 then b - 32 else b)"

definition name_field :: "bytes \<Rightarrow> rstring" where
  "name_field bs = concat (map (utf8_char \<circ> to_lower) (takeWhile (\<lambda>b. b \<noteq> 0x20 \<and> b \<noteq> 0) bs))"

definition fat_dir_entry_parse :: "bytes \<Rightarrow> fat_dir_entry option" where
  "fat_dir_entry_parse buf =
     (if length buf < 32 then None
      else if buf ! 0 = 0xE5 \<or> buf ! 0 = 0 then None
      else let attr = buf ! 11 in
      if attr = 0x0F
      then Some \<lparr>de_name = [], de_attributes = attr, de_first_cluster = 0, de_size = 0, de_is_lfn = True\<rparr>
      else if attr AND 0x08 \<noteq> 0 then None
      else let name_part = name_field (subslice 0 8 buf);
               ext_part = name_field (subslice 8 3 buf);
               full_name = (if ext_part = [] then name_part else name_part @ [46] @ ext_part);
               cluster_high = ucast (le16_at buf 20);
               cluster_low = ucast (le16_at buf 26)
        in Some \<lparr>de_name = full_name, de_attributes = attr,
                de_first_cluster = push_bit 16 cluster_high OR cluster_low,
                de_size = le32_at buf 28, de_is_lfn = False\<rparr>)"

definition de_is_dir :: "fat_dir_entry \<Rightarrow> bool" where
  "de_is_dir e \<longleftrightarrow> de_attributes e AND 0x10 \<noteq> 0"

definition name_to_83 :: "rstring \<Rightarrow> vfs_error + bytes" where
  "name_to_83 name =
     (let parts = split_on 46 name in
      if parts = [] \<or> length parts > 2 then Inl BadPath
      else let name_part = parts ! 0; ext_part = (if length parts > 1 then parts ! 1 else []) in
      if name_part = [] \<or> length name_part > 8 then Inl BadPath
      else if length ext_part > 3 then Inl BadPath
      else Inr (map to_upper name_part @ replicate (8 - length name_part) 0x20 @
                map to_upper ext_part @ replicate (3 - length ext_part) 0x20))"

definition fat_dir_entry_to_bytes :: "fat_dir_entry \<Rightarrow> vfs_error + bytes" where
  "fat_dir_entry_to_bytes e = name_to_83 (de_name e)"

text \<open>The 32 bytes \<open>write_dir_entry_at_offset\<close> builds for an entry.\<close>

definition dir_entry_bytes :: "fat_dir_entry \<Rightarrow> bytes \<Rightarrow> bytes" where
  "dir_entry_bytes e name_83 =
     (let buf = overwrite 0 name_83 (replicate 32 0);
          buf = buf[11 := de_attributes e];
          buf = buf[20 := ucast (drop_bit 16 (de_first_cluster e) AND 0xFF)];
          buf = buf[21 := ucast (drop_bit 24 (de_first_cluster e) AND 0xFF)];
          buf = buf[26 := ucast (de_first_cluster e AND 0xFF)];
          buf = buf[27 := ucast (drop_bit 8 (de_first_cluster e) AND 0xFF)]
      in overwrite 28 (to_le_bytes (de_size e)) buf)"

subsection \<open>Encoding and decoding of directory entries\<close>

lemma dir_entry_bytes_layout:
  assumes "length n83 = 11"
  shows "dir_entry_bytes e n83 = n83 @ [de_attributes e, 0, 0, 0, 0, 0, 0, 0, 0,
     ucast (drop_bit 16 (de_first_cluster e)), ucast (drop_bit 24 (de_first_cluster e)), 0, 0, 0, 0,
     ucast (de_first_cluster e), ucast (drop_bit 8 (de_first_cluster e))] @ to_le_bytes (de_size e)"
proof -
  have ff: "ucast (w AND 0xFF) = (ucast w :: u8)" for w :: u32
  proof (rule bit_word_eqI)
    fix n
    assume "n < LENGTH(8)"
    moreover have "bit (0xFF :: u32) n" if "n < 8"
    proof -
      have "(0xFF :: u32) = mask 8" by (simp add: mask_eq_exp_minus_1)
      then show ?thesis using that by (simp only: bit_mask_iff) simp
    qed
    ultimately show "bit (ucast (w AND 0xFF) :: u8) n = bit (ucast w :: u8) n"
      by (simp add: bit_ucast_iff bit_and_iff)
  qed
  have r: "overwrite 0 n83 (replicate 32 0) = n83 @ [0, 0, 0, 0, 0, 0, 0, 0, 0, 0, 0, 0, 0, 0, 0, 0, 0, 0, 0, 0, 0]"
    using assms by (simp add: overwrite_def numeral_eq_Suc)
  show ?thesis
    unfolding dir_entry_bytes_def Let_def r
    using assms by (simp add: list_update_append overwrite_def ff to_le_bytes_def)
qed

lemma length_dir_entry_bytes: "length n83 = 11 \<Longrightarrow> length (dir_entry_bytes e n83) = 32"
  by (simp add: dir_entry_bytes_layout)

lemma dir_entry_bytes_attr: "length n83 = 11 \<Longrightarrow> dir_entry_bytes e n83 ! 11 = de_attributes e"
  by (simp add: dir_entry_bytes_layout nth_append)

definition short_name_char :: "u8 \<Rightarrow> bool" where
  "short_name_char b \<longleftrightarrow> 0x20 < b \<and> b < 0x80 \<and> b \<noteq> 46"

lemma to_upper_facts:
  assumes "short_name_char b"
  shows "to_lower (to_upper b) = to_lower b" "to_upper b \<noteq> 0x20" "to_upper b \<noteq> 0" "to_upper b \<noteq> 0xE5" "to_lower b < 0x80"
proof -
  have u: "97 \<le> b \<Longrightarrow> unat (b - 32) = unat b - 32"
    by (subst unat_sub) (simp_all add: word_le_nat_alt)
  have l: "65 \<le> b - 32 \<and> b - 32 \<le> 90" if b: "97 \<le> b" "b \<le> 122"
  proof -
    have "97 \<le> unat b" "unat b \<le> 122"
      using b by (simp_all add: word_le_nat_alt)
    then show ?thesis
      using u [OF b(1)] by (auto simp: word_le_nat_alt)
  qed
  have no: "\<not> b \<le> 90" if "97 \<le> b" using that by (simp add: word_le_nat_alt)
  show "to_lower (to_upper b) = to_lower b"
    using l no by (auto simp: to_lower_def to_upper_def)
  show "to_upper b \<noteq> 0x20" "to_upper b \<noteq> 0" "to_upper b \<noteq> 0xE5"
    using assms l by (auto simp: to_upper_def short_name_char_def)
  have "unat (b + 32) = unat b + 32" if "b \<le> 90" using that by (simp add: word_le_nat_alt unat_word_ariths)
  then show "to_lower b < 0x80"
    using assms by (auto simp: to_lower_def short_name_char_def word_less_nat_alt word_le_nat_alt)
qed

lemma name_field_upper:
  assumes "list_all short_name_char xs"
  shows "name_field (map to_upper xs @ replicate k 0x20) = map to_lower xs"
proof -
  have "takeWhile (\<lambda>b. b \<noteq> 0x20 \<and> b \<noteq> 0) (map to_upper xs @ replicate k 0x20) = map to_upper xs"
    using assms by (induction xs) (auto simp: to_upper_facts takeWhile_replicate)
  moreover have "concat (map (utf8_char \<circ> to_lower) (map to_upper xs)) = map to_lower xs"
    using assms by (induction xs) (auto simp: to_upper_facts utf8_char_def)
  ultimately show ?thesis by (simp add: name_field_def)
qed

text \<open>A name that fits: base and extension of printable ASCII without upper case letters.\<close>

definition short_name :: "rstring \<Rightarrow> rstring \<Rightarrow> rstring" where
  "short_name base ext = (if ext = [] then base else base @ [46] @ ext)"

definition short_name_ok :: "rstring \<Rightarrow> rstring \<Rightarrow> bool" where
  "short_name_ok base ext \<longleftrightarrow> base \<noteq> [] \<and> length base \<le> 8 \<and> length ext \<le> 3 \<and>
     list_all short_name_char base \<and> list_all short_name_char ext"

lemma name_to_83_short_name:
  assumes "short_name_ok base ext"
  shows "name_to_83 (short_name base ext) =
    Inr (map to_upper base @ replicate (8 - length base) 0x20 @
         map to_upper ext @ replicate (3 - length ext) 0x20)"
proof -
  have nodot: "46 \<notin> set base" "46 \<notin> set ext"
    using assms by (auto simp: short_name_ok_def list_all_iff short_name_char_def)
  then have "split_on 46 (short_name base ext) = (if ext = [] then [base] else [base, ext])"
    by (simp add: short_name_def split_on_absent split_on_append)
  with assms show ?thesis
    by (auto simp: name_to_83_def Let_def short_name_ok_def not_less)
qed

lemma length_name_to_83: "name_to_83 name = Inr n83 \<Longrightarrow> length n83 = 11"
  by (auto simp: name_to_83_def Let_def split: if_splits)

lemma cluster_bytes:
  "push_bit 16 (ucast (from_le_bytes [ucast (drop_bit 16 c), ucast (drop_bit 24 c)] :: u16)) OR
   ucast (from_le_bytes [ucast c, ucast (drop_bit 8 c)] :: u16) = (c :: u32)"
proof (rule bit_word_eqI)
  fix n
  assume n: "n < LENGTH(32)"
  then show "bit (push_bit 16 (ucast (from_le_bytes [ucast (drop_bit 16 c), ucast (drop_bit 24 c)] :: u16)) OR
   ucast (from_le_bytes [ucast c, ucast (drop_bit 8 c)] :: u16) :: u32) n = bit c n"
    using n by (cases "n < 16") (auto simp: bit_or_iff bit_push_bit_iff bit_ucast_iff bit_drop_bit_eq)
qed

lemma dir_entry_parse_bytes:
  assumes "short_name_ok base ext" "de_name e = short_name base ext" "\<not> de_is_lfn e"
    and "de_attributes e \<noteq> 0x0F" "de_attributes e AND 0x08 = 0"
    and "name_to_83 (de_name e) = Inr n83"
  shows "fat_dir_entry_parse (dir_entry_bytes e n83) = Some (e\<lparr>de_name := map to_lower (de_name e)\<rparr>)"
proof -
  let ?b = "map to_upper base @ replicate (8 - length base) 0x20"
  let ?x = "map to_upper ext @ replicate (3 - length ext) 0x20"
  have n83: "n83 = ?b @ ?x" and len: "length ?b = 8" "length ?x = 3"
    using assms name_to_83_short_name by (auto simp: short_name_ok_def)
  have l: "dir_entry_bytes e n83 = ?b @ ?x @ [de_attributes e, 0, 0, 0, 0, 0, 0, 0, 0,
     ucast (drop_bit 16 (de_first_cluster e)), ucast (drop_bit 24 (de_first_cluster e)), 0, 0, 0, 0,
     ucast (de_first_cluster e), ucast (drop_bit 8 (de_first_cluster e))] @ to_le_bytes (de_size e)"
    using dir_entry_bytes_layout [of n83 e] len by (simp add: n83)
  obtain b bs where base: "base = b # bs" "short_name_char b"
    using assms(1) by (cases base) (auto simp: short_name_ok_def)
  have sl: "subslice 0 8 (dir_entry_bytes e n83) = ?b" "subslice 8 3 (dir_entry_bytes e n83) = ?x"
    "subslice 20 2 (dir_entry_bytes e n83) = [ucast (drop_bit 16 (de_first_cluster e)), ucast (drop_bit 24 (de_first_cluster e))]"
    "subslice 26 2 (dir_entry_bytes e n83) = [ucast (de_first_cluster e), ucast (drop_bit 8 (de_first_cluster e))]"
    "subslice 28 4 (dir_entry_bytes e n83) = to_le_bytes (de_size e)"
    "dir_entry_bytes e n83 ! 0 = to_upper b" "length (dir_entry_bytes e n83) = 32"
    unfolding l using len base by (simp_all add: subslice_def nth_append)
  have attr: "dir_entry_bytes e n83 ! 11 = de_attributes e"
    unfolding l using len nth_append_length [of "?b @ ?x" "de_attributes e"] by simp
  have nf: "name_field ?b = map to_lower base" "name_field ?x = map to_lower ext"
    using assms(1) by (simp_all add: name_field_upper short_name_ok_def)
  have "fat_dir_entry_parse (dir_entry_bytes e n83) = Some \<lparr>de_name = short_name (map to_lower base) (map to_lower ext),
      de_attributes = de_attributes e, de_first_cluster = de_first_cluster e, de_size = de_size e, de_is_lfn = False\<rparr>"
    using assms(4,5) to_upper_facts [OF base(2)]
    by (simp add: fat_dir_entry_parse_def Let_def le16_at_def le32_at_def sl nf cluster_bytes attr
        from_to_le_bytes short_name_def del: from_le_bytes.simps)
  moreover have "short_name (map to_lower base) (map to_lower ext) = map to_lower (de_name e)"
    unfolding assms(2) by (simp add: short_name_def to_lower_def)
  ultimately show ?thesis using assms(3) by simp
qed

text \<open>The name of a parsed short entry has no capital letters.\<close>

lemma utf8_lower: "c \<in> set (utf8_char (to_lower b)) \<Longrightarrow> \<not> (65 \<le> c \<and> c \<le> 90)"
proof (cases "to_lower b < 0x80")
  case True
  assume "c \<in> set (utf8_char (to_lower b))"
  then have c: "c = to_lower b" using True by (simp add: utf8_char_def)
  have "unat (b + 32) = unat b + 32" if "b \<le> 90" using that by (simp add: word_le_nat_alt unat_word_ariths)
  then show ?thesis unfolding c by (auto simp: to_lower_def word_le_nat_alt)
next
  case False
  assume "c \<in> set (utf8_char (to_lower b))"
  then have "bit c 7" using False by (auto simp: utf8_char_def bit_simps bit_numeral_rec(1,2))
  moreover have "\<not> bit c 7" if "c \<le> 90"
  proof -
    have "unat (c div 128) = 0" using that by (simp add: unat_div word_le_nat_alt)
    then have "c div 128 = 0" by (simp only: unat_eq_0)
    then show ?thesis by (simp add: bit_iff_odd)
  qed
  ultimately show ?thesis by blast
qed

lemma parsed_name_lower:
  assumes "fat_dir_entry_parse buf = Some e" "c \<in> set (de_name e)"
  shows "\<not> (65 \<le> c \<and> c \<le> 90)"
proof -
  have "\<not> (65 \<le> c \<and> c \<le> 90)" if "c \<in> set (name_field bs)" for bs using that utf8_lower by (auto simp: name_field_def)
  then show ?thesis using assms by (auto simp: fat_dir_entry_parse_def Let_def split: if_splits)
qed

subsection \<open>Parsed parameter blocks\<close>

text \<open>
  What a successful parse guarantees of the geometry: a cluster has at least one byte, its size is
  the product of the two factors without overflow, and only FAT16 has a fixed root directory.
\<close>

lemma fat_bpb_parse_geometry:
  assumes "fat_bpb_parse buf base = Inr bpb"
  shows "unat (bytes_per_cluster bpb) = unat (bytes_per_sector bpb) * unat (sectors_per_cluster bpb)"
    and "0 < unat (bytes_per_cluster bpb)" and "base_sector bpb = base"
    and "fat_size_sectors bpb \<noteq> 0"
    and "data_start_sector bpb = fat_area_sectors bpb + root_dir_sectors bpb"
    and "bpb_variant bpb = Fat32 \<Longrightarrow> root_dir_sectors bpb = 0"
proof -
  have c: "unat (ucast a * ucast b :: u32) = unat a * unat b" for a :: u16 and b :: u8
  proof -
    have "unat a * unat b < 2 ^ 16 * 2 ^ 8"
      using unsigned_less [of a, where ?'a = nat] unsigned_less [of b, where ?'a = nat]
      by (intro mult_strict_mono) simp_all
    then show ?thesis
      by (simp add: unat_word_ariths unat_ucast_le)
  qed
  have z: "(ucast a :: u32) = 0 \<longleftrightarrow> a = 0" for a :: u16
  proof -
    have "unat (ucast a :: u32) = unat a" by (simp add: unat_ucast_le)
    then show ?thesis by (metis unat_eq_0)
  qed
  show bpc: "unat (bytes_per_cluster bpb) = unat (bytes_per_sector bpb) * unat (sectors_per_cluster bpb)"
    and "base_sector bpb = base"
    and "data_start_sector bpb = fat_area_sectors bpb + root_dir_sectors bpb"
    and "bpb_variant bpb = Fat32 \<Longrightarrow> root_dir_sectors bpb = 0"
    using assms
    by (auto simp: fat_bpb_parse_def Let_def fat_area_sectors_def c split: if_splits)
  show "0 < unat (bytes_per_cluster bpb)"
  proof -
    have "bytes_per_sector bpb \<noteq> 0" "sectors_per_cluster bpb \<noteq> 0"
      using assms by (auto simp: fat_bpb_parse_def Let_def split: if_splits)
    then show ?thesis by (simp add: bpc unat_gt_0)
  qed
  show "fat_size_sectors bpb \<noteq> 0"
    using assms by (auto simp: fat_bpb_parse_def Let_def z split: if_splits)
qed

end
