(* ===== verification/Fat_Table.thy ===== *)
theory Fat_Table
  imports Fat_Bpb
begin

text \<open>
  The file allocation table: reading and writing entries on every copy of the table, allocating,
  freeing and extending cluster chains, and following a chain.
\<close>

subsection \<open>Entries\<close>

text \<open>Every device error becomes \<open>VfsError::IoError\<close>.\<close>

definition io_read :: "'d blockdev \<Rightarrow> u64 \<Rightarrow> ('d, vfs_error, bytes) op" where
  "io_read dev lba = smap_err (\<lambda>_. IoError) (read_sector dev lba 512)"

definition io_write :: "'d blockdev \<Rightarrow> u64 \<Rightarrow> bytes \<Rightarrow> ('d, vfs_error, unit) op" where
  "io_write dev lba buf = smap_err (\<lambda>_. IoError) (write_sector dev lba buf)"

definition fat_entry_byte :: "fat_bpb \<Rightarrow> u32 \<Rightarrow> u64" where
  "fat_entry_byte bpb cluster = (case bpb_variant bpb of Fat16 \<Rightarrow> ucast cluster * 2 | Fat32 \<Rightarrow> ucast cluster * 4)"

definition entry_in_sector :: "fat_bpb \<Rightarrow> u32 \<Rightarrow> nat" where
  "entry_in_sector bpb cluster = unat (fat_entry_byte bpb cluster mod 512)"

definition fat_decode :: "fat_bpb \<Rightarrow> nat \<Rightarrow> bytes \<Rightarrow> u32" where
  "fat_decode bpb pos buf = (case bpb_variant bpb of
     Fat16 \<Rightarrow> ucast (from_le_bytes [buf ! pos, buf ! (pos + 1)] :: u16)
   | Fat32 \<Rightarrow> from_le_bytes [buf ! pos, buf ! (pos + 1), buf ! (pos + 2), buf ! (pos + 3) AND 0x0F])"

definition fat_encode :: "fat_bpb \<Rightarrow> nat \<Rightarrow> u32 \<Rightarrow> bytes \<Rightarrow> bytes" where
  "fat_encode bpb pos value buf = (case bpb_variant bpb of
     Fat16 \<Rightarrow> let raw = ucast value :: u16 in
       buf[pos := ucast (raw AND 0xFF), pos + 1 := ucast (drop_bit 8 raw AND 0xFF)]
   | Fat32 \<Rightarrow> let masked = value AND 0x0FFFFFFF in
       buf[pos := ucast (masked AND 0xFF), pos + 1 := ucast (drop_bit 8 masked AND 0xFF),
           pos + 2 := ucast (drop_bit 16 masked AND 0xFF),
           pos + 3 := (buf ! (pos + 3) AND 0xF0) OR ucast (drop_bit 24 masked AND 0x0F)])"

definition read_fat_entry :: "'d blockdev \<Rightarrow> fat_bpb \<Rightarrow> u32 \<Rightarrow> ('d, vfs_error, u32) op" where
  "read_fat_entry dev bpb cluster =
     (let fat_sector = ucast (base_sector bpb) + ucast (reserved_sectors bpb)
            + fat_entry_byte bpb cluster div 512
      in sbind (io_read dev fat_sector) (\<lambda>buf.
         sreturn (fat_decode bpb (entry_in_sector bpb cluster) buf)))"

fun write_fat_copies :: "'d blockdev \<Rightarrow> fat_bpb \<Rightarrow> u32 \<Rightarrow> u32 \<Rightarrow> nat list \<Rightarrow> ('d, vfs_error, unit) op" where
  "write_fat_copies dev bpb cluster value [] = sreturn ()"
| "write_fat_copies dev bpb cluster value (fat_copy # rest) =
     (let fat_offset = ucast (reserved_sectors bpb) + of_nat fat_copy * fat_size_sectors bpb;
          fat_sector = ucast (base_sector bpb) + ucast fat_offset + fat_entry_byte bpb cluster div 512
      in sbind (io_read dev fat_sector) (\<lambda>buf.
         sbind (io_write dev fat_sector (fat_encode bpb (entry_in_sector bpb cluster) value buf)) (\<lambda>_.
         write_fat_copies dev bpb cluster value rest)))"

definition write_fat_entry :: "'d blockdev \<Rightarrow> fat_bpb \<Rightarrow> u32 \<Rightarrow> u32 \<Rightarrow> ('d, vfs_error, unit) op" where
  "write_fat_entry dev bpb cluster value =
     write_fat_copies dev bpb cluster value [0..<unat (num_fats bpb)]"

subsection \<open>Chains\<close>

function scan_free_cluster :: "'d blockdev \<Rightarrow> fat_bpb \<Rightarrow> nat \<Rightarrow> nat \<Rightarrow> ('d, vfs_error, u32 option) op" where
  "scan_free_cluster dev bpb cluster end_cluster =
     (if cluster < end_cluster
      then sbind (read_fat_entry dev bpb (of_nat cluster)) (\<lambda>val.
        if val = 0
        then sbind (write_fat_entry dev bpb (of_nat cluster) (fat_eoc bpb)) (\<lambda>_. sreturn (Some (of_nat cluster)))
        else scan_free_cluster dev bpb (Suc cluster) end_cluster)
      else sreturn None)"
  by auto
termination by (relation "measure (\<lambda>(dev, bpb, c, e). e - c)") auto

declare scan_free_cluster.simps [simp del]

definition allocate_cluster :: "'d blockdev \<Rightarrow> fat_bpb \<Rightarrow> u32 \<Rightarrow> ('d, vfs_error, u32) op" where
  "allocate_cluster dev bpb hint =
     sbind (scan_free_cluster dev bpb (unat hint) (Suc (unat (max_cluster bpb)))) (\<lambda>r.
       case r of Some cluster \<Rightarrow> sreturn cluster
       | None \<Rightarrow> sbind (scan_free_cluster dev bpb 2 (unat hint)) (\<lambda>r.
           case r of Some cluster \<Rightarrow> sreturn cluster | None \<Rightarrow> sfail NoSpace))"

function follow_chain :: "'d blockdev \<Rightarrow> fat_bpb \<Rightarrow> u32 list \<Rightarrow> u32 \<Rightarrow> ('d, vfs_error, u32 list) op" where
  "follow_chain dev bpb chain cluster =
     (if cluster < 2 \<or> cluster \<ge> fat_eoc bpb then sreturn chain
      else sbind (read_fat_entry dev bpb cluster) (\<lambda>cluster'.
        if length (chain @ [cluster]) > 0x100000 then sreturn (chain @ [cluster])
        else follow_chain dev bpb (chain @ [cluster]) cluster'))"
  by auto
termination by (relation "measure (\<lambda>(dev, bpb, chain, c). 0x100001 - length chain)") auto

declare follow_chain.simps [simp del]

definition read_cluster_chain :: "'d blockdev \<Rightarrow> fat_bpb \<Rightarrow> u32 \<Rightarrow> ('d, vfs_error, u32 list) op" where
  "read_cluster_chain dev bpb start_cluster = follow_chain dev bpb [] start_cluster"

fun zero_entries :: "'d blockdev \<Rightarrow> fat_bpb \<Rightarrow> u32 list \<Rightarrow> ('d, vfs_error, unit) op" where
  "zero_entries dev bpb [] = sreturn ()"
| "zero_entries dev bpb (cluster # rest) =
     sbind (write_fat_entry dev bpb cluster 0) (\<lambda>_. zero_entries dev bpb rest)"

definition free_cluster_chain :: "'d blockdev \<Rightarrow> fat_bpb \<Rightarrow> u32 \<Rightarrow> ('d, vfs_error, unit) op" where
  "free_cluster_chain dev bpb start_cluster =
     sbind (read_cluster_chain dev bpb start_cluster) (zero_entries dev bpb)"

definition extend_chain :: "'d blockdev \<Rightarrow> fat_bpb \<Rightarrow> u32 \<Rightarrow> u32 \<Rightarrow> ('d, vfs_error, unit) op" where
  "extend_chain dev bpb last_cluster new_cluster =
     sbind (write_fat_entry dev bpb last_cluster new_cluster) (\<lambda>_.
     write_fat_entry dev bpb new_cluster (fat_eoc bpb))"

function count_free_from :: "'d blockdev \<Rightarrow> fat_bpb \<Rightarrow> nat \<Rightarrow> u64 \<Rightarrow> ('d, vfs_error, u64) op" where
  "count_free_from dev bpb cluster free =
     (if cluster \<le> unat (max_cluster bpb)
      then sbind (read_fat_entry dev bpb (of_nat cluster)) (\<lambda>val.
        count_free_from dev bpb (Suc cluster) (if val = 0 then free + 1 else free))
      else sreturn free)"
  by auto
termination by (relation "measure (\<lambda>(dev, bpb, c, f). Suc (unat (max_cluster bpb)) - c)") auto

declare count_free_from.simps [simp del]

definition count_free_clusters :: "'d blockdev \<Rightarrow> fat_bpb \<Rightarrow> ('d, vfs_error, u64) op" where
  "count_free_clusters dev bpb = count_free_from dev bpb 2 0"

subsection \<open>Position of an entry\<close>

definition entry_width :: "fat_bpb \<Rightarrow> nat" where
  "entry_width bpb = (case bpb_variant bpb of Fat16 \<Rightarrow> 2 | Fat32 \<Rightarrow> 4)"

definition fat_lba :: "fat_bpb \<Rightarrow> nat \<Rightarrow> u32 \<Rightarrow> nat" where
  "fat_lba bpb k cluster = unat (base_sector bpb) + unat (reserved_sectors bpb) + k * unat (fat_size_sectors bpb)
     + entry_width bpb * unat cluster div 512"

definition fat_has_entry :: "fat_bpb \<Rightarrow> u32 \<Rightarrow> bool" where
  "fat_has_entry bpb cluster \<longleftrightarrow> entry_width bpb * unat cluster div 512 < unat (fat_size_sectors bpb)"

definition fat_geometry :: "'d blockdev \<Rightarrow> fat_bpb \<Rightarrow> 'd \<Rightarrow> bool" where
  "fat_geometry dev bpb d \<longleftrightarrow> dev_sector_size dev d = 512 \<and> 0 < num_fats bpb \<and>
     unat (reserved_sectors bpb) + unat (num_fats bpb) * unat (fat_size_sectors bpb) < 2 ^ 32 \<and>
     unat (base_sector bpb) + unat (reserved_sectors bpb) + unat (num_fats bpb) * unat (fat_size_sectors bpb)
       \<le> unat (dev_total_sectors dev d)"

definition fat_value :: "fat_bpb \<Rightarrow> (nat \<Rightarrow> bytes) \<Rightarrow> u32 \<Rightarrow> u32" where
  "fat_value bpb sec cluster = fat_decode bpb (entry_in_sector bpb cluster) (sec (fat_lba bpb 0 cluster))"

definition fat_mask :: "fat_bpb \<Rightarrow> u32 \<Rightarrow> u32" where
  "fat_mask bpb v = (case bpb_variant bpb of Fat16 \<Rightarrow> v AND 0xFFFF | Fat32 \<Rightarrow> v AND 0x0FFFFFFF)"

lemma unat_u32: "unat (w :: u32) < 4294967296"
  using unsigned_less [of w, where ?'a = nat] by simp

lemma unat_fat_entry_byte: "unat (fat_entry_byte bpb c) = entry_width bpb * unat c"
  using unat_u32 [of c]
  by (simp add: fat_entry_byte_def entry_width_def unat_word_ariths unat_ucast_le split: fat_variant.split)

lemma entry_in_sector_eq: "entry_in_sector bpb c = entry_width bpb * unat c mod 512"
  by (simp add: entry_in_sector_def unat_mod unat_fat_entry_byte)

lemma entry_width_cases: "entry_width bpb = 2 \<or> entry_width bpb = 4"
  by (simp add: entry_width_def split: fat_variant.splits)

lemma entry_position:
  "entry_in_sector bpb c = entry_width bpb * (unat c mod (512 div entry_width bpb))"
  "entry_width bpb * unat c div 512 = unat c div (512 div entry_width bpb)"
proof -
  have "2 * n mod 512 = 2 * (n mod 256)" "4 * n mod 512 = 4 * (n mod 128)"
    "2 * n div 512 = n div 256" "4 * n div 512 = n div 128" for n :: nat
    using mult_mod_right [of 2 n 256] mult_mod_right [of 4 n 128]
      div_mult_mult1 [of 2 n 256] div_mult_mult1 [of 4 n 128] by simp_all
  then show "entry_in_sector bpb c = entry_width bpb * (unat c mod (512 div entry_width bpb))"
    "entry_width bpb * unat c div 512 = unat c div (512 div entry_width bpb)"
    using entry_width_cases [of bpb] by (auto simp: entry_in_sector_eq)
qed

lemma entry_in_sector_bound: "entry_in_sector bpb c + entry_width bpb \<le> 512"
proof -
  have "unat c mod (512 div entry_width bpb) < 512 div entry_width bpb"
    using entry_width_cases [of bpb] by auto
  then show ?thesis
    using entry_width_cases [of bpb] by (auto simp: entry_position)
qed

lemma entry_in_sector_disjoint:
  assumes "fat_lba bpb k c = fat_lba bpb k c'" "c \<noteq> c'"
  shows "entry_in_sector bpb c + entry_width bpb \<le> entry_in_sector bpb c' \<or>
    entry_in_sector bpb c' + entry_width bpb \<le> entry_in_sector bpb c"
proof -
  let ?m = "512 div entry_width bpb"
  have "unat c \<noteq> unat c'"
    using assms(2) by (metis unsigned_word_eqI)
  moreover have "unat c div ?m = unat c' div ?m"
    using assms(1) by (simp add: fat_lba_def entry_position)
  ultimately have "unat c mod ?m \<noteq> unat c' mod ?m"
    by (metis div_mult_mod_eq)
  then have "Suc (unat c mod ?m) \<le> unat c' mod ?m \<or> Suc (unat c' mod ?m) \<le> unat c mod ?m"
    by linarith
  then show ?thesis
    unfolding entry_position by (metis add.commute mult_Suc_right mult_le_mono2)
qed

lemma fat_lba_in_range:
  assumes "fat_geometry dev bpb d" "fat_has_entry bpb c" "k < unat (num_fats bpb)"
  shows "fat_lba bpb k c < unat (base_sector bpb) + unat (reserved_sectors bpb)
      + unat (num_fats bpb) * unat (fat_size_sectors bpb)"
    and "fat_lba bpb k c < unat (dev_total_sectors dev d)"
proof -
  have "Suc k * unat (fat_size_sectors bpb) \<le> unat (num_fats bpb) * unat (fat_size_sectors bpb)"
    using assms(3) by (intro mult_le_mono1) simp
  then show "fat_lba bpb k c < unat (base_sector bpb) + unat (reserved_sectors bpb)
      + unat (num_fats bpb) * unat (fat_size_sectors bpb)"
    using assms(2) by (simp add: fat_lba_def fat_has_entry_def)
  then show "fat_lba bpb k c < unat (dev_total_sectors dev d)"
    using assms(1) by (simp add: fat_geometry_def)
qed

lemma fat_lba_distinct:
  assumes "fat_has_entry bpb c" "fat_has_entry bpb c'" "k \<noteq> k'"
  shows "fat_lba bpb k c \<noteq> fat_lba bpb k' c'"
proof -
  let ?n = "unat (fat_size_sectors bpb)"
  have "Suc k * ?n \<le> k' * ?n \<or> Suc k' * ?n \<le> k * ?n"
    using assms(3) by (metis Suc_leI linorder_neqE_nat mult_le_mono1)
  then show ?thesis
    using assms(1,2) by (auto simp: fat_lba_def fat_has_entry_def)
qed

lemma fat_lba_copies_distinct:
  "fat_size_sectors bpb \<noteq> 0 \<Longrightarrow> fat_lba bpb k c = fat_lba bpb k' c \<longleftrightarrow> k = k'"
  by (simp add: fat_lba_def unat_eq_0)

lemma unat_fat_sector:
  assumes "fat_geometry dev bpb d" "k < unat (num_fats bpb)"
  shows "unat (ucast (base_sector bpb) + ucast (ucast (reserved_sectors bpb) + of_nat k * fat_size_sectors bpb :: u32)
      + fat_entry_byte bpb c div 512 :: u64) = fat_lba bpb k c"
proof -
  let ?f = "unat (fat_size_sectors bpb)" and ?r = "unat (reserved_sectors bpb)"
  have k: "k < 256"
    using assms(2) unsigned_less [of "num_fats bpb", where ?'a = nat] by simp
  have "Suc k * ?f \<le> unat (num_fats bpb) * ?f"
    using assms(2) by (intro mult_le_mono1) simp
  then have lt: "?r + k * ?f + ?f < 2 ^ 32"
    using assms(1) by (simp add: fat_geometry_def)
  then have kf: "k * ?f < 2 ^ 32" "?r + k * ?f < 2 ^ 32" by simp_all
  have "unat (of_nat k :: u32) = k"
    using k by (simp add: unat_of_nat_lt)
  then have "unat (of_nat k * fat_size_sectors bpb :: u32) = k * ?f"
    using kf by (simp add: unat_mult_lt)
  then have o: "unat (ucast (reserved_sectors bpb) + of_nat k * fat_size_sectors bpb :: u32) = ?r + k * ?f"
    using kf by (simp add: unat_add_lt unat_ucast_le)
  have e: "unat (fat_entry_byte bpb c div 512) = entry_width bpb * unat c div 512"
    by (simp add: unat_div unat_fat_entry_byte)
  have "entry_width bpb * unat c div 512 \<le> 4 * unat c"
    using entry_width_cases [of bpb] by auto
  then have "unat (base_sector bpb) + (?r + k * ?f) + entry_width bpb * unat c div 512 < 2 ^ 64"
    using lt unat_u32 [of "base_sector bpb"] unat_u32 [of c] by simp
  then show ?thesis
    by (simp add: unat_add_lt unat_ucast_le o e fat_lba_def)
qed

subsection \<open>Encoding and decoding of entries\<close>

lemma mask_constants:
  "(0xFF :: 'w::len word) = mask 8" "(0x0F :: 'w word) = mask 4" "(0xFFFF :: 'w word) = mask 16"
  "(0x0FFFFFFF :: 'w word) = mask 28"
  by (simp_all add: mask_eq_exp_minus_1)

lemma low_nibble: "((x AND 0xF0) OR y) AND 0x0F = y AND (0x0F :: u8)"
  by (simp add: bit.conj_disj_distrib2 and.assoc)

lemma fat16_bytes: "ucast (from_le_bytes [ucast (r AND 0xFF), ucast (drop_bit 8 r AND 0xFF)] :: u16) = (ucast (r :: u16) :: u32)"
proof (rule bit_word_eqI)
  fix n
  show "bit (ucast (from_le_bytes [ucast (r AND 0xFF), ucast (drop_bit 8 r AND 0xFF)] :: u16) :: u32) n
      = bit (ucast r :: u32) n"
    by (cases "n < 8") (auto simp: mask_constants bit_or_iff bit_push_bit_iff bit_ucast_iff bit_drop_bit_eq
        bit_and_iff bit_mask_iff dest: bit_imp_le_length)
qed

lemma fat32_bytes:
  assumes "m = v AND 0x0FFFFFFF"
  shows "from_le_bytes [ucast (m AND 0xFF), ucast (drop_bit 8 m AND 0xFF), ucast (drop_bit 16 m AND 0xFF),
     ucast (drop_bit 24 m AND 0x0F) AND 0x0F] = (m :: u32)"
proof (rule bit_word_eqI)
  fix n
  assume "n < LENGTH(32)"
  then consider "n < 8" | "8 \<le> n" "n < 16" | "16 \<le> n" "n < 24" | "24 \<le> n" "n < 32" by fastforce
  then show "bit (from_le_bytes [ucast (m AND 0xFF), ucast (drop_bit 8 m AND 0xFF), ucast (drop_bit 16 m AND 0xFF),
     ucast (drop_bit 24 m AND 0x0F) AND 0x0F] :: u32) n = bit m n"
    by cases (auto simp: assms mask_constants bit_or_iff bit_push_bit_iff bit_ucast_iff bit_drop_bit_eq
        bit_and_iff bit_mask_iff)
qed

lemma ucast_u16_mask: "(ucast (ucast v :: u16) :: u32) = v AND 0xFFFF"
  by (rule bit_word_eqI) (auto simp: mask_constants bit_ucast_iff bit_and_iff bit_mask_iff)

lemma length_fat_encode [simp]: "length (fat_encode bpb pos v buf) = length buf"
  by (simp add: fat_encode_def Let_def split: fat_variant.split)

lemma fat_decode_encode_same:
  assumes "pos + entry_width bpb \<le> length buf"
  shows "fat_decode bpb pos (fat_encode bpb pos v buf) = fat_mask bpb v"
proof (cases "bpb_variant bpb")
  case Fat16
  then show ?thesis
    using assms fat16_bytes [of "ucast v"]
    by (simp add: fat_decode_def fat_encode_def fat_mask_def entry_width_def ucast_u16_mask Let_def
        del: from_le_bytes.simps)
next
  case Fat32
  then show ?thesis
    using assms fat32_bytes [OF refl, of v]
    by (simp add: fat_decode_def fat_encode_def fat_mask_def entry_width_def low_nibble Let_def
        del: from_le_bytes.simps)
qed

lemma fat_decode_encode_other:
  assumes "pos + entry_width bpb \<le> pos' \<or> pos' + entry_width bpb \<le> pos"
  shows "fat_decode bpb pos' (fat_encode bpb pos v buf) = fat_decode bpb pos' buf"
  using assms
  by (cases "bpb_variant bpb")
     (auto simp: fat_decode_def fat_encode_def entry_width_def Let_def simp del: from_le_bytes.simps)

subsection \<open>Tables on a well-behaved device\<close>

definition fat_write_sectors :: "fat_bpb \<Rightarrow> u32 \<Rightarrow> u32 \<Rightarrow> nat set \<Rightarrow> (nat \<Rightarrow> bytes) \<Rightarrow> nat \<Rightarrow> bytes" where
  "fat_write_sectors bpb c v ks sec i =
     (if i \<in> (\<lambda>k. fat_lba bpb k c) ` ks then fat_encode bpb (entry_in_sector bpb c) v (sec i) else sec i)"

text \<open>The value of an entry in one of the copies of the table; \<open>fat_value\<close> is the first copy.\<close>

definition fat_copy_value :: "fat_bpb \<Rightarrow> nat \<Rightarrow> (nat \<Rightarrow> bytes) \<Rightarrow> u32 \<Rightarrow> u32" where
  "fat_copy_value bpb k sec cluster = fat_decode bpb (entry_in_sector bpb cluster) (sec (fat_lba bpb k cluster))"

lemma fat_copy_write_sectors:
  assumes "k \<in> ks" "fat_has_entry bpb c" "fat_has_entry bpb c'" "length (sec (fat_lba bpb k c)) = 512"
  shows "fat_copy_value bpb k (fat_write_sectors bpb c v ks sec) c' =
    (if c' = c then fat_mask bpb v else fat_copy_value bpb k sec c')"
proof (cases "c' = c")
  case True
  then show ?thesis
    using assms entry_in_sector_bound [of bpb c]
    by (auto simp: fat_copy_value_def fat_write_sectors_def fat_decode_encode_same)
next
  case False
  have "fat_lba bpb k c' \<in> (\<lambda>k. fat_lba bpb k c) ` ks \<Longrightarrow> fat_lba bpb k c = fat_lba bpb k c'"
    using fat_lba_distinct [OF assms(3,2), of k] by (metis imageE)
  then show ?thesis
    using False entry_in_sector_disjoint [of bpb k c c']
    by (auto simp: fat_copy_value_def fat_write_sectors_def fat_decode_encode_other)
qed

text \<open>Two device states with the same shape: only the contents of sectors differ.\<close>

definition same_shape :: "'d blockdev \<Rightarrow> 'd \<Rightarrow> 'd \<Rightarrow> bool" where
  "same_shape dev d d' \<longleftrightarrow> dev_sector_size dev d' = dev_sector_size dev d \<and>
     dev_total_sectors dev d' = dev_total_sectors dev d"

lemma same_shape_refl [simp]: "same_shape dev d d"
  by (simp add: same_shape_def)

lemma same_shape_trans: "same_shape dev d d' \<Longrightarrow> same_shape dev d' d'' \<Longrightarrow> same_shape dev d d''"
  by (simp add: same_shape_def)

lemma fat_geometry_same_shape: "same_shape dev d d' \<Longrightarrow> fat_geometry dev bpb d' \<longleftrightarrow> fat_geometry dev bpb d"
  by (simp add: same_shape_def fat_geometry_def)

text \<open>
  \<open>table_step dev dinv sectors bpb d tbl d'\<close>: the state \<open>d'\<close> differs from \<open>d\<close> at most in the tables'
  sectors, and its table is \<open>tbl\<close>.
\<close>

definition fat_table_end :: "fat_bpb \<Rightarrow> nat" where
  "fat_table_end bpb = unat (base_sector bpb) + unat (reserved_sectors bpb) + unat (num_fats bpb) * unat (fat_size_sectors bpb)"

definition table_step :: "'d blockdev \<Rightarrow> ('d \<Rightarrow> bool) \<Rightarrow> ('d \<Rightarrow> nat \<Rightarrow> bytes) \<Rightarrow> fat_bpb \<Rightarrow>
    'd \<Rightarrow> (u32 \<Rightarrow> u32) \<Rightarrow> 'd \<Rightarrow> bool" where
  "table_step dev dinv sectors bpb d tbl d' \<longleftrightarrow> dinv d' \<and> same_shape dev d d' \<and> fat_geometry dev bpb d' \<and>
     (\<forall>x. fat_has_entry bpb x \<longrightarrow> fat_value bpb (sectors d') x = tbl x) \<and>
     (\<forall>i. fat_table_end bpb \<le> i \<and> i < unat (dev_total_sectors dev d) \<longrightarrow> sectors d' i = sectors d i)"

lemma table_step_refl:
  "dinv d \<Longrightarrow> fat_geometry dev bpb d \<Longrightarrow> table_step dev dinv sectors bpb d (fat_value bpb (sectors d)) d"
  by (simp add: table_step_def)

lemma table_step_trans:
  "table_step dev dinv sectors bpb d t d1 \<Longrightarrow> table_step dev dinv sectors bpb d1 t' d2 \<Longrightarrow>
   table_step dev dinv sectors bpb d t' d2"
  by (auto simp: table_step_def same_shape_def)

lemma table_step_cong:
  "table_step dev dinv sectors bpb d t d' \<Longrightarrow> (\<And>x. fat_has_entry bpb x \<Longrightarrow> t x = t' x) \<Longrightarrow>
   table_step dev dinv sectors bpb d t' d'"
  by (simp add: table_step_def)

lemma table_step_value:
  "table_step dev dinv sectors bpb d t d' \<Longrightarrow> fat_has_entry bpb x \<Longrightarrow> fat_value bpb (sectors d') x = t x"
  by (simp add: table_step_def)

lemma table_step_inv: "table_step dev dinv sectors bpb d t d' \<Longrightarrow> dinv d' \<and> fat_geometry dev bpb d' \<and> same_shape dev d d'"
  by (simp add: table_step_def)

context block_device begin

lemma io_read_ok:
  "disk_inv d \<Longrightarrow> dev_sector_size dev d = 512 \<Longrightarrow> unat lba < unat (dev_total_sectors dev d) \<Longrightarrow>
   io_read dev lba d = (Inr (sectors d (unat lba)), d)"
  using read_in_range [of d lba] by (simp add: io_read_def op_simps read_sector_def word_less_nat_alt)

lemma io_read_bad:
  "disk_inv d \<Longrightarrow> dev_sector_size dev d = 512 \<Longrightarrow> unat (dev_total_sectors dev d) \<le> unat lba \<Longrightarrow>
   io_read dev lba d = (Inl (Err IoError), d)"
  using read_out_of_range [of d lba]
  by (simp add: io_read_def op_simps read_sector_def word_le_nat_alt smap_err_def fault_map_def)

lemma io_write_ok:
  assumes "disk_inv d" "dev_sector_size dev d = 512" "unat lba < unat (dev_total_sectors dev d)" "length buf = 512"
  obtains d' where "io_write dev lba buf d = (Inr (), d')" "disk_inv d'" "same_shape dev d d'"
    "\<And>i. i < unat (dev_total_sectors dev d) \<Longrightarrow> sectors d' i = (if i = unat lba then buf else sectors d i)"
  using write_in_range [OF assms(1), of lba buf] assms(2-4)
  by (auto simp: io_write_def op_simps write_sector_def word_less_nat_alt same_shape_def)

lemma read_fat_entry_at:
  assumes "disk_inv d" "fat_geometry dev bpb d" "fat_lba bpb 0 c < unat (dev_total_sectors dev d)"
  shows "read_fat_entry dev bpb c d = (Inr (fat_value bpb (sectors d) c), d)"
proof -
  have k: "0 < unat (num_fats bpb)"
    using assms(2) by (simp add: fat_geometry_def word_less_nat_alt)
  let ?lba = "ucast (base_sector bpb) + ucast (reserved_sectors bpb) + fat_entry_byte bpb c div 512 :: u64"
  have "ucast (ucast (reserved_sectors bpb) + of_nat 0 * fat_size_sectors bpb :: u32) = (ucast (reserved_sectors bpb) :: u64)"
    by (rule bit_word_eqI) (auto simp: bit_ucast_iff dest: bit_imp_le_length)
  then have lba: "unat ?lba = fat_lba bpb 0 c"
    using unat_fat_sector [OF assms(2) k] by (simp only:)
  then show ?thesis
    using io_read_ok [OF assms(1), of ?lba] assms(2,3)
    by (simp add: read_fat_entry_def op_simps fat_value_def fat_geometry_def)
qed

lemma fat_first_copy_in_range:
  "fat_geometry dev bpb d \<Longrightarrow> fat_has_entry bpb c \<Longrightarrow> fat_lba bpb 0 c < unat (dev_total_sectors dev d)"
  using fat_lba_in_range(2) [of dev bpb d c 0] by (simp add: fat_geometry_def word_less_nat_alt)

lemma read_fat_entry_ok:
  assumes "disk_inv d" "fat_geometry dev bpb d" "fat_has_entry bpb c"
  shows "read_fat_entry dev bpb c d = (Inr (fat_value bpb (sectors d) c), d)"
  by (rule read_fat_entry_at [OF assms(1,2) fat_first_copy_in_range [OF assms(2,3)]])

lemma write_fat_copies_ok:
  assumes "disk_inv d" "fat_geometry dev bpb d" "fat_size_sectors bpb \<noteq> 0" "distinct ks"
    "\<forall>k \<in> set ks. k < unat (num_fats bpb) \<and> fat_lba bpb k c < unat (dev_total_sectors dev d)"
  shows "\<exists>d'. write_fat_copies dev bpb c v ks d = (Inr (), d') \<and> disk_inv d' \<and> same_shape dev d d' \<and>
    (\<forall>i < unat (dev_total_sectors dev d). sectors d' i = fat_write_sectors bpb c v (set ks) (sectors d) i)"
  using assms
proof (induction ks arbitrary: d)
  case Nil
  then show ?case by (simp add: op_simps fat_write_sectors_def)
next
  case (Cons k ks)
  let ?lba = "ucast (base_sector bpb) + ucast (ucast (reserved_sectors bpb) + of_nat k * fat_size_sectors bpb :: u32)
      + fat_entry_byte bpb c div 512 :: u64"
  let ?buf = "fat_encode bpb (entry_in_sector bpb c) v (sectors d (fat_lba bpb k c))"
  have k: "k < unat (num_fats bpb)" using Cons.prems(5) by simp
  have lba: "unat ?lba = fat_lba bpb k c" "fat_lba bpb k c < unat (dev_total_sectors dev d)"
    using unat_fat_sector [OF Cons.prems(2) k] Cons.prems(5) by simp_all
  have ssz: "dev_sector_size dev d = 512"
    using Cons.prems(2) by (simp add: fat_geometry_def)
  have rd: "io_read dev ?lba d = (Inr (sectors d (fat_lba bpb k c)), d)"
    using io_read_ok [OF Cons.prems(1) ssz, of ?lba] lba by simp
  have len: "length ?buf = 512"
    using sector_length [OF Cons.prems(1) lba(2)] ssz by simp
  have in_range: "unat ?lba < unat (dev_total_sectors dev d)"
    using lba by simp
  obtain d1 where d1: "io_write dev ?lba ?buf d = (Inr (), d1)" "disk_inv d1" "same_shape dev d d1"
      "\<And>i. i < unat (dev_total_sectors dev d) \<Longrightarrow> sectors d1 i = (if i = unat ?lba then ?buf else sectors d i)"
    using io_write_ok [OF Cons.prems(1) ssz in_range len] by blast
  have g: "fat_geometry dev bpb d1"
    using fat_geometry_same_shape [OF d1(3)] Cons.prems(2) by simp
  have ks: "distinct ks" "\<forall>k \<in> set ks. k < unat (num_fats bpb) \<and> fat_lba bpb k c < unat (dev_total_sectors dev d1)"
    using Cons.prems(4,5) d1(3) by (simp_all add: same_shape_def)
  obtain d2 where d2: "write_fat_copies dev bpb c v ks d1 = (Inr (), d2)" "disk_inv d2" "same_shape dev d1 d2"
      "\<forall>i < unat (dev_total_sectors dev d1). sectors d2 i = fat_write_sectors bpb c v (set ks) (sectors d1) i"
    using Cons.IH [OF d1(2) g Cons.prems(3) ks] by blast
  have other: "fat_lba bpb k c \<notin> (\<lambda>k. fat_lba bpb k c) ` set ks"
    using Cons.prems(3,4) by (auto simp: fat_lba_copies_distinct)
  have "sectors d2 i = fat_write_sectors bpb c v (set (k # ks)) (sectors d) i"
    if i: "i < unat (dev_total_sectors dev d)" for i
    using d2(4) d1(3) d1(4) [OF i, unfolded lba(1)] i other
    by (auto simp: fat_write_sectors_def same_shape_def)
  moreover have "write_fat_copies dev bpb c v (k # ks) d = (Inr (), d2)"
    using rd d1(1) d2(1) by (simp add: op_simps Let_def)
  ultimately show ?case
    using d2(2) same_shape_trans [OF d1(3) d2(3)] by blast
qed

lemma write_fat_entry_sectors:
  assumes "disk_inv d" "fat_geometry dev bpb d" "fat_has_entry bpb c"
  obtains d' where "write_fat_entry dev bpb c v d = (Inr (), d')" "disk_inv d'" "same_shape dev d d'"
    "\<And>i. i < unat (dev_total_sectors dev d) \<Longrightarrow> sectors d' i = fat_write_sectors bpb c v {..<unat (num_fats bpb)} (sectors d) i"
    "\<And>k x. k < unat (num_fats bpb) \<Longrightarrow> fat_has_entry bpb x \<Longrightarrow>
       fat_copy_value bpb k (sectors d') x = (if x = c then fat_mask bpb v else fat_copy_value bpb k (sectors d) x)"
proof -
  have z: "fat_size_sectors bpb \<noteq> 0"
    using assms(3) by (auto simp: fat_has_entry_def)
  obtain d' where d': "write_fat_entry dev bpb c v d = (Inr (), d')" "disk_inv d'" "same_shape dev d d'"
      "\<And>i. i < unat (dev_total_sectors dev d) \<Longrightarrow> sectors d' i = fat_write_sectors bpb c v {..<unat (num_fats bpb)} (sectors d) i"
    using write_fat_copies_ok [OF assms(1,2) z, of "[0..<unat (num_fats bpb)]" c v]
      fat_lba_in_range(2) [OF assms(2,3)]
    unfolding write_fat_entry_def by (auto simp: lessThan_atLeast0)
  have "fat_copy_value bpb k (sectors d') x = (if x = c then fat_mask bpb v else fat_copy_value bpb k (sectors d) x)"
    if k: "k < unat (num_fats bpb)" and x: "fat_has_entry bpb x" for k x
  proof -
    have len: "length (sectors d (fat_lba bpb k c)) = 512"
      using sector_length [OF assms(1) fat_lba_in_range(2) [OF assms(2,3) k]] assms(2) by (simp add: fat_geometry_def)
    have "fat_copy_value bpb k (sectors d') x =
        fat_copy_value bpb k (fat_write_sectors bpb c v {..<unat (num_fats bpb)} (sectors d)) x"
      using d'(4) fat_lba_in_range(2) [OF assms(2) x k] by (simp add: fat_copy_value_def)
    also have "\<dots> = (if x = c then fat_mask bpb v else fat_copy_value bpb k (sectors d) x)"
      using k len by (intro fat_copy_write_sectors assms(3) x) simp_all
    finally show ?thesis .
  qed
  with d' that show ?thesis by blast
qed

lemma write_fat_entry_ok:
  assumes "disk_inv d" "fat_geometry dev bpb d" "fat_has_entry bpb c"
  shows "\<exists>d'. write_fat_entry dev bpb c v d = (Inr (), d') \<and>
    table_step dev disk_inv sectors bpb d ((fat_value bpb (sectors d))(c := fat_mask bpb v)) d'"
proof -
  have n: "0 < unat (num_fats bpb)"
    using assms(2) by (simp add: fat_geometry_def word_less_nat_alt)
  obtain d' where d': "write_fat_entry dev bpb c v d = (Inr (), d')" "disk_inv d'" "same_shape dev d d'"
      "\<And>i. i < unat (dev_total_sectors dev d) \<Longrightarrow> sectors d' i = fat_write_sectors bpb c v {..<unat (num_fats bpb)} (sectors d) i"
      "\<And>k x. k < unat (num_fats bpb) \<Longrightarrow> fat_has_entry bpb x \<Longrightarrow>
         fat_copy_value bpb k (sectors d') x = (if x = c then fat_mask bpb v else fat_copy_value bpb k (sectors d) x)"
    using write_fat_entry_sectors [OF assms, of v] by blast
  have "fat_value bpb (sectors d') c' = (if c' = c then fat_mask bpb v else fat_value bpb (sectors d) c')"
    if "fat_has_entry bpb c'" for c'
    using d'(5) [OF n that] by (simp add: fat_copy_value_def fat_value_def)
  moreover have "sectors d' i = sectors d i"
    if "fat_table_end bpb \<le> i" "i < unat (dev_total_sectors dev d)" for i
  proof -
    have "i \<notin> (\<lambda>k. fat_lba bpb k c) ` {..<unat (num_fats bpb)}"
      using that(1) fat_lba_in_range(1) [OF assms(2,3)] unfolding fat_table_end_def by fastforce
    then show ?thesis using d'(4) that(2) by (simp add: fat_write_sectors_def)
  qed
  ultimately have "table_step dev disk_inv sectors bpb d ((fat_value bpb (sectors d))(c := fat_mask bpb v)) d'"
    using d'(2,3) fat_geometry_same_shape [OF d'(3)] assms(2) by (simp add: table_step_def)
  with d'(1) show ?thesis by blast
qed

end

subsection \<open>Chains as paths through the table\<close>

text \<open>
  \<open>is_chain eoc next c cs\<close>: following the table from \<open>c\<close> visits exactly the clusters \<open>cs\<close> and
  then meets a value outside \<open>2 ..< eoc\<close>.
\<close>

fun is_chain :: "u32 \<Rightarrow> (u32 \<Rightarrow> u32) \<Rightarrow> u32 \<Rightarrow> u32 list \<Rightarrow> bool" where
  "is_chain eoc tbl c [] \<longleftrightarrow> c < 2 \<or> eoc \<le> c"
| "is_chain eoc tbl c (x # xs) \<longleftrightarrow> x = c \<and> 2 \<le> c \<and> c < eoc \<and> is_chain eoc tbl (tbl c) xs"

lemma is_chain_cong:
  "(\<And>x. x \<in> set cs \<Longrightarrow> tbl x = tbl' x) \<Longrightarrow> is_chain eoc tbl c cs = is_chain eoc tbl' c cs"
  by (induction cs arbitrary: c) auto

lemma is_chain_unique: "is_chain eoc tbl c cs \<Longrightarrow> is_chain eoc tbl c cs' \<Longrightarrow> cs = cs'"
proof (induction cs arbitrary: c cs')
  case Nil
  then show ?case by (cases cs') auto
next
  case (Cons x xs)
  then show ?case by (cases cs') auto
qed

lemma is_chain_range: "is_chain eoc tbl c cs \<Longrightarrow> x \<in> set cs \<Longrightarrow> 2 \<le> x \<and> x < eoc"
  by (induction cs arbitrary: c) auto

lemma is_chain_snoc:
  assumes "is_chain eoc tbl c cs" "cs \<noteq> []" "distinct cs" "2 \<le> n" "n < eoc" "n \<notin> set cs"
    and "tbl' (last cs) = n" "tbl' n = e" "eoc \<le> e" "\<And>x. x \<in> set cs \<Longrightarrow> x \<noteq> last cs \<Longrightarrow> tbl' x = tbl x"
  shows "is_chain eoc tbl' c (cs @ [n])"
  using assms
proof (induction cs arbitrary: c)
  case (Cons x xs)
  note prems = Cons.prems and IH = Cons.IH
  show ?case
  proof (cases "xs = []")
    case True
    then show ?thesis using prems by auto
  next
    case False
    then have "last xs \<in> set xs" "last (x # xs) = last xs" by simp_all
    with prems(3) have "tbl' x = tbl x"
      by (intro prems(10)) auto
    with False prems IH [of "tbl c"] show ?thesis by auto
  qed
qed simp

lemma fat_mask_below_eoc: "v \<le> fat_eoc bpb \<Longrightarrow> fat_mask bpb v = v"
proof -
  assume v: "v \<le> fat_eoc bpb"
  have "v AND mask n = v" if "unat v < 2 ^ n" for n
    using that by (simp add: take_bit_nat_eq_self flip: take_bit_eq_mask)
      (metis take_bit_nat_eq_self unsigned_word_eqI unsigned_take_bit_eq)
  then show ?thesis
    using v by (auto simp: fat_mask_def fat_eoc_def mask_constants word_le_nat_alt split: fat_variant.splits)
qed

context block_device begin

lemma follow_chain_ok:
  assumes "disk_inv d" "fat_geometry dev bpb d"
  shows "is_chain (fat_eoc bpb) (fat_value bpb (sectors d)) c cs \<Longrightarrow> \<forall>x \<in> set cs. fat_has_entry bpb x \<Longrightarrow>
    length acc + length cs \<le> 0x100000 \<Longrightarrow> follow_chain dev bpb acc c d = (Inr (acc @ cs), d)"
proof (induction cs arbitrary: acc c)
  case Nil
  then show ?case by (subst follow_chain.simps) (auto simp: op_simps)
next
  case (Cons x xs)
  then have "follow_chain dev bpb (acc @ [x]) (fat_value bpb (sectors d) x) d = (Inr ((acc @ [x]) @ xs), d)"
    by (intro Cons.IH) auto
  moreover have "read_fat_entry dev bpb x d = (Inr (fat_value bpb (sectors d) x), d)"
    using read_fat_entry_ok [OF assms] Cons.prems(2) by simp
  ultimately show ?case
    using Cons.prems by (subst follow_chain.simps) (auto simp: op_simps)
qed

lemma read_cluster_chain_ok:
  assumes "disk_inv d" "fat_geometry dev bpb d" "is_chain (fat_eoc bpb) (fat_value bpb (sectors d)) c cs"
    and "\<forall>x \<in> set cs. fat_has_entry bpb x" "length cs \<le> 0x100000"
  shows "read_cluster_chain dev bpb c d = (Inr cs, d)"
  using follow_chain_ok [OF assms(1-4), of "[]"] assms(5) by (simp add: read_cluster_chain_def)

lemma extend_chain_ok:
  assumes "disk_inv d" "fat_geometry dev bpb d" "fat_has_entry bpb l" "fat_has_entry bpb n" "n < fat_eoc bpb"
  shows "\<exists>d'. extend_chain dev bpb l n d = (Inr (), d') \<and>
    table_step dev disk_inv sectors bpb d ((fat_value bpb (sectors d))(l := n, n := fat_eoc bpb)) d'"
proof -
  obtain d1 where d1: "write_fat_entry dev bpb l n d = (Inr (), d1)"
      "table_step dev disk_inv sectors bpb d ((fat_value bpb (sectors d))(l := fat_mask bpb n)) d1"
    using write_fat_entry_ok [OF assms(1-3)] by blast
  then obtain d2 where d2: "write_fat_entry dev bpb n (fat_eoc bpb) d1 = (Inr (), d2)"
      "table_step dev disk_inv sectors bpb d1 ((fat_value bpb (sectors d1))(n := fat_mask bpb (fat_eoc bpb))) d2"
    using write_fat_entry_ok [OF _ _ assms(4), of d1] table_step_inv by metis
  have "table_step dev disk_inv sectors bpb d ((fat_value bpb (sectors d))(l := n, n := fat_eoc bpb)) d2"
  proof (rule table_step_cong [OF table_step_trans [OF d1(2) d2(2)]])
    fix x
    assume "fat_has_entry bpb x"
    then show "((fat_value bpb (sectors d1))(n := fat_mask bpb (fat_eoc bpb))) x
        = ((fat_value bpb (sectors d))(l := n, n := fat_eoc bpb)) x"
      using table_step_value [OF d1(2)] assms(5) by (simp add: fat_mask_below_eoc order_less_imp_le)
  qed
  with d1(1) d2(1) show ?thesis
    by (auto simp: extend_chain_def op_simps)
qed

lemma zero_entries_ok:
  assumes "disk_inv d" "fat_geometry dev bpb d" "\<forall>x \<in> set cs. fat_has_entry bpb x"
  shows "\<exists>d'. zero_entries dev bpb cs d = (Inr (), d') \<and>
    table_step dev disk_inv sectors bpb d (\<lambda>x. if x \<in> set cs then 0 else fat_value bpb (sectors d) x) d'"
  using assms
proof (induction cs arbitrary: d)
  case Nil
  then show ?case using table_step_refl [of disk_inv d] by (simp add: op_simps)
next
  case (Cons c cs)
  have z: "fat_mask bpb 0 = 0" by (simp add: fat_mask_below_eoc)
  obtain d1 where d1: "write_fat_entry dev bpb c 0 d = (Inr (), d1)"
      "table_step dev disk_inv sectors bpb d ((fat_value bpb (sectors d))(c := 0)) d1"
    using write_fat_entry_ok [OF Cons.prems(1,2), of c 0] Cons.prems(3) z by auto
  obtain d2 where d2: "zero_entries dev bpb cs d1 = (Inr (), d2)"
      "table_step dev disk_inv sectors bpb d1 (\<lambda>x. if x \<in> set cs then 0 else fat_value bpb (sectors d1) x) d2"
    using Cons.IH [of d1] table_step_inv [OF d1(2)] Cons.prems(3) by auto
  have "table_step dev disk_inv sectors bpb d (\<lambda>x. if x \<in> set (c # cs) then 0 else fat_value bpb (sectors d) x) d2"
    by (rule table_step_cong [OF table_step_trans [OF d1(2) d2(2)]]) (auto simp: table_step_value [OF d1(2)])
  with d1(1) d2(1) show ?case
    by (auto simp: op_simps)
qed

lemma free_cluster_chain_ok:
  assumes "disk_inv d" "fat_geometry dev bpb d" "is_chain (fat_eoc bpb) (fat_value bpb (sectors d)) c cs"
    and "\<forall>x \<in> set cs. fat_has_entry bpb x" "length cs \<le> 0x100000"
  shows "\<exists>d'. free_cluster_chain dev bpb c d = (Inr (), d') \<and>
    table_step dev disk_inv sectors bpb d (\<lambda>x. if x \<in> set cs then 0 else fat_value bpb (sectors d) x) d'"
  using zero_entries_ok [OF assms(1,2,4)] read_cluster_chain_ok [OF assms]
  by (simp add: free_cluster_chain_def op_simps)

text \<open>
  The scan returns the first cluster whose entry reads as zero. Entries beyond the table are read
  from whatever sectors follow it, as the code does.
\<close>

lemma scan_free_cluster_first:
  assumes "disk_inv d" "fat_geometry dev bpb d"
  shows "lo \<le> c \<Longrightarrow> c < e \<Longrightarrow>
    (\<And>x. lo \<le> x \<Longrightarrow> x \<le> c \<Longrightarrow> fat_lba bpb 0 (of_nat x) < unat (dev_total_sectors dev d)) \<Longrightarrow>
    (\<And>x. lo \<le> x \<Longrightarrow> x < c \<Longrightarrow> fat_value bpb (sectors d) (of_nat x) \<noteq> 0) \<Longrightarrow>
    fat_value bpb (sectors d) (of_nat c) = 0 \<Longrightarrow>
    write_fat_entry dev bpb (of_nat c) (fat_eoc bpb) d = (Inr (), d') \<Longrightarrow>
    scan_free_cluster dev bpb lo e d = (Inr (Some (of_nat c)), d')"
proof (induction "c - lo" arbitrary: lo)
  case 0
  then have "lo = c" by simp
  with 0 read_fat_entry_at [OF assms, of "of_nat c"] show ?case
    by (subst scan_free_cluster.simps) (simp add: op_simps)
next
  case (Suc k)
  have "fat_lba bpb 0 (of_nat lo) < unat (dev_total_sectors dev d)"
    using Suc.hyps(2) by (intro Suc.prems(3)) simp_all
  note rd = read_fat_entry_at [OF assms this]
  have "lo < c" "lo < e"
    using Suc.hyps(2) Suc.prems(2) by simp_all
  have nz: "fat_value bpb (sectors d) (of_nat lo) \<noteq> 0"
    by (rule Suc.prems(4) [OF order_refl \<open>lo < c\<close>])
  have "scan_free_cluster dev bpb lo e d = scan_free_cluster dev bpb (Suc lo) e d"
    using rd nz \<open>lo < e\<close> by (subst scan_free_cluster.simps) (simp add: op_simps)
  also have "\<dots> = (Inr (Some (of_nat c)), d')"
    using Suc.hyps(2) Suc.prems by (intro Suc.hyps(1)) simp_all
  finally show ?case .
qed

lemma allocate_cluster_ok:
  assumes "disk_inv d" "fat_geometry dev bpb d" "hint \<le> c" "c \<le> max_cluster bpb" "fat_has_entry bpb c"
    and "fat_value bpb (sectors d) c = 0" "\<And>x. hint \<le> x \<Longrightarrow> x < c \<Longrightarrow> fat_value bpb (sectors d) x \<noteq> 0"
  shows "\<exists>d'. allocate_cluster dev bpb hint d = (Inr c, d') \<and>
    table_step dev disk_inv sectors bpb d ((fat_value bpb (sectors d))(c := fat_eoc bpb)) d'"
proof -
  obtain d' where d': "write_fat_entry dev bpb c (fat_eoc bpb) d = (Inr (), d')"
      "table_step dev disk_inv sectors bpb d ((fat_value bpb (sectors d))(c := fat_eoc bpb)) d'"
    using write_fat_entry_ok [OF assms(1,2,5), of "fat_eoc bpb"] by (auto simp: fat_mask_below_eoc)
  have of_nat: "unat (of_nat x :: u32) = x" if "x \<le> unat c" for x
    using that unat_u32 [of c] by (simp add: unat_of_nat_lt)
  have "scan_free_cluster dev bpb (unat hint) (Suc (unat (max_cluster bpb))) d = (Inr (Some (of_nat (unat c))), d')"
  proof (rule scan_free_cluster_first [OF assms(1,2)])
    fix x
    assume x: "unat hint \<le> x" "x \<le> unat c"
    have "entry_width bpb * x div 512 \<le> entry_width bpb * unat c div 512"
      using x(2) by (intro div_le_mono mult_le_mono2)
    then have "fat_has_entry bpb (of_nat x)"
      using assms(5) of_nat [OF x(2)] by (simp add: fat_has_entry_def)
    then show "fat_lba bpb 0 (of_nat x) < unat (dev_total_sectors dev d)"
      by (rule fat_first_copy_in_range [OF assms(2)])
  next
    fix x
    assume x: "unat hint \<le> x" "x < unat c"
    then show "fat_value bpb (sectors d) (of_nat x) \<noteq> 0"
      using of_nat [of x] by (intro assms(7)) (simp_all add: word_le_nat_alt word_less_nat_alt)
  qed (use assms(3,4,6) d'(1) in \<open>simp_all add: word_le_nat_alt\<close>)
  with d' show ?thesis
    by (auto simp: allocate_cluster_def op_simps)
qed

end

subsection \<open>Following a chain always ends\<close>

lemma follow_chain_bounded:
  "follow_chain dev bpb acc c d = (Inr cs, d') \<Longrightarrow> length acc \<le> 0x100000 \<Longrightarrow>
   \<forall>x \<in> set acc. 2 \<le> x \<and> x < fat_eoc bpb \<Longrightarrow>
   length cs \<le> 0x100001 \<and> (\<forall>x \<in> set cs. 2 \<le> x \<and> x < fat_eoc bpb)"
proof (induction dev bpb acc c arbitrary: d rule: follow_chain.induct)
  case (1 dev bpb acc c)
  show ?case
  proof (cases "c < 2 \<or> fat_eoc bpb \<le> c")
    case True
    then show ?thesis
      using 1(2-) by (subst (asm) follow_chain.simps) (auto simp: op_simps)
  next
    case False
    then obtain v d1 where v: "read_fat_entry dev bpb c d = (Inr v, d1)"
        "(if length (acc @ [c]) > 0x100000 then sreturn (acc @ [c])
          else follow_chain dev bpb (acc @ [c]) v) d1 = (Inr cs, d')"
      using 1(2) by (subst (asm) follow_chain.simps) (auto simp: res_simps)
    show ?thesis
    proof (cases "length (acc @ [c]) > 0x100000")
      case True
      then show ?thesis
        using v(2) False 1(3,4) by (auto simp: op_simps not_less)
    next
      case le: False
      then have "follow_chain dev bpb (acc @ [c]) v d1 = (Inr cs, d')"
        using v(2) by simp
      moreover have "length (acc @ [c]) \<le> 0x100000"
        using le by simp
      moreover have "\<forall>x \<in> set (acc @ [c]). 2 \<le> x \<and> x < fat_eoc bpb"
        using False 1(4) by (simp add: not_le [symmetric])
      ultimately show ?thesis
        by (rule 1(1) [OF False le])
    qed
  qed
qed

subsection \<open>Properties on the RAM disk\<close>

text \<open>
  C19. Writing a table entry updates every copy of the table: in each copy the entry has
  the new value (16 or 28 bits of it) and every other entry its old one, and no sector changes apart from the one of each copy
  that holds the entry. Reading the entry back gives the value, and reading another one what it gave before.
\<close>

theorem fat_entry_roundtrip:
  assumes "ramdisk_inv d" "fat_geometry ramdisk_dev bpb d" "fat_has_entry bpb c"
  shows "\<exists>d'. write_fat_entry ramdisk_dev bpb c v d = (Inr (), d') \<and>
    (\<forall>k x. k < unat (num_fats bpb) \<and> fat_has_entry bpb x \<longrightarrow> fat_copy_value bpb k (ramdisk_sectors d') x =
      (if x = c then fat_mask bpb v else fat_copy_value bpb k (ramdisk_sectors d) x)) \<and>
    (\<forall>i. i < unat (rd_total_sectors d) \<and> i \<notin> (\<lambda>k. fat_lba bpb k c) ` {..<unat (num_fats bpb)} \<longrightarrow>
      ramdisk_sectors d' i = ramdisk_sectors d i) \<and>
    read_fat_entry ramdisk_dev bpb c d' = (Inr (fat_mask bpb v), d') \<and>
    (\<forall>x. fat_has_entry bpb x \<and> x \<noteq> c \<longrightarrow>
      fst (read_fat_entry ramdisk_dev bpb x d') = fst (read_fat_entry ramdisk_dev bpb x d))"
proof -
  obtain d' where d': "write_fat_entry ramdisk_dev bpb c v d = (Inr (), d')" "ramdisk_inv d'" "same_shape ramdisk_dev d d'"
      "\<And>i. i < unat (dev_total_sectors ramdisk_dev d) \<Longrightarrow>
         ramdisk_sectors d' i = fat_write_sectors bpb c v {..<unat (num_fats bpb)} (ramdisk_sectors d) i"
      "\<And>k x. k < unat (num_fats bpb) \<Longrightarrow> fat_has_entry bpb x \<Longrightarrow> fat_copy_value bpb k (ramdisk_sectors d') x =
         (if x = c then fat_mask bpb v else fat_copy_value bpb k (ramdisk_sectors d) x)"
    using rd.write_fat_entry_sectors [OF assms, of v] by blast
  have g: "fat_geometry ramdisk_dev bpb d'" using fat_geometry_same_shape [OF d'(3)] assms(2) by simp
  have n: "0 < unat (num_fats bpb)" using assms(2) by (simp add: fat_geometry_def word_less_nat_alt)
  have first: "fat_value bpb sec x = fat_copy_value bpb 0 sec x" for sec x by (simp add: fat_value_def fat_copy_value_def)
  have "read_fat_entry ramdisk_dev bpb x d' = (Inr (if x = c then fat_mask bpb v else fat_value bpb (ramdisk_sectors d) x), d')"
    if "fat_has_entry bpb x" for x
    using rd.read_fat_entry_ok [OF d'(2) g that] d'(5) [OF n that] by (simp add: first)
  then show ?thesis
    using d' assms(3) rd.read_fat_entry_ok [OF assms(1,2)] by (intro exI [of _ d'])
      (auto simp: fat_write_sectors_def ramdisk_dev_def)
qed

text \<open>
  C28. Following a chain always ends, on every device and for every content of the table
  (cyclic ones included): what is returned has at most 1048577 clusters, all of them data
  clusters.
\<close>

theorem read_cluster_chain_bounded:
  assumes "read_cluster_chain dev bpb c d = (Inr cs, d')"
  shows "length cs \<le> 0x100001 \<and> list_all (\<lambda>x. 2 \<le> x \<and> x < fat_eoc bpb) cs"
  using follow_chain_bounded [of dev bpb "[]" c d cs d'] assms
  by (simp add: read_cluster_chain_def list_all_iff)

text \<open>
  C20. Allocation takes the lowest free cluster at or above the hint, terminates its chain,
  and changes no other entry and no data sector.
\<close>

theorem allocate_cluster_lowest:
  assumes "ramdisk_inv d" "fat_geometry ramdisk_dev bpb d" "hint \<le> c" "c \<le> max_cluster bpb" "fat_has_entry bpb c"
    and "fat_value bpb (ramdisk_sectors d) c = 0"
    and "\<forall>x. hint \<le> x \<and> x < c \<longrightarrow> fat_value bpb (ramdisk_sectors d) x \<noteq> 0"
  shows "\<exists>d'. allocate_cluster ramdisk_dev bpb hint d = (Inr c, d') \<and>
    table_step ramdisk_dev ramdisk_inv ramdisk_sectors bpb d
      ((fat_value bpb (ramdisk_sectors d))(c := fat_eoc bpb)) d'"
  using rd.allocate_cluster_ok [OF assms(1-6)] assms(7) by blast

text \<open>
  C16. Extending a chain at its last cluster appends exactly the new cluster to the chain,
  and every chain that contains neither of the two clusters is left as it was.
\<close>

theorem extend_chain_appends:
  assumes "ramdisk_inv d" "fat_geometry ramdisk_dev bpb d"
    and "is_chain (fat_eoc bpb) (fat_value bpb (ramdisk_sectors d)) c cs" "cs \<noteq> []" "distinct cs"
    and "list_all (fat_has_entry bpb) cs" "length cs < 0x100000"
    and "fat_has_entry bpb n" "2 \<le> n" "n < fat_eoc bpb" "n \<notin> set cs"
  shows "\<exists>d'. extend_chain ramdisk_dev bpb (last cs) n d = (Inr (), d') \<and>
    read_cluster_chain ramdisk_dev bpb c d' = (Inr (cs @ [n]), d') \<and>
    (\<forall>c2 cs2. is_chain (fat_eoc bpb) (fat_value bpb (ramdisk_sectors d)) c2 cs2 \<and>
        list_all (fat_has_entry bpb) cs2 \<and> last cs \<notin> set cs2 \<and> n \<notin> set cs2 \<longrightarrow>
      is_chain (fat_eoc bpb) (fat_value bpb (ramdisk_sectors d')) c2 cs2)"
proof -
  have l: "last cs \<in> set cs" "fat_has_entry bpb (last cs)" "\<forall>x \<in> set (cs @ [n]). fat_has_entry bpb x"
    using assms(4,6,8) by (auto simp: list_all_iff)
  obtain d' where d': "extend_chain ramdisk_dev bpb (last cs) n d = (Inr (), d')"
      "table_step ramdisk_dev ramdisk_inv ramdisk_sectors bpb d
         ((fat_value bpb (ramdisk_sectors d))(last cs := n, n := fat_eoc bpb)) d'"
    using rd.extend_chain_ok [OF assms(1,2) l(2) assms(8,10)] by blast
  note val = table_step_value [OF d'(2)] and inv = table_step_inv [OF d'(2)]
  have "is_chain (fat_eoc bpb) (fat_value bpb (ramdisk_sectors d')) c (cs @ [n])"
    by (rule is_chain_snoc [OF assms(3-5,9,10,11)]) (use l assms(11) val in \<open>auto simp: list_all_iff\<close>)
  then have "read_cluster_chain ramdisk_dev bpb c d' = (Inr (cs @ [n]), d')"
    using rd.read_cluster_chain_ok inv l(3) assms(7) by simp
  moreover have "is_chain (fat_eoc bpb) (fat_value bpb (ramdisk_sectors d')) c2 cs2"
    if "is_chain (fat_eoc bpb) (fat_value bpb (ramdisk_sectors d)) c2 cs2" "list_all (fat_has_entry bpb) cs2"
      "last cs \<notin> set cs2" "n \<notin> set cs2" for c2 cs2
  proof -
    have "fat_value bpb (ramdisk_sectors d') x = fat_value bpb (ramdisk_sectors d) x" if "x \<in> set cs2" for x
      using that val [of x] \<open>list_all (fat_has_entry bpb) cs2\<close> \<open>last cs \<notin> set cs2\<close> \<open>n \<notin> set cs2\<close>
      by (auto simp: list_all_iff)
    from is_chain_cong [OF this] that(1) show ?thesis by simp
  qed
  ultimately show ?thesis using d'(1) by blast
qed

text \<open>
  C29. Freeing a chain makes exactly its clusters free and leaves every other entry alone.
\<close>

theorem free_cluster_chain_frees:
  assumes "ramdisk_inv d" "fat_geometry ramdisk_dev bpb d"
    and "is_chain (fat_eoc bpb) (fat_value bpb (ramdisk_sectors d)) c cs"
    and "list_all (fat_has_entry bpb) cs" "length cs \<le> 0x100000"
  shows "\<exists>d'. free_cluster_chain ramdisk_dev bpb c d = (Inr (), d') \<and>
    table_step ramdisk_dev ramdisk_inv ramdisk_sectors bpb d
      (\<lambda>x. if x \<in> set cs then 0 else fat_value bpb (ramdisk_sectors d) x) d'"
  using rd.free_cluster_chain_ok [OF assms(1-3)] assms(4,5) by (simp add: list_all_iff)

subsection \<open>A concrete volume\<close>

text \<open>A fresh RAM disk of eight sectors as a FAT16 volume with two tables of one sector each.\<close>

definition ex_disk :: ramdisk where
  "ex_disk = \<lparr>rd_data = replicate 4096 0, rd_sector_size = 512, rd_total_sectors = 8\<rparr>"

definition ex_bpb :: fat_bpb where
  "ex_bpb = \<lparr>bpb_variant = Fat16, bytes_per_sector = 512, sectors_per_cluster = 1, reserved_sectors = 1,
     num_fats = 2, root_cluster = 0, fat_size_sectors = 1, bpb_total_sectors = 8, base_sector = 0,
     data_start_sector = 4, bytes_per_cluster = 512, root_entry_count = 16, root_dir_start_sector = 3,
     root_dir_sectors = 1\<rparr>"

lemma ex_disk_new: "ramdisk_new 8 512 = Inr ex_disk"
  by (simp add: ramdisk_new_def ex_disk_def checked_mul_def)

lemma ex_disk_facts: "ramdisk_inv ex_disk" "fat_geometry ramdisk_dev ex_bpb ex_disk"
  using ramdisk_new_inv [OF ex_disk_new]
  by (simp_all add: fat_geometry_def ramdisk_dev_def ex_disk_def ex_bpb_def)

lemma ex_disk_sectors: "i < 8 \<Longrightarrow> ramdisk_sectors ex_disk i = replicate 512 0"
  by (simp add: ramdisk_sectors_def ex_disk_def subslice_def)

lemma ex_bpb_entry: "unat c < 256 \<Longrightarrow> fat_has_entry ex_bpb c"
  by (simp add: fat_has_entry_def entry_width_def ex_bpb_def)

lemma ex_disk_value:
  assumes "unat c < 256"
  shows "fat_value ex_bpb (ramdisk_sectors ex_disk) c = 0"
proof -
  have "fat_lba ex_bpb 0 c = 1"
    using assms by (simp add: fat_lba_def entry_width_def ex_bpb_def)
  moreover have "entry_in_sector ex_bpb c + 2 \<le> 512"
    using entry_in_sector_bound [of ex_bpb c] by (simp add: entry_width_def ex_bpb_def)
  ultimately show ?thesis
    by (simp add: fat_value_def ex_disk_sectors fat_decode_def ex_bpb_def)
qed

lemma ex_chain: "is_chain (fat_eoc ex_bpb) (fat_value ex_bpb (ramdisk_sectors ex_disk)) 2 [2]"
  by (simp add: ex_disk_value fat_eoc_def ex_bpb_def [THEN arg_cong [where f = bpb_variant]])

theorem fat_entry_roundtrip_witness:
  "\<exists>d'. write_fat_entry ramdisk_dev ex_bpb 5 0x1234 ex_disk = (Inr (), d') \<and>
     read_fat_entry ramdisk_dev ex_bpb 5 d' = (Inr 0x1234, d')"
proof -
  have "fat_mask ex_bpb 0x1234 = 0x1234"
    by (simp add: fat_mask_def ex_bpb_def)
  with fat_entry_roundtrip [OF ex_disk_facts ex_bpb_entry, of 5 "0x1234"] show ?thesis by auto
qed

theorem read_cluster_chain_bounded_witness:
  "read_cluster_chain ramdisk_dev ex_bpb 2 ex_disk = (Inr [2], ex_disk) \<and> 2 < fat_eoc ex_bpb"
proof -
  have r: "read_cluster_chain ramdisk_dev ex_bpb 2 ex_disk = (Inr [2], ex_disk)"
    by (rule rd.read_cluster_chain_ok [OF ex_disk_facts ex_chain]) (simp_all add: ex_bpb_entry)
  from read_cluster_chain_bounded [OF this] r show ?thesis by simp
qed

theorem allocate_cluster_lowest_witness:
  "\<exists>d'. allocate_cluster ramdisk_dev ex_bpb 7 ex_disk = (Inr 7, d')"
proof -
  have "7 \<le> max_cluster ex_bpb"
    by (simp add: max_cluster_def ex_bpb_def)
  moreover have "\<forall>x. 7 \<le> x \<and> x < (7 :: u32) \<longrightarrow> fat_value ex_bpb (ramdisk_sectors ex_disk) x \<noteq> 0"
    by (meson leD)
  ultimately show ?thesis
    using allocate_cluster_lowest [OF ex_disk_facts order_refl, of 7] by (auto simp: ex_bpb_entry ex_disk_value)
qed

theorem extend_chain_appends_witness:
  "\<exists>d'. extend_chain ramdisk_dev ex_bpb 2 9 ex_disk = (Inr (), d') \<and>
     read_cluster_chain ramdisk_dev ex_bpb 2 d' = (Inr [2, 9], d')"
  using extend_chain_appends [OF ex_disk_facts ex_chain, of 9] ex_bpb_entry [of 2] ex_bpb_entry [of 9]
  by (auto simp: fat_eoc_def ex_bpb_def [THEN arg_cong [where f = bpb_variant]])

theorem free_cluster_chain_frees_witness: "\<exists>d'. free_cluster_chain ramdisk_dev ex_bpb 2 ex_disk = (Inr (), d')"
  using free_cluster_chain_frees [OF ex_disk_facts ex_chain] ex_bpb_entry [of 2] by auto

end
