(* ===== verification/Fat_Data.thy ===== *)
theory Fat_Data
  imports Fat_Table
begin

text \<open>
  File contents on a FAT volume: reading and writing the data sectors of a cluster chain, and the
  fixed sectors of the FAT16 root directory.
\<close>

subsection \<open>Reading and writing along a chain\<close>

fun read_cluster_sectors :: "'d blockdev \<Rightarrow> u64 \<Rightarrow> nat list \<Rightarrow> nat \<Rightarrow> bytes \<Rightarrow> ('d, vfs_error, nat \<times> bytes) op" where
  "read_cluster_sectors dev sector [] bytes_read buf = sreturn (bytes_read, buf)"
| "read_cluster_sectors dev sector (s # ss) bytes_read buf =
     (if bytes_read \<ge> length buf then sreturn (bytes_read, buf)
      else sbind (io_read dev (sector + of_nat s)) (\<lambda>sector_buf.
        let to_copy = min 512 (length buf - bytes_read) in
        read_cluster_sectors dev sector ss (bytes_read + to_copy)
          (overwrite bytes_read (take to_copy sector_buf) buf)))"

fun read_clusters :: "'d blockdev \<Rightarrow> fat_bpb \<Rightarrow> u32 list \<Rightarrow> nat \<Rightarrow> bytes \<Rightarrow> ('d, vfs_error, nat \<times> bytes) op" where
  "read_clusters dev bpb [] bytes_read buf = sreturn (bytes_read, buf)"
| "read_clusters dev bpb (cluster # chain) bytes_read buf =
     (if bytes_read \<ge> length buf then sreturn (bytes_read, buf)
      else sbind (read_cluster_sectors dev (ucast (cluster_to_sector bpb cluster))
                    [0..<unat (sectors_per_cluster bpb)] bytes_read buf)
        (\<lambda>(bytes_read, buf). read_clusters dev bpb chain bytes_read buf))"

definition read_file_data :: "'d blockdev \<Rightarrow> fat_bpb \<Rightarrow> u32 list \<Rightarrow> bytes \<Rightarrow> ('d, vfs_error, nat \<times> bytes) op" where
  "read_file_data dev bpb chain buf = read_clusters dev bpb chain 0 buf"

fun write_cluster_sectors :: "'d blockdev \<Rightarrow> u64 \<Rightarrow> nat \<Rightarrow> nat list \<Rightarrow> nat \<Rightarrow> bytes \<Rightarrow> ('d, vfs_error, nat) op" where
  "write_cluster_sectors dev sector cluster_byte_offset [] bytes_written buf = sreturn bytes_written"
| "write_cluster_sectors dev sector cluster_byte_offset (s # ss) bytes_written buf =
     (if bytes_written \<ge> length buf then sreturn bytes_written
      else let bytes_into_sector = (s * 512 + cluster_byte_offset) mod 512 in
        sbind (io_read dev (sector + of_nat s)) (\<lambda>sector_buf.
          let available_in_sector = 512 - bytes_into_sector;
              to_write = min available_in_sector (length buf - bytes_written)
          in sbind (io_write dev (sector + of_nat s)
                (overwrite bytes_into_sector (subslice bytes_written to_write buf) sector_buf)) (\<lambda>_.
             write_cluster_sectors dev sector cluster_byte_offset ss (bytes_written + to_write) buf)))"

fun write_clusters :: "'d blockdev \<Rightarrow> fat_bpb \<Rightarrow> nat \<Rightarrow> nat \<Rightarrow> nat \<Rightarrow> u32 list \<Rightarrow> nat \<Rightarrow> bytes \<Rightarrow> ('d, vfs_error, nat) op" where
  "write_clusters dev bpb start_idx start_byte i [] bytes_written buf = sreturn bytes_written"
| "write_clusters dev bpb start_idx start_byte i (cluster # chain) bytes_written buf =
     (if i < start_idx then write_clusters dev bpb start_idx start_byte (Suc i) chain bytes_written buf
      else if bytes_written \<ge> length buf then sreturn bytes_written
      else let cluster_byte_offset = (if i = start_idx then start_byte else 0) in
        sbind (write_cluster_sectors dev (ucast (cluster_to_sector bpb cluster)) cluster_byte_offset
                 [0..<unat (sectors_per_cluster bpb)] bytes_written buf)
          (\<lambda>bytes_written. write_clusters dev bpb start_idx start_byte (Suc i) chain bytes_written buf))"

definition write_file_data :: "'d blockdev \<Rightarrow> fat_bpb \<Rightarrow> u32 list \<Rightarrow> nat \<Rightarrow> bytes \<Rightarrow> ('d, vfs_error, nat) op" where
  "write_file_data dev bpb chain offset buf =
     (let bpc = unat (bytes_per_cluster bpb) in
      if bpc = 0 then scrash (Panic ''attempt to divide by zero'')
      else write_clusters dev bpb (offset div bpc) (offset mod bpc) 0 chain 0 buf)"

subsection \<open>Fixed sectors\<close>

fun read_sectors_from :: "'d blockdev \<Rightarrow> u64 \<Rightarrow> nat list \<Rightarrow> bytes \<Rightarrow> ('d, vfs_error, bytes) op" where
  "read_sectors_from dev start_sector [] data = sreturn data"
| "read_sectors_from dev start_sector (s # ss) data =
     sbind (io_read dev (start_sector + of_nat s)) (\<lambda>sector_buf.
       read_sectors_from dev start_sector ss (data @ sector_buf))"

definition read_sectors :: "'d blockdev \<Rightarrow> u64 \<Rightarrow> u64 \<Rightarrow> ('d, vfs_error, bytes) op" where
  "read_sectors dev start_sector num_sectors = read_sectors_from dev start_sector [0..<unat num_sectors] []"

fun write_sectors_from :: "'d blockdev \<Rightarrow> u64 \<Rightarrow> nat list \<Rightarrow> bytes \<Rightarrow> ('d, vfs_error, unit) op" where
  "write_sectors_from dev start_sector [] data = sreturn ()"
| "write_sectors_from dev start_sector (s # ss) data =
     (let offset = s * 512 in
      if offset > length data then scrash Slice_out_of_range
      else let to_copy = min 512 (length data - offset) in
        sbind (io_write dev (start_sector + of_nat s)
                 (overwrite 0 (subslice offset to_copy data) (replicate 512 0))) (\<lambda>_.
        write_sectors_from dev start_sector ss data))"

definition write_sectors :: "'d blockdev \<Rightarrow> u64 \<Rightarrow> u64 \<Rightarrow> bytes \<Rightarrow> ('d, vfs_error, unit) op" where
  "write_sectors dev start_sector num_sectors data =
     write_sectors_from dev start_sector [0..<unat num_sectors] data"

subsection \<open>The sectors of a chain\<close>

definition cluster_lbas :: "fat_bpb \<Rightarrow> u32 \<Rightarrow> u64 list" where
  "cluster_lbas bpb cluster =
     map (\<lambda>s. ucast (cluster_to_sector bpb cluster) + of_nat s) [0..<unat (sectors_per_cluster bpb)]"

definition chain_lbas :: "fat_bpb \<Rightarrow> u32 list \<Rightarrow> u64 list" where
  "chain_lbas bpb chain = concat (map (cluster_lbas bpb) chain)"

text \<open>Both nested loops visit the sectors of the chain in order.\<close>

fun read_lbas :: "'d blockdev \<Rightarrow> u64 list \<Rightarrow> nat \<Rightarrow> bytes \<Rightarrow> ('d, vfs_error, nat \<times> bytes) op" where
  "read_lbas dev [] n buf = sreturn (n, buf)"
| "read_lbas dev (l # ls) n buf =
     (if n \<ge> length buf then sreturn (n, buf)
      else sbind (io_read dev l) (\<lambda>sb. let k = min 512 (length buf - n) in
        read_lbas dev ls (n + k) (overwrite n (take k sb) buf)))"

fun write_lbas :: "'d blockdev \<Rightarrow> u64 list \<Rightarrow> nat \<Rightarrow> bytes \<Rightarrow> ('d, vfs_error, nat) op" where
  "write_lbas dev [] n buf = sreturn n"
| "write_lbas dev (l # ls) n buf =
     (if n \<ge> length buf then sreturn n
      else sbind (io_read dev l) (\<lambda>sb. let k = min 512 (length buf - n) in
        sbind (io_write dev l (overwrite 0 (subslice n k buf) sb)) (\<lambda>_. write_lbas dev ls (n + k) buf)))"

lemma sbind_sreturn: "sbind (sreturn x) f = f x"
  by (simp add: sbind_def sreturn_def fun_eq_iff)

lemma sbind_assoc': "sbind (sbind m f) g = sbind m (\<lambda>x. sbind (f x) g)"
  by (simp add: fun_eq_iff sbind_assoc)

lemma read_lbas_done: "length buf \<le> n \<Longrightarrow> read_lbas dev ls n buf = sreturn (n, buf)"
  by (cases ls) simp_all

lemma write_lbas_done: "length buf \<le> n \<Longrightarrow> write_lbas dev ls n buf = sreturn n"
  by (cases ls) simp_all

lemma read_cluster_sectors_lbas:
  "read_cluster_sectors dev sector ss n buf = read_lbas dev (map (\<lambda>s. sector + of_nat s) ss) n buf"
  by (induction ss arbitrary: n buf) (auto simp: Let_def)

lemma read_lbas_append:
  "read_lbas dev (xs @ ys) n buf = sbind (read_lbas dev xs n buf) (\<lambda>(n, buf). read_lbas dev ys n buf)"
  by (induction xs arbitrary: n buf) (simp_all add: sbind_sreturn sbind_assoc' read_lbas_done Let_def)

lemma read_clusters_lbas: "read_clusters dev bpb chain n buf = read_lbas dev (chain_lbas bpb chain) n buf"
  by (induction chain arbitrary: n buf)
     (simp_all add: chain_lbas_def read_lbas_append read_cluster_sectors_lbas cluster_lbas_def read_lbas_done
       case_prod_unfold sbind_sreturn)

lemma write_cluster_sectors_lbas:
  "write_cluster_sectors dev sector 0 ss n buf = write_lbas dev (map (\<lambda>s. sector + of_nat s) ss) n buf"
  by (induction ss arbitrary: n) (auto simp: Let_def)

lemma write_lbas_append:
  "write_lbas dev (xs @ ys) n buf = sbind (write_lbas dev xs n buf) (\<lambda>n. write_lbas dev ys n buf)"
  by (induction xs arbitrary: n) (simp_all add: sbind_sreturn sbind_assoc' write_lbas_done Let_def)

lemma write_clusters_lbas:
  "write_clusters dev bpb 0 0 i chain n buf = write_lbas dev (chain_lbas bpb chain) n buf"
  by (induction chain arbitrary: n i)
     (simp_all add: chain_lbas_def write_lbas_append write_cluster_sectors_lbas cluster_lbas_def write_lbas_done
       sbind_sreturn)

lemma file_data_lbas:
  "read_file_data dev bpb chain buf = read_lbas dev (chain_lbas bpb chain) 0 buf"
  "0 < unat (bytes_per_cluster bpb) \<Longrightarrow> write_file_data dev bpb chain 0 buf = write_lbas dev (chain_lbas bpb chain) 0 buf"
  by (simp_all add: read_file_data_def write_file_data_def Let_def read_clusters_lbas write_clusters_lbas)

subsection \<open>Contents on a well-behaved device\<close>

definition lbas_in_range :: "'d blockdev \<Rightarrow> 'd \<Rightarrow> u64 list \<Rightarrow> bool" where
  "lbas_in_range dev d ls \<longleftrightarrow> dev_sector_size dev d = 512 \<and>
     list_all (\<lambda>l. unat l < unat (dev_total_sectors dev d)) ls"

definition lba_content :: "(nat \<Rightarrow> bytes) \<Rightarrow> u64 list \<Rightarrow> bytes" where
  "lba_content sec ls = concat (map (\<lambda>l. sec (unat l)) ls)"

lemma lba_content_simps [simp]:
  "lba_content sec [] = []" "lba_content sec (l # ls) = sec (unat l) @ lba_content sec ls"
  by (simp_all add: lba_content_def)

lemma lba_content_cong: "(\<And>l. l \<in> set ls \<Longrightarrow> sec (unat l) = sec' (unat l)) \<Longrightarrow> lba_content sec ls = lba_content sec' ls"
  by (auto simp: lba_content_def intro!: arg_cong [where f = concat])

lemma overwrite_step:
  assumes "n + k \<le> length buf" "length sb = k" "n + k + length rest \<le> length buf"
  shows "overwrite (n + k) rest (overwrite n sb buf) = overwrite n (sb @ rest) buf"
proof -
  have "length (take n buf) = n" using assms by simp
  with assms show ?thesis
    by (simp add: overwrite_def min_def ac_simps)
qed

context block_device begin

lemma lba_content_length:
  "disk_inv d \<Longrightarrow> lbas_in_range dev d ls \<Longrightarrow> length (lba_content (sectors d) ls) = 512 * length ls"
  by (induction ls) (auto simp: lbas_in_range_def sector_length)

lemma read_lbas_ok:
  assumes "disk_inv d"
  shows "lbas_in_range dev d ls \<Longrightarrow> n \<le> length buf \<Longrightarrow>
    read_lbas dev ls n buf d =
      (Inr (min (length buf) (n + 512 * length ls),
            overwrite n (take (length buf - n) (lba_content (sectors d) ls)) buf), d)"
proof (induction ls arbitrary: n buf)
  case Nil
  then show ?case by (simp add: op_simps overwrite_def)
next
  case (Cons l ls)
  show ?case
  proof (cases "n = length buf")
    case True
    then show ?thesis by (simp add: op_simps overwrite_def)
  next
    case False
    let ?sb = "sectors d (unat l)" and ?k = "min 512 (length buf - n)"
    have l: "unat l < unat (dev_total_sectors dev d)" and ssz: "dev_sector_size dev d = 512"
      and ls: "lbas_in_range dev d ls"
      using Cons.prems(1) by (simp_all add: lbas_in_range_def)
    have sb: "length ?sb = 512"
      using sector_length [OF assms l] ssz by simp
    have rd: "io_read dev l d = (Inr ?sb, d)"
      using io_read_ok [OF assms ssz l] .
    let ?buf = "overwrite n (take ?k ?sb) buf"
    have len: "length ?buf = length buf"
      using sb Cons.prems(2) by (simp add: length_overwrite)
    have "read_lbas dev (l # ls) n buf d = read_lbas dev ls (n + ?k) ?buf d"
      using rd False Cons.prems(2) by (simp add: op_simps Let_def)
    also have "\<dots> = (Inr (min (length buf) (n + ?k + 512 * length ls),
        overwrite (n + ?k) (take (length buf - (n + ?k)) (lba_content (sectors d) ls)) ?buf), d)"
      using Cons.IH [OF ls, of "n + ?k" ?buf] Cons.prems(2) by (simp add: len)
    also have "overwrite (n + ?k) (take (length buf - (n + ?k)) (lba_content (sectors d) ls)) ?buf
        = overwrite n (take ?k ?sb @ take (length buf - (n + ?k)) (lba_content (sectors d) ls)) buf"
      using sb Cons.prems(2) by (intro overwrite_step) auto
    also have "take ?k ?sb @ take (length buf - (n + ?k)) (lba_content (sectors d) ls)
        = take (length buf - n) (lba_content (sectors d) (l # ls))"
      using sb by (auto simp: min_def)
    finally show ?thesis
      using Cons.prems(2) by (auto simp: min_def)
  qed
qed

lemma write_lbas_ok:
  assumes "disk_inv d" "lbas_in_range dev d ls" "distinct ls" "n \<le> length buf" "length buf \<le> n + 512 * length ls"
  shows "\<exists>d'. write_lbas dev ls n buf d = (Inr (length buf), d') \<and> disk_inv d' \<and> same_shape dev d d' \<and>
    take (length buf - n) (lba_content (sectors d') ls) = drop n buf \<and>
    (\<forall>i < unat (dev_total_sectors dev d). i \<notin> unat ` set ls \<longrightarrow> sectors d' i = sectors d i)"
  using assms
proof (induction ls arbitrary: n d)
  case Nil
  then show ?case by (simp add: op_simps)
next
  case (Cons l ls)
  show ?case
  proof (cases "n = length buf")
    case True
    then show ?thesis using Cons.prems by (auto simp: op_simps)
  next
    case False
    let ?sb = "sectors d (unat l)" and ?k = "min 512 (length buf - n)"
    let ?new = "overwrite 0 (subslice n ?k buf) ?sb"
    have l: "unat l < unat (dev_total_sectors dev d)" and ssz: "dev_sector_size dev d = 512"
      and ls: "lbas_in_range dev d ls"
      using Cons.prems(2) by (simp_all add: lbas_in_range_def)
    have sb: "length ?sb = 512"
      using sector_length [OF Cons.prems(1) l] ssz by simp
    have rd: "io_read dev l d = (Inr ?sb, d)"
      using io_read_ok [OF Cons.prems(1) ssz l] .
    have k: "n + ?k \<le> length buf" "length (subslice n ?k buf) = ?k"
      using Cons.prems(4) by (simp_all add: length_subslice)
    have new: "length ?new = 512"
      using sb k by (simp add: length_overwrite)
    obtain d1 where d1: "io_write dev l ?new d = (Inr (), d1)" "disk_inv d1" "same_shape dev d d1"
        "\<And>i. i < unat (dev_total_sectors dev d) \<Longrightarrow> sectors d1 i = (if i = unat l then ?new else sectors d i)"
      using io_write_ok [OF Cons.prems(1) ssz l new] by blast
    have ls1: "lbas_in_range dev d1 ls"
      using ls d1(3) by (simp add: lbas_in_range_def same_shape_def)
    have rest: "length buf \<le> n + ?k + 512 * length ls"
      using Cons.prems(5) by (auto simp: min_def)
    obtain d2 where d2: "write_lbas dev ls (n + ?k) buf d1 = (Inr (length buf), d2)" "disk_inv d2"
        "same_shape dev d1 d2"
        "take (length buf - (n + ?k)) (lba_content (sectors d2) ls) = drop (n + ?k) buf"
        "\<forall>i < unat (dev_total_sectors dev d1). i \<notin> unat ` set ls \<longrightarrow> sectors d2 i = sectors d1 i"
      using Cons.IH [OF d1(2) ls1 _ k(1) rest] Cons.prems(3) by auto
    have "unat l \<notin> unat ` set ls"
      using Cons.prems(3) by (metis distinct.simps(2) imageE unsigned_word_eqI)
    then have s2: "sectors d2 (unat l) = ?new"
      using d2(5) d1(3,4) l by (simp add: same_shape_def)
    have "take (length buf - n) (lba_content (sectors d2) (l # ls)) = drop n buf"
    proof (cases "length buf - n \<le> 512")
      case True
      then have "take (length buf - n) ?new = subslice n ?k buf"
        using k by (simp add: overwrite_def min_absorb2)
      then show ?thesis
        using True s2 new by (simp add: subslice_def min_absorb2)
    next
      case False
      then have "?new = take 512 (drop n buf)"
        using k sb by (simp add: overwrite_def subslice_def)
      then show ?thesis
        using False s2 d2(4) new append_take_drop_id [of 512 "drop n buf"] by (simp add: add.commute)
    qed
    moreover have "write_lbas dev (l # ls) n buf d = (Inr (length buf), d2)"
      using rd d1(1) d2(1) False Cons.prems(4) by (simp add: op_simps Let_def)
    moreover have "\<forall>i < unat (dev_total_sectors dev d). i \<notin> unat ` set (l # ls) \<longrightarrow> sectors d2 i = sectors d i"
      using d1(3,4) d2(5) by (simp add: same_shape_def)
    ultimately show ?thesis
      using d2(2) same_shape_trans [OF d1(3) d2(3)] by blast
  qed
qed

end

subsection \<open>Data clusters of a volume\<close>

text \<open>The sectors of the data cluster \<open>c\<close> lie within the device and below the 32-bit limit.\<close>

definition data_lba :: "fat_bpb \<Rightarrow> u32 \<Rightarrow> nat" where
  "data_lba bpb c = unat (base_sector bpb) + unat (data_start_sector bpb) + (unat c - 2) * unat (sectors_per_cluster bpb)"

definition data_cluster :: "'d blockdev \<Rightarrow> fat_bpb \<Rightarrow> 'd \<Rightarrow> u32 \<Rightarrow> bool" where
  "data_cluster dev bpb d c \<longleftrightarrow> dev_sector_size dev d = 512 \<and> 2 \<le> c \<and>
     data_lba bpb c + unat (sectors_per_cluster bpb) < 2 ^ 32 \<and>
     data_lba bpb c + unat (sectors_per_cluster bpb) \<le> unat (dev_total_sectors dev d)"

lemma unat_cluster_to_sector:
  assumes "data_cluster dev bpb d c"
  shows "unat (cluster_to_sector bpb c) = data_lba bpb c"
proof -
  have lt: "unat (base_sector bpb) + unat (data_start_sector bpb) + (unat c - 2) * unat (sectors_per_cluster bpb) < 2 ^ 32"
    using assms by (simp add: data_cluster_def data_lba_def)
  have "unat (saturating_sub c 2) = unat c - 2"
    by (simp add: unat_saturating_sub)
  then have m: "unat (saturating_sub c 2 * ucast (sectors_per_cluster bpb) :: u32)
      = (unat c - 2) * unat (sectors_per_cluster bpb)"
    using lt by (subst unat_mult_lt) (simp_all add: unat_ucast_le)
  have "unat (base_sector bpb + data_start_sector bpb) = unat (base_sector bpb) + unat (data_start_sector bpb)"
    using lt by (intro unat_add_lt) simp
  then show ?thesis
    unfolding cluster_to_sector_def data_lba_def using lt m by (subst unat_add_lt) simp_all
qed

lemma unat_cluster_lbas:
  assumes "data_cluster dev bpb d c"
  shows "map unat (cluster_lbas bpb c) = [data_lba bpb c ..< data_lba bpb c + unat (sectors_per_cluster bpb)]"
proof -
  have "unat (ucast (cluster_to_sector bpb c) + of_nat s :: u64) = data_lba bpb c + s"
    if "s < unat (sectors_per_cluster bpb)" for s
  proof -
    have "s < 256" using that unsigned_less [of "sectors_per_cluster bpb", where ?'a = nat] by simp
    then have "unat (of_nat s :: u64) = s" by (simp add: unat_of_nat_lt)
    moreover have "data_lba bpb c + s < 2 ^ 64"
      using assms that by (simp add: data_cluster_def)
    ultimately show ?thesis
      by (subst unat_add_lt) (simp_all add: unat_ucast_le unat_cluster_to_sector [OF assms])
  qed
  then show ?thesis
    by (intro nth_equalityI) (simp_all add: cluster_lbas_def)
qed

lemma data_lba_disjoint:
  assumes "2 \<le> c" "2 \<le> c'" "c \<noteq> c'"
  shows "data_lba bpb c + unat (sectors_per_cluster bpb) \<le> data_lba bpb c' \<or>
    data_lba bpb c' + unat (sectors_per_cluster bpb) \<le> data_lba bpb c"
proof -
  let ?n = "unat (sectors_per_cluster bpb)"
  have "unat c \<noteq> unat c'" "2 \<le> unat c" "2 \<le> unat c'"
    using assms unsigned_word_eqI [of c c', where ?'a = nat] by (auto simp: word_le_nat_alt)
  then have "Suc (unat c - 2) * ?n \<le> (unat c' - 2) * ?n \<or> Suc (unat c' - 2) * ?n \<le> (unat c - 2) * ?n"
    by (cases "unat c < unat c'") (auto simp del: mult_Suc intro!: mult_le_mono1)
  then show ?thesis by (auto simp: data_lba_def)
qed

lemma chain_lbas_ok:
  assumes "distinct chain" "list_all (data_cluster dev bpb d) chain" "chain \<noteq> []"
  shows "distinct (chain_lbas bpb chain)" "lbas_in_range dev d (chain_lbas bpb chain)"
    and "length (chain_lbas bpb chain) = length chain * unat (sectors_per_cluster bpb)"
    and "unat ` set (chain_lbas bpb chain) = (\<Union>c \<in> set chain. {data_lba bpb c ..< data_lba bpb c + unat (sectors_per_cluster bpb)})"
proof -
  have imgs: "unat ` set (cluster_lbas bpb c) = {data_lba bpb c ..< data_lba bpb c + unat (sectors_per_cluster bpb)}"
    if "data_cluster dev bpb d c" for c
    using unat_cluster_lbas [OF that] by (metis atLeastLessThan_upt list.set_map)
  have dc: "data_cluster dev bpb d c" if "c \<in> set chain" for c
    using assms(2) that by (simp add: list_all_iff)
  show img: "unat ` set (chain_lbas bpb chain) = (\<Union>c \<in> set chain. {data_lba bpb c ..< data_lba bpb c + unat (sectors_per_cluster bpb)})"
    using imgs [OF dc] by (auto simp: chain_lbas_def image_UN)
  show "length (chain_lbas bpb chain) = length chain * unat (sectors_per_cluster bpb)"
    by (simp add: chain_lbas_def cluster_lbas_def length_concat comp_def sum_list_triv)
  have "unat l < unat (dev_total_sectors dev d)" if "l \<in> set (chain_lbas bpb chain)" for l
  proof -
    have "unat l \<in> (\<Union>c \<in> set chain. {data_lba bpb c ..< data_lba bpb c + unat (sectors_per_cluster bpb)})"
      using imageI [OF that, of unat] unfolding img .
    then obtain c where "c \<in> set chain" "unat l \<in> {data_lba bpb c ..< data_lba bpb c + unat (sectors_per_cluster bpb)}"
      by (rule UN_E)
    then show ?thesis using dc [of c] by (auto simp: data_cluster_def)
  qed
  moreover have "dev_sector_size dev d = 512"
    using dc assms(3) by (cases chain) (auto simp: data_cluster_def)
  ultimately show "lbas_in_range dev d (chain_lbas bpb chain)"
    by (simp add: lbas_in_range_def list_all_iff)
  show "distinct (chain_lbas bpb chain)"
    using assms(1,2)
  proof (induction chain)
    case (Cons c cs)
    have "distinct (map unat (cluster_lbas bpb c))"
      using Cons.prems unat_cluster_lbas [of dev bpb d c] by simp
    moreover have "set (cluster_lbas bpb c) \<inter> set (chain_lbas bpb cs) = {}"
    proof -
      have "unat l \<notin> unat ` set (cluster_lbas bpb c)" if "l \<in> set (cluster_lbas bpb c')" "c' \<in> set cs" for l c'
      proof -
        have c': "data_cluster dev bpb d c'" "data_cluster dev bpb d c" "c \<noteq> c'"
          using Cons.prems that(2) by (auto simp: list_all_iff)
        then have "unat l \<in> {data_lba bpb c' ..< data_lba bpb c' + unat (sectors_per_cluster bpb)}"
          using imageI [OF that(1), of unat] unfolding imgs [OF c'(1)] by simp
        then show ?thesis
          using imgs [OF c'(2)] data_lba_disjoint [of c c' bpb] c' by (auto simp: data_cluster_def)
      qed
      then show ?thesis by (fastforce simp: chain_lbas_def)
    qed
    ultimately show ?case
      using Cons by (auto simp: chain_lbas_def distinct_map)
  qed (simp add: chain_lbas_def)
qed

text \<open>
  C7. Data written from the start of a chain of distinct data clusters that is long enough
  is read back unchanged, and no sector outside the chain's clusters is modified.
\<close>

theorem file_data_roundtrip:
  assumes "ramdisk_inv d" "distinct chain" "chain \<noteq> []" "list_all (data_cluster ramdisk_dev bpb d) chain"
    and "length buf \<le> 512 * (length chain * unat (sectors_per_cluster bpb))" "0 < unat (bytes_per_cluster bpb)"
  shows "\<exists>d'. write_file_data ramdisk_dev bpb chain 0 buf d = (Inr (length buf), d') \<and>
    read_file_data ramdisk_dev bpb chain (replicate (length buf) 0) d' = (Inr (length buf, buf), d') \<and>
    (\<forall>i < unat (rd_total_sectors d).
      (\<forall>c \<in> set chain. i < data_lba bpb c \<or> data_lba bpb c + unat (sectors_per_cluster bpb) \<le> i) \<longrightarrow>
      ramdisk_sectors d' i = ramdisk_sectors d i)"
proof -
  note ok = chain_lbas_ok [OF assms(2,4,3)]
  obtain d' where d': "write_lbas ramdisk_dev (chain_lbas bpb chain) 0 buf d = (Inr (length buf), d')"
      "ramdisk_inv d'" "same_shape ramdisk_dev d d'"
      "take (length buf) (lba_content (ramdisk_sectors d') (chain_lbas bpb chain)) = buf"
      "\<forall>i < unat (rd_total_sectors d). i \<notin> unat ` set (chain_lbas bpb chain) \<longrightarrow>
         ramdisk_sectors d' i = ramdisk_sectors d i"
    using rd.write_lbas_ok [OF assms(1) ok(2,1), of 0 buf] assms(5) ok(3) by (auto simp: ramdisk_dev_def)
  have range': "lbas_in_range ramdisk_dev d' (chain_lbas bpb chain)"
    using ok(2) d'(3) by (simp add: lbas_in_range_def same_shape_def)
  have "read_lbas ramdisk_dev (chain_lbas bpb chain) 0 (replicate (length buf) 0) d' = (Inr (length buf, buf), d')"
    using rd.read_lbas_ok [OF d'(2) range', of 0 "replicate (length buf) 0"] d'(4) assms(5) ok(3)
    by (simp add: overwrite_whole min_def)
  then show ?thesis
    using d'(1,5) ok(4) assms(6) by (simp add: file_data_lbas) fastforce
qed

theorem file_data_roundtrip_witness:
  "\<exists>d'. write_file_data ramdisk_dev ex_bpb [4, 2] 0 (replicate 600 7) ex_disk = (Inr 600, d') \<and>
     read_file_data ramdisk_dev ex_bpb [4, 2] (replicate 600 0) d' = (Inr (600, replicate 600 7), d')"
proof -
  have "list_all (data_cluster ramdisk_dev ex_bpb ex_disk) [4, 2]"
    by (simp add: data_cluster_def data_lba_def ramdisk_dev_def ex_bpb_def ex_disk_def)
  moreover have "600 \<le> 512 * (length [4 :: u32, 2] * unat (sectors_per_cluster ex_bpb))"
    "0 < unat (bytes_per_cluster ex_bpb)"
    by (simp_all add: ex_bpb_def)
  ultimately show ?thesis
    using file_data_roundtrip [OF ex_disk_facts(1), of "[4, 2]" ex_bpb "replicate 600 7"] by auto
qed

end
