(* ===== verification/Fat_Dir.thy ===== *)
theory Fat_Dir
  imports Fat_Data
begin

text \<open>
  Directories of a FAT volume: scanning the 32-byte slots of a directory with the accumulation of
  long-name fragments, and the operations that add, resize, find and delete entries.
\<close>

subsection \<open>Scanning\<close>

text \<open>
  The four searching functions of the source repeat the same loop over the slots. It is \<open>dir_scan\<close>
  here: the list of the entries with their offsets, in order, up to the end marker. The first entry
  with a given name is the one the loops stop at.
\<close>

definition lfn_chars :: "bytes \<Rightarrow> u16 list" where
  "lfn_chars entry_buf =
     map (\<lambda>j. le16_at entry_buf (1 + j * 2)) [0..<5] @
     map (\<lambda>j. le16_at entry_buf (14 + j * 2)) [0..<6] @
     map (\<lambda>j. le16_at entry_buf (28 + j * 2)) [0..<2]"

definition lfn_text :: "bytes \<Rightarrow> rstring" where
  "lfn_text entry_buf =
     map ucast (filter (\<lambda>c. c < 128) (takeWhile (\<lambda>c. c \<noteq> 0 \<and> c \<noteq> 0xFFFF) (lfn_chars entry_buf)))"

function dir_scan :: "bytes \<Rightarrow> nat \<Rightarrow> rstring \<Rightarrow> (nat \<times> fat_dir_entry) list" where
  "dir_scan raw offset pending_lfn =
     (if offset + 32 \<le> length raw then
        let entry_buf = subslice offset 32 raw in
        if entry_buf ! 0 = 0 then []
        else if entry_buf ! 11 = 0x0F then dir_scan raw (offset + 32) (pending_lfn @ lfn_text entry_buf)
        else (case fat_dir_entry_parse entry_buf of
                Some entry \<Rightarrow>
                  (offset, if pending_lfn \<noteq> [] then entry\<lparr>de_name := pending_lfn\<rparr> else entry)
                    # dir_scan raw (offset + 32) []
              | None \<Rightarrow> dir_scan raw (offset + 32) [])
      else [])"
  by auto
termination by (relation "measure (\<lambda>(raw, offset, p). length raw - offset)") auto

declare dir_scan.simps [simp del]

definition parse_dir_entries :: "bytes \<Rightarrow> fat_dir_entry list" where
  "parse_dir_entries raw = map snd (dir_scan raw 0 [])"

definition scan_name :: "bytes \<Rightarrow> rstring \<Rightarrow> (nat \<times> fat_dir_entry) option" where
  "scan_name raw name = List.find (\<lambda>(offset, e). de_name e = name) (dir_scan raw 0 [])"

fun read_chain_raw :: "'d blockdev \<Rightarrow> fat_bpb \<Rightarrow> u32 list \<Rightarrow> bytes \<Rightarrow> ('d, vfs_error, bytes) op" where
  "read_chain_raw dev bpb [] raw = sreturn raw"
| "read_chain_raw dev bpb (cluster # chain) raw =
     sbind (read_sectors_from dev (ucast (cluster_to_sector bpb cluster)) [0..<unat (sectors_per_cluster bpb)] raw)
       (read_chain_raw dev bpb chain)"

definition read_dir_entries_from_chain ::
  "'d blockdev \<Rightarrow> fat_bpb \<Rightarrow> u32 list \<Rightarrow> ('d, vfs_error, fat_dir_entry list) op" where
  "read_dir_entries_from_chain dev bpb chain =
     sbind (read_chain_raw dev bpb chain []) (\<lambda>raw. sreturn (parse_dir_entries raw))"

function free_slot_from :: "bytes \<Rightarrow> nat \<Rightarrow> nat option" where
  "free_slot_from raw i =
     (if i + 32 \<le> length raw
      then if raw ! i = 0xE5 \<or> raw ! i = 0 then Some i else free_slot_from raw (i + 32)
      else None)"
  by auto
termination by (relation "measure (\<lambda>(raw, i). length raw - i)") auto

declare free_slot_from.simps [simp del]

definition find_free_dir_slot_in_raw :: "bytes \<Rightarrow> nat option" where
  "find_free_dir_slot_in_raw raw = free_slot_from raw 0"

subsection \<open>Writing entries\<close>

text \<open>The write-back of the one sector that holds the changed slot, as three functions of the source end.\<close>

definition flush_dir_sector :: "'d blockdev \<Rightarrow> fat_bpb \<Rightarrow> u32 list \<Rightarrow> bytes \<Rightarrow> nat \<Rightarrow> ('d, vfs_error, unit) op" where
  "flush_dir_sector dev bpb dir_chain raw byte_offset =
     (let bpc = unat (bytes_per_cluster bpb);
          cluster_idx = byte_offset div bpc;
          byte_in_cluster = byte_offset mod bpc in
      if bpc = 0 then scrash (Panic ''attempt to divide by zero'')
      else if cluster_idx \<ge> length dir_chain then scrash Index_out_of_range
      else let sector_in_cluster = byte_in_cluster div 512;
               sector = ucast (cluster_to_sector bpb (dir_chain ! cluster_idx)) + of_nat sector_in_cluster;
               start = cluster_idx * bpc + sector_in_cluster * 512;
               sector_data_len = min 512 (length raw - start)
           in io_write dev sector (overwrite 0 (subslice start sector_data_len raw) (replicate 512 0)))"

definition write_dir_entry_at_offset ::
  "'d blockdev \<Rightarrow> fat_bpb \<Rightarrow> u32 list \<Rightarrow> bytes \<Rightarrow> nat \<Rightarrow> fat_dir_entry \<Rightarrow> bytes \<Rightarrow> ('d, vfs_error, unit) op" where
  "write_dir_entry_at_offset dev bpb dir_chain raw byte_offset entry name_83 =
     (if byte_offset + 32 > length raw then sfail NoSpace
      else flush_dir_sector dev bpb dir_chain (overwrite byte_offset (dir_entry_bytes entry name_83) raw) byte_offset)"

fun zero_sectors :: "'d blockdev \<Rightarrow> u64 \<Rightarrow> nat list \<Rightarrow> ('d, vfs_error, unit) op" where
  "zero_sectors dev sector [] = sreturn ()"
| "zero_sectors dev sector (s # ss) =
     sbind (io_write dev (sector + of_nat s) (replicate 512 0)) (\<lambda>_. zero_sectors dev sector ss)"

definition append_dir_entry ::
  "'d blockdev \<Rightarrow> fat_bpb \<Rightarrow> u32 list \<Rightarrow> fat_dir_entry \<Rightarrow> bytes \<Rightarrow> ('d, vfs_error, unit) op" where
  "append_dir_entry dev bpb dir_chain entry name_83 =
     sbind (read_chain_raw dev bpb dir_chain []) (\<lambda>raw.
     case find_free_dir_slot_in_raw raw of
       Some offset \<Rightarrow> write_dir_entry_at_offset dev bpb dir_chain raw offset entry name_83
     | None \<Rightarrow>
         if dir_chain = [] then sfail IoError
         else let last_cluster = last dir_chain in
           sbind (allocate_cluster dev bpb (last_cluster + 1)) (\<lambda>new_cluster.
           sbind (extend_chain dev bpb last_cluster new_cluster) (\<lambda>_.
           sbind (zero_sectors dev (ucast (cluster_to_sector bpb new_cluster)) [0..<unat (sectors_per_cluster bpb)]) (\<lambda>_.
           let dir_chain = dir_chain @ [new_cluster];
               new_cluster_offset = (length dir_chain - 1) * unat (bytes_per_cluster bpb)
           in write_dir_entry_at_offset dev bpb dir_chain (raw @ replicate 512 0) new_cluster_offset entry name_83))))"

definition update_dir_entry_size ::
  "'d blockdev \<Rightarrow> fat_bpb \<Rightarrow> u32 list \<Rightarrow> rstring \<Rightarrow> u32 \<Rightarrow> ('d, vfs_error, unit) op" where
  "update_dir_entry_size dev bpb dir_chain entry_name new_size =
     sbind (read_chain_raw dev bpb dir_chain []) (\<lambda>raw.
     case scan_name raw entry_name of
       None \<Rightarrow> sfail NotFound
     | Some (offset, _) \<Rightarrow>
         flush_dir_sector dev bpb dir_chain (overwrite (offset + 28) (to_le_bytes new_size) raw) offset)"

definition find_dir_entry ::
  "'d blockdev \<Rightarrow> fat_bpb \<Rightarrow> u32 list \<Rightarrow> rstring \<Rightarrow> ('d, vfs_error, nat \<times> bytes) op" where
  "find_dir_entry dev bpb dir_chain name =
     sbind (read_chain_raw dev bpb dir_chain []) (\<lambda>raw.
     case scan_name raw name of None \<Rightarrow> sfail NotFound | Some (offset, _) \<Rightarrow> sreturn (offset, raw))"

definition delete_dir_entry :: "'d blockdev \<Rightarrow> fat_bpb \<Rightarrow> u32 list \<Rightarrow> rstring \<Rightarrow> ('d, vfs_error, unit) op" where
  "delete_dir_entry dev bpb dir_chain name =
     sbind (find_dir_entry dev bpb dir_chain name) (\<lambda>(offset, raw).
     flush_dir_sector dev bpb dir_chain (raw[offset := 0xE5]) offset)"

definition lookup_dir_entry ::
  "'d blockdev \<Rightarrow> fat_bpb \<Rightarrow> u32 list \<Rightarrow> rstring \<Rightarrow> ('d, vfs_error, fat_dir_entry \<times> nat \<times> bytes) op" where
  "lookup_dir_entry dev bpb dir_chain name =
     sbind (read_chain_raw dev bpb dir_chain []) (\<lambda>raw.
     case scan_name raw name of None \<Rightarrow> sfail NotFound | Some (offset, e) \<Rightarrow> sreturn (e, offset, raw))"

text \<open>The FAT16 root directory's own deletion loop, which passes over long-name slots.\<close>

function root_scan :: "bytes \<Rightarrow> nat \<Rightarrow> (nat \<times> fat_dir_entry) list" where
  "root_scan raw offset =
     (if offset + 32 \<le> length raw then
        let entry_buf = subslice offset 32 raw in
        if entry_buf ! 0 = 0 then []
        else if entry_buf ! 11 = 0x0F then root_scan raw (offset + 32)
        else (case fat_dir_entry_parse entry_buf of
                Some entry \<Rightarrow> (offset, entry) # root_scan raw (offset + 32)
              | None \<Rightarrow> root_scan raw (offset + 32))
      else [])"
  by auto
termination by (relation "measure (\<lambda>(raw, offset). length raw - offset)") auto

declare root_scan.simps [simp del]

subsection \<open>Slots before the first free one\<close>

definition slot_entries :: "bytes \<Rightarrow> nat \<Rightarrow> nat \<Rightarrow> (nat \<times> fat_dir_entry) list" where
  "slot_entries raw i k = concat (map (\<lambda>j. case fat_dir_entry_parse (subslice (i + 32 * j) 32 raw) of
     None \<Rightarrow> [] | Some e \<Rightarrow> [(i + 32 * j, e)]) [0..<k])"

definition plain_slots :: "bytes \<Rightarrow> nat \<Rightarrow> nat \<Rightarrow> bool" where
  "plain_slots raw i k \<longleftrightarrow> i + 32 * k \<le> length raw \<and>
     (\<forall>j < k. raw ! (i + 32 * j) \<noteq> 0 \<and> raw ! (i + 32 * j + 11) \<noteq> 0x0F)"

lemma slot_entries_Suc:
  "slot_entries raw i (Suc k) = (case fat_dir_entry_parse (subslice i 32 raw) of
     None \<Rightarrow> [] | Some e \<Rightarrow> [(i, e)]) @ slot_entries raw (i + 32) k"
proof -
  have "[0..<Suc k] = 0 # map Suc [0..<k]"
    by (simp add: map_Suc_upt upt_conv_Cons)
  then show ?thesis
    by (simp add: slot_entries_def comp_def algebra_simps cong: option.case_cong)
qed

lemma plain_slots_Suc:
  "plain_slots raw i (Suc k) \<longleftrightarrow>
     i + 32 \<le> length raw \<and> raw ! i \<noteq> 0 \<and> raw ! (i + 11) \<noteq> 0x0F \<and> plain_slots raw (i + 32) k"
  unfolding plain_slots_def All_less_Suc2 by (auto simp: algebra_simps)

lemma dir_scan_plain:
  "plain_slots raw i k \<Longrightarrow> dir_scan raw i [] = slot_entries raw i k @ dir_scan raw (i + 32 * k) []"
proof (induction k arbitrary: i)
  case 0
  then show ?case by (simp add: slot_entries_def)
next
  case (Suc k)
  then have p: "i + 32 \<le> length raw" "raw ! i \<noteq> 0" "raw ! (i + 11) \<noteq> 0x0F" "plain_slots raw (i + 32) k"
    by (simp_all add: plain_slots_Suc)
  then have "subslice i 32 raw ! 0 \<noteq> 0" "subslice i 32 raw ! 11 \<noteq> 0x0F"
    by (simp_all add: nth_subslice)
  then have "dir_scan raw i [] = (case fat_dir_entry_parse (subslice i 32 raw) of
      None \<Rightarrow> [] | Some e \<Rightarrow> [(i, e)]) @ dir_scan raw (i + 32) []"
    using p(1) by (subst dir_scan.simps) (simp add: Let_def split: option.split)
  with Suc.IH [OF p(4)] show ?case
    by (simp add: slot_entries_Suc algebra_simps)
qed

lemma slot_entries_cong:
  "(\<And>j. j < k \<Longrightarrow> subslice (i + 32 * j) 32 raw = subslice (i + 32 * j) 32 raw') \<Longrightarrow>
   slot_entries raw i k = slot_entries raw' i k"
  by (auto simp: slot_entries_def intro!: arg_cong [where f = concat])

lemma free_slot_from_Some:
  "free_slot_from raw i = Some off \<Longrightarrow> \<exists>k. off = i + 32 * k \<and> off + 32 \<le> length raw \<and>
     (raw ! off = 0xE5 \<or> raw ! off = 0) \<and> (\<forall>j < k. raw ! (i + 32 * j) \<noteq> 0 \<and> raw ! (i + 32 * j) \<noteq> 0xE5)"
proof (induction raw i rule: free_slot_from.induct)
  case (1 raw i)
  show ?case
  proof (cases "raw ! i = 0xE5 \<or> raw ! i = 0")
    case True
    then show ?thesis
      using 1(2) by (subst (asm) free_slot_from.simps) (auto split: if_splits intro!: exI [of _ 0])
  next
    case False
    then have "i + 32 \<le> length raw" "free_slot_from raw (i + 32) = Some off"
      using 1(2) by (subst (asm) free_slot_from.simps; simp split: if_splits)+
    with 1(1) False obtain k where k: "off = i + 32 + 32 * k" "off + 32 \<le> length raw"
        "raw ! off = 0xE5 \<or> raw ! off = 0" "\<forall>j < k. raw ! (i + 32 + 32 * j) \<noteq> 0 \<and> raw ! (i + 32 + 32 * j) \<noteq> 0xE5"
      by blast
    have "raw ! (i + 32 * j) \<noteq> 0 \<and> raw ! (i + 32 * j) \<noteq> 0xE5" if "j < Suc k" for j
      using that False k(4) by (cases j) (auto simp: algebra_simps)
    then show ?thesis
      using k by (intro exI [of _ "Suc k"]) simp
  qed
qed

text \<open>An entry put into the first free slot is found under its name, if no earlier entry has that name.\<close>

lemma scan_name_new_entry:
  assumes free: "find_free_dir_slot_in_raw raw = Some off"
    and no_lfn: "\<forall>j. 32 * j < off \<longrightarrow> raw ! (32 * j + 11) \<noteq> 0x0F"
    and new: "scan_name raw (de_name e) = None"
    and len: "length slot = 32" and parse: "fat_dir_entry_parse slot = Some e" and lfn: "slot ! 11 \<noteq> 0x0F"
  shows "scan_name (overwrite off slot raw) (de_name e) = Some (off, e)"
proof -
  obtain k where k: "off = 32 * k" "off + 32 \<le> length raw" "\<forall>j < k. raw ! (32 * j) \<noteq> 0"
    using free_slot_from_Some [of raw 0 off] free by (auto simp: find_free_dir_slot_in_raw_def)
  let ?raw = "overwrite off slot raw"
  have l: "length ?raw = length raw"
    using k(2) len by (simp add: length_overwrite)
  have same: "subslice (0 + 32 * j) 32 ?raw = subslice (0 + 32 * j) 32 raw" if "j < k" for j
    using that k(1,2) len by (intro slice_overwrite_disjoint) auto
  have plain: "plain_slots raw 0 k" "plain_slots ?raw 0 k"
    using k no_lfn len l by (auto simp: plain_slots_def nth_overwrite)
  have at: "subslice off 32 ?raw = slot"
    using slice_overwrite_same [of off slot raw] k(2) len by simp
  have "slot ! 0 \<noteq> 0"
    using parse by (auto simp: fat_dir_entry_parse_def split: if_splits)
  then have "dir_scan ?raw off [] = (off, e) # dir_scan ?raw (off + 32) []"
    using k(2) parse lfn by (subst dir_scan.simps) (simp add: l at Let_def)
  then have sc: "dir_scan ?raw 0 [] = slot_entries raw 0 k @ (off, e) # dir_scan ?raw (off + 32) []"
    using dir_scan_plain [OF plain(2)] slot_entries_cong [OF same] k(1) by simp
  have "List.find (\<lambda>(offset, x). de_name x = de_name e) (slot_entries raw 0 k) = None"
    using new dir_scan_plain [OF plain(1)] by (auto simp: scan_name_def find_None_iff)
  then show ?thesis
    unfolding scan_name_def sc by (simp add: find_append_None)
qed

subsection \<open>Directories on a well-behaved device\<close>

lemma lba_content_nth:
  "list_all (\<lambda>l. length (sec (unat l)) = 512) ls \<Longrightarrow> i < 512 * length ls \<Longrightarrow>
   lba_content sec ls ! i = sec (unat (ls ! (i div 512))) ! (i mod 512)"
proof (induction ls arbitrary: i)
  case (Cons l ls)
  show ?case
  proof (cases "i < 512")
    case True
    then show ?thesis using Cons.prems by (simp add: nth_append)
  next
    case False
    then have "i div 512 = Suc ((i - 512) div 512)" "i mod 512 = (i - 512) mod 512"
      by (simp_all add: le_div_geq le_mod_geq)
    with False Cons show ?thesis by (simp add: nth_append)
  qed
qed simp

lemma chain_lbas_nth:
  "i < length chain \<Longrightarrow> s < unat (sectors_per_cluster bpb) \<Longrightarrow>
   chain_lbas bpb chain ! (i * unat (sectors_per_cluster bpb) + s) =
     ucast (cluster_to_sector bpb (chain ! i)) + of_nat s"
proof (induction chain arbitrary: i)
  case (Cons c chain)
  then show ?case
    by (cases i) (simp_all add: chain_lbas_def cluster_lbas_def nth_append)
qed simp

lemma sector_index: "x div (512 * n) * n + x mod (512 * n) div 512 = x div (512 :: nat)"
  by (simp add: div_mult2_eq mod_mult2_eq)

lemma slot_in_sector: "32 * k \<le> i \<Longrightarrow> i < 32 * k + 32 \<Longrightarrow> i div 512 = 32 * k div (512 :: nat)"
proof -
  assume "32 * k \<le> i" "i < 32 * k + 32"
  then have "i div 32 = k" by linarith
  then show ?thesis
    using div_mult2_eq [of i 32 16] div_mult2_eq [of "32 * k" 32 16] by simp
qed

context block_device begin

lemma read_sectors_from_ok:
  assumes "disk_inv d" "lbas_in_range dev d (map (\<lambda>s. start + of_nat s) ss)"
  shows "read_sectors_from dev start ss raw d =
    (Inr (raw @ lba_content (sectors d) (map (\<lambda>s. start + of_nat s) ss)), d)"
  using assms(2)
proof (induction ss arbitrary: raw)
  case Nil
  then show ?case by (simp add: op_simps)
next
  case (Cons s ss)
  then have "io_read dev (start + of_nat s) d = (Inr (sectors d (unat (start + of_nat s))), d)"
    by (intro io_read_ok [OF assms(1)]) (simp_all add: lbas_in_range_def)
  with Cons show ?case
    by (simp add: op_simps lbas_in_range_def)
qed

lemma read_chain_raw_ok:
  assumes "disk_inv d" "lbas_in_range dev d (chain_lbas bpb chain)"
  shows "read_chain_raw dev bpb chain raw d = (Inr (raw @ lba_content (sectors d) (chain_lbas bpb chain)), d)"
  using assms(2)
proof (induction chain arbitrary: raw)
  case Nil
  then show ?case by (simp add: op_simps chain_lbas_def)
next
  case (Cons c chain)
  then have "lbas_in_range dev d (cluster_lbas bpb c)" "lbas_in_range dev d (chain_lbas bpb chain)"
    by (simp_all add: lbas_in_range_def chain_lbas_def)
  with Cons.IH read_sectors_from_ok [OF assms(1), of "ucast (cluster_to_sector bpb c)" "[0..<unat (sectors_per_cluster bpb)]" raw]
  show ?case
    by (simp add: op_simps cluster_lbas_def chain_lbas_def lba_content_def)
qed

text \<open>Flushing the sector of a changed slot makes the directory's contents the changed bytes.\<close>

lemma flush_dir_sector_ok:
  assumes inv: "disk_inv d" and range: "lbas_in_range dev d (chain_lbas bpb chain)" and dist: "distinct (chain_lbas bpb chain)"
    and bpc: "unat (bytes_per_cluster bpb) = 512 * unat (sectors_per_cluster bpb)"
    and len: "length raw = 512 * (length chain * unat (sectors_per_cluster bpb))" and off: "off < length raw"
    and diff: "\<And>i. i < length raw \<Longrightarrow> i div 512 \<noteq> off div 512 \<Longrightarrow> raw ! i = lba_content (sectors d) (chain_lbas bpb chain) ! i"
  shows "\<exists>d'. flush_dir_sector dev bpb chain raw off d = (Inr (), d') \<and> disk_inv d' \<and> same_shape dev d d' \<and>
    lba_content (sectors d') (chain_lbas bpb chain) = raw \<and>
    (\<forall>i < unat (dev_total_sectors dev d). i \<notin> unat ` set (chain_lbas bpb chain) \<longrightarrow> sectors d' i = sectors d i)"
proof -
  let ?n = "unat (sectors_per_cluster bpb)" and ?ls = "chain_lbas bpb chain"
  let ?q = "off div 512" and ?ci = "off div (512 * ?n)" and ?si = "off mod (512 * ?n) div 512"
  have npos: "0 < ?n" using off len by (cases "?n = 0") auto
  have q: "?ci * ?n + ?si = ?q" by (rule sector_index)
  have ci: "?ci < length chain"
    using off len npos by (simp add: div_less_iff_less_mult ac_simps)
  have "off mod (512 * ?n) < 512 * ?n" using npos by simp
  then have si: "?si < ?n" by (simp add: div_less_iff_less_mult mult.commute)
  have lls: "length ?ls = length chain * ?n"
    by (simp add: chain_lbas_def cluster_lbas_def length_concat comp_def sum_list_triv)
  have qlt: "?q < length ?ls"
    using off len by (simp add: lls div_less_iff_less_mult mult.commute)
  let ?l = "?ls ! ?q"
  have l: "?l = ucast (cluster_to_sector bpb (chain ! ?ci)) + of_nat ?si"
    using chain_lbas_nth [OF ci si] q by simp
  have lr: "unat ?l < unat (dev_total_sectors dev d)" and ssz: "dev_sector_size dev d = 512"
    using range qlt by (auto simp: lbas_in_range_def list_all_length)
  have start: "?ci * (512 * ?n) + ?si * 512 = 512 * ?q"
    by (subst q [symmetric]) (simp only: distrib_left ac_simps)
  have fit: "512 * ?q + 512 \<le> length raw"
    using qlt len lls by linarith
  let ?new = "subslice (512 * ?q) 512 raw"
  have newlen: "length ?new = 512"
    using fit by (simp add: length_subslice)
  obtain d' where d': "io_write dev ?l ?new d = (Inr (), d')" "disk_inv d'" "same_shape dev d d'"
      "\<And>i. i < unat (dev_total_sectors dev d) \<Longrightarrow> sectors d' i = (if i = unat ?l then ?new else sectors d i)"
    using io_write_ok [OF inv ssz lr newlen] by blast
  have "flush_dir_sector dev bpb chain raw off d = io_write dev ?l ?new d"
    using ci fit newlen npos unfolding flush_dir_sector_def Let_def bpc l start
    by (simp add: overwrite_whole)
  moreover have "lba_content (sectors d') ?ls = raw"
  proof (rule nth_equalityI)
    have slen: "list_all (\<lambda>l. length (sectors e (unat l)) = 512) ?ls" if "disk_inv e" "same_shape dev d e" for e
      using sector_length [OF that(1)] that(2) range by (auto simp: lbas_in_range_def list_all_iff same_shape_def)
    note s' = slen [OF d'(2,3)] and s = slen [OF inv same_shape_refl]
    show lc: "length (lba_content (sectors d') ?ls) = length raw"
      using lba_content_length [OF d'(2), of ?ls] range d'(3) len lls by (simp add: lbas_in_range_def same_shape_def)
    fix i
    assume "i < length (lba_content (sectors d') ?ls)"
    then have i: "i < length raw" "i < 512 * length ?ls" "i div 512 < length ?ls"
      using lc len lls by (simp_all add: div_less_iff_less_mult mult.commute)
    have ir: "unat (?ls ! (i div 512)) < unat (dev_total_sectors dev d)"
      using range i(3) by (auto simp: lbas_in_range_def list_all_length)
    have same: "unat (?ls ! (i div 512)) = unat ?l \<longleftrightarrow> i div 512 = ?q"
      using dist i(3) qlt by (metis nth_eq_iff_index_eq unsigned_word_eqI)
    show "lba_content (sectors d') ?ls ! i = raw ! i"
    proof (cases "i div 512 = ?q")
      case True
      then have "512 * ?q + i mod 512 = i" by (metis mult_div_mod_eq)
      then show ?thesis
        using lba_content_nth [OF s' i(2)] d'(4) [OF ir] same True fit by (simp add: nth_subslice)
    next
      case False
      then show ?thesis
        using lba_content_nth [OF s' i(2)] lba_content_nth [OF s i(2)] d'(4) [OF ir] same diff [OF i(1)] by simp
    qed
  qed
  moreover have "\<forall>i < unat (dev_total_sectors dev d). i \<notin> unat ` set ?ls \<longrightarrow> sectors d' i = sectors d i"
    using d'(4) qlt by (auto simp: image_iff)
  ultimately show ?thesis using d'(1-3) by auto
qed

end

subsection \<open>Properties\<close>


text \<open>
  Updating the size of a name that the directory does not list is \<open>NotFound\<close> and
  leaves the disk as it was. The flush of a newly created file makes exactly this call and ignores
  its error: creating a file never adds a directory entry.
\<close>

theorem update_size_unlisted:
  assumes "ramdisk_inv d" "lbas_in_range ramdisk_dev d (chain_lbas bpb chain)"
    and "scan_name (lba_content (ramdisk_sectors d) (chain_lbas bpb chain)) name = None"
  shows "update_dir_entry_size ramdisk_dev bpb chain name sz d = (Inl (Err NotFound), d)"
  using rd.read_chain_raw_ok [OF assms(1,2), of "[]"] assms(3)
  by (simp add: update_dir_entry_size_def op_simps)

definition ex_entry :: fat_dir_entry where
  "ex_entry = \<lparr>de_name = ascii ''INIT.elf'', de_attributes = 0x20, de_first_cluster = 5, de_size = 1234, de_is_lfn = False\<rparr>"

lemma ex_dir_raw: "lba_content (ramdisk_sectors ex_disk) (chain_lbas ex_bpb [2]) = replicate 512 0"
  by (simp add: chain_lbas_def cluster_lbas_def cluster_to_sector_def saturating_sub_def ex_bpb_def ex_disk_sectors
      upt_rec)

lemma ex_dir_scan: "dir_scan (replicate 512 0) 0 p = []"
  by (subst dir_scan.simps) (simp add: Let_def subslice_def)


theorem update_size_unlisted_witness:
  "update_dir_entry_size ramdisk_dev ex_bpb [2] (ascii ''new.txt'') 10 ex_disk = (Inl (Err NotFound), ex_disk)"
proof -
  have "list_all (data_cluster ramdisk_dev ex_bpb ex_disk) [2]"
    by (simp add: data_cluster_def data_lba_def ramdisk_dev_def ex_bpb_def ex_disk_def)
  from chain_lbas_ok(2) [OF _ this] show ?thesis
    by (intro update_size_unlisted [OF ex_disk_facts(1)]) (simp_all add: ex_dir_raw scan_name_def ex_dir_scan)
qed

end
