(* ===== verification/Vfs_File.thy ===== *)
theory Vfs_File
  imports Vfs_Types
begin

text \<open>
  Open files as the virtual file system sees them (the trait \<open>File\<close>): a position in a growing byte
  array. The buffer operations are the ones the file handles of both filesystems perform; the locales
  state the contract a handle keeps and hold the lemmas that only need the contract, among them
  that the read loop of \<open>Vfs::read_file\<close> ends and returns the rest of the file.
\<close>

subsection \<open>Buffers\<close>

text \<open>\<open>read\<close> into a buffer of \<open>n\<close> bytes returns the bytes it copied and the new position.\<close>

definition buffer_read :: "bytes \<Rightarrow> nat \<Rightarrow> nat \<Rightarrow> bytes \<times> nat" where
  "buffer_read data pos n =
     (if pos \<ge> length data then ([], pos)
      else let to_read = min n (length data - pos) in (subslice pos to_read data, pos + to_read))"

text \<open>\<open>write\<close> grows the array with zeros up to the end of the written range, which must not wrap.\<close>

definition buffer_resize :: "nat \<Rightarrow> bytes \<Rightarrow> bytes" where
  "buffer_resize n data = take n data @ replicate (n - length data) 0"

definition buffer_write :: "bytes \<Rightarrow> nat \<Rightarrow> bytes \<Rightarrow> bytes or_panic" where
  "buffer_write data pos buf =
     (if pos + length buf \<ge> 2 ^ 64 then Inl Slice_out_of_range
      else let stop = pos + length buf;
               data = (if stop > length data then buffer_resize stop data else data)
           in Inr (overwrite pos buf data))"

text \<open>What a write leaves: the bytes before and after the range, a gap filled with zeros.\<close>

definition file_splice :: "bytes \<Rightarrow> nat \<Rightarrow> bytes \<Rightarrow> bytes" where
  "file_splice data pos buf = take pos data @ replicate (pos - length data) 0 @ buf @ drop (pos + length buf) data"

lemma buffer_read_value: "buffer_read data pos n = (take n (drop pos data), pos + min n (length data - pos))"
  by (auto simp: buffer_read_def subslice_def Let_def min_def)

lemma buffer_write_value:
  "pos + length buf < 2 ^ 64 \<Longrightarrow> buffer_write data pos buf = Inr (file_splice data pos buf)"
  by (auto simp: buffer_write_def file_splice_def overwrite_def buffer_resize_def Let_def min_def)

lemma length_file_splice [simp]: "length (file_splice data pos buf) = max (length data) (pos + length buf)"
  by (auto simp: file_splice_def max_def)

lemma file_splice_read: "take (length buf) (drop pos (file_splice data pos buf)) = buf"
  by (auto simp: file_splice_def)

lemma file_splice_nth:
  assumes "i < length (file_splice data pos buf)"
  shows "file_splice data pos buf ! i =
    (if pos \<le> i \<and> i < pos + length buf then buf ! (i - pos) else if i < length data then data ! i else 0)"
proof -
  have A: "take pos data @ replicate (pos - length data) 0 = map (\<lambda>j. if j < length data then data ! j else 0) [0..<pos]"
    by (rule nth_equalityI) (auto simp: nth_append)
  show ?thesis
    using assms unfolding file_splice_def append_assoc [symmetric]
    by (auto simp: A nth_append)
qed

subsection \<open>The loop of \<open>read_file\<close>\<close>

text \<open>
  \<open>None\<close> is a loop that never ends; the state is whatever \<open>read\<close> changes.
\<close>

partial_function (option) read_loop ::
  "(nat \<Rightarrow> ('s, vfs_error, bytes) op) \<Rightarrow> 's \<Rightarrow> bytes \<Rightarrow> ((vfs_error, bytes) outcome \<times> 's) option" where
  "read_loop fread s buf =
     (case fread 512 s of
        (Inl e, s') \<Rightarrow> Some (Inl e, s')
      | (Inr bs, s') \<Rightarrow> if bs = [] then Some (Inr buf, s') else read_loop fread s' (buf @ bs))"

lemmas [code] = read_loop.simps

subsection \<open>The contract of a file handle\<close>

locale readable_file =
  fixes ok :: "'s \<Rightarrow> bool"
    and contents :: "'s \<Rightarrow> bytes"
    and position :: "'s \<Rightarrow> nat"
    and fread :: "nat \<Rightarrow> ('s, vfs_error, bytes) op"
  assumes read_law: "ok s \<Longrightarrow> \<exists>s'. fread n s = (Inr (take n (drop (position s) (contents s))), s') \<and> ok s'
      \<and> contents s' = contents s \<and> position s' = position s + min n (length (contents s) - position s)"
begin

lemma read_loop_rest:
  "ok s \<Longrightarrow> \<exists>s'. read_loop fread s buf = Some (Inr (buf @ drop (position s) (contents s)), s')
     \<and> ok s' \<and> contents s' = contents s"
proof (induction "length (contents s) - position s" arbitrary: s buf rule: less_induct)
  case less
  obtain t where t: "fread 512 s = (Inr (take 512 (drop (position s) (contents s))), t)" "ok t"
    "contents t = contents s" "position t = position s + min 512 (length (contents s) - position s)"
    using read_law [OF less.prems] by metis
  show ?case
  proof (cases "position s < length (contents s)")
    case False
    then show ?thesis
      using t by (auto simp: read_loop.simps [of fread s])
  next
    case True
    have dec: "length (contents t) - position t < length (contents s) - position s"
      using True by (simp add: t(3,4))
    obtain u where u: "read_loop fread t (buf @ take 512 (drop (position s) (contents s)))
        = Some (Inr ((buf @ take 512 (drop (position s) (contents s))) @ drop (position t) (contents t)), u)"
      "ok u" "contents u = contents t"
      using less.hyps [OF dec t(2)] by blast
    have "drop (position t) (contents t) = drop 512 (drop (position s) (contents s))"
      by (simp add: t(3,4) min_def add.commute)
    then have "take 512 (drop (position s) (contents s)) @ drop (position t) (contents t) = drop (position s) (contents s)"
      by (simp only: append_take_drop_id)
    then show ?thesis
      using True u by (auto simp: read_loop.simps [of fread s] t(1,3))
  qed
qed

end

locale seekable_file = readable_file +
  fixes fwrite :: "bytes \<Rightarrow> ('a, vfs_error, nat) op"
    and fseek :: "u64 \<Rightarrow> 'a \<Rightarrow> 'a"
  assumes write_law: "ok s \<Longrightarrow> buf \<noteq> [] \<Longrightarrow> position s + length buf < 2 ^ 64 \<Longrightarrow>
      \<exists>s'. fwrite buf s = (Inr (length buf), s') \<and> ok s'
      \<and> contents s' = file_splice (contents s) (position s) buf \<and> position s' = position s + length buf"
    and seek_law: "ok s \<Longrightarrow> ok (fseek p s) \<and> contents (fseek p s) = contents s \<and> position (fseek p s) = unat p"
begin

lemma write_seek_read:
  assumes "ok s" "buf \<noteq> []" "position s + length buf < 2 ^ 64" "fwrite buf s = (r, s')" "unat p = position s"
  shows "r = Inr (length buf) \<and> fst (fread (length buf) (fseek p s')) = Inr buf"
proof -
  obtain t where t: "fwrite buf s = (Inr (length buf), t)" "ok t"
    "contents t = file_splice (contents s) (position s) buf"
    using write_law [OF assms(1-3)] by metis
  have s': "s' = t" "r = Inr (length buf)" using t(1) assms(4) by simp_all
  obtain u where u: "fread (length buf) (fseek p t)
      = (Inr (take (length buf) (drop (position (fseek p t)) (contents (fseek p t)))), u)"
    using read_law seek_law t(2) by metis
  show ?thesis
    using u seek_law [OF t(2)] by (simp add: s' t(3) assms(5) file_splice_read)
qed

end

end
