(* ===== verification/Fat_Fs.thy ===== *)
theory Fat_Fs
  imports Fat_Dir Vfs_File
begin

text \<open>
  The FAT filesystem as the virtual file system sees it: mounting, directory and file inodes, file
  handles that buffer a whole file in memory, and the flush of a dirty handle. Devices are looked
  up in the registry by their id, so the state is the registry.
\<close>

subsection \<open>Inodes and handles\<close>

record fat_inner =
  fi_device_id :: nat
  fi_bpb :: fat_bpb

datatype dir_location = Fat16Root | ClusterChain u32

datatype fat_inode =
    FatDirInode fat_inner dir_location
  | FatFileInode fat_inner u32 u32

record fat_file_handle =
  fh_inner :: fat_inner
  fh_data :: bytes
  fh_pos :: nat
  fh_first_cluster :: u32
  fh_disk_size :: u32
  fh_dir_chain :: "u32 list option"
  fh_dir_entry_name :: rstring
  fh_dirty :: bool
  fh_is_new :: bool

record fat_dir_handle =
  dh_data :: bytes
  dh_pos :: nat

datatype fat_file = FatFileHandle fat_file_handle | FatDirHandle fat_dir_handle

definition with_device :: "nat \<Rightarrow> ('d, vfs_error, 'a) op \<Rightarrow> ('d registry, vfs_error, 'a) op" where
  "with_device device_id m reg =
     (case registry_get device_id reg of
        None \<Rightarrow> (Inl (Err IoError), reg)
      | Some d \<Rightarrow> (case m d of (r, d') \<Rightarrow> (r, reg[device_id := Some d'])))"

subsection \<open>Directory inodes\<close>

definition dir_read_entries :: "'d blockdev \<Rightarrow> fat_bpb \<Rightarrow> dir_location \<Rightarrow> ('d, vfs_error, fat_dir_entry list) op" where
  "dir_read_entries dev bpb location = (case location of
     Fat16Root \<Rightarrow>
       sbind (read_sectors dev (ucast (base_sector bpb) + ucast (root_dir_start_sector bpb)) (ucast (root_dir_sectors bpb)))
         (\<lambda>raw. sreturn (parse_dir_entries raw))
   | ClusterChain cluster \<Rightarrow>
       sbind (read_cluster_chain dev bpb cluster) (read_dir_entries_from_chain dev bpb))"

definition dir_get_chain :: "'d blockdev \<Rightarrow> fat_bpb \<Rightarrow> dir_location \<Rightarrow> ('d, vfs_error, u32 list) op" where
  "dir_get_chain dev bpb location = (case location of
     Fat16Root \<Rightarrow> sreturn []
   | ClusterChain cluster \<Rightarrow> read_cluster_chain dev bpb cluster)"

definition fat_dir_lookup :: "'d blockdev \<Rightarrow> fat_inner \<Rightarrow> dir_location \<Rightarrow> rstring \<Rightarrow> ('d registry, vfs_error, fat_inode) op" where
  "fat_dir_lookup dev inner location name =
     with_device (fi_device_id inner) (sbind (dir_read_entries dev (fi_bpb inner) location) (\<lambda>entries.
       case List.find (\<lambda>e. de_name e = name) entries of
         None \<Rightarrow> sfail NotFound
       | Some e \<Rightarrow>
           if de_attributes e AND 0x10 \<noteq> 0 then sreturn (FatDirInode inner (ClusterChain (de_first_cluster e)))
           else sreturn (FatFileInode inner (de_first_cluster e) (de_size e))))"

definition fat_dir_open :: "'d blockdev \<Rightarrow> fat_inner \<Rightarrow> dir_location \<Rightarrow> ('d registry, vfs_error, fat_file) op" where
  "fat_dir_open dev inner location =
     with_device (fi_device_id inner) (sbind (dir_read_entries dev (fi_bpb inner) location) (\<lambda>entries.
       sreturn (FatDirHandle \<lparr>dh_data = concat (map (\<lambda>e. de_name e @ [0]) entries), dh_pos = 0\<rparr>)))"

definition fat_dir_readdir :: "'d blockdev \<Rightarrow> fat_inner \<Rightarrow> dir_location \<Rightarrow> ('d registry, vfs_error, rstring list) op" where
  "fat_dir_readdir dev inner location =
     with_device (fi_device_id inner) (sbind (dir_read_entries dev (fi_bpb inner) location) (\<lambda>entries.
       sreturn (map de_name entries)))"

definition create_child_file :: "'d blockdev \<Rightarrow> fat_inner \<Rightarrow> dir_location \<Rightarrow> rstring \<Rightarrow> ('d registry, vfs_error, fat_file) op" where
  "create_child_file dev inner location name =
     (let bpb = fi_bpb inner in
      with_device (fi_device_id inner) (sbind (dir_read_entries dev bpb location) (\<lambda>entries.
        case List.find (\<lambda>e. de_name e = name \<and> \<not> de_is_dir e) entries of
          Some e \<Rightarrow>
            sbind (read_cluster_chain dev bpb (de_first_cluster e)) (\<lambda>chain.
            sbind (read_file_data dev bpb chain (replicate (unat (de_size e)) 0)) (\<lambda>(_, data).
            sbind (dir_get_chain dev bpb location) (\<lambda>dir_chain.
            sreturn (FatFileHandle \<lparr>fh_inner = inner, fh_data = data, fh_pos = 0,
              fh_first_cluster = de_first_cluster e, fh_disk_size = de_size e, fh_dir_chain = Some dir_chain,
              fh_dir_entry_name = name, fh_dirty = False, fh_is_new = False\<rparr>))))
        | None \<Rightarrow>
            sbind (dir_get_chain dev bpb location) (\<lambda>dir_chain.
            sreturn (FatFileHandle \<lparr>fh_inner = inner, fh_data = [], fh_pos = 0, fh_first_cluster = 0,
              fh_disk_size = 0, fh_dir_chain = Some dir_chain, fh_dir_entry_name = name, fh_dirty = False,
              fh_is_new = True\<rparr>)))))"

text \<open>The cluster of a new directory: the \<open>.\<close> and \<open>..\<close> entries in a zeroed cluster.\<close>

definition new_dir_data :: "nat \<Rightarrow> u32 \<Rightarrow> u32 \<Rightarrow> bytes \<Rightarrow> bytes \<Rightarrow> bytes" where
  "new_dir_data bpc new_cluster parent_cluster dot_name dotdot_name =
     (let dir_data = replicate bpc 0;
          dir_data = overwrite 0 dot_name dir_data;
          dir_data = dir_data[11 := 0x10];
          dir_data = overwrite 20 (to_le_bytes (ucast (drop_bit 16 new_cluster AND 0xFF) :: u16)) dir_data;
          dir_data = overwrite 26 (to_le_bytes (ucast (new_cluster AND 0xFFFF) :: u16)) dir_data;
          dir_data = overwrite 32 dotdot_name dir_data;
          dir_data = dir_data[43 := 0x10];
          dir_data = overwrite 52 (to_le_bytes (ucast (drop_bit 16 parent_cluster AND 0xFF) :: u16)) dir_data
      in overwrite 58 (to_le_bytes (ucast (parent_cluster AND 0xFFFF) :: u16)) dir_data)"

definition create_child_dir :: "'d blockdev \<Rightarrow> fat_inner \<Rightarrow> dir_location \<Rightarrow> rstring \<Rightarrow> ('d registry, vfs_error, unit) op" where
  "create_child_dir dev inner location name =
     (let bpb = fi_bpb inner; bpc = unat (bytes_per_cluster bpb) in
      with_device (fi_device_id inner) (sbind (dir_read_entries dev bpb location) (\<lambda>entries.
        if list_ex (\<lambda>e. de_name e = name) entries then sfail AlreadyExists
        else sbind (slift (map_err Err (name_to_83 name))) (\<lambda>name_83.
        sbind (allocate_cluster dev bpb 2) (\<lambda>new_cluster.
        sbind (slift (map_err Err (name_to_83 (ascii ''.'')))) (\<lambda>dot_name.
        if bpc < 28 then scrash Slice_out_of_range
        else sbind (slift (map_err Err (name_to_83 (ascii ''..'')))) (\<lambda>dotdot_name.
        if bpc < 60 then scrash Slice_out_of_range
        else
          let parent_cluster = (case location of Fat16Root \<Rightarrow> 0 | ClusterChain c \<Rightarrow> c);
              dir_data = new_dir_data bpc new_cluster parent_cluster dot_name dotdot_name;
              sector = ucast (cluster_to_sector bpb new_cluster) in
          sbind (io_write dev sector (overwrite 0 (take 512 dir_data) (replicate 512 0))) (\<lambda>_.
          sbind (if bpc > 512
                 then io_write dev (sector + 1) (overwrite 0 (subslice 512 (min 512 (bpc - 512)) dir_data) (replicate 512 0))
                 else sreturn ()) (\<lambda>_.
          sbind (dir_get_chain dev bpb location) (\<lambda>dir_chain.
          append_dir_entry dev bpb dir_chain
            \<lparr>de_name = name, de_attributes = 0x10, de_first_cluster = new_cluster, de_size = 0, de_is_lfn = False\<rparr>
            name_83))))))))))"

definition delete_child_file :: "'d blockdev \<Rightarrow> fat_inner \<Rightarrow> dir_location \<Rightarrow> rstring \<Rightarrow> ('d registry, vfs_error, unit) op" where
  "delete_child_file dev inner location name =
     (let bpb = fi_bpb inner;
          root_start = ucast (base_sector bpb) + ucast (root_dir_start_sector bpb);
          root_count = ucast (root_dir_sectors bpb) in
      with_device (fi_device_id inner) (sbind (dir_get_chain dev bpb location) (\<lambda>dir_chain.
        if dir_chain = [] then
          sbind (read_sectors dev root_start root_count) (\<lambda>raw.
          case List.find (\<lambda>(offset, e). de_name e = name) (root_scan raw 0) of
            None \<Rightarrow> sfail NotFound
          | Some (offset, _) \<Rightarrow> write_sectors dev root_start root_count (raw[offset := 0xE5]))
        else
          sbind (lookup_dir_entry dev bpb dir_chain name) (\<lambda>(e, _, _).
          sbind (if de_first_cluster e \<ge> 2 then free_cluster_chain dev bpb (de_first_cluster e) else sreturn ()) (\<lambda>_.
          delete_dir_entry dev bpb dir_chain name)))))"

subsection \<open>File inodes and handles\<close>

definition fat_file_open :: "'d blockdev \<Rightarrow> fat_inner \<Rightarrow> u32 \<Rightarrow> u32 \<Rightarrow> ('d registry, vfs_error, fat_file) op" where
  "fat_file_open dev inner first_cluster fsize =
     with_device (fi_device_id inner)
       (sbind (read_cluster_chain dev (fi_bpb inner) first_cluster) (\<lambda>chain.
        sbind (read_file_data dev (fi_bpb inner) chain (replicate (unat fsize) 0)) (\<lambda>(_, data).
        sreturn (FatFileHandle \<lparr>fh_inner = inner, fh_data = data, fh_pos = 0, fh_first_cluster = first_cluster,
          fh_disk_size = fsize, fh_dir_chain = None, fh_dir_entry_name = [], fh_dirty = False, fh_is_new = False\<rparr>))))"

fun fat_inode_lookup :: "'d blockdev \<Rightarrow> fat_inode \<Rightarrow> rstring \<Rightarrow> ('d registry, vfs_error, fat_inode) op" where
  "fat_inode_lookup dev (FatDirInode inner location) name = fat_dir_lookup dev inner location name"
| "fat_inode_lookup dev (FatFileInode inner c sz) name = sfail NotDirectory"

fun fat_inode_open :: "'d blockdev \<Rightarrow> fat_inode \<Rightarrow> ('d registry, vfs_error, fat_file) op" where
  "fat_inode_open dev (FatDirInode inner location) = fat_dir_open dev inner location"
| "fat_inode_open dev (FatFileInode inner c sz) = fat_file_open dev inner c sz"

definition fat_handle_read :: "nat \<Rightarrow> (fat_file_handle, vfs_error, bytes) op" where
  "fat_handle_read n h = (case buffer_read (fh_data h) (fh_pos h) n of (bs, pos) \<Rightarrow> (Inr bs, h\<lparr>fh_pos := pos\<rparr>))"

definition fat_handle_write :: "bytes \<Rightarrow> (fat_file_handle, vfs_error, nat) op" where
  "fat_handle_write buf h =
     (if buf = [] then (Inr 0, h)
      else case buffer_write (fh_data h) (fh_pos h) buf of
        Inl p \<Rightarrow> (Inl (Crash p), h)
      | Inr data \<Rightarrow> (Inr (length buf), h\<lparr>fh_data := data, fh_pos := fh_pos h + length buf, fh_dirty := True\<rparr>))"

definition fat_handle_seek :: "u64 \<Rightarrow> fat_file_handle \<Rightarrow> fat_file_handle" where
  "fat_handle_seek offset h = h\<lparr>fh_pos := unat offset\<rparr>"

definition fat_dir_handle_read :: "nat \<Rightarrow> (fat_dir_handle, vfs_error, bytes) op" where
  "fat_dir_handle_read n h = (case buffer_read (dh_data h) (dh_pos h) n of (bs, pos) \<Rightarrow> (Inr bs, h\<lparr>dh_pos := pos\<rparr>))"

definition fat_dir_handle_write :: "bytes \<Rightarrow> (fat_dir_handle, vfs_error, nat) op" where
  "fat_dir_handle_write buf = sfail PermissionDenied"

definition fat_dir_handle_seek :: "u64 \<Rightarrow> fat_dir_handle \<Rightarrow> fat_dir_handle" where
  "fat_dir_handle_seek offset h = h\<lparr>dh_pos := unat offset\<rparr>"

subsection \<open>Flushing a handle\<close>

text \<open>
  The allocation loop of \<open>close\<close>. The result is the chain when the loop ends (by its condition or by
  \<open>break\<close>), or \<open>None\<close> when \<open>close\<close> returns because allocation failed.
\<close>

function close_extend :: "'d blockdev \<Rightarrow> fat_bpb \<Rightarrow> nat \<Rightarrow> u32 list \<Rightarrow> u32 \<Rightarrow> ('d, vfs_error, u32 list option) op" where
  "close_extend dev bpb clusters_needed chain last_cluster =
     (if length chain < clusters_needed then
        let hint = (if last_cluster \<ge> 2 then last_cluster + 1 else 2) in
        sbind (stry (allocate_cluster dev bpb hint)) (\<lambda>r. case r of
          Inl _ \<Rightarrow> sreturn None
        | Inr new_cl \<Rightarrow>
            if last_cluster \<ge> 2 then
              sbind (stry (extend_chain dev bpb last_cluster new_cl)) (\<lambda>r2. case r2 of
                Inl _ \<Rightarrow> sreturn (Some chain)
              | Inr _ \<Rightarrow> close_extend dev bpb clusters_needed (chain @ [new_cl]) new_cl)
            else
              sbind (stry (write_fat_entry dev bpb new_cl (fat_eoc bpb))) (\<lambda>_.
              close_extend dev bpb clusters_needed (chain @ [new_cl]) new_cl))
      else sreturn (Some chain))"
  by auto
termination by (relation "measure (\<lambda>(dev, bpb, n, chain, l). n - length chain)") auto

declare close_extend.simps [simp del]

definition close_flush :: "'d blockdev \<Rightarrow> fat_file_handle \<Rightarrow> u32 list \<Rightarrow> ('d, vfs_error, fat_file_handle) op" where
  "close_flush dev h dir_chain =
     (let bpb = fi_bpb (fh_inner h);
          new_size = of_nat (length (fh_data h)) :: u32;
          finish = (\<lambda>h.
            sbind (if dir_chain \<noteq> []
                   then sbind (stry (update_dir_entry_size dev bpb dir_chain (fh_dir_entry_name h) new_size)) (\<lambda>_. sreturn ())
                   else sreturn ()) (\<lambda>_.
            sreturn (h\<lparr>fh_dirty := False, fh_disk_size := new_size\<rparr>)))
      in
      if new_size > 0 then
        let bpc = unat (bytes_per_cluster bpb);
            clusters_needed = unat (of_nat ((unat new_size + bpc - 1) div bpc) :: u32) in
        if bpc = 0 then scrash (Panic ''attempt to divide by zero'')
        else sbind (if fh_first_cluster h \<noteq> 0
               then sbind (stry (read_cluster_chain dev bpb (fh_first_cluster h))) (\<lambda>r.
                      sreturn (case r of Inl _ \<Rightarrow> [] | Inr chain \<Rightarrow> chain))
               else sreturn []) (\<lambda>chain.
        sbind (close_extend dev bpb clusters_needed chain (fh_first_cluster h)) (\<lambda>r. case r of
          None \<Rightarrow> sreturn h
        | Some chain \<Rightarrow>
            let h = (if fh_first_cluster h = 0 \<and> chain \<noteq> [] then h\<lparr>fh_first_cluster := chain ! 0\<rparr> else h) in
            sbind (stry (write_file_data dev bpb chain 0 (fh_data h))) (\<lambda>w. case w of
              Inl _ \<Rightarrow> sreturn h
            | Inr _ \<Rightarrow> finish h)))
      else if fh_first_cluster h \<ge> 2 then
        sbind (stry (free_cluster_chain dev bpb (fh_first_cluster h))) (\<lambda>r.
          finish (case r of Inl _ \<Rightarrow> h | Inr _ \<Rightarrow> h\<lparr>fh_first_cluster := 0\<rparr>))
      else finish h)"

definition fat_handle_close :: "'d blockdev \<Rightarrow> fat_file_handle \<Rightarrow> ('d registry, vfs_error, fat_file_handle) op" where
  "fat_handle_close dev h reg =
     (if \<not> fh_dirty h then (Inr h, reg)
      else case registry_get (fi_device_id (fh_inner h)) reg of
        None \<Rightarrow> (Inr h, reg)
      | Some _ \<Rightarrow> (case fh_dir_chain h of
          None \<Rightarrow> (Inr h, reg)
        | Some dir_chain \<Rightarrow> with_device (fi_device_id (fh_inner h)) (close_flush dev h dir_chain) reg))"

subsection \<open>Mounting\<close>

definition fat_partition_types :: "u8 list" where
  "fat_partition_types = [0x04, 0x06, 0x0E, 0x0B, 0x0C]"

definition mbr_partition :: "bytes \<Rightarrow> u32 option" where
  "mbr_partition boot =
     map_option (\<lambda>part_idx. le32_at boot (446 + part_idx * 16 + 8))
       (List.find (\<lambda>part_idx. boot ! (446 + part_idx * 16 + 4) \<in> set fat_partition_types) [0..<4])"

definition fat_fs_new :: "'d blockdev \<Rightarrow> nat \<Rightarrow> ('d registry, vfs_error, fat_inner) op" where
  "fat_fs_new dev device_id =
     with_device device_id
       (sbind (io_read dev 0) (\<lambda>boot.
        if boot ! 510 \<noteq> 0x55 \<or> boot ! 511 \<noteq> 0xAA then sfail IoError
        else sbind (case mbr_partition boot of
            Some part_lba \<Rightarrow>
              sbind (io_read dev (ucast part_lba)) (\<lambda>boot.
                if boot ! 510 \<noteq> 0x55 \<or> boot ! 511 \<noteq> 0xAA then sfail IoError else sreturn (boot, part_lba))
          | None \<Rightarrow>
              if boot ! 0 \<noteq> 0xEB \<and> boot ! 0 \<noteq> 0xE9 then sfail IoError else sreturn (boot, 0))
          (\<lambda>(boot, base). sbind (slift (map_err Err (fat_bpb_parse boot base))) (\<lambda>bpb.
            sreturn \<lparr>fi_device_id = device_id, fi_bpb = bpb\<rparr>))))"

definition fat_fs_root :: "fat_inner \<Rightarrow> fat_inode" where
  "fat_fs_root inner = FatDirInode inner (case bpb_variant (fi_bpb inner) of
     Fat16 \<Rightarrow> Fat16Root | Fat32 \<Rightarrow> ClusterChain (root_cluster (fi_bpb inner)))"

definition fat_fs_create_file :: "'d blockdev \<Rightarrow> fat_inner \<Rightarrow> rstring \<Rightarrow> ('d registry, vfs_error, fat_file) op" where
  "fat_fs_create_file dev inner name = (case fat_fs_root inner of
     FatDirInode i location \<Rightarrow> create_child_file dev i location name | FatFileInode _ _ _ \<Rightarrow> sfail NotDirectory)"

definition fat_fs_create_dir :: "'d blockdev \<Rightarrow> fat_inner \<Rightarrow> rstring \<Rightarrow> ('d registry, vfs_error, unit) op" where
  "fat_fs_create_dir dev inner name = (case fat_fs_root inner of
     FatDirInode i location \<Rightarrow> create_child_dir dev i location name | FatFileInode _ _ _ \<Rightarrow> sfail NotDirectory)"

subsection \<open>File handles keep the contract of an open file\<close>

interpretation fatfile: seekable_file "\<lambda>_. True" fh_data fh_pos fat_handle_read fat_handle_write fat_handle_seek
  by unfold_locales
    (auto simp: fat_handle_read_def fat_handle_write_def fat_handle_seek_def buffer_read_value buffer_write_value)

subsection \<open>Directories cannot be created\<close>

lemma name_to_83_dot: "name_to_83 (ascii ''.'') = Inl BadPath"
  by code_simp

text \<open>
  C30. Creating a directory on a FAT volume never succeeds, whatever the device, the
  directory and the name: the encoding of the name \<open>.\<close> for the new directory's first entry is rejected.
\<close>

theorem create_child_dir_never_succeeds: "\<exists>f. fst (create_child_dir dev inner location name reg) = Inl f"
  by (auto simp: create_child_dir_def with_device_def sbind_def slift_def sfail_def name_to_83_dot Let_def
      split: option.splits prod.splits sum.splits)

text \<open>The cluster allocated for it stays allocated.\<close>

lemma create_child_dir_leaks:
  assumes "registry_get (fi_device_id inner) reg = Some d"
    and "dir_read_entries dev (fi_bpb inner) location d = (Inr entries, d1)"
    and "\<not> list_ex (\<lambda>e. de_name e = name) entries"
    and "name_to_83 name = Inr name_83"
    and "allocate_cluster dev (fi_bpb inner) 2 d1 = (Inr c, d2)"
  shows "create_child_dir dev inner location name reg = (Inl (Err BadPath), reg[fi_device_id inner := Some d2])"
  using assms by (simp add: create_child_dir_def with_device_def Let_def op_simps name_to_83_dot)

subsection \<open>Writes through a handle that was opened by path are lost\<close>

text \<open>
  C31. A file opened through its inode (as every path lookup does) has no parent directory
  in its handle: whatever is written through it, closing it reports no error, leaves every device
  unchanged and leaves the handle dirty.
\<close>

theorem opened_file_writes_lost:
  assumes "fat_file_open dev inner first_cluster fsize reg = (Inr (FatFileHandle h), reg1)"
    and "fat_handle_write buf h = (Inr n, h')" "buf \<noteq> []"
  shows "fat_handle_close dev h' reg1 = (Inr h', reg1) \<and> fh_dirty h'"
proof -
  have "fh_dir_chain h = None"
    using assms(1) by (auto simp: fat_file_open_def with_device_def sbind_def sreturn_def
        split: option.splits prod.splits sum.splits)
  moreover have "fh_dir_chain h' = fh_dir_chain h" "fh_dirty h'"
    using assms(2,3) by (auto simp: fat_handle_write_def split: sum.splits if_splits)
  ultimately show ?thesis
    by (simp add: fat_handle_close_def split: option.splits)
qed

definition ex_handle :: fat_file_handle where
  "ex_handle = \<lparr>fh_inner = \<lparr>fi_device_id = 0, fi_bpb = ex_bpb\<rparr>, fh_data = [], fh_pos = 0,
     fh_first_cluster = 0, fh_disk_size = 0, fh_dir_chain = None, fh_dir_entry_name = [], fh_dirty = False,
     fh_is_new = False\<rparr>"

lemma ex_file_open:
  "fat_file_open ramdisk_dev \<lparr>fi_device_id = 0, fi_bpb = ex_bpb\<rparr> 0 0 [Some ex_disk] =
    (Inr (FatFileHandle ex_handle), [Some ex_disk])"
  by (simp add: fat_file_open_def with_device_def registry_get_def MAX_DEVICES_def read_cluster_chain_def
      follow_chain.simps read_file_data_def op_simps ex_handle_def)

theorem opened_file_writes_lost_witness:
  "let h' = ex_handle\<lparr>fh_data := [1, 2, 3], fh_pos := 3, fh_dirty := True\<rparr> in
   fat_handle_write [1, 2, 3] ex_handle = (Inr 3, h') \<and>
   fat_handle_close ramdisk_dev h' [Some ex_disk] = (Inr h', [Some ex_disk])"
proof -
  have w: "fat_handle_write [1, 2, 3] ex_handle =
      (Inr 3, ex_handle\<lparr>fh_data := [1, 2, 3], fh_pos := 3, fh_dirty := True\<rparr>)"
    by (simp add: fat_handle_write_def buffer_write_value file_splice_def ex_handle_def)
  show ?thesis
    using w opened_file_writes_lost [OF ex_file_open w] by (simp add: Let_def)
qed

end
