(* ===== verification/Ramfs.thy ===== *)
theory Ramfs
  imports Vfs_File "HOL-Library.List_Lexorder"
begin

text \<open>
  The in-memory root filesystem (\<^verbatim>\<open>indo-kernel/src/vfs/ramfs.rs\<close>). Files and directories are
  reference-counted cells that inodes and open handles share, so the model has an explicit store:
  file contents and directories by address. A directory is an ordered map from names to nodes.
\<close>

subsection \<open>Ordered maps\<close>

text \<open>\<open>BTreeMap\<close> as its entries in key order.\<close>

type_synonym ('k, 'v) btree_map = "('k \<times> 'v) list"

fun btree_insert :: "'k::linorder \<Rightarrow> 'v \<Rightarrow> ('k, 'v) btree_map \<Rightarrow> ('k, 'v) btree_map" where
  "btree_insert k v [] = [(k, v)]"
| "btree_insert k v ((k', v') # m) =
     (if k < k' then (k, v) # (k', v') # m
      else if k = k' then (k, v) # m
      else (k', v') # btree_insert k v m)"

definition btree_remove :: "'k \<Rightarrow> ('k, 'v) btree_map \<Rightarrow> ('k, 'v) btree_map" where
  "btree_remove k m = filter (\<lambda>(k', v). k' \<noteq> k) m"

definition btree_ordered :: "('k::linorder, 'v) btree_map \<Rightarrow> bool" where
  "btree_ordered m = sorted_wrt (<) (map fst m)"

lemma btree_get_insert [simp]: "map_of (btree_insert k v m) = (map_of m)(k \<mapsto> v)"
  by (induction k v m rule: btree_insert.induct) auto

lemma btree_get_remove [simp]: "map_of (btree_remove k m) = (map_of m)(k := None)"
  by (induction m) (auto simp: btree_remove_def fun_eq_iff)

lemma btree_keys_insert [simp]: "fst ` set (btree_insert k v m) = insert k (fst ` set m)"
  by (induction k v m rule: btree_insert.induct) auto

lemma btree_values_insert: "x \<in> snd ` set (btree_insert k v m) \<Longrightarrow> x = v \<or> x \<in> snd ` set m"
  by (induction k v m rule: btree_insert.induct) (auto split: if_splits)

lemma btree_ordered_insert [simp]: "btree_ordered m \<Longrightarrow> btree_ordered (btree_insert k v m)"
proof (induction k v m rule: btree_insert.induct)
  case (2 k v k' v' m)
  have keys: "x = k \<or> x \<in> fst ` set m" if "x \<in> fst ` set (btree_insert k v m)" for x
    using that by auto
  show ?case
    using 2 keys by (fastforce simp: btree_ordered_def)
qed (simp add: btree_ordered_def)

lemma btree_ordered_remove [simp]: "btree_ordered m \<Longrightarrow> btree_ordered (btree_remove k m)"
  by (induction m) (auto simp: btree_ordered_def btree_remove_def)

subsection \<open>Nodes, inodes and handles\<close>

datatype ram_node = RamFile nat | RamDir nat

record ram_store =
  ram_files :: "bytes list"
  ram_dirs :: "(rstring, ram_node) btree_map list"

record ram_file_handle =
  rfh_data :: nat
  rfh_pos :: nat

record ram_dir_handle =
  rdh_entries :: "rstring list"
  rdh_pos :: nat

definition list_entries :: "(rstring, ram_node) btree_map \<Rightarrow> rstring list" where
  "list_entries entries = map fst entries"

definition ramfs_new :: "ram_store \<Rightarrow> nat \<times> ram_store" where
  "ramfs_new st = (length (ram_dirs st), st\<lparr>ram_dirs := ram_dirs st @ [[]]\<rparr>)"

subsection \<open>Directory inodes\<close>

definition ram_lookup :: "nat \<Rightarrow> rstring \<Rightarrow> (ram_store, vfs_error, ram_node) op" where
  "ram_lookup dir name st = (case map_of (ram_dirs st ! dir) name of
     Some node \<Rightarrow> (Inr node, st) | None \<Rightarrow> (Inl (Err NotFound), st))"

definition ram_open_dir :: "nat \<Rightarrow> ram_store \<Rightarrow> ram_dir_handle" where
  "ram_open_dir dir st = \<lparr>rdh_entries = list_entries (ram_dirs st ! dir), rdh_pos = 0\<rparr>"

definition ram_readdir :: "nat \<Rightarrow> ram_store \<Rightarrow> rstring list" where
  "ram_readdir dir st = list_entries (ram_dirs st ! dir)"

definition ram_create_child_file :: "nat \<Rightarrow> rstring \<Rightarrow> (ram_store, vfs_error, ram_file_handle) op" where
  "ram_create_child_file dir name st = (case map_of (ram_dirs st ! dir) name of
     Some (RamFile existing) \<Rightarrow> (Inr \<lparr>rfh_data = existing, rfh_pos = 0\<rparr>, st)
   | Some (RamDir _) \<Rightarrow> (Inl (Err AlreadyExists), st)
   | None \<Rightarrow>
       let data = length (ram_files st) in
       (Inr \<lparr>rfh_data = data, rfh_pos = 0\<rparr>,
        st\<lparr>ram_files := ram_files st @ [[]],
           ram_dirs := (ram_dirs st)[dir := btree_insert name (RamFile data) (ram_dirs st ! dir)]\<rparr>))"

definition ram_create_child_dir :: "nat \<Rightarrow> rstring \<Rightarrow> (ram_store, vfs_error, unit) op" where
  "ram_create_child_dir dir name st =
     (if map_of (ram_dirs st ! dir) name \<noteq> None then (Inl (Err AlreadyExists), st)
      else let subdir = length (ram_dirs st) in
        (Inr (), st\<lparr>ram_dirs :=
           (ram_dirs st)[dir := btree_insert name (RamDir subdir) (ram_dirs st ! dir)] @ [[]]\<rparr>))"

definition ram_delete_child_file :: "nat \<Rightarrow> rstring \<Rightarrow> (ram_store, vfs_error, unit) op" where
  "ram_delete_child_file dir name st = (case map_of (ram_dirs st ! dir) name of
     Some (RamFile _) \<Rightarrow> (Inr (), st\<lparr>ram_dirs := (ram_dirs st)[dir := btree_remove name (ram_dirs st ! dir)]\<rparr>)
   | Some (RamDir _) \<Rightarrow> (Inl (Err NotDirectory), st)
   | None \<Rightarrow> (Inl (Err NotFound), st))"

text \<open>The filesystem's own creation operations repeat those of its root directory.\<close>

definition ramfs_create_file :: "nat \<Rightarrow> rstring \<Rightarrow> (ram_store, vfs_error, ram_file_handle) op" where
  "ramfs_create_file root name = ram_create_child_file root name"

definition ramfs_create_dir :: "nat \<Rightarrow> rstring \<Rightarrow> (ram_store, vfs_error, unit) op" where
  "ramfs_create_dir root name = ram_create_child_dir root name"

subsection \<open>File handles\<close>

definition ram_open_file :: "nat \<Rightarrow> ram_file_handle" where
  "ram_open_file data = \<lparr>rfh_data = data, rfh_pos = 0\<rparr>"

definition ram_file_read :: "nat \<Rightarrow> (ram_file_handle \<times> ram_store, vfs_error, bytes) op" where
  "ram_file_read n = (\<lambda>(h, st).
     case buffer_read (ram_files st ! rfh_data h) (rfh_pos h) n of
       (bs, pos) \<Rightarrow> (Inr bs, (h\<lparr>rfh_pos := pos\<rparr>, st)))"

definition ram_file_write :: "bytes \<Rightarrow> (ram_file_handle \<times> ram_store, vfs_error, nat) op" where
  "ram_file_write buf = (\<lambda>(h, st).
     case buffer_write (ram_files st ! rfh_data h) (rfh_pos h) buf of
       Inl p \<Rightarrow> (Inl (Crash p), (h, st))
     | Inr data \<Rightarrow> (Inr (length buf),
         (h\<lparr>rfh_pos := rfh_pos h + length buf\<rparr>, st\<lparr>ram_files := (ram_files st)[rfh_data h := data]\<rparr>)))"

definition ram_file_seek :: "u64 \<Rightarrow> ram_file_handle \<times> ram_store \<Rightarrow> ram_file_handle \<times> ram_store" where
  "ram_file_seek offset = (\<lambda>(h, st). (h\<lparr>rfh_pos := unat offset\<rparr>, st))"

subsection \<open>Directory handles\<close>

definition packed_entries :: "rstring list \<Rightarrow> bytes" where
  "packed_entries names = concat (map (\<lambda>name. name @ [0]) names)"

fun entries_consumed :: "rstring list \<Rightarrow> nat \<Rightarrow> nat \<Rightarrow> nat" where
  "entries_consumed [] bytes_consumed to_read = 0"
| "entries_consumed (e # es) bytes_consumed to_read =
     (if bytes_consumed + (length e + 1) > to_read then 0
      else 1 + entries_consumed es (bytes_consumed + (length e + 1)) to_read)"

definition ram_dir_read :: "nat \<Rightarrow> (ram_dir_handle, vfs_error, bytes) op" where
  "ram_dir_read n h =
     (if rdh_pos h > length (rdh_entries h) then (Inl (Crash Slice_out_of_range), h)
      else
        let packed = packed_entries (drop (rdh_pos h) (rdh_entries h)) in
        if packed = [] then (Inr [], h)
        else let to_read = min n (length packed) in
          (Inr (take to_read packed),
           h\<lparr>rdh_pos := rdh_pos h + entries_consumed (drop (rdh_pos h) (rdh_entries h)) 0 to_read\<rparr>))"

definition ram_dir_write :: "bytes \<Rightarrow> (ram_dir_handle, vfs_error, nat) op" where
  "ram_dir_write buf = sfail PermissionDenied"

definition ram_dir_seek :: "u64 \<Rightarrow> ram_dir_handle \<Rightarrow> ram_dir_handle" where
  "ram_dir_seek offset h = h\<lparr>rdh_pos := unat offset\<rparr>"

subsection \<open>Well-formed stores\<close>

text \<open>Every directory is ordered and every node it holds is an allocated cell.\<close>

fun node_ok :: "ram_store \<Rightarrow> ram_node \<Rightarrow> bool" where
  "node_ok st (RamFile f) = (f < length (ram_files st))"
| "node_ok st (RamDir d) = (d < length (ram_dirs st))"

definition ram_ok :: "ram_store \<Rightarrow> bool" where
  "ram_ok st = (\<forall>m \<in> set (ram_dirs st). btree_ordered m \<and> (\<forall>n \<in> snd ` set m. node_ok st n))"

lemma ram_okD:
  assumes "ram_ok st" "dir < length (ram_dirs st)"
  shows "btree_ordered (ram_dirs st ! dir)" "map_of (ram_dirs st ! dir) name = Some n \<Longrightarrow> node_ok st n"
  using assms nth_mem [OF assms(2)] by (fastforce simp: ram_ok_def dest: map_of_SomeD)+

lemma node_ok_mono:
  "node_ok st n \<Longrightarrow> length (ram_files st) \<le> length (ram_files st') \<Longrightarrow> length (ram_dirs st) \<le> length (ram_dirs st')
   \<Longrightarrow> node_ok st' n"
  by (cases n) auto

lemma ram_ok_update:
  assumes "ram_ok st" "length (ram_files st) \<le> length (ram_files st')"
    and "ram_dirs st' = (ram_dirs st)[dir := m] @ ds" "\<forall>d \<in> set ds. d = []"
    and "btree_ordered m" "\<And>n. n \<in> snd ` set m \<Longrightarrow> node_ok st' n"
  shows "ram_ok st'"
  unfolding ram_ok_def
proof (intro ballI conjI)
  fix m' assume m': "m' \<in> set (ram_dirs st')"
  then have cases: "m' \<in> set (ram_dirs st) \<or> m' = m \<or> m' = []"
    using assms(3,4) set_update_subset_insert [of "ram_dirs st" dir m] by auto
  show "btree_ordered m'"
    using cases assms(1,5) by (auto simp: ram_ok_def btree_ordered_def)
  fix n assume n: "n \<in> snd ` set m'"
  have len: "length (ram_dirs st) \<le> length (ram_dirs st')" by (simp add: assms(3))
  show "node_ok st' n"
    using cases
  proof (elim disjE)
    assume "m' \<in> set (ram_dirs st)"
    with n assms(1) have "node_ok st n" by (auto simp: ram_ok_def)
    then show ?thesis by (rule node_ok_mono [OF _ assms(2) len])
  qed (use n assms(6) in auto)
qed

lemma ram_ok_insert:
  assumes "ram_ok st" "dir < length (ram_dirs st)" "length (ram_files st) \<le> length (ram_files st')"
    and "ram_dirs st' = (ram_dirs st)[dir := btree_insert name n (ram_dirs st ! dir)] @ ds" "\<forall>d \<in> set ds. d = []"
    and "node_ok st' n"
  shows "ram_ok st'"
proof (rule ram_ok_update [OF assms(1,3-5)])
  show "btree_ordered (btree_insert name n (ram_dirs st ! dir))"
    using ram_okD(1) [OF assms(1,2)] by simp
  fix n' assume n': "n' \<in> snd ` set (btree_insert name n (ram_dirs st ! dir))"
  then have "n' = n \<or> n' \<in> snd ` set (ram_dirs st ! dir)" by (rule btree_values_insert)
  then show "node_ok st' n'"
  proof
    assume "n' \<in> snd ` set (ram_dirs st ! dir)"
    then have "node_ok st n'"
      using assms(1) nth_mem [OF assms(2)] unfolding ram_ok_def by blast
    then show ?thesis by (rule node_ok_mono [OF _ assms(3)]) (simp add: assms(4))
  qed (use assms(6) in simp)
qed

lemma ram_create_child_file_ok:
  assumes "ram_ok st" "dir < length (ram_dirs st)" "ram_create_child_file dir name st = (r, st')"
  shows "ram_ok st' \<and> length (ram_dirs st') = length (ram_dirs st) \<and>
    (\<forall>h. r = Inr h \<longrightarrow> rfh_data h < length (ram_files st') \<and> map_of (ram_dirs st' ! dir) name = Some (RamFile (rfh_data h)))"
proof (cases "map_of (ram_dirs st ! dir) name")
  case None
  then have st': "st' = st\<lparr>ram_files := ram_files st @ [[]],
      ram_dirs := (ram_dirs st)[dir := btree_insert name (RamFile (length (ram_files st))) (ram_dirs st ! dir)]\<rparr>"
    and r: "r = Inr \<lparr>rfh_data = length (ram_files st), rfh_pos = 0\<rparr>"
    using assms(3) by (auto simp: ram_create_child_file_def Let_def)
  have "ram_ok st'"
    by (rule ram_ok_insert [OF assms(1,2), where ds = "[]"]) (auto simp: st')
  then show ?thesis using assms(2) by (simp add: st' r)
next
  case (Some n)
  then show ?thesis
    using assms ram_okD(2) [OF assms(1,2) Some]
    by (cases n) (auto simp: ram_create_child_file_def)
qed

lemma ram_create_child_dir_ok:
  assumes "ram_ok st" "dir < length (ram_dirs st)" "ram_create_child_dir dir name st = (r, st')"
  shows "ram_ok st' \<and> length (ram_dirs st) \<le> length (ram_dirs st') \<and> ram_files st' = ram_files st"
proof (cases "map_of (ram_dirs st ! dir) name")
  case None
  then have st': "st' = st\<lparr>ram_dirs :=
      (ram_dirs st)[dir := btree_insert name (RamDir (length (ram_dirs st))) (ram_dirs st ! dir)] @ [[]]\<rparr>"
    using assms(3) by (auto simp: ram_create_child_dir_def Let_def)
  have "ram_ok st'"
    by (rule ram_ok_insert [OF assms(1,2), where ds = "[[]]"]) (auto simp: st')
  then show ?thesis by (simp add: st')
next
  case (Some n)
  then show ?thesis using assms by (auto simp: ram_create_child_dir_def)
qed

lemma ram_delete_child_file_ok:
  assumes "ram_ok st" "dir < length (ram_dirs st)" "ram_delete_child_file dir name st = (r, st')"
  shows "ram_ok st' \<and> length (ram_dirs st') = length (ram_dirs st) \<and> ram_files st' = ram_files st"
proof -
  have "ram_ok (st\<lparr>ram_dirs := (ram_dirs st)[dir := btree_remove name (ram_dirs st ! dir)]\<rparr>)" (is "ram_ok ?st")
  proof (rule ram_ok_update [OF assms(1), where ds = "[]"])
    show "btree_ordered (btree_remove name (ram_dirs st ! dir))"
      using ram_okD(1) [OF assms(1,2)] by simp
    fix n assume "n \<in> snd ` set (btree_remove name (ram_dirs st ! dir))"
    then have "node_ok st n"
      using assms(1) nth_mem [OF assms(2)] by (force simp: ram_ok_def btree_remove_def)
    then show "node_ok ?st n" by (rule node_ok_mono) simp_all
  qed auto
  then show ?thesis
    using assms by (auto simp: ram_delete_child_file_def split: option.splits ram_node.splits)
qed

lemma ram_file_write_ok:
  assumes "ram_ok st" "ram_file_write buf (h, st) = (r, (h', st'))"
  shows "ram_ok st' \<and> rfh_data h' = rfh_data h \<and> length (ram_files st') = length (ram_files st)"
proof -
  have "ram_ok (st\<lparr>ram_files := (ram_files st)[rfh_data h := data]\<rparr>)" for data
    using assms(1) node_ok_mono [of st _ "st\<lparr>ram_files := (ram_files st)[rfh_data h := data]\<rparr>"]
    by (auto simp: ram_ok_def)
  with assms show ?thesis
    by (auto simp: ram_file_write_def split: sum.splits)
qed

subsection \<open>File handles keep the contract of an open file\<close>

definition ram_handle_ok :: "ram_file_handle \<times> ram_store \<Rightarrow> bool" where
  "ram_handle_ok = (\<lambda>(h, st). rfh_data h < length (ram_files st))"

definition ram_contents :: "ram_file_handle \<times> ram_store \<Rightarrow> bytes" where
  "ram_contents = (\<lambda>(h, st). ram_files st ! rfh_data h)"

interpretation ramfile: seekable_file ram_handle_ok ram_contents "\<lambda>(h, st). rfh_pos h"
  ram_file_read ram_file_write ram_file_seek
  by unfold_locales
    (auto simp: ram_handle_ok_def ram_contents_def ram_file_read_def ram_file_write_def ram_file_seek_def
      buffer_read_value buffer_write_value)

subsection \<open>Reading a directory to its end\<close>

lemma entries_consumed_le: "entries_consumed es c n \<le> length es"
  by (induction es c n rule: entries_consumed.induct) auto

lemma entries_consumed_fit: "e \<in> set (take (entries_consumed es c n) es) \<Longrightarrow> length e < n"
  by (induction es c n rule: entries_consumed.induct) (auto split: if_splits)

lemma entries_consumed_pos: "length e < n \<Longrightarrow> 0 < entries_consumed (e # es) 0 n"
  by simp

lemma packed_entries_simps [simp]:
  "packed_entries [] = []" "packed_entries (e # es) = e @ 0 # packed_entries es"
  by (simp_all add: packed_entries_def)

lemma packed_entries_empty [simp]: "packed_entries es = [] \<longleftrightarrow> es = []"
  by (cases es) simp_all

lemma list_all_drop_split:
  "list_all P xs \<longleftrightarrow> list_all P (take k xs) \<and> list_all P (drop k xs)"
  by (metis append_take_drop_id list_all_append)

lemma ram_dir_loop_ends:
  "list_all (\<lambda>e. length e < 512) (drop (rdh_pos h) (rdh_entries h)) \<Longrightarrow> \<exists>r. read_loop ram_dir_read h buf = Some r"
proof (induction "length (rdh_entries h) - rdh_pos h" arbitrary: h buf rule: less_induct)
  case less
  let ?es = "drop (rdh_pos h) (rdh_entries h)"
  let ?k = "entries_consumed ?es 0 (min 512 (length (packed_entries ?es)))"
  show ?case
  proof (cases "?es")
    case Nil
    then show ?thesis
      by (subst read_loop.simps) (simp add: ram_dir_read_def)
  next
    case (Cons e es)
    then have lt: "rdh_pos h < length (rdh_entries h)"
      by (metis drop_all leI list.distinct(1))
    have "length e < 512" "length e < length (packed_entries ?es)"
      using less.prems by (simp_all add: Cons)
    then have "length e < min 512 (length (packed_entries ?es))"
      by (simp only: min_less_iff_conj)
    then have "0 < ?k" unfolding Cons by (rule entries_consumed_pos)
    moreover have "list_all (\<lambda>e. length e < 512) (drop (rdh_pos h + ?k) (rdh_entries h))"
      using less.prems list_all_drop_split [of _ ?es ?k] by (simp add: add.commute)
    ultimately have "\<exists>r. read_loop ram_dir_read (h\<lparr>rdh_pos := rdh_pos h + ?k\<rparr>)
        (buf @ take (min 512 (length (packed_entries ?es))) (packed_entries ?es)) = Some r"
      using lt by (intro less.hyps) auto
    then show ?thesis
      using lt by (subst read_loop.simps) (simp add: ram_dir_read_def Let_def)
  qed
qed

lemma ram_dir_loop_stuck:
  assumes "read_loop ram_dir_read h buf = Some r"
  shows "list_all (\<lambda>e. length e < 512) (drop (rdh_pos h) (rdh_entries h))"
proof -
  let ?P = "\<lambda>fread h (buf :: bytes) r. fread = ram_dir_read \<longrightarrow>
    list_all (\<lambda>e. length e < 512) (drop (rdh_pos h) (rdh_entries h))"
  have "?P ram_dir_read h buf r"
  proof (rule read_loop.raw_induct [where P = ?P, OF _ assms])
    fix loop fread and h :: ram_dir_handle and buf r
    assume hyp: "\<And>fread h buf r. loop fread h buf = Some r \<Longrightarrow> ?P fread h buf r"
      and eq: "(case fread 512 h of (Inl e, s') \<Rightarrow> Some (Inl e, s')
        | (Inr bs, s') \<Rightarrow> if bs = [] then Some (Inr buf, s') else loop fread s' (buf @ bs)) = Some r"
    let ?es = "drop (rdh_pos h) (rdh_entries h)"
    let ?k = "entries_consumed ?es 0 (min 512 (length (packed_entries ?es)))"
    show "?P fread h buf r"
    proof (intro impI)
      assume fr: "fread = ram_dir_read"
      show "list_all (\<lambda>e. length e < 512) ?es"
      proof (cases "?es = []")
        case False
        then have lt: "rdh_pos h < length (rdh_entries h)" by simp
        have ne: "min 512 (length (packed_entries ?es)) \<noteq> 0"
          using False by (simp only: min_def split: if_split) simp
        have "loop fread (h\<lparr>rdh_pos := rdh_pos h + ?k\<rparr>)
            (buf @ take (min 512 (length (packed_entries ?es))) (packed_entries ?es)) = Some r"
          using eq False lt ne by (simp add: fr ram_dir_read_def Let_def)
        then have "list_all (\<lambda>e. length e < 512) (drop (rdh_pos h + ?k) (rdh_entries h))"
          using hyp fr by fastforce
        moreover have "list_all (\<lambda>e. length e < 512) (take ?k ?es)"
          unfolding list_all_iff
          by (intro ballI) (drule entries_consumed_fit, simp only: min_less_iff_conj)
        ultimately show ?thesis
          using list_all_drop_split [of "\<lambda>e. length e < 512" ?es ?k] by (simp add: add.commute)
      qed simp
    qed
  qed
  then show ?thesis by simp
qed

text \<open>
  C33. Reading a directory handle in 512-byte pieces until a read returns nothing ends exactly
  if every name that is left has fewer than 512 bytes. At a longer name the handle does not advance
  and delivers the same piece for ever.
\<close>

theorem ram_dir_loop_ends_iff:
  "(\<exists>r. read_loop ram_dir_read h buf = Some r) \<longleftrightarrow>
   list_all (\<lambda>e. length e < 512) (drop (rdh_pos h) (rdh_entries h))"
  using ram_dir_loop_ends ram_dir_loop_stuck by blast

subsection \<open>Reachable stores\<close>

inductive ram_reachable :: "ram_store \<Rightarrow> bool" where
  reach_boot: "ramfs_new \<lparr>ram_files = [], ram_dirs = []\<rparr> = (root, st) \<Longrightarrow> ram_reachable st"
| reach_file: "ram_reachable st \<Longrightarrow> d < length (ram_dirs st) \<Longrightarrow> ram_create_child_file d name st = (r, st') \<Longrightarrow> ram_reachable st'"
| reach_dir: "ram_reachable st \<Longrightarrow> d < length (ram_dirs st) \<Longrightarrow> ram_create_child_dir d name st = (q, st') \<Longrightarrow> ram_reachable st'"
| reach_delete: "ram_reachable st \<Longrightarrow> d < length (ram_dirs st) \<Longrightarrow> ram_delete_child_file d name st = (q, st') \<Longrightarrow> ram_reachable st'"
| reach_write: "ram_reachable st \<Longrightarrow> ram_file_write buf (h, st) = (n, (h', st')) \<Longrightarrow> ram_reachable st'"

text \<open>The names of all directories: which node a directory and a name lead to.\<close>

definition ram_names :: "ram_store \<Rightarrow> nat \<times> rstring \<rightharpoonup> ram_node" where
  "ram_names st = (\<lambda>(dir, name). if dir < length (ram_dirs st) then map_of (ram_dirs st ! dir) name else None)"

lemma names_create_file:
  assumes "dir < length (ram_dirs st)" "ram_create_child_file dir name st = (r, st')"
  shows "ram_files st' = ram_files st \<and> ram_dirs st' = ram_dirs st \<or> ram_names st (dir, name) = None \<and>
    ram_names st' = (ram_names st)((dir, name) \<mapsto> RamFile (length (ram_files st))) \<and>
    length (ram_files st') = Suc (length (ram_files st)) \<and> length (ram_dirs st') = length (ram_dirs st)"
  using assms by (auto simp: ram_create_child_file_def ram_names_def fun_eq_iff Let_def nth_list_update split: option.splits ram_node.splits)

lemma names_create_dir:
  assumes "dir < length (ram_dirs st)" "ram_create_child_dir dir name st = (r, st')"
  shows "st' = st \<or> ram_names st (dir, name) = None \<and> ram_names st' = (ram_names st)((dir, name) \<mapsto> RamDir (length (ram_dirs st))) \<and>
    ram_files st' = ram_files st \<and> length (ram_dirs st') = Suc (length (ram_dirs st))"
  using assms by (auto simp: ram_create_child_dir_def ram_names_def fun_eq_iff Let_def nth_list_update nth_append less_Suc_eq split: if_splits)

lemma names_delete:
  assumes "dir < length (ram_dirs st)" "ram_delete_child_file dir name st = (r, st')"
  shows "st' = st \<or> (\<exists>f. ram_names st (dir, name) = Some (RamFile f)) \<and> ram_names st' = (ram_names st)((dir, name) := None) \<and>
    ram_files st' = ram_files st \<and> length (ram_dirs st') = length (ram_dirs st)"
  using assms by (auto simp: ram_delete_child_file_def ram_names_def fun_eq_iff nth_list_update split: option.splits ram_node.splits)

text \<open>Every directory but the first is named by a directory created before it, and no node has two names.\<close>

definition tree_named :: "ram_store \<Rightarrow> bool" where
  "tree_named st \<longleftrightarrow> ram_dirs st \<noteq> [] \<and>
     (\<forall>k d. ram_names st k = Some (RamDir d) \<longrightarrow> fst k < d \<and> d < length (ram_dirs st)) \<and>
     (\<forall>d. 0 < d \<and> d < length (ram_dirs st) \<longrightarrow> (\<exists>k. ram_names st k = Some (RamDir d))) \<and>
     (\<forall>k f. ram_names st k = Some (RamFile f) \<longrightarrow> f < length (ram_files st)) \<and>
     (\<forall>k k' n. ram_names st k = Some n \<and> ram_names st k' = Some n \<longrightarrow> k = k')"

lemma tree_namedD:
  assumes "tree_named st"
  shows "ram_dirs st \<noteq> []" "ram_names st k = Some (RamDir d) \<Longrightarrow> fst k < d" "ram_names st k = Some (RamDir d) \<Longrightarrow> d < length (ram_dirs st)"
    "0 < d \<Longrightarrow> d < length (ram_dirs st) \<Longrightarrow> \<exists>k. ram_names st k = Some (RamDir d)"
    "ram_names st k = Some (RamFile f) \<Longrightarrow> f < length (ram_files st)" "ram_names st k = Some n \<Longrightarrow> ram_names st k' = Some n \<Longrightarrow> k = k'"
  using assms unfolding tree_named_def by blast+

lemma tree_named_cong:
  "ram_names st' = ram_names st \<Longrightarrow> length (ram_dirs st') = length (ram_dirs st) \<Longrightarrow> length (ram_files st') = length (ram_files st) \<Longrightarrow>
   tree_named st' = tree_named st"
  unfolding tree_named_def by (simp only: length_0_conv [symmetric])

lemma tree_named_file:
  assumes "tree_named st" "ram_names st k = None" "ram_names st' = (ram_names st)(k \<mapsto> RamFile (length (ram_files st)))"
    and "length (ram_files st') = Suc (length (ram_files st))" "length (ram_dirs st') = length (ram_dirs st)"
  shows "tree_named st'"
proof -
  have "ram_dirs st' \<noteq> []" using tree_namedD(1) [OF assms(1)] assms(5) by (metis length_0_conv)
  moreover have "\<exists>k'. ram_names st' k' = Some (RamDir d)" if d: "0 < d" "d < length (ram_dirs st')" for d
  proof -
    obtain k' where "ram_names st k' = Some (RamDir d)" using tree_namedD(4) [OF assms(1), of d] assms(5) d by auto
    then show ?thesis using assms(2,3) by (intro exI [of _ k']) auto
  qed
  moreover have "ram_names st k' \<noteq> Some (RamFile (length (ram_files st)))" for k' using tree_namedD(5) [OF assms(1), of k'] by auto
  ultimately show ?thesis using assms(1) unfolding tree_named_def assms(3-5) by (auto split: if_splits simp: less_Suc_eq)
qed

lemma tree_named_dir:
  assumes "tree_named st" "ram_names st k = None" "fst k < length (ram_dirs st)" "ram_names st' = (ram_names st)(k \<mapsto> RamDir (length (ram_dirs st)))"
    and "ram_files st' = ram_files st" "length (ram_dirs st') = Suc (length (ram_dirs st))"
  shows "tree_named st'"
proof -
  have "\<exists>k'. ram_names st' k' = Some (RamDir d)" if d: "0 < d" "d < length (ram_dirs st')" for d
  proof (cases "d = length (ram_dirs st)")
    case True
    then show ?thesis using assms(4) by (intro exI [of _ k]) simp
  next
    case False
    then obtain k' where "ram_names st k' = Some (RamDir d)" using tree_namedD(4) [OF assms(1), of d] assms(6) d False by auto
    then show ?thesis using assms(2,4) by (intro exI [of _ k']) auto
  qed
  moreover have "ram_names st k' \<noteq> Some (RamDir (length (ram_dirs st)))" for k' using tree_namedD(3) [OF assms(1), of k'] by auto
  moreover have "ram_dirs st' \<noteq> []" using assms(6) by auto
  ultimately show ?thesis using assms(1,3) unfolding tree_named_def assms(4-6) by (auto split: if_splits simp: less_Suc_eq)
qed

lemma tree_named_delete:
  assumes "tree_named st" "ram_names st k = Some (RamFile f)" "ram_names st' = (ram_names st)(k := None)"
    and "ram_files st' = ram_files st" "length (ram_dirs st') = length (ram_dirs st)"
  shows "tree_named st'"
proof -
  have "ram_dirs st' \<noteq> []" using tree_namedD(1) [OF assms(1)] assms(5) by (metis length_0_conv)
  moreover have "\<exists>k'. ram_names st' k' = Some (RamDir d)" if d: "0 < d" "d < length (ram_dirs st')" for d
  proof -
    obtain k' where "ram_names st k' = Some (RamDir d)" using tree_namedD(4) [OF assms(1), of d] assms(5) d by auto
    then show ?thesis using assms(2,3) by (intro exI [of _ k']) auto
  qed
  ultimately show ?thesis using assms(1) unfolding tree_named_def assms(3-5) by (auto split: if_splits)
qed

lemma reachable_tree_named: "ram_reachable st \<Longrightarrow> tree_named st"
proof (induction rule: ram_reachable.induct)
  case (reach_boot root st)
  then show ?case by (auto simp: ramfs_new_def tree_named_def ram_names_def)
next
  case (reach_file st d name r st')
  from names_create_file [OF reach_file.hyps(2,3)] show ?case
  proof
    assume "ram_files st' = ram_files st \<and> ram_dirs st' = ram_dirs st"
    then have d: "ram_dirs st' = ram_dirs st" and f: "ram_files st' = ram_files st" by simp_all
    have "ram_names st' = ram_names st" unfolding ram_names_def d ..
    then show ?thesis using reach_file.IH tree_named_cong [of st' st] d f by simp
  qed (use tree_named_file [OF reach_file.IH] in blast)
next
  case (reach_dir st d name q st')
  then show ?case using names_create_dir [OF reach_dir.hyps(2,3)] tree_named_dir [OF reach_dir.IH, of "(d, name)" st'] by auto
next
  case (reach_delete st d name q st')
  then show ?case using names_delete [OF reach_delete.hyps(2,3)] tree_named_delete [OF reach_delete.IH, of "(d, name)" _ st'] by auto
next
  case (reach_write st buf h n h' st')
  then have d: "ram_dirs st' = ram_dirs st" "length (ram_files st') = length (ram_files st)"
    by (auto simp: ram_file_write_def split: sum.splits)
  have "ram_names st' = ram_names st" unfolding ram_names_def d(1) ..
  then show ?case using reach_write.IH tree_named_cong [of st' st] d by simp
qed

text \<open>The node at a path below a node.\<close>

fun node_at :: "ram_store \<Rightarrow> ram_node \<Rightarrow> rstring list \<Rightarrow> ram_node option" where
  "node_at st n [] = Some n"
| "node_at st (RamFile f) (name # path) = None"
| "node_at st (RamDir d) (name # path) = (case ram_lookup d name st of (Inr n, _) \<Rightarrow> node_at st n path | _ \<Rightarrow> None)"

lemma node_at_snoc:
  "node_at st n (path @ [name]) = (case node_at st n path of Some (RamDir d) \<Rightarrow> map_of (ram_dirs st ! d) name | _ \<Rightarrow> None)"
  by (induction st n path rule: node_at.induct) (auto simp: ram_lookup_def split: option.splits ram_node.splits)

lemma node_at_allocated:
  assumes "tree_named st"
  shows "node_at st (RamDir 0) path = Some (RamDir d) \<Longrightarrow> d < length (ram_dirs st)"
proof (induction path arbitrary: d rule: rev_induct)
  case Nil
  then show ?case using assms by (simp add: tree_named_def)
next
  case (snoc name path)
  then obtain d' where d': "node_at st (RamDir 0) path = Some (RamDir d')" "map_of (ram_dirs st ! d') name = Some (RamDir d)"
    by (auto simp: node_at_snoc split: option.splits ram_node.splits)
  then have "ram_names st (d', name) = Some (RamDir d)" using snoc.IH by (simp add: ram_names_def)
  then show ?case using assms unfolding tree_named_def by blast
qed

lemma node_at_last:
  assumes "tree_named st" "node_at st (RamDir 0) (path @ [name]) = Some n"
  obtains d where "node_at st (RamDir 0) path = Some (RamDir d)" "ram_names st (d, name) = Some n"
  using assms node_at_allocated [OF assms(1), of path]
  by (auto simp: node_at_snoc ram_names_def split: option.splits ram_node.splits)

lemma node_at_unique:
  assumes "tree_named st"
  shows "node_at st (RamDir 0) path = Some n \<Longrightarrow> node_at st (RamDir 0) path' = Some n \<Longrightarrow> path = path'"
proof (induction path arbitrary: path' n rule: rev_induct)
  case Nil
  have "ram_names st k \<noteq> Some (RamDir 0)" for k using assms unfolding tree_named_def by blast
  then show ?case using Nil by (cases path' rule: rev_cases) (auto elim: node_at_last [OF assms])
next
  case (snoc name path)
  from snoc.prems(1) obtain d where d: "node_at st (RamDir 0) path = Some (RamDir d)" "ram_names st (d, name) = Some n"
    by (rule node_at_last [OF assms])
  show ?case
  proof (cases path' rule: rev_cases)
    case Nil
    then have "ram_names st (d, name) = Some (RamDir 0)" using snoc.prems(2) d(2) by simp
    then show ?thesis using assms unfolding tree_named_def by blast
  next
    case (snoc path'' name')
    then obtain d' where d': "node_at st (RamDir 0) path'' = Some (RamDir d')" "ram_names st (d', name') = Some n"
      using snoc.prems(2) by (auto elim: node_at_last [OF assms])
    have "(d, name) = (d', name')" using assms d(2) d'(2) unfolding tree_named_def by blast
    then show ?thesis using snoc.IH [OF d(1)] d'(1) snoc by simp
  qed
qed

lemma node_at_exists:
  assumes "tree_named st"
  shows "d < length (ram_dirs st) \<Longrightarrow> \<exists>path. node_at st (RamDir 0) path = Some (RamDir d)"
proof (induction d rule: less_induct)
  case (less d)
  show ?case
  proof (cases "d = 0")
    case True
    then show ?thesis by (intro exI [of _ "[]"]) simp
  next
    case False
    then obtain p name where k: "ram_names st (p, name) = Some (RamDir d)" using tree_namedD(4) [OF assms, of d] less.prems by auto
    then have "p < d" using tree_namedD(2) [OF assms, of "(p, name)"] by simp
    then obtain path where "node_at st (RamDir 0) path = Some (RamDir p)" using less.IH less.prems by auto
    then have "node_at st (RamDir 0) (path @ [name]) = Some (RamDir d)"
      using k by (simp add: node_at_snoc ram_names_def split: if_splits)
    then show ?thesis by blast
  qed
qed

text \<open>
  C32. From an empty filesystem, under any sequence of file and directory creations, deletions of files
  and writes, the directories are a tree: every directory that was ever made is still at exactly one path from the root, so that
  creating a name never replaces a directory and deleting one never removes it, and no file is at two paths.
\<close>

theorem ram_tree:
  assumes "ram_reachable st"
  shows "(\<forall>d. d < length (ram_dirs st) \<longrightarrow> (\<exists>!path. node_at st (RamDir 0) path = Some (RamDir d))) \<and>
    (\<forall>f path path'. node_at st (RamDir 0) path = Some (RamFile f) \<and> node_at st (RamDir 0) path' = Some (RamFile f) \<longrightarrow> path = path')"
proof -
  note tree = reachable_tree_named [OF assms]
  show ?thesis using node_at_exists [OF tree] node_at_unique [OF tree] by blast
qed

theorem ram_tree_witness:
  "\<exists>st. ram_readdir 0 st = [ascii ''bin'', ascii ''etc''] \<and> (\<exists>!path. node_at st (RamDir 0) path = Some (RamDir 1))"
proof -
  let ?st = "\<lparr>ram_files = [[]], ram_dirs = [[(ascii ''bin'', RamDir 1), (ascii ''etc'', RamFile 0)], []]\<rparr>"
  have "ram_reachable \<lparr>ram_files = [], ram_dirs = [[]]\<rparr>"
    by (rule reach_boot [of 0]) (simp add: ramfs_new_def)
  then have "ram_reachable \<lparr>ram_files = [[]], ram_dirs = [[(ascii ''etc'', RamFile 0)]]\<rparr>"
    by (rule reach_file [of _ 0 "ascii ''etc''" "Inr \<lparr>rfh_data = 0, rfh_pos = 0\<rparr>"])
      (simp_all add: ram_create_child_file_def)
  then have r: "ram_reachable ?st"
    by (rule reach_dir [of _ 0 "ascii ''bin''" "Inr ()"]) (simp, code_simp)
  have "ram_readdir 0 ?st = [ascii ''bin'', ascii ''etc'']"
    by (simp add: ram_readdir_def list_entries_def)
  with ram_tree [OF r] show ?thesis by (intro exI [of _ ?st]) simp
qed

end
