(* ===== verification/Vfs.thy ===== *)
theory Vfs
  imports Fat_Fs Ramfs
begin

text \<open>
  The virtual file system (\<^verbatim>\<open>indo-kernel/src/vfs/mod.rs\<close>): mount points, path resolution and the
  path operations over the RAM filesystem and mounted FAT volumes. The traits \<open>FileSystem\<close>, \<open>Inode\<close>
  and \<open>File\<close> are datatypes with one constructor per implementation, their methods functions by cases,
  and default methods the cases the implementations leave out.
\<close>

subsection \<open>Filesystems, inodes and files\<close>

datatype filesystem = RamFs nat | Fat32Fs fat_inner

datatype inode = RamDirInode nat | RamFileInode nat | FatInode fat_inode

datatype open_file = RamFileHandle ram_file_handle | RamDirHandle ram_dir_handle | FatFile fat_file

record 'd world =
  w_ram :: ram_store
  w_devices :: "'d registry"

definition on_ram :: "(ram_store, 'e, 'a) op \<Rightarrow> ('d world, 'e, 'a) op" where
  "on_ram m w = (case m (w_ram w) of (r, st) \<Rightarrow> (r, w\<lparr>w_ram := st\<rparr>))"

definition on_devices :: "('d registry, 'e, 'a) op \<Rightarrow> ('d world, 'e, 'a) op" where
  "on_devices m w = (case m (w_devices w) of (r, reg) \<Rightarrow> (r, w\<lparr>w_devices := reg\<rparr>))"

definition node_inode :: "ram_node \<Rightarrow> inode" where
  "node_inode n = (case n of RamFile f \<Rightarrow> RamFileInode f | RamDir d \<Rightarrow> RamDirInode d)"

fun inode_is_dir :: "inode \<Rightarrow> bool" where
  "inode_is_dir (RamDirInode d) = True"
| "inode_is_dir (RamFileInode f) = False"
| "inode_is_dir (FatInode (FatDirInode inner location)) = True"
| "inode_is_dir (FatInode (FatFileInode inner c sz)) = False"

fun inode_lookup :: "'d blockdev \<Rightarrow> inode \<Rightarrow> rstring \<Rightarrow> ('d world, vfs_error, inode) op" where
  "inode_lookup dev (RamDirInode d) name = sbind (on_ram (ram_lookup d name)) (\<lambda>n. sreturn (node_inode n))"
| "inode_lookup dev (RamFileInode f) name = sfail NotDirectory"
| "inode_lookup dev (FatInode i) name = sbind (on_devices (fat_inode_lookup dev i name)) (\<lambda>i'. sreturn (FatInode i'))"

fun inode_open :: "'d blockdev \<Rightarrow> inode \<Rightarrow> ('d world, vfs_error, open_file) op" where
  "inode_open dev (RamDirInode d) = (\<lambda>w. (Inr (RamDirHandle (ram_open_dir d (w_ram w))), w))"
| "inode_open dev (RamFileInode f) = sreturn (RamFileHandle (ram_open_file f))"
| "inode_open dev (FatInode i) = sbind (on_devices (fat_inode_open dev i)) (\<lambda>f. sreturn (FatFile f))"

fun inode_size :: "inode \<Rightarrow> 'd world \<Rightarrow> u64" where
  "inode_size (RamDirInode d) w = 0"
| "inode_size (RamFileInode f) w = of_nat (length (ram_files (w_ram w) ! f))"
| "inode_size (FatInode (FatDirInode inner location)) w = 0"
| "inode_size (FatInode (FatFileInode inner c sz)) w = ucast sz"

fun inode_readdir :: "'d blockdev \<Rightarrow> inode \<Rightarrow> ('d world, vfs_error, rstring list) op" where
  "inode_readdir dev (RamDirInode d) = (\<lambda>w. (Inr (ram_readdir d (w_ram w)), w))"
| "inode_readdir dev (RamFileInode f) = sfail NotDirectory"
| "inode_readdir dev (FatInode (FatDirInode inner location)) = on_devices (fat_dir_readdir dev inner location)"
| "inode_readdir dev (FatInode (FatFileInode inner c sz)) = sfail NotDirectory"

fun inode_create_child_file :: "'d blockdev \<Rightarrow> inode \<Rightarrow> rstring \<Rightarrow> ('d world, vfs_error, open_file) op" where
  "inode_create_child_file dev (RamDirInode d) name =
     sbind (on_ram (ram_create_child_file d name)) (\<lambda>h. sreturn (RamFileHandle h))"
| "inode_create_child_file dev (RamFileInode f) name = sfail NotDirectory"
| "inode_create_child_file dev (FatInode (FatDirInode inner location)) name =
     sbind (on_devices (create_child_file dev inner location name)) (\<lambda>f. sreturn (FatFile f))"
| "inode_create_child_file dev (FatInode (FatFileInode inner c sz)) name = sfail NotDirectory"

fun inode_create_child_dir :: "'d blockdev \<Rightarrow> inode \<Rightarrow> rstring \<Rightarrow> ('d world, vfs_error, unit) op" where
  "inode_create_child_dir dev (RamDirInode d) name = on_ram (ram_create_child_dir d name)"
| "inode_create_child_dir dev (RamFileInode f) name = sfail NotDirectory"
| "inode_create_child_dir dev (FatInode (FatDirInode inner location)) name =
     on_devices (create_child_dir dev inner location name)"
| "inode_create_child_dir dev (FatInode (FatFileInode inner c sz)) name = sfail NotDirectory"

fun inode_delete_child_file :: "'d blockdev \<Rightarrow> inode \<Rightarrow> rstring \<Rightarrow> ('d world, vfs_error, unit) op" where
  "inode_delete_child_file dev (RamDirInode d) name = on_ram (ram_delete_child_file d name)"
| "inode_delete_child_file dev (RamFileInode f) name = sfail PermissionDenied"
| "inode_delete_child_file dev (FatInode (FatDirInode inner location)) name =
     on_devices (delete_child_file dev inner location name)"
| "inode_delete_child_file dev (FatInode (FatFileInode inner c sz)) name = sfail PermissionDenied"

fun fs_root :: "filesystem \<Rightarrow> inode" where
  "fs_root (RamFs root) = RamDirInode root"
| "fs_root (Fat32Fs inner) = FatInode (fat_fs_root inner)"

fun fs_create_file :: "'d blockdev \<Rightarrow> filesystem \<Rightarrow> rstring \<Rightarrow> ('d world, vfs_error, open_file) op" where
  "fs_create_file dev (RamFs root) name = sbind (on_ram (ramfs_create_file root name)) (\<lambda>h. sreturn (RamFileHandle h))"
| "fs_create_file dev (Fat32Fs inner) name = sbind (on_devices (fat_fs_create_file dev inner name)) (\<lambda>f. sreturn (FatFile f))"

fun fs_create_dir :: "'d blockdev \<Rightarrow> filesystem \<Rightarrow> rstring \<Rightarrow> ('d world, vfs_error, unit) op" where
  "fs_create_dir dev (RamFs root) name = on_ram (ramfs_create_dir root name)"
| "fs_create_dir dev (Fat32Fs inner) name = on_devices (fat_fs_create_dir dev inner name)"

subsection \<open>File methods\<close>

text \<open>The state of a file method is the file and the world it may share data with.\<close>

fun file_read :: "nat \<Rightarrow> (open_file \<times> 'd world, vfs_error, bytes) op" where
  "file_read n (RamFileHandle h, w) = (case ram_file_read n (h, w_ram w) of
     (r, (h', st)) \<Rightarrow> (r, (RamFileHandle h', w\<lparr>w_ram := st\<rparr>)))"
| "file_read n (RamDirHandle h, w) = (case ram_dir_read n h of (r, h') \<Rightarrow> (r, (RamDirHandle h', w)))"
| "file_read n (FatFile (FatFileHandle h), w) = (case fat_handle_read n h of
     (r, h') \<Rightarrow> (r, (FatFile (FatFileHandle h'), w)))"
| "file_read n (FatFile (FatDirHandle h), w) = (case fat_dir_handle_read n h of
     (r, h') \<Rightarrow> (r, (FatFile (FatDirHandle h'), w)))"

fun file_write :: "bytes \<Rightarrow> (open_file \<times> 'd world, vfs_error, nat) op" where
  "file_write buf (RamFileHandle h, w) = (case ram_file_write buf (h, w_ram w) of
     (r, (h', st)) \<Rightarrow> (r, (RamFileHandle h', w\<lparr>w_ram := st\<rparr>)))"
| "file_write buf (RamDirHandle h, w) = (case ram_dir_write buf h of (r, h') \<Rightarrow> (r, (RamDirHandle h', w)))"
| "file_write buf (FatFile (FatFileHandle h), w) = (case fat_handle_write buf h of
     (r, h') \<Rightarrow> (r, (FatFile (FatFileHandle h'), w)))"
| "file_write buf (FatFile (FatDirHandle h), w) = (case fat_dir_handle_write buf h of
     (r, h') \<Rightarrow> (r, (FatFile (FatDirHandle h'), w)))"

fun file_seek :: "u64 \<Rightarrow> open_file \<times> 'd world \<Rightarrow> open_file \<times> 'd world" where
  "file_seek offset (RamFileHandle h, w) = (case ram_file_seek offset (h, w_ram w) of
     (h', st) \<Rightarrow> (RamFileHandle h', w\<lparr>w_ram := st\<rparr>))"
| "file_seek offset (RamDirHandle h, w) = (RamDirHandle (ram_dir_seek offset h), w)"
| "file_seek offset (FatFile (FatFileHandle h), w) = (FatFile (FatFileHandle (fat_handle_seek offset h)), w)"
| "file_seek offset (FatFile (FatDirHandle h), w) = (FatFile (FatDirHandle (fat_dir_handle_seek offset h)), w)"

text \<open>\<open>close\<close>, which dropping a dirty FAT handle also calls (\<open>Drop\<close>); the other handles do nothing.\<close>

fun file_close :: "'d blockdev \<Rightarrow> open_file \<Rightarrow> ('d world, vfs_error, open_file) op" where
  "file_close dev (FatFile (FatFileHandle h)) =
     sbind (on_devices (fat_handle_close dev h)) (\<lambda>h'. sreturn (FatFile (FatFileHandle h')))"
| "file_close dev f = sreturn f"

fun file_drop :: "'d blockdev \<Rightarrow> open_file \<Rightarrow> ('d world, vfs_error, unit) op" where
  "file_drop dev (FatFile (FatFileHandle h)) =
     (if fh_dirty h then sbind (on_devices (fat_handle_close dev h)) (\<lambda>_. sreturn ()) else sreturn ())"
| "file_drop dev f = sreturn ()"

subsection \<open>Mounts and paths\<close>

record mount_entry =
  me_path :: rstring
  me_fs :: filesystem

type_synonym vfs = "mount_entry list"

definition vfs_init :: "vfs \<Rightarrow> ram_store \<Rightarrow> vfs \<times> ram_store" where
  "vfs_init mounts st = (case ramfs_new st of
     (root_fs, st') \<Rightarrow> (mounts @ [\<lparr>me_path = ascii ''/'', me_fs = RamFs root_fs\<rparr>], st'))"

definition vfs_mount :: "rstring \<Rightarrow> filesystem \<Rightarrow> vfs \<Rightarrow> vfs" where
  "vfs_mount path fs mounts = mounts @ [\<lparr>me_path = path, me_fs = fs\<rparr>]"

definition path_parts :: "rstring \<Rightarrow> rstring list" where
  "path_parts path = filter (\<lambda>s. s \<noteq> []) (split_on 0x2F path)"

definition root_fs :: "vfs \<Rightarrow> vfs_error + filesystem" where
  "root_fs mounts = ok_or NotFound (map_option me_fs (List.find (\<lambda>m. me_path m = ascii ''/'') mounts))"

definition mount_matches :: "rstring list \<Rightarrow> mount_entry \<Rightarrow> bool" where
  "mount_matches parts m =
     (me_path m \<noteq> ascii ''/'' \<and>
      (let mount_parts = path_parts (me_path m) in
       length mount_parts \<le> length parts \<and> list_all (\<lambda>(mp, p). mp = p) (zip mount_parts parts)))"

fun lookup_parts :: "'d blockdev \<Rightarrow> inode \<Rightarrow> rstring list \<Rightarrow> ('d world, vfs_error, inode) op" where
  "lookup_parts dev current [] = sreturn current"
| "lookup_parts dev current (part # parts) =
     sbind (inode_lookup dev current part) (\<lambda>i. lookup_parts dev i parts)"

definition vfs_resolve :: "'d blockdev \<Rightarrow> vfs \<Rightarrow> rstring \<Rightarrow> ('d world, vfs_error, inode) op" where
  "vfs_resolve dev mounts path =
     (let parts = path_parts path;
          root = sbind (slift (map_err Err (root_fs mounts))) (\<lambda>fs. sreturn (fs_root fs)) in
      if path = ascii ''/'' \<or> path = [] then root
      else if parts = [] then root
      else case List.find (mount_matches parts) mounts of
        Some m \<Rightarrow> lookup_parts dev (fs_root (me_fs m)) (drop (length (path_parts (me_path m))) parts)
      | None \<Rightarrow> sbind root (\<lambda>i. lookup_parts dev i parts))"

definition vfs_open :: "'d blockdev \<Rightarrow> vfs \<Rightarrow> rstring \<Rightarrow> ('d world, vfs_error, open_file) op" where
  "vfs_open dev mounts path = sbind (vfs_resolve dev mounts path) (inode_open dev)"

fun create_parents :: "'d blockdev \<Rightarrow> inode \<Rightarrow> rstring list \<Rightarrow> ('d world, vfs_error, inode) op" where
  "create_parents dev current [] = sreturn current"
| "create_parents dev current (part # parts) =
     sbind (stry (inode_lookup dev current part)) (\<lambda>r. case r of
       Inr i \<Rightarrow> if \<not> inode_is_dir i then sfail NotDirectory else create_parents dev i parts
     | Inl _ \<Rightarrow> sbind (inode_create_child_dir dev current part) (\<lambda>_.
                sbind (inode_lookup dev current part) (\<lambda>i. create_parents dev i parts)))"

definition resolve_or_create_parents :: "'d blockdev \<Rightarrow> vfs \<Rightarrow> rstring list \<Rightarrow> ('d world, vfs_error, inode) op" where
  "resolve_or_create_parents dev mounts parts =
     sbind (slift (map_err Err (root_fs mounts))) (\<lambda>fs. create_parents dev (fs_root fs) parts)"

definition vfs_create_file :: "'d blockdev \<Rightarrow> vfs \<Rightarrow> rstring \<Rightarrow> ('d world, vfs_error, open_file) op" where
  "vfs_create_file dev mounts path =
     (let parts = path_parts path in
      if parts = [] then sfail BadPath
      else if length parts = 1 then
        if list_ex (\<lambda>m. me_path m \<noteq> ascii ''/'' \<and> path_parts (me_path m) = [parts ! 0]) mounts
        then sfail PermissionDenied
        else sbind (slift (map_err Err (root_fs mounts))) (\<lambda>fs. fs_create_file dev fs (parts ! 0))
      else sbind (resolve_or_create_parents dev mounts (butlast parts)) (\<lambda>parent.
        if \<not> inode_is_dir parent then sfail NotDirectory
        else inode_create_child_file dev parent (last parts)))"

definition vfs_create_dir :: "'d blockdev \<Rightarrow> vfs \<Rightarrow> rstring \<Rightarrow> ('d world, vfs_error, unit) op" where
  "vfs_create_dir dev mounts path =
     (let parts = path_parts path in
      if parts = [] then sfail BadPath
      else sbind (slift (map_err Err (root_fs mounts))) (\<lambda>fs.
        if length parts = 1 then fs_create_dir dev fs (parts ! 0)
        else sbind (resolve_or_create_parents dev mounts (butlast parts)) (\<lambda>parent.
          if \<not> inode_is_dir parent then sfail NotDirectory
          else inode_create_child_dir dev parent (last parts))))"

definition vfs_write_file :: "'d blockdev \<Rightarrow> vfs \<Rightarrow> rstring \<Rightarrow> bytes \<Rightarrow> ('d world, vfs_error, nat) op" where
  "vfs_write_file dev mounts path data =
     sbind (vfs_create_file dev mounts path) (\<lambda>f w.
       case file_write data (f, w) of
         (Inl (Crash p), (f', w')) \<Rightarrow> (Inl (Crash p), w')
       | (r, (f', w')) \<Rightarrow> sbind (file_drop dev f') (\<lambda>_. slift r) w')"

text \<open>\<open>None\<close> when the read loop does not end; the file is dropped clean at the end.\<close>

definition vfs_read_file ::
  "'d blockdev \<Rightarrow> vfs \<Rightarrow> rstring \<Rightarrow> 'd world \<Rightarrow> ((vfs_error, bytes) outcome \<times> 'd world) option" where
  "vfs_read_file dev mounts path w = (case vfs_open dev mounts path w of
     (Inl e, w') \<Rightarrow> Some (Inl e, w')
   | (Inr f, w') \<Rightarrow> map_option (\<lambda>(r, (f', w'')). (r, w'')) (read_loop file_read (f, w') []))"

definition vfs_delete_file :: "'d blockdev \<Rightarrow> vfs \<Rightarrow> rstring \<Rightarrow> ('d world, vfs_error, unit) op" where
  "vfs_delete_file dev mounts path =
     (let parts = path_parts path in
      if parts = [] then sfail BadPath
      else sbind (slift (map_err Err (root_fs mounts))) (\<lambda>fs.
        if length parts = 1 then inode_delete_child_file dev (fs_root fs) (parts ! 0)
        else sbind (lookup_parts dev (fs_root fs) (butlast parts)) (\<lambda>current.
          inode_delete_child_file dev current (last parts))))"

subsection \<open>Walking the RAM filesystem\<close>

fun ram_walk :: "ram_store \<Rightarrow> ram_node \<Rightarrow> rstring list \<Rightarrow> vfs_error + ram_node" where
  "ram_walk st n [] = Inr n"
| "ram_walk st (RamDir d) (p # ps) = (case map_of (ram_dirs st ! d) p of
     None \<Rightarrow> Inl NotFound | Some n \<Rightarrow> ram_walk st n ps)"
| "ram_walk st (RamFile f) (p # ps) = Inl NotDirectory"

lemma node_inode_simps [simp]:
  "node_inode (RamFile f) = RamFileInode f" "node_inode (RamDir d) = RamDirInode d"
  by (simp_all add: node_inode_def)

lemma node_inode_eq [simp]:
  "RamDirInode d = node_inode n \<longleftrightarrow> n = RamDir d" "RamFileInode f = node_inode n \<longleftrightarrow> n = RamFile f"
  by (cases n; auto)+

lemma inode_is_dir_node [simp]: "inode_is_dir (node_inode n) \<longleftrightarrow> (\<exists>d. n = RamDir d)"
  by (cases n) simp_all

lemma lookup_parts_ram:
  "lookup_parts dev (node_inode n) parts w = (case ram_walk (w_ram w) n parts of
     Inl e \<Rightarrow> (Inl (Err e), w) | Inr n' \<Rightarrow> (Inr (node_inode n'), w))"
proof (induction parts arbitrary: n)
  case (Cons p ps)
  then show ?case
    by (cases n) (auto simp: sbind_def sreturn_def sfail_def on_ram_def ram_lookup_def split: option.splits)
qed (simp add: sreturn_def)

lemma ram_walk_append:
  "ram_walk st n (ps @ qs) = rbind (ram_walk st n ps) (\<lambda>n'. ram_walk st n' qs)"
proof (induction ps arbitrary: n)
  case (Cons p ps)
  then show ?case by (cases n) (auto split: option.splits)
qed simp

lemma ram_walk_ok:
  assumes "ram_ok st"
  shows "node_ok st n \<Longrightarrow> ram_walk st n ps = Inr n' \<Longrightarrow> node_ok st n'"
proof (induction ps arbitrary: n)
  case (Cons p ps)
  then show ?case
    by (cases n) (auto split: option.splits dest: ram_okD(2) [OF assms])
qed simp

text \<open>What creating missing parents leaves: everything that was there, and fresh empty directories.\<close>

definition ram_extends :: "ram_store \<Rightarrow> ram_store \<Rightarrow> bool" where
  "ram_extends st st' \<longleftrightarrow> (\<exists>fs. ram_files st' = ram_files st @ fs) \<and> length (ram_dirs st) \<le> length (ram_dirs st')
     \<and> (\<forall>d < length (ram_dirs st). map_of (ram_dirs st ! d) \<subseteq>\<^sub>m map_of (ram_dirs st' ! d))"

lemma ram_extends_refl [simp]: "ram_extends st st"
  by (simp add: ram_extends_def)

lemma ram_extends_trans: "ram_extends st st' \<Longrightarrow> ram_extends st' st'' \<Longrightarrow> ram_extends st st''"
  by (auto simp: ram_extends_def intro: map_le_trans)

lemma ram_extends_lookup:
  "ram_extends st st' \<Longrightarrow> d < length (ram_dirs st) \<Longrightarrow> map_of (ram_dirs st ! d) p = Some n
   \<Longrightarrow> map_of (ram_dirs st' ! d) p = Some n"
  by (auto simp: ram_extends_def map_le_def dom_def)

lemma ram_walk_extends:
  assumes "ram_ok st" "ram_extends st st'"
  shows "node_ok st n \<Longrightarrow> ram_walk st n ps = Inr n' \<Longrightarrow> ram_walk st' n ps = Inr n'"
proof (induction ps arbitrary: n)
  case (Cons p ps)
  show ?case
  proof (cases n)
    case (RamDir d)
    with Cons.prems obtain m where m: "map_of (ram_dirs st ! d) p = Some m" "ram_walk st m ps = Inr n'"
      by (auto split: option.splits)
    have d: "d < length (ram_dirs st)" using Cons.prems(1) RamDir by simp
    have "map_of (ram_dirs st' ! d) p = Some m"
      by (rule ram_extends_lookup [OF assms(2) d m(1)])
    moreover have "node_ok st m" using ram_okD(2) [OF assms(1) d m(1)] .
    ultimately show ?thesis using Cons.IH [OF _ m(2)] RamDir by simp
  qed (use Cons.prems in simp)
qed simp

lemma ram_create_child_dir_new:
  assumes "ram_ok st" "dir < length (ram_dirs st)" "map_of (ram_dirs st ! dir) name = None"
  shows "\<exists>st'. ram_create_child_dir dir name st = (Inr (), st') \<and> ram_ok st' \<and> ram_extends st st'
    \<and> map_of (ram_dirs st' ! dir) name = Some (RamDir (length (ram_dirs st)))
    \<and> length (ram_dirs st') = Suc (length (ram_dirs st)) \<and> ram_dirs st' ! length (ram_dirs st) = []"
proof -
  let ?st = "st\<lparr>ram_dirs := (ram_dirs st)[dir := btree_insert name (RamDir (length (ram_dirs st))) (ram_dirs st ! dir)] @ [[]]\<rparr>"
  have r: "ram_create_child_dir dir name st = (Inr (), ?st)"
    using assms(3) by (simp add: ram_create_child_dir_def Let_def)
  have "ram_extends st ?st"
    using assms by (auto simp: ram_extends_def nth_append nth_list_update map_le_def)
  with r ram_create_child_dir_ok [OF assms(1,2) r] assms(2) show ?thesis
    by (auto simp: nth_append)
qed

lemma create_parents_ram:
  assumes "ram_ok (w_ram w)" "node_ok (w_ram w) n"
    and "create_parents dev (node_inode n) parts w = (r, w')"
  shows "w_devices w' = w_devices w \<and> ram_ok (w_ram w') \<and> ram_extends (w_ram w) (w_ram w') \<and>
    (\<forall>i. r = Inr i \<longrightarrow> (\<exists>n'. i = node_inode n' \<and> node_ok (w_ram w') n' \<and> ram_walk (w_ram w') n parts = Inr n' \<and>
      (w' = w \<and> ram_walk (w_ram w) n parts = Inr n'
       \<or> (\<exists>d e. n' = RamDir d \<and> ram_dirs (w_ram w') ! d = [] \<and> ram_walk (w_ram w) n parts = Inl e))))"
  using assms
proof (induction parts arbitrary: n w)
  case Nil
  then show ?case by (auto simp: sreturn_def)
next
  case (Cons p ps)
  show ?case
  proof (cases n)
    case (RamFile f)
    then show ?thesis
      using Cons.prems by (auto simp: sbind_def stry_def sfail_def)
  next
    case (RamDir d)
    have d: "d < length (ram_dirs (w_ram w))" using Cons.prems(2) RamDir by simp
    show ?thesis
    proof (cases "map_of (ram_dirs (w_ram w) ! d) p")
      case (Some m)
      show ?thesis
      proof (cases m)
        case (RamFile f)
        then show ?thesis
          using Cons.prems Some \<open>n = RamDir d\<close>
          by (auto simp: sbind_def stry_def sfail_def sreturn_def on_ram_def ram_lookup_def)
      next
        case m: (RamDir d')
        have "create_parents dev (node_inode m) ps w = (r, w')"
          using Cons.prems Some \<open>n = RamDir d\<close> m
          by (simp add: sbind_def stry_def sreturn_def on_ram_def ram_lookup_def)
        note IH = Cons.IH [OF Cons.prems(1) ram_okD(2) [OF Cons.prems(1) d Some] this]
        have "map_of (ram_dirs (w_ram w') ! d) p = Some m"
          using IH Some by (blast intro: ram_extends_lookup [OF _ d])
        then have walk: "ram_walk (w_ram w') n (p # ps) = ram_walk (w_ram w') m ps"
          "ram_walk (w_ram w) n (p # ps) = ram_walk (w_ram w) m ps"
          using Some by (simp_all add: RamDir)
        show ?thesis unfolding walk by (rule IH)
      qed
    next
      case None
      obtain st where st: "ram_create_child_dir d p (w_ram w) = (Inr (), st)" "ram_ok st" "ram_extends (w_ram w) st"
        "map_of (ram_dirs st ! d) p = Some (RamDir (length (ram_dirs (w_ram w))))"
        "length (ram_dirs st) = Suc (length (ram_dirs (w_ram w)))" "ram_dirs st ! length (ram_dirs (w_ram w)) = []"
        using ram_create_child_dir_new [OF Cons.prems(1) d None] by blast
      let ?n = "RamDir (length (ram_dirs (w_ram w)))"
      have c: "create_parents dev (node_inode ?n) ps (w\<lparr>w_ram := st\<rparr>) = (r, w')"
        using Cons.prems None RamDir st(1,4)
        by (simp add: sbind_def stry_def sreturn_def sfail_def on_ram_def ram_lookup_def)
      note IH = Cons.IH [of "w\<lparr>w_ram := st\<rparr>" ?n, OF _ _ c]
      have ok: "ram_ok (w_ram (w\<lparr>w_ram := st\<rparr>))" "node_ok (w_ram (w\<lparr>w_ram := st\<rparr>)) ?n"
        using st(2,5) by simp_all
      have ext: "ram_extends st (w_ram w')" using IH [OF ok] by simp
      have "map_of (ram_dirs (w_ram w') ! d) p = Some ?n"
        by (rule ram_extends_lookup [OF ext _ st(4)]) (use d st(5) in simp)
      then have walk: "ram_walk (w_ram w') n (p # ps) = ram_walk (w_ram w') ?n ps"
        by (simp add: RamDir)
      have walk0: "ram_walk (w_ram w) n (p # ps) = Inl NotFound"
        using None by (simp add: RamDir)
      have empty: "ps = []" if "ram_walk st ?n ps = Inr n'" for n'
        using that st(6) by (cases ps) simp_all
      show ?thesis
        unfolding walk walk0
        using IH [OF ok] empty st(6) ram_extends_trans [OF st(3) ext] by fastforce
    qed
  qed
qed

subsection \<open>Open files\<close>

fun file_contents :: "open_file \<times> 'd world \<Rightarrow> bytes" where
  "file_contents (RamFileHandle h, w) = ram_contents (h, w_ram w)"
| "file_contents (RamDirHandle h, w) = packed_entries (rdh_entries h)"
| "file_contents (FatFile (FatFileHandle h), w) = fh_data h"
| "file_contents (FatFile (FatDirHandle h), w) = dh_data h"

fun file_position :: "open_file \<times> 'd world \<Rightarrow> nat" where
  "file_position (RamFileHandle h, w) = rfh_pos h"
| "file_position (RamDirHandle h, w) = rdh_pos h"
| "file_position (FatFile (FatFileHandle h), w) = fh_pos h"
| "file_position (FatFile (FatDirHandle h), w) = dh_pos h"

fun streamable :: "open_file \<Rightarrow> bool" where
  "streamable (RamDirHandle h) = False"
| "streamable f = True"

interpretation vfile: readable_file "\<lambda>(f, w). w = w0 \<and> streamable f" file_contents file_position file_read
  for w0 :: "'d world"
proof unfold_locales
  fix s :: "open_file \<times> 'd world" and n
  assume "case s of (f, w) \<Rightarrow> w = w0 \<and> streamable f"
  then show "\<exists>s'. file_read n s = (Inr (take n (drop (file_position s) (file_contents s))), s') \<and>
      (case s' of (f, w) \<Rightarrow> w = w0 \<and> streamable f) \<and> file_contents s' = file_contents s \<and>
      file_position s' = file_position s + min n (length (file_contents s) - file_position s)"
    by (cases "(n, s)" rule: file_read.cases)
      (auto simp: ram_file_read_def ram_contents_def fat_handle_read_def fat_dir_handle_read_def buffer_read_value)
qed

lemma inode_open_start: "inode_open dev i w = (Inr f, w1) \<Longrightarrow> file_position (f, w1) = 0"
proof (cases i)
  case (FatInode j)
  assume "inode_open dev i w = (Inr f, w1)"
  then show ?thesis
    unfolding FatInode
    by (cases j) (auto simp: sbind_def sreturn_def on_devices_def fat_dir_open_def fat_file_open_def with_device_def
        split: option.splits prod.splits sum.splits)
qed (auto simp: sreturn_def ram_open_dir_def ram_open_file_def)

text \<open>
  C34. Reading a whole file by path ends for every file the open call returns, other than a
  handle on a RAM directory, and gives exactly the contents of the opened file without changing
  anything.
\<close>

theorem vfs_read_file_whole:
  assumes "vfs_open dev mounts path w = (Inr f, w1)" "streamable f"
  shows "vfs_read_file dev mounts path w = Some (Inr (file_contents (f, w1)), w1)"
proof -
  obtain i w0 where "inode_open dev i w0 = (Inr f, w1)"
    using assms(1) by (auto simp: vfs_open_def sbind_value_iff)
  then have "file_position (f, w1) = 0" by (rule inode_open_start)
  with vfile.read_loop_rest [of w1 "(f, w1)" "[]"] assms show ?thesis
    by (auto simp: vfs_read_file_def)
qed

subsection \<open>Writing and reading by path on the RAM filesystem\<close>

lemma path_parts_slash [simp]: "path_parts (ascii ''/'') = []" "path_parts [] = []"
  by code_simp+

lemma vfs_resolve_ram:
  assumes "root_fs mounts = Inr (RamFs r)" "List.find (mount_matches (path_parts path)) mounts = None"
  shows "vfs_resolve dev mounts path w = (case ram_walk (w_ram w) (RamDir r) (path_parts path) of
    Inl e \<Rightarrow> (Inl (Err e), w) | Inr n \<Rightarrow> (Inr (node_inode n), w))"
  using assms lookup_parts_ram [of dev "RamDir r" "path_parts path" w]
  by (auto simp: vfs_resolve_def Let_def op_simps)

lemma vfs_read_file_ram:
  assumes "root_fs mounts = Inr (RamFs r)" "List.find (mount_matches (path_parts path)) mounts = None"
    and "ram_walk (w_ram w) (RamDir r) (path_parts path) = Inr (RamFile f)"
  shows "vfs_read_file dev mounts path w = Some (Inr (ram_files (w_ram w) ! f), w)"
proof -
  have "vfs_open dev mounts path w = (Inr (RamFileHandle (ram_open_file f)), w)"
    using assms by (simp add: vfs_open_def op_simps vfs_resolve_ram)
  moreover have "file_position (RamFileHandle (ram_open_file f), w) = 0" by (simp add: ram_open_file_def)
  ultimately show ?thesis
    using vfile.read_loop_rest [of w "(RamFileHandle (ram_open_file f), w)" "[]"]
    by (auto simp: vfs_read_file_def ram_contents_def ram_open_file_def)
qed

lemma vfs_create_file_split:
  assumes "root_fs mounts = Inr (RamFs r)" "ram_ok (w_ram w)" "r < length (ram_dirs (w_ram w))"
    and "vfs_create_file dev mounts path w = (Inr fl, w1)"
  obtains d w0 h st where "path_parts path \<noteq> []"
    "create_parents dev (node_inode (RamDir r)) (butlast (path_parts path)) w = (Inr (node_inode (RamDir d)), w0)"
    "ram_create_child_file d (last (path_parts path)) (w_ram w0) = (Inr h, st)"
    "w1 = w0\<lparr>w_ram := st\<rparr>" "fl = RamFileHandle h"
proof (cases "length (path_parts path) = 1")
  case True
  then obtain p where p: "path_parts path = [p]" by (auto simp: length_Suc_conv)
  then show ?thesis
    using assms(1,4) that [of r w]
    by (auto simp: vfs_create_file_def Let_def sfail_def slift_def sbind_def sreturn_def on_ram_def ramfs_create_file_def
        split: if_splits prod.splits sum.splits)
next
  case False
  then have c: "path_parts path \<noteq> []"
    "sbind (resolve_or_create_parents dev mounts (butlast (path_parts path))) (\<lambda>parent.
       if \<not> inode_is_dir parent then sfail NotDirectory
       else inode_create_child_file dev parent (last (path_parts path))) w = (Inr fl, w1)"
    using assms(4) by (auto simp: vfs_create_file_def sfail_def Let_def split: if_splits)
  then obtain parent w0 where par:
    "create_parents dev (node_inode (RamDir r)) (butlast (path_parts path)) w = (Inr parent, w0)"
    "inode_is_dir parent" "inode_create_child_file dev parent (last (path_parts path)) w0 = (Inr fl, w1)"
    using assms(1) by (auto simp: sbind_value_iff resolve_or_create_parents_def op_simps split: if_splits)
  obtain d where "parent = node_inode (RamDir d)"
    using create_parents_ram [OF assms(2) _ par(1)] assms(3) par(2) by auto
  with par c(1) that [of d w0] show ?thesis
    by (auto simp: sbind_def sreturn_def on_ram_def split: prod.splits sum.splits)
qed

lemma ram_create_child_file_cases:
  assumes "ram_ok st" "d < length (ram_dirs st)" "ram_create_child_file d name st = (Inr h, st')"
  shows "rfh_pos h = 0 \<and> ram_ok st' \<and> ram_extends st st' \<and> rfh_data h < length (ram_files st')
    \<and> map_of (ram_dirs st' ! d) name = Some (RamFile (rfh_data h))
    \<and> (st' = st \<or> map_of (ram_dirs st ! d) name = None \<and> ram_files st' ! rfh_data h = [])"
proof (cases "map_of (ram_dirs st ! d) name")
  case None
  then have st': "st' = st\<lparr>ram_files := ram_files st @ [[]],
      ram_dirs := (ram_dirs st)[d := btree_insert name (RamFile (length (ram_files st))) (ram_dirs st ! d)]\<rparr>"
    and h: "h = \<lparr>rfh_data = length (ram_files st), rfh_pos = 0\<rparr>"
    using assms(3) by (simp_all add: ram_create_child_file_def Let_def)
  have "ram_extends st st'"
    using None assms(2) by (auto simp: st' ram_extends_def map_le_def nth_list_update)
  with ram_create_child_file_ok [OF assms] None show ?thesis by (simp add: h st')
next
  case (Some n)
  then have "st' = st" "rfh_pos h = 0"
    using assms(3) by (auto simp: ram_create_child_file_def split: ram_node.splits)
  with ram_create_child_file_ok [OF assms] show ?thesis by simp
qed

definition existing_file :: "ram_store \<Rightarrow> nat \<Rightarrow> rstring list \<Rightarrow> bytes" where
  "existing_file st r parts = (case ram_walk st (RamDir r) parts of Inr (RamFile f) \<Rightarrow> ram_files st ! f | _ \<Rightarrow> [])"

lemma vfs_create_file_ram:
  assumes "root_fs mounts = Inr (RamFs r)" "ram_ok (w_ram w)" "r < length (ram_dirs (w_ram w))"
    and "vfs_create_file dev mounts path w = (Inr fl, w1)"
  shows "\<exists>f. fl = RamFileHandle \<lparr>rfh_data = f, rfh_pos = 0\<rparr> \<and> f < length (ram_files (w_ram w1)) \<and> ram_ok (w_ram w1)
    \<and> w_devices w1 = w_devices w \<and> ram_extends (w_ram w) (w_ram w1)
    \<and> ram_walk (w_ram w1) (RamDir r) (path_parts path) = Inr (RamFile f)
    \<and> ram_files (w_ram w1) ! f = existing_file (w_ram w) r (path_parts path)"
proof -
  let ?ps = "path_parts path"
  obtain d w0 h st where c: "?ps \<noteq> []"
    "create_parents dev (node_inode (RamDir r)) (butlast ?ps) w = (Inr (node_inode (RamDir d)), w0)"
    "ram_create_child_file d (last ?ps) (w_ram w0) = (Inr h, st)" "w1 = w0\<lparr>w_ram := st\<rparr>" "fl = RamFileHandle h"
    using vfs_create_file_split [OF assms] by blast
  have nr: "node_ok (w_ram w) (RamDir r)" using assms(3) by simp
  have par: "w_devices w0 = w_devices w" "ram_ok (w_ram w0)" "ram_extends (w_ram w) (w_ram w0)"
    "d < length (ram_dirs (w_ram w0))" "ram_walk (w_ram w0) (RamDir r) (butlast ?ps) = Inr (RamDir d)"
    "w0 = w \<or> (ram_dirs (w_ram w0) ! d = [] \<and> (\<exists>e. ram_walk (w_ram w) (RamDir r) (butlast ?ps) = Inl e))"
    using create_parents_ram [OF assms(2) nr c(2)] by auto
  note f = ram_create_child_file_cases [OF par(2,4) c(3)]
  have walk: "ram_walk s (RamDir r) ?ps = rbind (ram_walk s (RamDir r) (butlast ?ps)) (\<lambda>n. ram_walk s n [last ?ps])" for s
    using ram_walk_append [of s "RamDir r" "butlast ?ps" "[last ?ps]"] c(1) by simp
  have "ram_walk st (RamDir r) (butlast ?ps) = Inr (RamDir d)"
    using ram_walk_extends [OF par(2) _ _ par(5)] f par(3) nr node_ok_mono [OF nr, of "w_ram w0"]
    by (auto simp: ram_extends_def)
  then have w1: "ram_walk st (RamDir r) ?ps = Inr (RamFile (rfh_data h))"
    using f by (simp add: walk)
  have "ram_files st ! rfh_data h = existing_file (w_ram w) r ?ps"
    using par(6)
  proof
    assume "w0 = w"
    with f par(5) w1 show ?thesis by (auto simp: existing_file_def walk)
  next
    assume "ram_dirs (w_ram w0) ! d = [] \<and> (\<exists>e. ram_walk (w_ram w) (RamDir r) (butlast ?ps) = Inl e)"
    with f show ?thesis by (auto simp: existing_file_def walk)
  qed
  with w1 f par(1) show ?thesis
    using ram_extends_trans [OF par(3)] by (auto simp: c(4,5) intro: exI [of _ "rfh_data h"])
qed

lemma vfs_write_file_ram:
  assumes "root_fs mounts = Inr (RamFs r)" "ram_ok (w_ram w)" "r < length (ram_dirs (w_ram w))"
    and "vfs_write_file dev mounts path data w = (Inr n, w')"
  obtains f w1 where "n = length data" "w_devices w1 = w_devices w" "path_parts path \<noteq> []"
    "f < length (ram_files (w_ram w1))" "ram_walk (w_ram w1) (RamDir r) (path_parts path) = Inr (RamFile f)"
    "w' = w1\<lparr>w_ram := (w_ram w1)\<lparr>ram_files :=
       (ram_files (w_ram w1))[f := data @ drop (length data) (existing_file (w_ram w) r (path_parts path))]\<rparr>\<rparr>"
proof -
  obtain fl w1 where c: "vfs_create_file dev mounts path w = (Inr fl, w1)"
    using assms(4) by (auto simp: vfs_write_file_def sbind_value_iff)
  then obtain f where f: "fl = RamFileHandle \<lparr>rfh_data = f, rfh_pos = 0\<rparr>" "f < length (ram_files (w_ram w1))"
    "w_devices w1 = w_devices w" "ram_walk (w_ram w1) (RamDir r) (path_parts path) = Inr (RamFile f)"
    "ram_files (w_ram w1) ! f = existing_file (w_ram w) r (path_parts path)"
    using vfs_create_file_ram [OF assms(1-3)] by blast
  have len: "length data < 2 ^ 64"
    using assms(4) by (auto simp: vfs_write_file_def op_simps c f(1) ram_file_write_def buffer_write_def split: if_splits)
  have ne: "path_parts path \<noteq> []"
    using c by (auto simp: vfs_create_file_def sfail_def)
  show thesis
    by (rule that [of w1 f, OF _ f(3) ne f(2,4)])
      (use assms(4) f(5) len in \<open>auto simp: vfs_write_file_def op_simps c f(1) ram_file_write_def
        buffer_write_value file_splice_def sbind_def sreturn_def slift_def\<close>)
qed

lemma ram_walk_files [simp]: "ram_walk (st\<lparr>ram_files := fs\<rparr>) m ps = ram_walk st m ps"
  by (induction st m ps rule: ram_walk.induct) (simp_all split: option.split)

text \<open>
  C13. Writing a file by path and reading it back. If no mount covers the path, a successful
  \<open>write_file\<close> reports all bytes written, and reading the path afterwards gives the data followed by
  the tail of what the file held before (nothing if the path did not exist): the file is not
  truncated.
\<close>

theorem vfs_write_read:
  assumes "root_fs mounts = Inr (RamFs r)" "ram_ok (w_ram w)" "r < length (ram_dirs (w_ram w))"
    and "List.find (mount_matches (path_parts path)) mounts = None"
    and "vfs_write_file dev mounts path data w = (Inr n, w')"
  shows "n = length data \<and> w_devices w' = w_devices w \<and>
    vfs_read_file dev mounts path w' =
      Some (Inr (data @ drop (length data) (existing_file (w_ram w) r (path_parts path))), w')"
proof (rule vfs_write_file_ram [OF assms(1-3,5)])
  fix f w1
  assume w: "n = length data" "w_devices w1 = w_devices w" "f < length (ram_files (w_ram w1))"
    "ram_walk (w_ram w1) (RamDir r) (path_parts path) = Inr (RamFile f)"
    "w' = w1\<lparr>w_ram := (w_ram w1)\<lparr>ram_files :=
       (ram_files (w_ram w1))[f := data @ drop (length data) (existing_file (w_ram w) r (path_parts path))]\<rparr>\<rparr>"
  then have "ram_walk (w_ram w') (RamDir r) (path_parts path) = Inr (RamFile f)" by simp
  from vfs_read_file_ram [OF assms(1,4) this] w show ?thesis by simp
qed

subsection \<open>Mount points and creation\<close>

text \<open>
  What is found below a FAT inode depends on the devices alone.
\<close>

lemma lookup_parts_fat:
  "\<exists>r reg. \<forall>st. lookup_parts dev (FatInode i) parts \<lparr>w_ram = st, w_devices = reg0\<rparr> =
     (case r of Inl e \<Rightarrow> Inl e | Inr j \<Rightarrow> Inr (FatInode j), \<lparr>w_ram = st, w_devices = reg\<rparr>)"
proof (induction parts arbitrary: i reg0)
  case Nil
  show ?case
    by (rule exI [of _ "Inr i"], rule exI [of _ reg0]) (simp add: sreturn_def)
next
  case (Cons p ps)
  obtain r1 reg1 where l: "fat_inode_lookup dev i p reg0 = (r1, reg1)" by fastforce
  show ?case
  proof (cases r1)
    case (Inl e)
    then show ?thesis
      using l by (intro exI [of _ "Inl e"] exI [of _ reg1]) (simp add: sbind_def on_devices_def)
  next
    case (Inr j)
    obtain r reg where "\<forall>st. lookup_parts dev (FatInode j) ps \<lparr>w_ram = st, w_devices = reg1\<rparr> =
        (case r of Inl e \<Rightarrow> Inl e | Inr j \<Rightarrow> Inr (FatInode j), \<lparr>w_ram = st, w_devices = reg\<rparr>)"
      using Cons.IH by blast
    then show ?thesis
      using l Inr by (intro exI [of _ r] exI [of _ reg]) (simp add: sbind_def on_devices_def sreturn_def)
  qed
qed

text \<open>
  C35. Creation ignores mount points. Writing a file below a mounted FAT volume (a path of
  at least two components that the mount covers) never changes a device, and opening the path
  afterwards gives exactly the outcome it gave before: the data is in the RAM filesystem, out of reach.
\<close>

theorem vfs_write_bypasses_mounts:
  assumes "root_fs mounts = Inr (RamFs r)" "ram_ok (w_ram w)" "r < length (ram_dirs (w_ram w))"
    and "List.find (mount_matches (path_parts path)) mounts = Some m" "me_fs m = Fat32Fs inner"
    and "vfs_write_file dev mounts path data w = (Inr n, w')"
  shows "w_devices w' = w_devices w \<and> fst (vfs_open dev mounts path w') = fst (vfs_open dev mounts path w)"
proof -
  have dev: "w_devices w' = w_devices w" and parts: "path_parts path \<noteq> []"
    using vfs_write_file_ram [OF assms(1-3,6), of "w_devices w' = w_devices w \<and> path_parts path \<noteq> []"] by simp_all
  obtain i where i: "fs_root (me_fs m) = FatInode i" by (simp add: assms(5))
  have ne: "path \<noteq> ascii ''/''" "path \<noteq> []" using parts by auto
  have res: "vfs_resolve dev mounts path =
      lookup_parts dev (FatInode i) (drop (length (path_parts (me_path m))) (path_parts path))"
    using ne parts assms(4) i by (simp add: vfs_resolve_def Let_def)
  obtain q reg where q: "\<And>st. vfs_resolve dev mounts path \<lparr>w_ram = st, w_devices = w_devices w\<rparr> =
      (case q of Inl e \<Rightarrow> Inl e | Inr j \<Rightarrow> Inr (FatInode j), \<lparr>w_ram = st, w_devices = reg\<rparr>)"
    using lookup_parts_fat [of dev i _ "w_devices w"] unfolding res by blast
  have "fst (vfs_open dev mounts path \<lparr>w_ram = st, w_devices = w_devices w\<rparr>) =
      (case q of Inl e \<Rightarrow> Inl e | Inr j \<Rightarrow> map_sum id FatFile (fst (fat_inode_open dev j reg)))" for st
    by (cases q) (auto simp: vfs_open_def sbind_def q on_devices_def sreturn_def split: prod.splits sum.splits)
  from this [of "w_ram w"] this [of "w_ram w'"] dev show ?thesis
    by (cases w, cases w') simp
qed

subsection \<open>Concrete instances\<close>

definition ex_inner :: fat_inner where
  "ex_inner = \<lparr>fi_device_id = 0, fi_bpb = ex_bpb\<rparr>"

definition ex_vfs :: vfs where
  "ex_vfs = [\<lparr>me_path = ascii ''/'', me_fs = RamFs 0\<rparr>, \<lparr>me_path = ascii ''/disk'', me_fs = Fat32Fs ex_inner\<rparr>]"

definition ex_world :: "ramdisk world" where
  "ex_world = \<lparr>w_ram = \<lparr>ram_files = [[1, 2, 3]], ram_dirs = [[(ascii ''motd'', RamFile 0)]]\<rparr>, w_devices = registry_new\<rparr>"

lemma ex_vfs_facts: "root_fs ex_vfs = Inr (RamFs 0)" "ram_ok (w_ram ex_world)" "0 < length (ram_dirs (w_ram ex_world))"
  by (simp_all add: root_fs_def ex_vfs_def ex_world_def ram_ok_def btree_ordered_def)

theorem vfs_read_file_whole_witness:
  "vfs_read_file ramdisk_dev ex_vfs (ascii ''/motd'') ex_world = Some (Inr [1, 2, 3], ex_world)"
proof -
  have "vfs_open ramdisk_dev ex_vfs (ascii ''/motd'') ex_world = (Inr (RamFileHandle (ram_open_file 0)), ex_world)"
    by code_simp
  from vfs_read_file_whole [OF this] show ?thesis
    by (simp add: ram_contents_def ram_open_file_def ex_world_def)
qed

theorem vfs_write_read_witness:
  "\<exists>w'. vfs_write_file ramdisk_dev ex_vfs (ascii ''/motd'') [9] ex_world = (Inr 1, w') \<and>
     vfs_read_file ramdisk_dev ex_vfs (ascii ''/motd'') w' = Some (Inr [9, 2, 3], w')"
proof -
  let ?w = "ex_world\<lparr>w_ram := \<lparr>ram_files = [[9, 2, 3]], ram_dirs = [[(ascii ''motd'', RamFile 0)]]\<rparr>\<rparr>"
  have w: "vfs_write_file ramdisk_dev ex_vfs (ascii ''/motd'') [9] ex_world = (Inr 1, ?w)"
    by code_simp
  have "List.find (mount_matches (path_parts (ascii ''/motd''))) ex_vfs = None"
    "existing_file (w_ram ex_world) 0 (path_parts (ascii ''/motd'')) = [1, 2, 3]"
    by code_simp+
  with vfs_write_read [OF ex_vfs_facts _ w] w show ?thesis by auto
qed

theorem vfs_write_bypasses_mounts_witness:
  "\<exists>w'. vfs_write_file ramdisk_dev ex_vfs (ascii ''/disk/log'') [9] ex_world = (Inr 1, w') \<and>
     w_devices w' = registry_new \<and>
     fst (vfs_open ramdisk_dev ex_vfs (ascii ''/disk/log'') w') = fst (vfs_open ramdisk_dev ex_vfs (ascii ''/disk/log'') ex_world)"
proof -
  let ?w = "ex_world\<lparr>w_ram := \<lparr>ram_files = [[1, 2, 3], [9]],
     ram_dirs = [[(ascii ''disk'', RamDir 1), (ascii ''motd'', RamFile 0)], [(ascii ''log'', RamFile 1)]]\<rparr>\<rparr>"
  have w: "vfs_write_file ramdisk_dev ex_vfs (ascii ''/disk/log'') [9] ex_world = (Inr 1, ?w)"
    by code_simp
  have "List.find (mount_matches (path_parts (ascii ''/disk/log''))) ex_vfs = Some \<lparr>me_path = ascii ''/disk'', me_fs = Fat32Fs ex_inner\<rparr>"
    by code_simp
  from vfs_write_bypasses_mounts [OF ex_vfs_facts this _ w] w show ?thesis
    by (auto simp: ex_world_def)
qed

end
