(* ===== verification/Kernel_State.thy ===== *)
theory Kernel_State
  imports Process_Events Keyboard Vfs "HOL-Library.Multiset"
begin

text \<open>
  The state the system calls and the context switch work on: the process table, pipes, console, open files
  and file systems, the per-CPU data, and the kernel stacks and user address spaces that are allocated. A call is
  an operation on this state whose errors are the (negative) error numbers; halting the machine and panics are
  crashes. \<open>k_lost\<close> is not part of the program: it records the kernel stacks among the allocated ones that a call
  dropped without releasing them. Open files are shared cells (\<open>Arc\<close>); a cell is dropped with its last reference.
\<close>

subsection \<open>State\<close>

record 'd kernel =
  k_sched :: scheduler
  k_machine :: machine
  k_pipes :: pipe_table
  k_console :: console
  k_ticks :: u64
  k_init_pid :: pid
  k_force_switch :: bool
  k_cr3 :: u64
  k_deferred_cr3 :: u64
  k_kernel_rsp :: u64
  k_deferred :: "(u64 \<times> u64 \<times> bool) list"
  k_stacks :: "u64 list"
  k_lost :: "u64 list"
  k_spaces :: "u64 list"
  k_vfs :: vfs
  k_world :: "'d world"
  k_files :: "open_file list"

type_synonym ('d, 'a) kop = "('d kernel, int, 'a) op"

definition kget :: "('d kernel \<Rightarrow> 'a) \<Rightarrow> ('d, 'a) kop" where
  "kget f k = (Inr (f k), k)"

definition kmodify :: "('d kernel \<Rightarrow> 'd kernel) \<Rightarrow> ('d, unit) kop" where
  "kmodify f k = (Inr (), f k)"

definition on_world :: "('d world, vfs_error, 'a) op \<Rightarrow> ('d, 'a) kop" where
  "on_world m k = (case smap_err vfs_error_to_errno m (k_world k) of (r, w) \<Rightarrow> (r, k\<lparr>k_world := w\<rparr>))"

definition modify_sched :: "(scheduler \<Rightarrow> scheduler) \<Rightarrow> 'd kernel \<Rightarrow> 'd kernel" where
  "modify_sched f k = k\<lparr>k_sched := f (k_sched k)\<rparr>"

definition wake_blocked :: "'d kernel \<Rightarrow> 'd kernel" where
  "wake_blocked k = modify_sched (keyboard_wake (k_pipes k)) k"

definition set_force_switch :: "'d kernel \<Rightarrow> 'd kernel" where
  "set_force_switch k = k\<lparr>k_force_switch := True\<rparr>"

subsection \<open>Releasing resources\<close>

definition free_stack :: "u64 \<Rightarrow> 'd kernel \<Rightarrow> 'd kernel" where
  "free_stack a k = k\<lparr>k_stacks := remove1 a (k_stacks k)\<rparr>"

definition free_space :: "u64 \<Rightarrow> 'd kernel \<Rightarrow> 'd kernel" where
  "free_space a k = k\<lparr>k_spaces := remove1 a (k_spaces k)\<rparr>"

definition handle_cells :: "process \<Rightarrow> nat list" where
  "handle_cells p = concat (map (\<lambda>h. case h of None \<Rightarrow> [] | Some a \<Rightarrow> [a]) (p_file_handles p))"

definition table_cells :: "scheduler \<Rightarrow> nat list" where
  "table_cells s = concat (map (\<lambda>slot. case slot of None \<Rightarrow> [] | Some p \<Rightarrow> handle_cells p) (s_processes s))"

text \<open>Dropping one reference to a cell: the file is closed (\<open>Drop\<close>) if nothing refers to it any more.\<close>

definition drop_cell :: "'d blockdev \<Rightarrow> nat list \<Rightarrow> nat \<Rightarrow> ('d, unit) kop" where
  "drop_cell dev others a = (\<lambda>k.
     if a \<in> set others \<or> a \<in> set (table_cells (k_sched k)) then (Inr (), k)
     else sbind (stry (on_world (file_drop dev (k_files k ! a)))) (\<lambda>_. sreturn ()) k)"

fun drop_cells :: "'d blockdev \<Rightarrow> nat list \<Rightarrow> ('d, unit) kop" where
  "drop_cells dev [] = sreturn ()"
| "drop_cells dev (a # cells) = sbind (drop_cell dev cells a) (\<lambda>_. drop_cells dev cells)"

definition free_process_memory :: "process \<Rightarrow> 'd kernel \<Rightarrow> 'd kernel" where
  "free_process_memory p k = (case drop_process_memory p of (pml4, stack) \<Rightarrow>
     (case stack of None \<Rightarrow> (\<lambda>k. k) | Some a \<Rightarrow> free_stack a)
       ((case pml4 of None \<Rightarrow> (\<lambda>k. k) | Some a \<Rightarrow> free_space a) k))"

definition drop_process :: "'d blockdev \<Rightarrow> process \<Rightarrow> ('d, unit) kop" where
  "drop_process dev p =
     sbind (kmodify (\<lambda>k. free_process_memory p (k\<lparr>k_pipes := drop_process_pipes p (k_pipes k)\<rparr>))) (\<lambda>_.
     drop_cells dev (handle_cells p))"

definition reap_process :: "'d blockdev \<Rightarrow> pid \<Rightarrow> ('d, unit) kop" where
  "reap_process dev pid = (\<lambda>k. case s_processes (k_sched k) ! pid of
     None \<Rightarrow> (Inr (), k)
   | Some p \<Rightarrow> drop_process dev p (modify_sched (reap_zombie pid) k))"

subsection \<open>Resource accounting\<close>

text \<open>The kernel stacks and address spaces a slot, the table and the deferred list hold.\<close>

definition slot_stack :: "process option \<Rightarrow> u64 list" where
  "slot_stack slot = (case slot of None \<Rightarrow> [] | Some p \<Rightarrow> if p_kernel_stack_base p \<noteq> 0 then [p_kernel_stack_base p] else [])"

definition slot_space :: "process option \<Rightarrow> u64 list" where
  "slot_space slot = (case slot of None \<Rightarrow> [] | Some p \<Rightarrow> if p_is_user p \<and> p_pml4_phys p \<noteq> 0 then [p_pml4_phys p] else [])"

definition deferred_stacks :: "(u64 \<times> u64 \<times> bool) list \<Rightarrow> u64 list" where
  "deferred_stacks ds = concat (map (\<lambda>(stack, pml4, user). if stack \<noteq> 0 then [stack] else []) ds)"

definition deferred_spaces :: "(u64 \<times> u64 \<times> bool) list \<Rightarrow> u64 list" where
  "deferred_spaces ds = concat (map (\<lambda>(stack, pml4, user). if user \<and> pml4 \<noteq> 0 then [pml4] else []) ds)"

definition held_stacks :: "'d kernel \<Rightarrow> u64 multiset" where
  "held_stacks k = mset (concat (map slot_stack (s_processes (k_sched k)))) + mset (deferred_stacks (k_deferred k))"

definition held_spaces :: "'d kernel \<Rightarrow> u64 multiset" where
  "held_spaces k = mset (concat (map slot_space (s_processes (k_sched k)))) + mset (deferred_spaces (k_deferred k))"

end
