(* ===== verification/Context_Switch.thy ===== *)
theory Context_Switch
  imports Kernel_State
begin

text \<open>
  The context switch (\<^verbatim>\<open>indo-kernel/src/process/context_switch.rs\<close>) above the scheduler: the timer's
  \<open>schedule\<close>, \<open>schedule_force\<close> after a system call, \<open>kill_process\<close> after a fault, and the deferred release of the
  stack a dying process still runs on. The register saves of the naked handlers and the FPU state are left out; of
  the timer handler the deferred switch of the page table is modelled.
\<close>

subsection \<open>Deferred release\<close>

definition MAX_DEFERRED :: nat where "MAX_DEFERRED = 8"

definition defer_free :: "u64 \<Rightarrow> u64 \<Rightarrow> bool \<Rightarrow> ('d, unit) kop" where
  "defer_free kstack pml4 is_user = (\<lambda>k.
     if length (k_deferred k) < MAX_DEFERRED then (Inr (), k\<lparr>k_deferred := k_deferred k @ [(kstack, pml4, is_user)]\<rparr>)
     else (Inl (Crash (Panic ''deferred slots full'')), k))"

definition free_deferred :: "u64 \<times> u64 \<times> bool \<Rightarrow> 'd kernel \<Rightarrow> 'd kernel" where
  "free_deferred d k = (case d of (kstack, pml4, is_user) \<Rightarrow>
     let k = (if is_user \<and> pml4 \<noteq> 0 then free_space pml4 k else k) in
     if kstack \<noteq> 0 then free_stack kstack k else k)"

definition drain_deferred_free :: "'d kernel \<Rightarrow> 'd kernel" where
  "drain_deferred_free k = fold free_deferred (k_deferred k) (k\<lparr>k_deferred := []\<rparr>)"

subsection \<open>Switching\<close>

definition target_pml4 :: "process \<Rightarrow> u64" where
  "target_pml4 p = (if p_saved_cr3 p \<noteq> 0 then p_saved_cr3 p else p_pml4_phys p)"

text \<open>Loading the page table and the kernel stack of the process that runs next.\<close>

definition load_process :: "'d kernel \<Rightarrow> 'd kernel" where
  "load_process k = (case current_process (k_sched k) of
     None \<Rightarrow> k
   | Some p \<Rightarrow> k\<lparr>k_cr3 := target_pml4 p, k_kernel_rsp := p_kernel_stack_base p + KERNEL_STACK_SIZE\<rparr>)"

text \<open>The stack pointer to return: that of idle in place of zero; halting if that is zero too.\<close>

definition checked_sp :: "u64 \<Rightarrow> ('d, u64) kop" where
  "checked_sp new_sp = (\<lambda>k.
     if new_sp \<noteq> 0 then (Inr new_sp, k)
     else let idle_sp = sp_of (s_idle_pid (k_sched k)) (k_sched k) in
       if idle_sp \<noteq> 0 then (Inr idle_sp, k) else (Inl (Crash (Panic ''no idle SP available'')), k))"

definition dispatch :: "u64 \<Rightarrow> ('d, u64) kop" where
  "dispatch saved_rsp = (\<lambda>k. case find_next_ready 0 (k_sched k) of
     None \<Rightarrow> (Inr saved_rsp, k)
   | Some first_pid \<Rightarrow> (case dispatch_first first_pid (k_sched k) of (sp, s) \<Rightarrow>
       let k = k\<lparr>k_sched := s\<rparr> in
       (Inr sp, case current_process s of
          None \<Rightarrow> k
        | Some p \<Rightarrow> k\<lparr>k_deferred_cr3 := if k_cr3 k \<noteq> p_pml4_phys p then p_pml4_phys p else k_deferred_cr3 k,
                     k_kernel_rsp := p_kernel_stack_base p + KERNEL_STACK_SIZE\<rparr>)))"

definition tick_process :: "u64 \<Rightarrow> ('d, u64) kop" where
  "tick_process saved_rsp = (\<lambda>k.
     let s = save_current_sp saved_rsp (k_cr3 k) (k_sched k) in
     case on_tick (k_ticks k) (s, k_machine k) of (new_sp, s', m) \<Rightarrow>
       checked_sp new_sp (load_process (k\<lparr>k_sched := s', k_machine := m\<rparr>)))"

definition take_pending_wake :: "'d kernel \<Rightarrow> 'd kernel" where
  "take_pending_wake k =
     (if con_wake_pending (k_console k)
      then wake_blocked (k\<lparr>k_console := (k_console k)\<lparr>con_wake_pending := False\<rparr>\<rparr>) else k)"

definition schedule :: "u64 \<Rightarrow> ('d, u64) kop" where
  "schedule saved_rsp = (\<lambda>k.
     let k = take_pending_wake (drain_deferred_free k);
         k = k\<lparr>k_ticks := k_ticks k + 1\<rparr> in
     if s_current_pid (k_sched k) = None then dispatch saved_rsp k else tick_process saved_rsp k)"

definition timer_interrupt :: "u64 \<Rightarrow> ('d, u64) kop" where
  "timer_interrupt saved_rsp =
     sbind (schedule saved_rsp) (\<lambda>sp.
     sbind (kmodify (\<lambda>k. if k_deferred_cr3 k \<noteq> 0 then k\<lparr>k_cr3 := k_deferred_cr3 k, k_deferred_cr3 := 0\<rparr> else k)) (\<lambda>_.
     sreturn sp))"

text \<open>Handing a dead process's stack and page table to the deferred list.\<close>

definition strip_process :: "process \<Rightarrow> process" where
  "strip_process p = p\<lparr>p_kernel_stack_base := 0, p_pml4_phys := 0\<rparr>"

definition defer_dead :: "pid \<Rightarrow> process \<Rightarrow> ('d, unit) kop" where
  "defer_dead pid p =
     (if p_kernel_stack_base p \<noteq> 0 \<or> p_pml4_phys p \<noteq> 0
      then sbind (defer_free (p_kernel_stack_base p) (p_pml4_phys p) (p_is_user p)) (\<lambda>_.
           kmodify (modify_sched (update_process pid strip_process)))
      else sreturn ())"

definition schedule_force :: "u64 \<Rightarrow> ('d, u64) kop" where
  "schedule_force saved_rsp = (\<lambda>k.
     let s = save_current_sp saved_rsp (k_cr3 k) (k_sched k) in
     case switch_next_force (s, k_machine k) of (new_sp, s', m) \<Rightarrow>
       sbind (case (s_current_pid s, current_process s) of
                (Some pid, Some p) \<Rightarrow> if p_state p = Zombie then defer_dead pid p else sreturn ()
              | _ \<Rightarrow> sreturn ()) (\<lambda>_. checked_sp new_sp)
         (load_process (k\<lparr>k_sched := s', k_machine := m\<rparr>)))"

definition kill_current :: "('d, u64) kop" where
  "kill_current = (\<lambda>k. case kill_process (k_init_pid k) (k_sched k) of (new_sp, s') \<Rightarrow>
     sbind (case (s_current_pid (k_sched k), current_process (k_sched k)) of
              (Some pid, Some p) \<Rightarrow> defer_dead pid p | _ \<Rightarrow> sreturn ()) (\<lambda>_. sreturn new_sp)
       (load_process (k\<lparr>k_sched := s'\<rparr>)))"

text \<open>After a system call the entry code switches away if the call asked for it.\<close>

definition syscall_exit :: "u64 \<Rightarrow> ('d, u64) kop" where
  "syscall_exit saved_rsp = (\<lambda>k.
     if k_force_switch k then schedule_force saved_rsp (k\<lparr>k_force_switch := False\<rparr>) else (Inr saved_rsp, k))"

subsection \<open>Spawning\<close>

text \<open>Spawning takes a kernel stack from the heap (\<open>stack\<close>, \<open>None\<close> when it is exhausted), if there is a free slot.\<close>

definition take_stack :: "u64 option \<Rightarrow> 'd kernel \<Rightarrow> 'd kernel" where
  "take_stack stack k = (case (free_pid (k_sched k), stack) of
     (Some _, Some a) \<Rightarrow> k\<lparr>k_stacks := a # k_stacks k\<rparr> | _ \<Rightarrow> k)"

definition kernel_spawn_kernel :: "u64 \<Rightarrow> u64 \<Rightarrow> u64 option \<Rightarrow> 'd kernel \<Rightarrow> pid option \<times> 'd kernel" where
  "kernel_spawn_kernel entry_virt cr3 stack k =
     (case spawn_kernel entry_virt cr3 stack (k_sched k, k_machine k) of
        (r, s, m) \<Rightarrow> (r, (take_stack stack k)\<lparr>k_sched := s, k_machine := m\<rparr>))"

text \<open>The last step of \<open>spawn_user\<close>: the address space was created and loaded before.\<close>

definition kernel_spawn_user ::
  "u64 \<Rightarrow> u64 \<Rightarrow> u64 \<Rightarrow> u64 \<Rightarrow> u64 \<Rightarrow> pid option \<Rightarrow> u64 option \<Rightarrow> 'd kernel \<Rightarrow> pid option \<times> 'd kernel" where
  "kernel_spawn_user user_cs user_ss user_rip user_rsp pml4 parent stack k =
     (case spawn_user user_cs user_ss user_rip user_rsp pml4 parent stack (k_sched k, k_machine k) of
        (r, s, m) \<Rightarrow> (r, (take_stack stack k)\<lparr>k_sched := s, k_spaces := pml4 # k_spaces k, k_machine := m\<rparr>))"

end
