(* ===== verification/Paths.thy ===== *)
theory Paths
  imports Vfs
begin

text \<open>
  Resolution of paths against the working directory: \<open>resolve_cwd\<close> and \<open>normalize_path\<close> of
  \<^verbatim>\<open>indo-kernel/src/syscall/mod.rs\<close>.
\<close>

subsection \<open>Definitions\<close>

definition resolve_part :: "rstring list \<Rightarrow> rstring \<Rightarrow> rstring list" where
  "resolve_part parts part =
     (if part = ascii ''.'' then parts else if part = ascii ''..'' then butlast parts else parts @ [part])"

fun join_parts :: "rstring list \<Rightarrow> rstring" where
  "join_parts [] = []"
| "join_parts [part] = part"
| "join_parts (part # parts) = part @ 0x2F # join_parts parts"

definition absolute :: "rstring list \<Rightarrow> rstring" where
  "absolute parts = 0x2F # join_parts parts"

definition normalize_path :: "rstring \<Rightarrow> rstring" where
  "normalize_path path = absolute (foldl resolve_part [] (path_parts path))"

definition resolve_cwd :: "rstring \<Rightarrow> rstring \<Rightarrow> rstring" where
  "resolve_cwd cwd path =
     (if path \<noteq> [] \<and> hd path = 0x2F then normalize_path path
      else absolute (foldl resolve_part (path_parts cwd) (path_parts path)))"

subsection \<open>Components\<close>

lemma split_on_join: "split_on c (xs @ c # ys) = split_on c xs @ split_on c ys"
  by (induction xs) (auto split: list.split)

lemma path_parts_append: "path_parts (xs @ 0x2F # ys) = path_parts xs @ path_parts ys"
  by (simp add: path_parts_def split_on_join)

lemma path_parts_skip_slash: "path_parts (0x2F # xs) = path_parts xs"
  by (simp add: path_parts_def)

lemma path_parts_pieces: "part \<in> set (path_parts path) \<Longrightarrow> part \<noteq> [] \<and> 0x2F \<notin> set part"
  by (auto simp: path_parts_def dest: split_on_pieces)

lemma path_parts_piece: "part \<noteq> [] \<Longrightarrow> 0x2F \<notin> set part \<Longrightarrow> path_parts part = [part]"
  by (simp add: path_parts_def split_on_absent)

lemma path_parts_join:
  "(\<And>part. part \<in> set parts \<Longrightarrow> part \<noteq> [] \<and> 0x2F \<notin> set part) \<Longrightarrow> path_parts (join_parts parts) = parts"
proof (induction parts rule: join_parts.induct)
  case 1
  then show ?case by (simp add: path_parts_def)
next
  case (2 part)
  then show ?case by (simp add: path_parts_piece)
next
  case (3 part part' parts)
  then show ?case by (simp add: path_parts_append path_parts_piece)
qed

lemma path_parts_absolute:
  "(\<And>part. part \<in> set parts \<Longrightarrow> part \<noteq> [] \<and> 0x2F \<notin> set part) \<Longrightarrow> path_parts (absolute parts) = parts"
  by (simp add: absolute_def path_parts_skip_slash path_parts_join)

text \<open>A component that resolution keeps.\<close>

definition plain_part :: "rstring \<Rightarrow> bool" where
  "plain_part part \<longleftrightarrow> part \<noteq> [] \<and> 0x2F \<notin> set part \<and> part \<noteq> ascii ''.'' \<and> part \<noteq> ascii ''..''"

lemma resolve_part_set:
  assumes "p \<in> set (resolve_part acc part)"
  shows "p \<in> set acc \<or> p = part \<and> part \<noteq> ascii ''.'' \<and> part \<noteq> ascii ''..''"
proof (cases "part = ascii ''.'' \<or> part = ascii ''..''")
  case True
  have "set (resolve_part acc part) \<subseteq> set acc"
  proof (cases "part = ascii ''.''")
    case False
    with True have "resolve_part acc part = butlast acc" by (simp add: resolve_part_def)
    then show ?thesis using in_set_butlastD [of _ acc] by (simp add: subset_iff)
  qed (simp add: resolve_part_def)
  then show ?thesis using assms by (simp add: subset_iff)
next
  case False
  then have "resolve_part acc part = acc @ [part]" by (simp add: resolve_part_def)
  then show ?thesis using assms False by (cases "p = part") simp_all
qed

lemma foldl_resolve_plain:
  assumes "\<forall>part \<in> set acc. plain_part part" "\<forall>part \<in> set parts. part \<noteq> [] \<and> 0x2F \<notin> set part"
  shows "\<forall>part \<in> set (foldl resolve_part acc parts). plain_part part"
  using assms
proof (induction parts arbitrary: acc)
  case (Cons part parts)
  have "plain_part p" if "p \<in> set (resolve_part acc part)" for p
    using resolve_part_set [OF that] Cons.prems by (cases "p \<in> set acc") (simp_all add: plain_part_def)
  then have "\<forall>p \<in> set (resolve_part acc part). plain_part p" by (intro ballI)
  from Cons.IH [OF this] Cons.prems(2) show ?case by simp
qed simp

lemma foldl_resolve_keep: "\<forall>part \<in> set parts. plain_part part \<Longrightarrow> foldl resolve_part acc parts = acc @ parts"
proof (induction parts arbitrary: acc)
  case (Cons part parts)
  then have "resolve_part acc part = acc @ [part]" by (simp add: resolve_part_def plain_part_def)
  with Cons show ?case by simp
qed simp

lemma normalize_parts:
  "path_parts (normalize_path path) = foldl resolve_part [] (path_parts path)"
  "\<forall>part \<in> set (path_parts (normalize_path path)). plain_part part"
proof -
  have plain: "\<forall>part \<in> set (foldl resolve_part [] (path_parts path)). plain_part part"
    by (rule foldl_resolve_plain) (auto dest: path_parts_pieces)
  then show eq: "path_parts (normalize_path path) = foldl resolve_part [] (path_parts path)"
    unfolding normalize_path_def by (intro path_parts_absolute) (auto simp: plain_part_def)
  show "\<forall>part \<in> set (path_parts (normalize_path path)). plain_part part"
    using plain unfolding eq .
qed

subsection \<open>Normal paths\<close>

text \<open>
  What the components of a path mean, as cancellations independent of any order of evaluation: \<open>.\<close> is void, a name and the \<open>..\<close>
  after it cancel, and \<open>..\<close> at the root is void.
\<close>

inductive cancel :: "rstring list \<Rightarrow> rstring list \<Rightarrow> bool" where
  cancel_dot: "cancel (xs @ ascii ''.'' # ys) (xs @ ys)"
| cancel_name: "plain_part part \<Longrightarrow> cancel (xs @ part # ascii ''..'' # ys) (xs @ ys)"
| cancel_root: "cancel (ascii ''..'' # ys) ys"

lemma dots_differ: "ascii ''..'' \<noteq> ascii ''.''"
  by (simp add: ascii_def)

lemma foldl_resolve_cancel:
  "list_all plain_part acc \<Longrightarrow> list_all (\<lambda>p. p \<noteq> [] \<and> 0x2F \<notin> set p) parts \<Longrightarrow>
    cancel\<^sup>*\<^sup>* (acc @ parts) (foldl resolve_part acc parts)"
proof (induction parts arbitrary: acc)
  case (Cons part parts)
  have rest: "list_all (\<lambda>p. p \<noteq> [] \<and> 0x2F \<notin> set p) parts" using Cons.prems(2) by simp
  consider "part = ascii ''.''" | "part = ascii ''..''" "acc = []" | b p where "part = ascii ''..''" "acc = b @ [p]" | "plain_part part"
    using Cons.prems(2) by (cases acc rule: rev_cases) (auto simp: plain_part_def)
  then show ?case
  proof cases
    case 1
    then show ?thesis using Cons.IH [OF Cons.prems(1) rest] cancel_dot [of acc parts] by (simp add: resolve_part_def)
  next
    case 2
    then show ?thesis using Cons.IH [OF _ rest, of "[]"] cancel_root [of parts] by (simp add: resolve_part_def dots_differ)
  next
    case (3 b p)
    then show ?thesis using Cons.IH [OF _ rest, of b] cancel_name [of p b parts] Cons.prems(1)
      by (simp add: resolve_part_def dots_differ)
  next
    case 4
    then show ?thesis using Cons.IH [OF _ rest, of "acc @ [part]"] Cons.prems(1) by (simp add: resolve_part_def plain_part_def)
  qed
qed simp

lemma cancel_resolve: "cancel\<^sup>*\<^sup>* xs ys \<Longrightarrow> foldl resolve_part [] ys = foldl resolve_part [] xs"
proof (induction rule: rtranclp_induct)
  case (step ys zs)
  from step.hyps(2) have "foldl resolve_part [] zs = foldl resolve_part [] ys"
    by cases (simp_all add: resolve_part_def dots_differ plain_part_def)
  then show ?case using step.IH by simp
qed simp

lemma split_on_parts:
  "list_all plain_part parts \<Longrightarrow> split_on 0x2F (join_parts parts) = (if parts = [] then [[]] else parts)"
proof (induction parts rule: join_parts.induct)
  case (3 part part' parts)
  then show ?case by (simp add: split_on_append plain_part_def)
qed (simp_all add: split_on_absent plain_part_def)

text \<open>
  C24. The normalised path is a slash followed by components that are separated by single slashes, and these
  components are the only list without \<open>.\<close>, \<open>..\<close> and empty names to which those of the path cancel: a name and a
  following \<open>..\<close>, any \<open>.\<close>, and a \<open>..\<close> at the root. Normalising again changes nothing.
\<close>

theorem normalize_normal:
  "\<exists>parts. split_on 0x2F (normalize_path path) = [] # (if parts = [] then [[]] else parts)
     \<and> {ps. cancel\<^sup>*\<^sup>* (path_parts path) ps \<and> list_all plain_part ps} = {parts}
     \<and> normalize_path (normalize_path path) = normalize_path path"
proof (intro exI conjI)
  let ?parts = "path_parts (normalize_path path)"
  have plain: "list_all plain_part ?parts" using normalize_parts(2) [of path] by (simp add: list_all_iff)
  have norm: "normalize_path path = absolute ?parts" 
    using normalize_path_def [of path] normalize_parts(1) [of path] by (rule trans [OF _ arg_cong [OF sym]])
  show "split_on 0x2F (normalize_path path) = [] # (if ?parts = [] then [[]] else ?parts)"
    by (subst norm) (simp add: absolute_def split_on_parts [OF plain])
  have self: "foldl resolve_part [] ps = ps" if "list_all plain_part ps" for ps
    using foldl_resolve_keep [of ps "[]"] that by (simp add: list_all_iff)
  have "cancel\<^sup>*\<^sup>* (path_parts path) ?parts"
    unfolding normalize_parts(1) using foldl_resolve_cancel [of "[]" "path_parts path"] path_parts_pieces [of _ path] by (simp add: list_all_iff)
  moreover have "ps = ?parts" if "cancel\<^sup>*\<^sup>* (path_parts path) ps" "list_all plain_part ps" for ps
    using cancel_resolve [OF that(1)] self [OF that(2)] by (simp add: normalize_parts(1))
  ultimately show "{ps. cancel\<^sup>*\<^sup>* (path_parts path) ps \<and> list_all plain_part ps} = {?parts}" using plain by blast
  show "normalize_path (normalize_path path) = normalize_path path"
    by (subst normalize_path_def) (simp only: self [OF plain] norm [symmetric])
qed

text \<open>
  C23. Resolving a path against a normalised working directory is normalising it, after
  appending a relative path to the directory: the two loops agree, and no \<open>..\<close> escapes the root.
\<close>

theorem resolve_cwd_equiv:
  assumes "normalize_path cwd = cwd"
  shows "resolve_cwd cwd path = normalize_path (if path \<noteq> [] \<and> hd path = 0x2F then path else cwd @ 0x2F # path)"
proof -
  have "foldl resolve_part [] (path_parts cwd) = path_parts cwd"
    using foldl_resolve_keep [OF normalize_parts(2) [of cwd], of "[]"] by (simp add: assms)
  then show ?thesis by (simp add: resolve_cwd_def normalize_path_def path_parts_append)
qed

theorem resolve_cwd_equiv_witness:
  "normalize_path (ascii ''/usr/bin'') = ascii ''/usr/bin''
   \<and> resolve_cwd (ascii ''/usr/bin'') (ascii ''../lib/./x'') = ascii ''/usr/lib/x''"
proof -
  have n: "normalize_path (ascii ''/usr/bin'') = ascii ''/usr/bin''" by code_simp
  have "normalize_path (ascii ''/usr/bin'' @ 0x2F # ascii ''../lib/./x'') = ascii ''/usr/lib/x''" by code_simp
  moreover have "hd (ascii ''../lib/./x'') \<noteq> 0x2F" by code_simp
  ultimately show ?thesis using resolve_cwd_equiv [OF n, of "ascii ''../lib/./x''"] n by simp
qed

end
