(* ===== verification/Syscalls.thy ===== *)
theory Syscalls
  imports Context_Switch Paths
begin

text \<open>
  The system calls of \<^verbatim>\<open>indo-kernel/src/syscall/mod.rs\<close> on processes, descriptors, files, directories,
  signals and the terminal. A call is an operation on the kernel state whose error is the negative error number it
  returns. \<open>dev\<close> is the block device below the file systems and \<open>valid_utf8\<close> the check of
  \<open>core::str::from_utf8\<close>. The calls that map memory or replace a program are an argument of the dispatcher.
\<close>

subsection \<open>Error numbers\<close>

definition ESRCH :: int where "ESRCH = - 3"
definition EBADF :: int where "EBADF = - 9"
definition ENOMEM :: int where "ENOMEM = - 12"
definition EFAULT :: int where "EFAULT = - 14"
definition ENOTDIR :: int where "ENOTDIR = - 20"
definition EINVAL :: int where "EINVAL = - 22"
definition EMFILE :: int where "EMFILE = - 24"
definition ENOSYS :: int where "ENOSYS = - 38"

subsection \<open>The calling process\<close>

definition with_current :: "(pid \<Rightarrow> process \<Rightarrow> ('d, 'a) kop) \<Rightarrow> ('d, 'a) kop" where
  "with_current f = (\<lambda>k. case s_current_pid (k_sched k) of
     None \<Rightarrow> sfail ESRCH k
   | Some pid \<Rightarrow> (case s_processes (k_sched k) ! pid of None \<Rightarrow> sfail ESRCH k | Some p \<Rightarrow> f pid p k))"

definition modify_process :: "pid \<Rightarrow> (process \<Rightarrow> process) \<Rightarrow> ('d, unit) kop" where
  "modify_process pid f = kmodify (modify_sched (update_process pid f))"

definition block_on :: "wake_reason \<Rightarrow> process \<Rightarrow> process" where
  "block_on reason p = p\<lparr>p_state := Blocked, p_wake_reason := reason\<rparr>"

text \<open>Blocking the caller and asking for a switch; the call returns 0 to it when it runs again.\<close>

definition block_current :: "wake_reason \<Rightarrow> ('d, u64) kop" where
  "block_current reason = (\<lambda>k.
     (Inr 0, set_force_switch (case s_current_pid (k_sched k) of
        None \<Rightarrow> k | Some pid \<Rightarrow> modify_sched (update_process pid (block_on reason)) k)))"

subsection \<open>Processes\<close>

definition exit_process :: "u64 \<Rightarrow> process \<Rightarrow> process" where
  "exit_process exit_code p =
     p\<lparr>p_state := Zombie, p_exit_code := push_bit 8 (exit_code AND 0xFF), p_terminated_by_signal := False\<rparr>"

definition sys_exit :: "u64 \<Rightarrow> ('d, u64) kop" where
  "sys_exit exit_code = (\<lambda>k.
     let k1 = (case s_current_pid (k_sched k) of
          None \<Rightarrow> k
        | Some pid \<Rightarrow> modify_sched (\<lambda>s. update_process pid (exit_process exit_code)
            (reparent_orphans_to_init (k_init_pid k) pid s)) k);
         pid = (case s_current_pid (k_sched k) of None \<Rightarrow> 0 | Some pid \<Rightarrow> pid)
     in (Inr 0, set_force_switch (modify_sched (wake_wait_for_child pid) k1)))"

definition sys_yield :: "('d, u64) kop" where
  "sys_yield = (\<lambda>k. (Inr 0, set_force_switch k))"

definition sys_getpid :: "('d, u64) kop" where
  "sys_getpid = (\<lambda>k. (Inr (case s_current_pid (k_sched k) of None \<Rightarrow> 0 | Some pid \<Rightarrow> of_nat pid), k))"

definition WNOHANG :: u64 where "WNOHANG = 1"
definition WUNTRACED :: u64 where "WUNTRACED = 2"

definition has_children :: "pid \<Rightarrow> u32 \<Rightarrow> scheduler \<Rightarrow> bool" where
  "has_children parent gen s = list_ex (\<lambda>i. i > 0 \<and> (case s_processes s ! i of None \<Rightarrow> False
     | Some p \<Rightarrow> p_parent_pid p = Some parent \<and> p_parent_generation p = gen)) [0..<MAX_PROCESSES]"

definition wait_for :: "'d blockdev \<Rightarrow> pid \<Rightarrow> u64 \<Rightarrow> ('d, u64) kop" where
  "wait_for dev found_pid flags = (\<lambda>k.
     if slot_is_zombie (k_sched k) found_pid then sbind (reap_process dev found_pid) (\<lambda>_. sreturn (of_nat found_pid)) k
     else if flags AND WNOHANG \<noteq> 0 then (Inr 0, k)
     else block_current (WakeWaitForChild found_pid) k)"

definition sys_waitpid :: "'d blockdev \<Rightarrow> u64 \<Rightarrow> u64 \<Rightarrow> ('d, u64) kop" where
  "sys_waitpid dev child_pid flags = (\<lambda>k. let s = k_sched k in case s_current_pid s of
     None \<Rightarrow> sfail ESRCH k
   | Some parent \<Rightarrow>
       let gen = get_generation parent s in
       if child_pid = 0 then
         (case find_any_zombie_child s of
            Some (c_pid, _, _) \<Rightarrow> wait_for dev c_pid flags k
          | None \<Rightarrow>
              (case if flags AND WUNTRACED \<noteq> 0 then find_any_stopped_child parent gen s else None of
                 Some (c_pid, _) \<Rightarrow>
                   let stop_sig = (case s_processes s ! c_pid of None \<Rightarrow> 20 | Some p \<Rightarrow> p_stop_signal p) in
                   (Inr (push_bit 16 (of_nat c_pid) OR push_bit 8 (of_nat stop_sig) OR 0x7F), k)
               | None \<Rightarrow>
                   if flags AND WNOHANG \<noteq> 0 then (Inr 0, k)
                   else if \<not> has_children parent gen s then sfail ESRCH k
                   else block_current (WakeWaitForChild 0) k))
       else if \<not> is_child_of (unat child_pid) parent gen s then sfail ESRCH k
       else (case s_processes s ! unat child_pid of
               None \<Rightarrow> sfail ESRCH k | Some _ \<Rightarrow> wait_for dev (unat child_pid) flags k))"

definition sys_sleep :: "u64 \<Rightarrow> ('d, u64) kop" where
  "sys_sleep ticks = (\<lambda>k. block_current (WakeSleep (k_ticks k + ticks)) k)"

subsection \<open>Reading and writing\<close>

definition store_user :: "u64 \<Rightarrow> u64 \<Rightarrow> bytes \<Rightarrow> ('d, u64) kop" where
  "store_user pml4 a bs = (\<lambda>k. (Inr (of_nat (length bs)), k\<lparr>k_machine := write_user pml4 a bs (k_machine k)\<rparr>))"

definition check_buffer :: "u64 \<Rightarrow> u64 \<Rightarrow> u64 \<Rightarrow> ('d, unit) kop" where
  "check_buffer pml4 a n = (\<lambda>k. if is_user_buffer_mapped (k_machine k) pml4 a n then (Inr (), k) else sfail EFAULT k)"

text \<open>A method of the open file behind a handle slot.\<close>

definition with_file :: "process \<Rightarrow> nat \<Rightarrow> (open_file \<times> 'd world, vfs_error, 'a) op \<Rightarrow> ('d, 'a) kop" where
  "with_file p index m =
     (if index \<ge> MAX_FILE_HANDLES then sfail EBADF
      else case p_file_handles p ! index of
        None \<Rightarrow> sfail EBADF
      | Some cell \<Rightarrow> (\<lambda>k. case smap_err vfs_error_to_errno m (k_files k ! cell, k_world k) of
          (r, f, w) \<Rightarrow> (r, k\<lparr>k_files := (k_files k)[cell := f], k_world := w\<rparr>)))"

definition read_console :: "u64 \<Rightarrow> u64 \<Rightarrow> u64 \<Rightarrow> ('d, u64) kop" where
  "read_console pml4 buf_ptr nbytes = (\<lambda>k. case read_line (unat nbytes) (k_console k) of
     (Some bs, c) \<Rightarrow> store_user pml4 buf_ptr bs (k\<lparr>k_console := c\<rparr>)
   | (None, c) \<Rightarrow> block_current WakeKeyboard (k\<lparr>k_console := c\<rparr>))"

definition read_pipe :: "nat \<Rightarrow> bool \<Rightarrow> u64 \<Rightarrow> u64 \<Rightarrow> u64 \<Rightarrow> ('d, u64) kop" where
  "read_pipe idx writable pml4 buf_ptr nbytes = (\<lambda>k.
     if writable then sfail EBADF k
     else if idx \<ge> MAX_PIPES then sfail EBADF k
     else case k_pipes k ! idx of
       None \<Rightarrow> sfail EBADF (wake_blocked k)
     | Some p \<Rightarrow>
         (case pipe_get (unat nbytes) p of (bs, p') \<Rightarrow>
            if bs \<noteq> [] then
              sbind (store_user pml4 buf_ptr bs) (\<lambda>n. sbind (kmodify wake_blocked) (\<lambda>_. sreturn n))
                (k\<lparr>k_pipes := (k_pipes k)[idx := Some p']\<rparr>)
            else if \<not> pipe_write_open p then (Inr 0, k)
            else block_current (WakePipeRead idx) k))"

definition sys_read :: "u64 \<Rightarrow> u64 \<Rightarrow> u64 \<Rightarrow> ('d, u64) kop" where
  "sys_read fd buf_ptr nbytes =
     (if unat fd \<ge> MAX_FDS then sfail EBADF
      else if nbytes = 0 then sreturn 0
      else if \<not> is_valid_user_range buf_ptr nbytes then sfail EFAULT
      else with_current (\<lambda>pid p. sbind (check_buffer (p_pml4_phys p) buf_ptr nbytes) (\<lambda>_.
        case p_fd_types p ! unat fd of
          FdStdin \<Rightarrow> read_console (p_pml4_phys p) buf_ptr nbytes
        | FdTty \<Rightarrow> read_console (p_pml4_phys p) buf_ptr nbytes
        | FdStdout \<Rightarrow> sfail EBADF
        | FdStderr \<Rightarrow> sfail EBADF
        | FdNull \<Rightarrow> sreturn 0
        | FdPipe idx writable \<Rightarrow> read_pipe idx writable (p_pml4_phys p) buf_ptr nbytes
        | FdFsFile index \<Rightarrow> sbind (with_file p index (file_read (unat nbytes))) (store_user (p_pml4_phys p) buf_ptr)
        | FdNone \<Rightarrow> sfail EBADF)))"

definition write_pipe :: "nat \<Rightarrow> bool \<Rightarrow> bytes \<Rightarrow> ('d, u64) kop" where
  "write_pipe idx writable buf = (\<lambda>k.
     if \<not> writable then sfail EBADF k
     else if idx \<ge> MAX_PIPES then sfail EBADF k
     else case k_pipes k ! idx of
       None \<Rightarrow> sfail EBADF k
     | Some p \<Rightarrow>
         (case pipe_put buf 0 p of (written, p') \<Rightarrow>
            let k = k\<lparr>k_pipes := (k_pipes k)[idx := Some p']\<rparr> in
            if written = length buf then (Inr (of_nat written), wake_blocked k)
            else if \<not> pipe_read_open p' then (Inr (of_nat written), if written > 0 then wake_blocked k else k)
            else if written > 0 then (Inr (of_nat written), wake_blocked k)
            else block_current (WakePipeWrite idx) k))"

definition write_console :: "bytes \<Rightarrow> ('d, u64) kop" where
  "write_console buf = (\<lambda>k. (Inr (of_nat (length buf)), k\<lparr>k_console := serial_write buf (k_console k)\<rparr>))"

definition sys_write :: "u64 \<Rightarrow> u64 \<Rightarrow> u64 \<Rightarrow> ('d, u64) kop" where
  "sys_write fd buf_ptr nbytes =
     (if unat fd \<ge> MAX_FDS then sfail EBADF
      else if nbytes = 0 then sreturn 0
      else if \<not> is_valid_user_range buf_ptr nbytes then sfail EFAULT
      else with_current (\<lambda>pid p. sbind (check_buffer (p_pml4_phys p) buf_ptr nbytes) (\<lambda>_.
        sbind (kget (\<lambda>k. read_user (p_pml4_phys p) buf_ptr (unat nbytes) (k_machine k))) (\<lambda>buf.
        case p_fd_types p ! unat fd of
          FdStdout \<Rightarrow> write_console buf
        | FdStderr \<Rightarrow> write_console buf
        | FdTty \<Rightarrow> write_console buf
        | FdStdin \<Rightarrow> sfail EBADF
        | FdNull \<Rightarrow> sreturn nbytes
        | FdPipe idx writable \<Rightarrow> write_pipe idx writable buf
        | FdFsFile index \<Rightarrow> sbind (with_file p index (file_write buf)) (\<lambda>n. sreturn (of_nat n))
        | FdNone \<Rightarrow> sfail EBADF))))"

subsection \<open>Descriptors\<close>

definition free_fds :: "process \<Rightarrow> nat list" where
  "free_fds p = filter (\<lambda>i. p_fd_types p ! i = FdNone) [0..<MAX_FDS]"

definition place_pipe :: "nat \<Rightarrow> nat \<Rightarrow> nat \<Rightarrow> process \<Rightarrow> process" where
  "place_pipe idx r w p = p\<lparr>p_fd_types := (p_fd_types p)[r := FdPipe idx False, w := FdPipe idx True], p_pipe_count := p_pipe_count p + 2\<rparr>"

definition release_pipe :: "nat \<Rightarrow> int \<Rightarrow> ('d, u64) kop" where
  "release_pipe idx e = (\<lambda>k. sfail e (k\<lparr>k_pipes := free_pipe idx (k_pipes k)\<rparr>))"

definition sys_pipe :: "('d, u64) kop" where
  "sys_pipe = (\<lambda>k.
     if (case current_process (k_sched k) of None \<Rightarrow> False | Some p \<Rightarrow> p_pipe_count p \<ge> of_nat MAX_PIPES_PER_PROCESS)
     then sfail EMFILE k
     else case alloc_pipe (k_pipes k) of
       (None, pipes) \<Rightarrow> sfail ENOMEM (k\<lparr>k_pipes := pipes\<rparr>)
     | (Some idx, pipes) \<Rightarrow>
         let k = k\<lparr>k_pipes := pipes\<rparr> in
         case s_current_pid (k_sched k) of
           None \<Rightarrow> release_pipe idx ESRCH k
         | Some pid \<Rightarrow>
             (case s_processes (k_sched k) ! pid of
                None \<Rightarrow> release_pipe idx ESRCH k
              | Some p \<Rightarrow>
                  (case free_fds p of
                     r # w # _ \<Rightarrow>
                       (Inr (push_bit 32 (of_nat r) OR of_nat w), modify_sched (update_process pid (place_pipe idx r w)) k)
                   | _ \<Rightarrow> release_pipe idx EMFILE k)))"

definition clear_fd :: "nat \<Rightarrow> process \<Rightarrow> process" where
  "clear_fd fd p = p\<lparr>p_fd_types := (p_fd_types p)[fd := FdNone], p_fd_flags := (p_fd_flags p)[fd := 0]\<rparr>"

definition set_fd :: "nat \<Rightarrow> fd_type \<Rightarrow> process \<Rightarrow> process" where
  "set_fd fd t p = p\<lparr>p_fd_types := (p_fd_types p)[fd := t], p_fd_flags := (p_fd_flags p)[fd := 0]\<rparr>"

definition count_pipe_closed :: "process \<Rightarrow> process" where
  "count_pipe_closed p = (if p_pipe_count p > 0 then p\<lparr>p_pipe_count := p_pipe_count p - 1\<rparr> else p)"

definition sys_close :: "u64 \<Rightarrow> ('d, u64) kop" where
  "sys_close fd =
     (if unat fd \<ge> MAX_FDS then sfail EBADF
      else with_current (\<lambda>pid p. case p_fd_types p ! unat fd of
          FdNone \<Rightarrow> sfail EBADF
        | FdPipe idx writable \<Rightarrow>
            sbind (modify_process pid (\<lambda>p. count_pipe_closed (clear_fd (unat fd) p))) (\<lambda>_.
            if idx < MAX_PIPES
            then sbind (kmodify (\<lambda>k. wake_blocked (k\<lparr>k_pipes := drop_pipe_ref idx writable (k_pipes k)\<rparr>))) (\<lambda>_. sreturn 0)
            else sreturn 0)
        | _ \<Rightarrow> sbind (modify_process pid (clear_fd (unat fd))) (\<lambda>_. sreturn 0)))"

definition add_pipe_ref :: "nat \<Rightarrow> pipe_table \<Rightarrow> pipe_table" where
  "add_pipe_ref idx pipes = (if idx < MAX_PIPES
     then pipes[idx := map_option (\<lambda>p. p\<lparr>pipe_refcount := pipe_refcount p + 1\<rparr>) (pipes ! idx)] else pipes)"

definition dup_to_free :: "pid \<Rightarrow> fd_type \<Rightarrow> process \<Rightarrow> ('d, u64) kop" where
  "dup_to_free pid t p = (case free_fds p of
     [] \<Rightarrow> sfail EMFILE
   | i # _ \<Rightarrow> sbind (modify_process pid (set_fd i t)) (\<lambda>_. sreturn (of_nat i)))"

definition sys_dup :: "u64 \<Rightarrow> ('d, u64) kop" where
  "sys_dup fd =
     (if unat fd \<ge> MAX_FDS then sfail EBADF
      else (\<lambda>k. case s_current_pid (k_sched k) of
          None \<Rightarrow> sfail EMFILE k
        | Some pid \<Rightarrow> (case s_processes (k_sched k) ! pid of
            None \<Rightarrow> sfail EMFILE k
          | Some p \<Rightarrow> (case p_fd_types p ! unat fd of
              FdNone \<Rightarrow> sfail EBADF k
            | FdFsFile index \<Rightarrow>
                if index \<ge> MAX_FILE_HANDLES then sfail EBADF k
                else if p_file_handles p ! index = None then sfail EBADF k
                else dup_to_free pid (FdFsFile index) p k
            | FdPipe idx writable \<Rightarrow>
                dup_to_free pid (FdPipe idx writable) p (k\<lparr>k_pipes := add_pipe_ref idx (k_pipes k)\<rparr>)
            | t \<Rightarrow> dup_to_free pid t p k))))"

text \<open>The unguarded decrement of \<open>dup2\<close>.\<close>

definition dup2_close_pipe :: "nat \<Rightarrow> bool \<Rightarrow> pipe_table \<Rightarrow> pipe_table" where
  "dup2_close_pipe idx writable pipes = (case pipes ! idx of
     None \<Rightarrow> pipes
   | Some p \<Rightarrow>
       let p = pipe_close writable p; old = pipe_refcount p in
       if old = 1 then pipes[idx := None] else pipes[idx := Some (p\<lparr>pipe_refcount := old - 1\<rparr>)])"

definition other_fd_uses :: "nat \<Rightarrow> nat \<Rightarrow> process \<Rightarrow> bool" where
  "other_fd_uses fd index p = list_ex (\<lambda>i. i \<noteq> fd \<and> p_fd_types p ! i = FdFsFile index) [0..<MAX_FDS]"

definition release_handle :: "'d blockdev \<Rightarrow> pid \<Rightarrow> process \<Rightarrow> nat \<Rightarrow> ('d, unit) kop" where
  "release_handle dev pid p index =
     sbind (modify_process pid (\<lambda>p. p\<lparr>p_file_handles := (p_file_handles p)[index := None]\<rparr>)) (\<lambda>_.
     case p_file_handles p ! index of None \<Rightarrow> sreturn () | Some cell \<Rightarrow> drop_cell dev [] cell)"

definition sys_dup2 :: "'d blockdev \<Rightarrow> u64 \<Rightarrow> u64 \<Rightarrow> ('d, u64) kop" where
  "sys_dup2 dev oldfd newfd =
     (if unat oldfd \<ge> MAX_FDS then sfail EBADF
      else if unat newfd \<ge> MAX_FDS then sfail EBADF
      else with_current (\<lambda>pid p.
        let old_type = p_fd_types p ! unat oldfd; new_type = p_fd_types p ! unat newfd in
        if old_type = FdNone then sfail EBADF
        else if oldfd = newfd then sreturn newfd
        else
          sbind (case new_type of
              FdFsFile index \<Rightarrow>
                if index < MAX_FILE_HANDLES \<and> \<not> other_fd_uses (unat newfd) index p
                then release_handle dev pid p index else sreturn ()
            | _ \<Rightarrow> sreturn ()) (\<lambda>_.
          sbind (modify_process pid (set_fd (unat newfd) old_type)) (\<lambda>_.
          sbind (case new_type of
              FdPipe idx writable \<Rightarrow>
                if idx < MAX_PIPES then kmodify (\<lambda>k. k\<lparr>k_pipes := dup2_close_pipe idx writable (k_pipes k)\<rparr>) else sreturn ()
            | _ \<Rightarrow> sreturn ()) (\<lambda>_.
          sbind (case old_type of
              FdPipe idx writable \<Rightarrow> kmodify (\<lambda>k. k\<lparr>k_pipes := add_pipe_ref idx (k_pipes k)\<rparr>)
            | _ \<Rightarrow> sreturn ()) (\<lambda>_.
          sbind (case new_type of
              FdPipe idx writable \<Rightarrow> if idx < MAX_PIPES then kmodify wake_blocked else sreturn ()
            | _ \<Rightarrow> sreturn ()) (\<lambda>_. sreturn newfd)))))))"

subsection \<open>Files and directories\<close>

text \<open>
  The loop of \<open>sys_readdir\<close>: reads of 256 bytes, of which at most what fits is kept, until the buffer is
  full, a read is empty or fails.
\<close>

function readdir_loop :: "nat \<Rightarrow> bytes \<Rightarrow> open_file \<times> 'd world \<Rightarrow> (int, bytes) outcome \<times> open_file \<times> 'd world" where
  "readdir_loop limit acc st =
     (if length acc \<ge> limit then (Inr acc, st)
      else case file_read 256 st of
        (Inr bs, st') \<Rightarrow>
          if bs = [] then (Inr acc, st') else readdir_loop limit (acc @ take (limit - length acc) bs) st'
      | (Inl (Err e), st') \<Rightarrow> (Inr acc, st')
      | (Inl (Crash c), st') \<Rightarrow> (Inl (Crash c), st'))"
  by pat_completeness auto
termination
  by (relation "measure (\<lambda>(limit, acc, st). limit - length acc)") (auto simp: min_def simp flip: length_greater_0_conv)

declare readdir_loop.simps [simp del]

definition sys_readdir :: "u64 \<Rightarrow> u64 \<Rightarrow> u64 \<Rightarrow> ('d, u64) kop" where
  "sys_readdir fd buf_ptr nbytes =
     (if unat fd \<ge> MAX_FDS then sfail EBADF
      else if nbytes = 0 then sreturn 0
      else if \<not> is_valid_user_range buf_ptr nbytes then sfail EFAULT
      else with_current (\<lambda>pid p. case p_fd_types p ! unat fd of
          FdFsFile index \<Rightarrow>
            if index \<ge> MAX_FILE_HANDLES then scrash Index_out_of_range
            else (case p_file_handles p ! index of
                None \<Rightarrow> sfail EBADF
              | Some cell \<Rightarrow>
                  sbind (\<lambda>k. case readdir_loop (unat nbytes) [] (k_files k ! cell, k_world k) of
                      (r, f, w) \<Rightarrow> (r, k\<lparr>k_files := (k_files k)[cell := f], k_world := w\<rparr>))
                    (store_user (p_pml4_phys p) buf_ptr))
        | _ \<Rightarrow> sfail ENOTDIR))"

definition O_CREAT :: u64 where "O_CREAT = 0x0040"
definition O_TRUNC :: u64 where "O_TRUNC = 0x0200"
definition O_APPEND :: u64 where "O_APPEND = 0x0400"
definition O_CLOEXEC :: u64 where "O_CLOEXEC = 0x80000"
definition VALID_FLAGS :: u64 where "VALID_FLAGS = 0xFF"

text \<open>The path argument: its pointer is checked, it is copied from the caller's memory, and it must not be empty.\<close>

definition get_path :: "(bytes \<Rightarrow> bool) \<Rightarrow> u64 \<Rightarrow> ('d, rstring) kop" where
  "get_path valid_utf8 path_ptr =
     (if path_ptr = 0 then sfail EFAULT
      else with_current (\<lambda>pid p k. case read_user_path valid_utf8 (k_machine k) (p_pml4_phys p) path_ptr of
          None \<Rightarrow> sfail EFAULT k
        | Some path \<Rightarrow> if path = [] then sfail EINVAL k else (Inr path, k)))"

definition open_flags_valid :: "u64 \<Rightarrow> bool" where
  "open_flags_valid flags = (\<not> (flags AND 0x3 = 0x3 \<or> flags AND 0x3 = 0) \<and> flags AND NOT VALID_FLAGS = 0)"

definition drop_file :: "'d blockdev \<Rightarrow> open_file \<Rightarrow> ('d, unit) kop" where
  "drop_file dev f = sbind (stry (on_world (file_drop dev f))) (\<lambda>_. sreturn ())"

definition open_file_at :: "'d blockdev \<Rightarrow> vfs \<Rightarrow> rstring \<Rightarrow> u64 \<Rightarrow> ('d, open_file) kop" where
  "open_file_at dev vfs path flags =
     sbind (stry (on_world (vfs_open dev vfs path))) (\<lambda>r. case r of
         Inr f \<Rightarrow> if flags AND O_TRUNC \<noteq> 0
           then sbind (drop_file dev f) (\<lambda>_. on_world (vfs_create_file dev vfs path)) else sreturn f
       | Inl e \<Rightarrow> if flags AND O_CREAT \<noteq> 0 then on_world (vfs_create_file dev vfs path) else sfail e)"

definition seek_to_end :: "'d blockdev \<Rightarrow> vfs \<Rightarrow> rstring \<Rightarrow> open_file \<Rightarrow> ('d, open_file) kop" where
  "seek_to_end dev vfs path f =
     sbind (stry (on_world (vfs_resolve dev vfs path))) (\<lambda>r. case r of
         Inl _ \<Rightarrow> sreturn f
       | Inr inode \<Rightarrow> (\<lambda>k. case file_seek (inode_size inode (k_world k)) (f, k_world k) of
           (f', w) \<Rightarrow> (Inr f', k\<lparr>k_world := w\<rparr>)))"

definition install_file :: "nat \<Rightarrow> nat \<Rightarrow> nat \<Rightarrow> u64 \<Rightarrow> process \<Rightarrow> process" where
  "install_file fd fh cell flags p =
     p\<lparr>p_file_handles := (p_file_handles p)[fh := Some cell], p_fd_types := (p_fd_types p)[fd := FdFsFile fh],
       p_fd_flags := if flags AND O_CLOEXEC \<noteq> 0 then (p_fd_flags p)[fd := p_fd_flags p ! fd OR 1] else p_fd_flags p\<rparr>"

definition free_handles :: "process \<Rightarrow> nat list" where
  "free_handles p = filter (\<lambda>i. p_file_handles p ! i = None) [0..<MAX_FILE_HANDLES]"

definition place_file :: "'d blockdev \<Rightarrow> u64 \<Rightarrow> open_file \<Rightarrow> ('d, u64) kop" where
  "place_file dev flags f = (\<lambda>k. case s_current_pid (k_sched k) of
     None \<Rightarrow> sbind (drop_file dev f) (\<lambda>_. sfail ESRCH) k
   | Some pid \<Rightarrow> (case s_processes (k_sched k) ! pid of
       None \<Rightarrow> sbind (drop_file dev f) (\<lambda>_. sfail ESRCH) k
     | Some p \<Rightarrow> (case (free_fds p, free_handles p) of
         (fd # _, fh # _) \<Rightarrow>
           (Inr (of_nat fd), modify_sched (update_process pid (install_file fd fh (length (k_files k)) flags))
              (k\<lparr>k_files := k_files k @ [f]\<rparr>))
       | _ \<Rightarrow> sbind (drop_file dev f) (\<lambda>_. sfail EMFILE) k)))"

definition sys_open :: "'d blockdev \<Rightarrow> (bytes \<Rightarrow> bool) \<Rightarrow> u64 \<Rightarrow> u64 \<Rightarrow> ('d, u64) kop" where
  "sys_open dev valid_utf8 path_ptr flags =
     sbind (get_path valid_utf8 path_ptr) (\<lambda>path.
     if \<not> open_flags_valid flags then sfail EINVAL
     else sbind (kget k_vfs) (\<lambda>vfs.
       sbind (open_file_at dev vfs path flags) (\<lambda>f.
       sbind (if flags AND O_APPEND \<noteq> 0 then seek_to_end dev vfs path f else sreturn f) (place_file dev flags))))"

definition sys_lseek :: "u64 \<Rightarrow> u64 \<Rightarrow> ('d, u64) kop" where
  "sys_lseek fd offset =
     (if unat fd \<ge> MAX_FDS then sfail EBADF
      else with_current (\<lambda>pid p. case p_fd_types p ! unat fd of
          FdFsFile index \<Rightarrow> with_file p index (\<lambda>st. (Inr offset, file_seek offset st))
        | _ \<Rightarrow> sfail EINVAL))"

definition sys_unlink :: "'d blockdev \<Rightarrow> (bytes \<Rightarrow> bool) \<Rightarrow> u64 \<Rightarrow> ('d, u64) kop" where
  "sys_unlink dev valid_utf8 path_ptr =
     sbind (get_path valid_utf8 path_ptr) (\<lambda>path. sbind (kget k_vfs) (\<lambda>vfs.
     sbind (on_world (vfs_delete_file dev vfs path)) (\<lambda>_. sreturn 0)))"

definition sys_mkdir :: "'d blockdev \<Rightarrow> (bytes \<Rightarrow> bool) \<Rightarrow> u64 \<Rightarrow> ('d, u64) kop" where
  "sys_mkdir dev valid_utf8 path_ptr =
     sbind (get_path valid_utf8 path_ptr) (\<lambda>path. sbind (kget k_vfs) (\<lambda>vfs.
     sbind (on_world (vfs_create_dir dev vfs path)) (\<lambda>_. sreturn 0)))"

definition sys_chdir :: "'d blockdev \<Rightarrow> (bytes \<Rightarrow> bool) \<Rightarrow> u64 \<Rightarrow> ('d, u64) kop" where
  "sys_chdir dev valid_utf8 path_ptr =
     sbind (get_path valid_utf8 path_ptr) (\<lambda>path.
     with_current (\<lambda>pid p.
       let resolved = resolve_cwd (cwd_str valid_utf8 p) path in
       sbind (kget k_vfs) (\<lambda>vfs.
       sbind (on_world (vfs_resolve dev vfs resolved)) (\<lambda>inode.
       if \<not> inode_is_dir inode then sfail ENOTDIR
       else sbind (modify_process pid (set_cwd resolved)) (\<lambda>_. sreturn 0)))))"

definition sys_getcwd :: "u64 \<Rightarrow> u64 \<Rightarrow> ('d, u64) kop" where
  "sys_getcwd buf_ptr buf_size =
     (if buf_ptr = 0 \<or> buf_size = 0 then sfail EINVAL
      else if \<not> is_valid_user_range buf_ptr buf_size then sfail EFAULT
      else with_current (\<lambda>pid p.
        let path = takeWhile (\<lambda>b. b \<noteq> 0) (p_cwd p); cwd = path @ [0];
            copy_len = min (of_nat (length cwd)) buf_size in
        sbind (check_buffer (p_pml4_phys p) buf_ptr copy_len) (\<lambda>_.
        sbind (store_user (p_pml4_phys p) buf_ptr (take (unat copy_len) cwd)) (\<lambda>_. sreturn (of_nat (length path))))))"

subsection \<open>Terminal and signals\<close>

definition termios_bytes :: "termios \<Rightarrow> bytes" where
  "termios_bytes t = to_le_bytes (tio_iflag t) @ to_le_bytes (tio_oflag t) @ to_le_bytes (tio_cflag t)
     @ to_le_bytes (tio_lflag t) @ tio_cc t"

definition termios_of_bytes :: "bytes \<Rightarrow> termios" where
  "termios_of_bytes bs = \<lparr>tio_iflag = from_le_bytes (subslice 0 4 bs), tio_oflag = from_le_bytes (subslice 4 4 bs),
     tio_cflag = from_le_bytes (subslice 8 4 bs), tio_lflag = from_le_bytes (subslice 12 4 bs), tio_cc = subslice 16 32 bs\<rparr>"

definition check_termios :: "u64 \<Rightarrow> u64 \<Rightarrow> ('d, u64) kop" where
  "check_termios fd termios_ptr = (\<lambda>k.
     if fd > 2 \<or> termios_ptr = 0 then sfail EINVAL k
     else if \<not> is_valid_user_range termios_ptr 48 then sfail EFAULT k
     else let pml4 = (case current_process (k_sched k) of None \<Rightarrow> 0 | Some p \<Rightarrow> p_pml4_phys p) in
       if pml4 = 0 \<or> \<not> is_user_buffer_mapped (k_machine k) pml4 termios_ptr 48 then sfail EFAULT k else (Inr pml4, k))"

definition sys_tcgetattr :: "u64 \<Rightarrow> u64 \<Rightarrow> ('d, u64) kop" where
  "sys_tcgetattr fd termios_ptr =
     sbind (check_termios fd termios_ptr) (\<lambda>pml4.
     sbind (store_user pml4 termios_ptr (termios_bytes default_cooked)) (\<lambda>_. sreturn 0))"

definition sys_tcsetattr :: "u64 \<Rightarrow> u64 \<Rightarrow> ('d, u64) kop" where
  "sys_tcsetattr fd termios_ptr =
     sbind (check_termios fd termios_ptr) (\<lambda>pml4.
     sbind (kmodify (\<lambda>k. k\<lparr>k_console := (k_console k)\<lparr>con_tty := tty_apply_termios
         (termios_of_bytes (read_user pml4 termios_ptr 48 (k_machine k))) (con_tty (k_console k))\<rparr>\<rparr>)) (\<lambda>_. sreturn 0))"

definition slot_of :: "u64 \<Rightarrow> (pid \<Rightarrow> process \<Rightarrow> ('d, 'a) kop) \<Rightarrow> ('d, 'a) kop" where
  "slot_of pid f = (\<lambda>k. if unat pid \<ge> length (s_processes (k_sched k)) then sfail ESRCH k
     else case s_processes (k_sched k) ! unat pid of None \<Rightarrow> sfail ESRCH k | Some p \<Rightarrow> f (unat pid) p k)"

definition or_current :: "u64 \<Rightarrow> ('d, u64) kop" where
  "or_current pid = (if pid = 0 then sys_getpid else sreturn pid)"

definition sys_sigaction :: "u64 \<Rightarrow> u64 \<Rightarrow> u64 \<Rightarrow> ('d, u64) kop" where
  "sys_sigaction signum handler_ptr old_handler_ptr =
     (if signum = 0 \<or> signum > 31 then sfail EINVAL
      else if handler_ptr \<noteq> 0 \<and> handler_ptr \<ge> 0x0000800000000000 then sfail EINVAL
      else sbind sys_getpid (\<lambda>pid. slot_of pid (\<lambda>pid p.
        let sig_idx = unat signum - 1 in
        sbind (if old_handler_ptr \<noteq> 0
               then if \<not> is_valid_user_range old_handler_ptr 8 then sfail EFAULT
                 else sbind (check_buffer (p_pml4_phys p) old_handler_ptr 8) (\<lambda>_.
                      store_user (p_pml4_phys p) old_handler_ptr (to_le_bytes (p_signal_handlers p ! sig_idx)))
               else sreturn 0) (\<lambda>_.
        sbind (modify_process pid (\<lambda>p. p\<lparr>p_signal_handlers := (p_signal_handlers p)[sig_idx := handler_ptr]\<rparr>)) (\<lambda>_.
        sreturn 0)))))"

definition sys_kill :: "u64 \<Rightarrow> u64 \<Rightarrow> ('d, u64) kop" where
  "sys_kill pid signum =
     (if signum = 0 \<or> signum > 31 then sfail EINVAL
      else slot_of pid (\<lambda>target p. if p_state p = Zombie then sfail ESRCH
        else sbind (modify_process target (send_signal (unat signum))) (\<lambda>_. sreturn 0)))"

definition sys_setpgid :: "u64 \<Rightarrow> u64 \<Rightarrow> ('d, u64) kop" where
  "sys_setpgid pid pgid =
     sbind (or_current pid) (\<lambda>target_pid. slot_of target_pid (\<lambda>target p.
     sbind (modify_process target (\<lambda>p. p\<lparr>p_pgid := if pgid = 0 then target_pid else pgid\<rparr>)) (\<lambda>_. sreturn 0)))"

definition sys_getpgid :: "u64 \<Rightarrow> ('d, u64) kop" where
  "sys_getpgid pid = sbind (or_current pid) (\<lambda>target. slot_of target (\<lambda>_ p. sreturn (p_pgid p)))"

subsection \<open>Dispatch\<close>

text \<open>
  \<open>other\<close> stands for fork (8), exec (9), brk (17), execve (18), mmap (22) and munmap (23), which change memory as well. Fork is modelled in
  \<open>Fork\<close>, the memory calls in \<open>Memory_Calls\<close>; exec and execve are not modelled.
\<close>

definition syscall_number :: "'d blockdev \<Rightarrow> (bytes \<Rightarrow> bool) \<Rightarrow> (nat \<Rightarrow> ('d, u64) kop) \<Rightarrow> nat \<Rightarrow> u64 \<Rightarrow> u64 \<Rightarrow> u64 \<Rightarrow> ('d, u64) kop" where
  "syscall_number dev valid_utf8 other num arg0 arg1 arg2 =
     (if num = 0 then sys_write arg0 arg1 arg2
      else if num = 1 then sys_exit arg0
      else if num = 2 then sys_yield
      else if num = 3 then sys_getpid
      else if num = 4 then sys_waitpid dev arg0 arg1
      else if num = 5 then sys_sleep arg0
      else if num = 6 then sys_read arg0 arg1 arg2
      else if num = 7 then sys_pipe
      else if num = 10 then sys_close arg0
      else if num = 11 then sys_dup arg0
      else if num = 12 then sys_open dev valid_utf8 arg0 arg1
      else if num = 13 then sys_lseek arg0 arg1
      else if num = 14 then sys_dup2 dev arg0 arg1
      else if num = 15 then sys_readdir arg0 arg1 arg2
      else if num = 16 then sys_unlink dev valid_utf8 arg0
      else if num = 19 then sys_chdir dev valid_utf8 arg0
      else if num = 20 then sys_getcwd arg0 arg1
      else if num = 21 then sys_mkdir dev valid_utf8 arg0
      else if num = 24 then sys_tcgetattr arg0 arg1
      else if num = 25 then sys_tcsetattr arg0 arg2
      else if num = 26 then sys_sigaction arg0 arg1 arg2
      else if num = 27 then sys_kill arg0 arg1
      else if num = 28 then sys_setpgid arg0 arg1
      else if num = 29 then sys_getpgid arg0
      else if num \<in> {8, 9, 17, 18, 22, 23} then other num
      else sfail ENOSYS)"

definition syscall_dispatch :: "'d blockdev \<Rightarrow> (bytes \<Rightarrow> bool) \<Rightarrow> (nat \<Rightarrow> ('d, u64) kop) \<Rightarrow> u64 \<Rightarrow> u64 \<Rightarrow> u64 \<Rightarrow> u64 \<Rightarrow> ('d, u64) kop" where
  "syscall_dispatch dev valid_utf8 other num arg0 arg1 arg2 =
     sbind (stry (syscall_number dev valid_utf8 other (unat num) arg0 arg1 arg2)) (\<lambda>r.
     sreturn (case r of Inl e \<Rightarrow> word_of_int e | Inr v \<Rightarrow> v))"

end
