(* ===== verification/Fork.thy ===== *)
theory Fork
  imports Syscalls
begin

text \<open>
  Forking a process (\<^verbatim>\<open>sys_fork\<close> of \<^verbatim>\<open>indo-kernel/src/syscall/mod.rs\<close>) on the state of the kernel: the stack, the saved frame and the
  slot of the child. What \<open>create_user_pml4\<close> and \<open>copy_user_pages\<close> do to memory is modelled in \<open>Vmm\<close>; here \<open>copy\<close> stands for
  the two: it gives the new address space, whether the pages were copied, and the memory afterwards. \<open>stack\<close> and \<open>kstack\<close> are
  the answers of the heap to the two requests for a kernel stack. The switch to the kernel's page table and back is left out.
\<close>

text \<open>The frame from which the child returns to user mode: the registers of the system call, with 0 as its result.\<close>

definition fork_frame :: "u64 \<Rightarrow> u64 \<Rightarrow> u64 \<Rightarrow> (u64 \<Rightarrow> u64) \<Rightarrow> u64 \<Rightarrow> u64" where
  "fork_frame regs user_rsp dst m =
     (let m = m(dst := 0);
          m = fold (\<lambda>i m. m(dst + of_nat i * 8 := m (regs + of_nat i * 8))) [1..<15] m;
          m = m(dst + 15 * 8 := m (regs + 2 * 8));
          m = m(dst + 16 * 8 := 0x1B);
          m = m(dst + 17 * 8 := m (regs + 10 * 8));
          m = m(dst + 18 * 8 := user_rsp)
      in m(dst + 19 * 8 := 0x23))"

definition prepare_stack :: "u64 \<Rightarrow> u64 \<Rightarrow> u64 \<Rightarrow> machine \<Rightarrow> machine" where
  "prepare_stack regs user_rsp stack_base m = m\<lparr>m_kernel :=
     fork_frame regs user_rsp (stack_base + KERNEL_STACK_SIZE - 20 * 8) (write_words stack_base (replicate 1024 0) (m_kernel m))\<rparr>"

definition fork_child :: "u64 \<Rightarrow> u64 \<Rightarrow> pid \<Rightarrow> process \<Rightarrow> process \<Rightarrow> process" where
  "fork_child stack_base child_pml4 parent_pid parent child = child\<lparr>
     p_state := Ready, p_stack_pointer := stack_base + KERNEL_STACK_SIZE - 20 * 8, p_kernel_stack_base := stack_base,
     p_pml4_phys := child_pml4, p_is_user := p_is_user parent, p_parent_pid := Some parent_pid,
     p_fd_types := p_fd_types parent, p_file_handles := p_file_handles parent,
     p_parent_generation := p_generation parent, p_pgid := p_pgid parent\<rparr>"

definition inherit_pipes :: "fd_type list \<Rightarrow> pipe_table \<Rightarrow> pipe_table" where
  "inherit_pipes = fold (\<lambda>fd pipes. case fd of FdPipe idx _ \<Rightarrow> add_pipe_ref idx pipes | _ \<Rightarrow> pipes)"

text \<open>Returning without releasing a stack: nothing refers to it any more.\<close>

definition lose_stack :: "u64 \<Rightarrow> 'd kernel \<Rightarrow> 'd kernel" where
  "lose_stack a k = k\<lparr>k_lost := a # k_lost k\<rparr>"

text \<open>The end of the call: a slot for the child, and a process structure whose own stack is replaced by the prepared one.\<close>

definition fork_place :: "u64 \<Rightarrow> u64 option \<Rightarrow> u64 \<Rightarrow> u64 \<Rightarrow> pid \<Rightarrow> process \<Rightarrow> ('d, u64) kop" where
  "fork_place kernel_pml4 kstack stack_base child_pml4 parent_pid parent = (\<lambda>k.
     case free_pid (k_sched k) of
       None \<Rightarrow> sfail ENOMEM (lose_stack stack_base k)
     | Some pid \<Rightarrow> (case new_kernel pid 0 kernel_pml4 kstack (k_machine k) of
         (None, m) \<Rightarrow> sfail ENOMEM (lose_stack stack_base (k\<lparr>k_machine := m\<rparr>))
       | (Some child, m) \<Rightarrow>
           let leaked_kstack = p_kernel_stack_base child;
               child = fork_child stack_base child_pml4 parent_pid parent child;
               k = k\<lparr>k_machine := m, k_stacks := leaked_kstack # k_stacks k, k_pipes := inherit_pipes (p_fd_types child) (k_pipes k)\<rparr>;
               k = modify_sched (\<lambda>s. s\<lparr>s_processes := (s_processes s)[pid := Some child]\<rparr>) k;
               k = (if leaked_kstack \<noteq> 0 then free_stack leaked_kstack k else k)
           in (Inr (of_nat pid), k)))"

definition sys_fork ::
  "(u64 \<Rightarrow> machine \<Rightarrow> (u64 \<times> bool \<times> machine) or_panic) \<Rightarrow> u64 \<Rightarrow> u64 option \<Rightarrow> u64 option \<Rightarrow> u64 \<Rightarrow> u64 \<Rightarrow> ('d, u64) kop" where
  "sys_fork copy kernel_pml4 stack kstack regs user_rsp = (\<lambda>k.
     case s_current_pid (k_sched k) of None \<Rightarrow> sfail ESRCH k
   | Some parent_pid \<Rightarrow> (case s_processes (k_sched k) ! parent_pid of None \<Rightarrow> sfail ESRCH k
   | Some parent \<Rightarrow> (case copy (p_pml4_phys parent) (k_machine k) of
       Inl p \<Rightarrow> scrash p k
     | Inr (child_pml4, copied, m) \<Rightarrow>
         let k = k\<lparr>k_machine := m, k_spaces := child_pml4 # k_spaces k\<rparr> in
         if \<not> copied then sfail ENOMEM k
         else (case stack of
             None \<Rightarrow> sfail ENOMEM k
           | Some stack_base \<Rightarrow> fork_place kernel_pml4 kstack stack_base child_pml4 parent_pid parent
               (k\<lparr>k_stacks := stack_base # k_stacks k, k_machine := prepare_stack regs user_rsp stack_base (k_machine k)\<rparr>)))))"

end
