(* ===== verification/Phys_Mem.thy ===== *)
theory Phys_Mem
  imports User_Memory Pmm
begin

text \<open>
  Physical memory as bytes by physical address, seen through the kernel's identity map: quadwords of page
  tables, zeroing and copying of frames, and the laws by which tables in different frames do not interfere.
\<close>

type_synonym phys_mem = "u64 \<Rightarrow> u8"

definition rd64 :: "phys_mem \<Rightarrow> u64 \<Rightarrow> u64" where
  "rd64 m a = from_le_bytes (map (\<lambda>i. m (a + of_nat i)) [0..<8])"

text \<open>\<open>ptr::write\<close> of a slice, \<open>ptr::write_bytes\<close> and \<open>ptr::copy_nonoverlapping\<close>.\<close>

definition put_bytes :: "u64 \<Rightarrow> bytes \<Rightarrow> phys_mem \<Rightarrow> phys_mem" where
  "put_bytes a bs m = (\<lambda>b. if unat (b - a) < length bs then bs ! unat (b - a) else m b)"

definition fill_bytes :: "u64 \<Rightarrow> u8 \<Rightarrow> nat \<Rightarrow> phys_mem \<Rightarrow> phys_mem" where
  "fill_bytes a v n m = (\<lambda>b. if unat (b - a) < n then v else m b)"

definition copy_bytes :: "u64 \<Rightarrow> u64 \<Rightarrow> nat \<Rightarrow> phys_mem \<Rightarrow> phys_mem" where
  "copy_bytes src dst n m = (\<lambda>b. if unat (b - dst) < n then m (src + (b - dst)) else m b)"

definition wr64 :: "u64 \<Rightarrow> u64 \<Rightarrow> phys_mem \<Rightarrow> phys_mem" where
  "wr64 a v m = put_bytes a (to_le_bytes v) m"

text \<open>A page table is a frame of 512 entries.\<close>

definition entry :: "phys_mem \<Rightarrow> u64 \<Rightarrow> nat \<Rightarrow> u64" where
  "entry m table i = rd64 m (table + 8 * of_nat i)"

definition set_entry :: "u64 \<Rightarrow> nat \<Rightarrow> u64 \<Rightarrow> phys_mem \<Rightarrow> phys_mem" where
  "set_entry table i v m = wr64 (table + 8 * of_nat i) v m"

definition pte_writable :: "u64 \<Rightarrow> bool" where "pte_writable e \<longleftrightarrow> bit e 1"
definition pte_flags :: "u64 \<Rightarrow> u64" where "pte_flags e = e AND NOT 0x000FFFFFFFFFF000"

definition PTE_PRESENT :: u64 where "PTE_PRESENT = 1"
definition PTE_WRITABLE :: u64 where "PTE_WRITABLE = 2"
definition PTE_USER :: u64 where "PTE_USER = 4"
definition PTE_NO_EXECUTE :: u64 where "PTE_NO_EXECUTE = 0x8000000000000000"

subsection \<open>Addresses within a frame\<close>

definition page_aligned :: "u64 \<Rightarrow> bool" where
  "page_aligned a \<longleftrightarrow> a mod 4096 = 0"

lemma unat_page_aligned:
  assumes "page_aligned a"
  obtains q where "unat a = 4096 * q" "unat a + 4096 \<le> 2 ^ 64"
proof -
  have "unat a mod 4096 = unat (a mod 4096)" by (simp add: unat_mod)
  then have "unat a mod 4096 = 0" using assms by (simp add: page_aligned_def)
  then obtain q where q: "unat a = 4096 * q" by (auto simp: mod_eq_0_iff_dvd)
  moreover have "unat a < 2 ^ 64" using unsigned_less [of a, where ?'a = nat] by simp
  ultimately have "unat a + 4096 \<le> 2 ^ 64" by simp
  with q that show ?thesis by blast
qed

lemma page_room: "page_aligned a \<Longrightarrow> unat a + 4096 \<le> 2 ^ 64"
  by (erule unat_page_aligned)

text \<open>The lower half of the address space.\<close>

lemma below_47: "(a :: u64) < 2 ^ 47 \<longleftrightarrow> drop_bit 47 a = 0"
proof -
  have "unat (drop_bit 47 a) = unat a div 2 ^ 47" by (simp add: drop_bit_eq_div unat_div)
  moreover have "a < 2 ^ 47 \<longleftrightarrow> unat a < 2 ^ 47" by (simp add: word_less_nat_alt)
  ultimately show ?thesis by (auto simp: unat_eq_0 [symmetric] div_eq_0_iff)
qed

lemma unat_page_offset: "page_aligned a \<Longrightarrow> n < 4096 \<Longrightarrow> unat (a + of_nat n) = unat a + n"
  by (erule unat_page_aligned) (simp add: unat_word_ariths unat_of_nat)

lemma unat_diff_less:
  fixes a b :: u64
  assumes "unat a + n \<le> 2 ^ 64"
  shows "unat (b - a) < n \<longleftrightarrow> unat a \<le> unat b \<and> unat b < unat a + n"
    and "unat (b - a) < n \<Longrightarrow> unat (b - a) = unat b - unat a"
proof -
  have "unat b = (unat (b - a) + unat a) mod 2 ^ 64"
    using unat_word_ariths(1) [of "b - a" a] by simp
  moreover have less: "unat (b - a) < 2 ^ 64" "unat a < 2 ^ 64" "unat b < 2 ^ 64"
    using unsigned_less [of "b - a", where ?'a = nat] unsigned_less [of a, where ?'a = nat] unsigned_less [of b, where ?'a = nat] by simp_all
  ultimately have "unat b = unat (b - a) + unat a \<or> unat b + 2 ^ 64 = unat (b - a) + unat a"
    by (cases "unat (b - a) + unat a < 2 ^ 64") (auto simp: mod_if)
  then show "unat (b - a) < n \<longleftrightarrow> unat a \<le> unat b \<and> unat b < unat a + n"
      "unat (b - a) < n \<Longrightarrow> unat (b - a) = unat b - unat a"
    using assms less by auto
qed

lemma page_offset_unique:
  assumes "page_aligned a" "page_aligned b" "m < 4096" "n < 4096" "unat a + m = unat b + n"
  shows "a = b \<and> m = n"
proof -
  obtain p where p: "unat a = 4096 * p" using unat_page_aligned [OF assms(1)] by blast
  obtain q where q: "unat b = 4096 * q" using unat_page_aligned [OF assms(2)] by blast
  have "(4096 * p + m) div 4096 = (4096 * q + n) div 4096" using assms(5) p q by simp
  then have "p = q" using assms(3,4) by simp
  then have "unat a = unat b" using p q by simp
  then have "a = b" by (rule unsigned_word_eqI)
  then show ?thesis using assms(5) by simp
qed

subsection \<open>Entries of tables\<close>

lemma entry_byte_addr:
  assumes "page_aligned t" "i < 512" "k < 8"
  shows "unat (t + 8 * of_nat i + of_nat k) = unat t + (8 * i + k)" "t + 8 * of_nat i + of_nat k = t + of_nat (8 * i + k)"
proof -
  show e: "t + 8 * of_nat i + of_nat k = t + of_nat (8 * i + k)" by (simp add: algebra_simps)
  have "8 * i + k < 4096" using assms by simp
  then show "unat (t + 8 * of_nat i + of_nat k) = unat t + (8 * i + k)"
    unfolding e by (rule unat_page_offset [OF assms(1)])
qed

text \<open>Two memories with the same bytes in a frame have the same entries there.\<close>

lemma entry_cong:
  assumes "\<And>n. n < 4096 \<Longrightarrow> m' (t' + of_nat n) = m (t + of_nat n)" "i < 512"
  shows "entry m' t' i = entry m t i"
proof -
  have "m' (t' + 8 * of_nat i + of_nat k) = m (t + 8 * of_nat i + of_nat k)" if "k < 8" for k
    using assms(1) [of "8 * i + k"] assms(2) that by (simp add: algebra_simps)
  then show ?thesis unfolding entry_def rd64_def by (intro arg_cong [of _ _ from_le_bytes]) simp
qed

lemma set_entry_byte:
  assumes "page_aligned t" "page_aligned t'" "i < 512" "n < 4096"
  shows "set_entry t i v m (t' + of_nat n) =
    (if t' = t \<and> 8 * i \<le> n \<and> n < 8 * i + 8 then to_le_bytes v ! (n - 8 * i) else m (t' + of_nat n))"
proof -
  let ?a = "t + 8 * of_nat i :: u64"
  have a: "unat ?a = unat t + 8 * i" using entry_byte_addr [OF assms(1,3), of 0] by simp
  have b: "unat (t' + of_nat n) = unat t' + n" by (rule unat_page_offset [OF assms(2,4)])
  have r: "unat ?a + 8 \<le> 2 ^ 64" using a assms(3) page_room [OF assms(1)] by simp
  have "(unat ?a \<le> unat (t' + of_nat n) \<and> unat (t' + of_nat n) < unat ?a + 8) \<longleftrightarrow> t' = t \<and> 8 * i \<le> n \<and> n < 8 * i + 8"
  proof
    assume l: "unat ?a \<le> unat (t' + of_nat n) \<and> unat (t' + of_nat n) < unat ?a + 8"
    define k where "k = unat t' + n - (unat t + 8 * i)"
    have k: "k < 8" "unat t' + n = unat t + (8 * i + k)" using l a b by (auto simp: k_def)
    then have "t' = t \<and> n = 8 * i + k" using assms by (intro page_offset_unique) simp_all
    then show "t' = t \<and> 8 * i \<le> n \<and> n < 8 * i + 8" using k(1) by simp
  qed (use a b in auto)
  with unat_diff_less [OF r, of "t' + of_nat n"] show ?thesis
    using a b by (auto simp: set_entry_def wr64_def put_bytes_def)
qed

lemma entry_set_entry:
  assumes "page_aligned t" "page_aligned t'" "i < 512" "j < 512"
  shows "entry (set_entry t i v m) t' j = (if t' = t \<and> j = i then v else entry m t' j)"
proof -
  have "set_entry t i v m (t' + 8 * of_nat j + of_nat k) =
      (if t' = t \<and> j = i then to_le_bytes v ! k else m (t' + 8 * of_nat j + of_nat k))" if "k < 8" for k
  proof -
    have n: "8 * j + k < 4096" using assms(4) that by simp
    have c: "8 * i \<le> 8 * j + k \<and> 8 * j + k < 8 * i + 8 \<longleftrightarrow> j = i" using that by arith
    note byte = set_entry_byte [OF assms(1-3) n, of v m, unfolded c]
    show ?thesis
    proof (cases "t' = t \<and> j = i")
      case True
      then show ?thesis unfolding entry_byte_addr(2) [OF assms(2,4) that] using byte by (simp only: if_True simp_thms diff_add_inverse)
    next
      case False
      then show ?thesis unfolding entry_byte_addr(2) [OF assms(2,4) that] using byte by (simp only: if_False)
    qed
  qed
  then have "map (\<lambda>k. set_entry t i v m (t' + 8 * of_nat j + of_nat k)) [0..<8] =
      (if t' = t \<and> j = i then to_le_bytes v else map (\<lambda>k. m (t' + 8 * of_nat j + of_nat k)) [0..<8])"
    by (auto intro!: nth_equalityI)
  then show ?thesis unfolding entry_def rd64_def by (simp add: from_to_le_bytes)
qed

lemma fill_frame_byte:
  assumes "page_aligned t" "page_aligned t'" "n < 4096"
  shows "fill_bytes t v 4096 m (t' + of_nat n) = (if t' = t then v else m (t' + of_nat n))"
proof -
  have b: "unat (t' + of_nat n) = unat t' + n" by (rule unat_page_offset [OF assms(2,3)])
  have r: "unat t + 4096 \<le> 2 ^ 64" by (rule page_room [OF assms(1)])
  have "unat t \<le> unat t' + n \<and> unat t' + n < unat t + 4096 \<longleftrightarrow> t' = t"
  proof
    assume l: "unat t \<le> unat t' + n \<and> unat t' + n < unat t + 4096"
    define k where "k = unat t' + n - unat t"
    have "k < 4096" "unat t' + n = unat t + k" using l by (auto simp: k_def)
    then show "t' = t" using page_offset_unique [OF assms(2,1,3)] by blast
  qed (use assms(3) in auto)
  with unat_diff_less(1) [OF r, of "t' + of_nat n"] show ?thesis by (simp add: fill_bytes_def b)
qed

lemma copy_frame_byte:
  assumes "page_aligned dst" "page_aligned t'" "n < 4096"
  shows "copy_bytes src dst 4096 m (t' + of_nat n) = (if t' = dst then m (src + of_nat n) else m (t' + of_nat n))"
proof -
  have "(unat (t' + of_nat n - dst) < 4096) = (t' = dst)"
    using fill_frame_byte [OF assms, of 1 "\<lambda>_. 0"] unfolding fill_bytes_def by (simp split: if_splits)
  then show ?thesis by (auto simp: copy_bytes_def)
qed

lemma entry_fill_frame:
  assumes "page_aligned t" "page_aligned t'" "j < 512"
  shows "entry (fill_bytes t 0 4096 m) t' j = (if t' = t then 0 else entry m t' j)"
proof (cases "t' = t")
  case True
  have "entry (fill_bytes t 0 4096 m) t' j = entry (\<lambda>_. 0) t' j"
    using True assms by (intro entry_cong) (simp_all add: fill_frame_byte)
  also have "\<dots> = 0" by (rule bit_word_eqI) (auto simp: entry_def rd64_def bit_from_le_bytes)
  finally show ?thesis using True by simp
next
  case False
  then show ?thesis using assms by (auto intro!: entry_cong simp: fill_frame_byte)
qed

lemma page_aligned_pte_addr [simp]: "page_aligned (pte_addr e)"
proof -
  have "pte_addr e mod 4096 = take_bit 12 (pte_addr e)" by (simp add: take_bit_eq_mod)
  also have "\<dots> = 0"
    by (rule bit_word_eqI) (auto simp: pte_addr_def bit_take_bit_iff bit_and_iff bit_numeral_rec(1) elim: less_SucE)
  finally show ?thesis by (simp add: page_aligned_def)
qed

lemma page_aligned_frame_addr [simp]: "i < MAX_FRAMES \<Longrightarrow> page_aligned (of_nat i * PAGE_SIZE)"
  using frame_index_of_nat(2) [of i] by (simp add: page_aligned_def PAGE_SIZE_def)

end
