(* ===== verification/Vmm.thy ===== *)
theory Vmm
  imports Phys_Mem
begin

text \<open>
  The parts of the virtual memory manager (\<^verbatim>\<open>indo-kernel/src/memory/vmm.rs\<close>) that walk and change page
  tables themselves: creating and releasing address spaces, sharing the pages of a parent with a forked child, and the
  copy on a write fault. The kernel's page table, with its identity map, is active while they run. Entries are
  read and written as the x86-64 format defines them.
\<close>

subsection \<open>Memory and frames\<close>

text \<open>
  Physical memory, the frame allocator, the active page table and the kernel's. Walks read memory by physical
  address, which the identity map of the kernel's table makes possible; caches of translations are not modelled.
\<close>

record vmem =
  vm_mem :: phys_mem
  vm_pmm :: pmm
  vm_cr3 :: u64
  vm_kernel_pml4 :: u64

definition mem_modify :: "(phys_mem \<Rightarrow> phys_mem) \<Rightarrow> (vmem, 'e, unit) op" where
  "mem_modify f v = (Inr (), v\<lparr>vm_mem := f (vm_mem v)\<rparr>)"

definition pmm_op :: "(pmm \<Rightarrow> pmm or_panic) \<Rightarrow> (vmem, 'e, unit) op" where
  "pmm_op f v = (case f (vm_pmm v) of Inl p \<Rightarrow> (Inl (Crash p), v) | Inr s \<Rightarrow> (Inr (), v\<lparr>vm_pmm := s\<rparr>))"

definition pmm_alloc :: "(vmem, 'e, u64 option) op" where
  "pmm_alloc v = (case alloc_frame (vm_pmm v) of Inl p \<Rightarrow> (Inl (Crash p), v) | Inr (r, s) \<Rightarrow> (Inr r, v\<lparr>vm_pmm := s\<rparr>))"

text \<open>Switching to the kernel's page table for the duration of an operation.\<close>

definition with_kernel_pml4 :: "(vmem, 'e, 'a) op \<Rightarrow> (vmem, 'e, 'a) op" where
  "with_kernel_pml4 m v = (case m (v\<lparr>vm_cr3 := vm_kernel_pml4 v\<rparr>) of
     (Inl (Crash p), v') \<Rightarrow> (Inl (Crash p), v') | (r, v') \<Rightarrow> (r, v'\<lparr>vm_cr3 := vm_cr3 v\<rparr>))"

definition switch_page_table :: "u64 \<Rightarrow> (vmem, 'e, u64) op" where
  "switch_page_table new_pml4 v = (Inr (vm_cr3 v), v\<lparr>vm_cr3 := new_pml4 AND NOT 0xFFF\<rparr>)"

fun each :: "('a \<Rightarrow> ('s, 'e, unit) op) \<Rightarrow> 'a list \<Rightarrow> ('s, 'e, unit) op" where
  "each f [] = sreturn ()"
| "each f (x # xs) = sbind (f x) (\<lambda>_. each f xs)"

definition zero_frame :: "u64 \<Rightarrow> phys_mem \<Rightarrow> phys_mem" where
  "zero_frame f = fill_bytes f 0 4096"

text \<open>The frame allocator handed to the mapping code: a zeroed frame.\<close>

definition allocate_frame :: "(vmem, 'e, u64 option) op" where
  "allocate_frame = sbind pmm_alloc (\<lambda>r. case r of
     None \<Rightarrow> sreturn None | Some f \<Rightarrow> sbind (mem_modify (zero_frame f)) (\<lambda>_. sreturn (Some f)))"

subsection \<open>Mapping through the paging crate\<close>

text \<open>
  The operations of the \<^verbatim>\<open>x86_64\<close> crate's mapper that the manager calls: \<open>map_to\<close> with the frame allocator for new
  tables, the PML4, the page, the frame and the flags; \<open>unmap\<close>, which returns the frame; \<open>translate_page\<close>; and the
  constructor \<open>VirtAddr::new\<close>, which panics on addresses that are not canonical.
\<close>

record mapper =
  map_to :: "(vmem, unit, u64 option) op \<Rightarrow> u64 \<Rightarrow> u64 \<Rightarrow> u64 \<Rightarrow> u64 \<Rightarrow> (vmem, unit, unit) op"
  unmap :: "u64 \<Rightarrow> u64 \<Rightarrow> (vmem, unit, u64) op"
  translate_page :: "phys_mem \<Rightarrow> u64 \<Rightarrow> u64 \<Rightarrow> u64 option"
  virt_addr_new :: "u64 \<Rightarrow> u64 or_panic"

definition page_base :: "u64 \<Rightarrow> u64" where
  "page_base a = a AND NOT 0xFFF"

text \<open>\<open>expect\<close>: an error becomes a panic.\<close>

definition sexpect :: "string \<Rightarrow> ('s, 'e, 'a) op \<Rightarrow> ('s, 'f, 'a) op" where
  "sexpect msg m s = (case m s of (Inl (Err _), s') \<Rightarrow> (Inl (Crash (Panic msg)), s') | (Inl (Crash p), s') \<Rightarrow> (Inl (Crash p), s')
     | (Inr x, s') \<Rightarrow> (Inr x, s'))"

definition map_page :: "mapper \<Rightarrow> u64 \<Rightarrow> u64 \<Rightarrow> u64 \<Rightarrow> u64 \<Rightarrow> (vmem, 'e, unit) op" where
  "map_page mp pml4 virt phys flags =
     sexpect ''VMM: failed to map page'' (map_to mp allocate_frame pml4 (page_base virt) (page_base phys) flags)"

definition translate_addr :: "mapper \<Rightarrow> phys_mem \<Rightarrow> u64 \<Rightarrow> u64 \<Rightarrow> u64 option" where
  "translate_addr mp m pml4 virt = translate_page mp m pml4 (page_base virt)"

definition unmap_page :: "mapper \<Rightarrow> u64 \<Rightarrow> u64 \<Rightarrow> (vmem, 'e, u64) op" where
  "unmap_page mp pml4 virt = sexpect ''VMM: failed to unmap page'' (unmap mp pml4 (page_base virt))"

subsection \<open>Address spaces\<close>

definition create_empty_pml4 :: "(vmem, 'e, u64) op" where
  "create_empty_pml4 = sbind pmm_alloc (\<lambda>r. case r of
     None \<Rightarrow> scrash (Panic ''PMM: out of memory for PML4'')
   | Some f \<Rightarrow> sbind (mem_modify (zero_frame f)) (\<lambda>_. sreturn f))"

definition create_user_pml4 :: "u64 \<Rightarrow> (vmem, 'e, u64) op" where
  "create_user_pml4 kernel_pml4 =
     sbind create_empty_pml4 (\<lambda>new_pml4.
     sbind (mem_modify (copy_bytes (kernel_pml4 + 2048) (new_pml4 + 2048) 2048)) (\<lambda>_. sreturn new_pml4))"

definition remove_identity_map :: "u64 \<Rightarrow> (vmem, 'e, unit) op" where
  "remove_identity_map pml4 = mem_modify (set_entry pml4 0 0)"

text \<open>The table below an entry, if it is present and not a huge page.\<close>

definition subtable :: "phys_mem \<Rightarrow> u64 \<Rightarrow> nat \<Rightarrow> u64 option" where
  "subtable m table i =
     (let e = entry m table i in if pte_present e \<and> \<not> pte_huge e then Some (pte_addr e) else None)"

definition page_index :: "nat \<Rightarrow> u64 \<Rightarrow> nat" where
  "page_index shift virt = unat (drop_bit shift virt AND 0x1FF)"

text \<open>The frame and the index of the entry that maps an address.\<close>

definition walk_page_table_to_pte :: "phys_mem \<Rightarrow> u64 \<Rightarrow> u64 \<Rightarrow> (u64 \<times> nat) option" where
  "walk_page_table_to_pte m pml4 virt =
     (let e4 = entry m pml4 (page_index 39 virt) in
      if \<not> pte_present e4 then None
      else case subtable m (pte_addr e4) (page_index 30 virt) of None \<Rightarrow> None
      | Some pd \<Rightarrow> (case subtable m pd (page_index 21 virt) of None \<Rightarrow> None
        | Some pt \<Rightarrow> if pte_present (entry m pt (page_index 12 virt)) then Some (pt, page_index 12 virt) else None))"

text \<open>Marking the identity map as not executable, except for the pages of the kernel.\<close>

definition harden_entry :: "u64 \<Rightarrow> u64 \<Rightarrow> u64 \<Rightarrow> nat \<Rightarrow> (vmem, 'e, unit) op" where
  "harden_entry kern_start kern_end pt i = mem_modify (\<lambda>m.
     let e = entry m pt i in
     if \<not> pte_present e \<or> kern_start \<le> pte_addr e \<and> pte_addr e < kern_end then m
     else set_entry pt i (pte_addr e OR (pte_flags e OR PTE_NO_EXECUTE)) m)"

definition in_subtables :: "(u64 \<Rightarrow> (vmem, 'e, unit) op) \<Rightarrow> u64 \<Rightarrow> nat \<Rightarrow> (vmem, 'e, unit) op" where
  "in_subtables f table i = (\<lambda>v. case subtable (vm_mem v) table i of None \<Rightarrow> sreturn () v | Some t \<Rightarrow> f t v)"

definition harden_identity_map :: "u64 \<Rightarrow> u64 \<Rightarrow> (vmem, 'e, unit) op" where
  "harden_identity_map kernel_phys_start pml4 =
     (let kern_start = kernel_phys_start AND 0xFFFFFFFFFFFFF000;
          kern_end = (kernel_phys_start + 0x100000 + 0xFFF) AND 0xFFFFFFFFFFFFF000 in
      (\<lambda>v. let e = entry (vm_mem v) pml4 0 in
        if \<not> pte_present e then sreturn () v
        else each (in_subtables (\<lambda>pd. each (in_subtables (\<lambda>pt.
               each (harden_entry kern_start kern_end pt) [0..<512]) pd) [0..<512]) (pte_addr e)) [0..<512] v))"

subsection \<open>Releasing an address space\<close>

definition free_pt_entry :: "u64 \<Rightarrow> nat \<Rightarrow> (vmem, 'e, unit) op" where
  "free_pt_entry pt i = (\<lambda>v. let e = entry (vm_mem v) pt i in
     if pte_present e then pmm_op (decref (pte_addr e)) v else sreturn () v)"

definition free_pt :: "u64 \<Rightarrow> (vmem, 'e, unit) op" where
  "free_pt pt = sbind (each (free_pt_entry pt) [0..<512]) (\<lambda>_. pmm_op (free_frame pt))"

definition free_pd :: "u64 \<Rightarrow> (vmem, 'e, unit) op" where
  "free_pd pd = sbind (each (in_subtables free_pt pd) [0..<512]) (\<lambda>_. pmm_op (free_frame pd))"

definition free_pdpt :: "u64 \<Rightarrow> (vmem, 'e, unit) op" where
  "free_pdpt pdpt = sbind (each (in_subtables free_pd pdpt) [0..<512]) (\<lambda>_. pmm_op (free_frame pdpt))"

definition free_user_address_space :: "u64 \<Rightarrow> (vmem, 'e, unit) op" where
  "free_user_address_space pml4 =
     sbind (with_kernel_pml4 (each (\<lambda>i v. let e = entry (vm_mem v) pml4 i in
       if pte_present e then free_pdpt (pte_addr e) v else sreturn () v) [0..<256]))
     (\<lambda>_. pmm_op (free_frame pml4))"

subsection \<open>Sharing pages with a child\<close>

text \<open>The lists of frames to give back if memory runs out half-way.\<close>

record copying =
  cp_vm :: vmem
  cp_allocated :: "u64 list"
  cp_increfed :: "u64 list"

definition on_vm :: "(vmem, 'e, 'a) op \<Rightarrow> (copying, 'e, 'a) op" where
  "on_vm m c = (case m (cp_vm c) of (r, v) \<Rightarrow> (r, c\<lparr>cp_vm := v\<rparr>))"

text \<open>A new table of the child, linked into its parent table.\<close>

definition child_table :: "u64 \<Rightarrow> nat \<Rightarrow> (copying, unit, u64) op" where
  "child_table table i = sbind (on_vm pmm_alloc) (\<lambda>r. case r of
     None \<Rightarrow> sfail ()
   | Some f \<Rightarrow> (\<lambda>c. (Inr f, c\<lparr>cp_allocated := cp_allocated c @ [f],
       cp_vm := (cp_vm c)\<lparr>vm_mem := set_entry table i (f OR (PTE_PRESENT OR PTE_WRITABLE OR PTE_USER))
         (zero_frame f (vm_mem (cp_vm c)))\<rparr>\<rparr>)))"

definition copy_pt_entry :: "u64 \<Rightarrow> u64 \<Rightarrow> nat \<Rightarrow> (copying, unit, unit) op" where
  "copy_pt_entry pt child_pt i = (\<lambda>c. let e = entry (vm_mem (cp_vm c)) pt i in
     if \<not> pte_present e then sreturn () c
     else let frame = pte_addr e; flags = pte_flags e AND NOT PTE_WRITABLE in
       sbind (on_vm (pmm_op (incref frame))) (\<lambda>_ c.
         (Inr (), c\<lparr>cp_increfed := cp_increfed c @ [frame],
            cp_vm := (cp_vm c)\<lparr>vm_mem := set_entry pt i (frame OR flags) (set_entry child_pt i (frame OR flags) (vm_mem (cp_vm c)))\<rparr>\<rparr>)) c)"

definition copy_pt :: "u64 \<Rightarrow> u64 \<Rightarrow> (copying, unit, unit) op" where
  "copy_pt pt child_pt = each (copy_pt_entry pt child_pt) [0..<512]"

definition copy_subtable :: "(u64 \<Rightarrow> u64 \<Rightarrow> (copying, unit, unit) op) \<Rightarrow> u64 \<Rightarrow> u64 \<Rightarrow> nat \<Rightarrow> (copying, unit, unit) op" where
  "copy_subtable copy table child i = (\<lambda>c. case subtable (vm_mem (cp_vm c)) table i of
     None \<Rightarrow> sreturn () c | Some t \<Rightarrow> sbind (child_table child i) (copy t) c)"

definition copy_pd :: "u64 \<Rightarrow> u64 \<Rightarrow> (copying, unit, unit) op" where
  "copy_pd pd child_pd = each (copy_subtable copy_pt pd child_pd) [0..<512]"

definition copy_pdpt :: "u64 \<Rightarrow> u64 \<Rightarrow> (copying, unit, unit) op" where
  "copy_pdpt pdpt child_pdpt = each (copy_subtable copy_pd pdpt child_pdpt) [0..<512]"

definition copy_pml4_entry :: "u64 \<Rightarrow> u64 \<Rightarrow> nat \<Rightarrow> (copying, unit, unit) op" where
  "copy_pml4_entry parent_pml4 child_pml4 i = (\<lambda>c. let e = entry (vm_mem (cp_vm c)) parent_pml4 i in
     if pte_present e then sbind (child_table child_pml4 i) (copy_pdpt (pte_addr e)) c else sreturn () c)"

definition copy_user_pages :: "u64 \<Rightarrow> u64 \<Rightarrow> (vmem, unit, unit) op" where
  "copy_user_pages parent_pml4 child_pml4 = with_kernel_pml4 (\<lambda>v.
     case each (copy_pml4_entry parent_pml4 child_pml4) [0..<256] \<lparr>cp_vm = v, cp_allocated = [], cp_increfed = []\<rparr> of
       (Inr _, c) \<Rightarrow> (Inr (), cp_vm c)
     | (Inl (Crash p), c) \<Rightarrow> (Inl (Crash p), cp_vm c)
     | (Inl (Err _), c) \<Rightarrow>
         sbind (each (\<lambda>f. pmm_op (free_frame f)) (cp_allocated c)) (\<lambda>_.
         sbind (each (\<lambda>f. pmm_op (decref f)) (cp_increfed c)) (\<lambda>_. sfail ())) (cp_vm c))"

subsection \<open>Write faults\<close>

definition cow_fault :: "u64 \<Rightarrow> u64 \<Rightarrow> (vmem, unit, unit) op" where
  "cow_fault pml4 virt = (\<lambda>v. case walk_page_table_to_pte (vm_mem v) pml4 virt of
     None \<Rightarrow> sfail () v
   | Some (pt, i) \<Rightarrow>
       let e = entry (vm_mem v) pt i; frame = pte_addr e; flags = pte_flags e in
       (case get_refcount frame (vm_pmm v) of
          Inl p \<Rightarrow> scrash p v
        | Inr refcount \<Rightarrow>
            if refcount > 1 then
              sbind pmm_alloc (\<lambda>r. case r of
                 None \<Rightarrow> sfail ()
               | Some new_frame \<Rightarrow>
                   sbind (mem_modify (copy_bytes frame new_frame 4096)) (\<lambda>_.
                   sbind (mem_modify (set_entry pt i (new_frame OR (flags OR PTE_WRITABLE)))) (\<lambda>_.
                   pmm_op (decref frame)))) v
            else if \<not> pte_writable e then mem_modify (set_entry pt i (frame OR (flags OR PTE_WRITABLE))) v
            else sfail () v))"

text \<open>The address of a fault is canonical.\<close>

definition handle_cow_fault :: "u64 \<Rightarrow> (vmem, unit, unit) op" where
  "handle_cow_fault virt = (\<lambda>v. with_kernel_pml4 (cow_fault (vm_cr3 v) virt) v)"

subsection \<open>The kernel's page tables\<close>

definition KERNEL_VIRT_BASE :: u64 where "KERNEL_VIRT_BASE = 0xFFFFFFFF80000000"
definition KERNEL_HEAP_BASE :: u64 where "KERNEL_HEAP_BASE = 0xFFFFFFFFC0000000"
definition KERNEL_HEAP_INITIAL_SIZE :: u64 where "KERNEL_HEAP_INITIAL_SIZE = 16 * 1024 * 1024"

text \<open>The addresses of a loop from \<open>a\<close> in steps of a page while below \<open>b\<close>, which is not in the last page of the address space.\<close>

definition pages_from :: "u64 \<Rightarrow> u64 \<Rightarrow> u64 list" where
  "pages_from a b = map (\<lambda>i. a + of_nat i * PAGE_SIZE) [0..<(unat b - unat a + 4095) div 4096]"

definition map_heap_page :: "mapper \<Rightarrow> u64 \<Rightarrow> nat \<Rightarrow> (vmem, 'e, unit) op" where
  "map_heap_page mp pml4 i = sbind pmm_alloc (\<lambda>r. case r of
     None \<Rightarrow> scrash (Panic ''VMM: out of memory for heap pages'')
   | Some f \<Rightarrow> map_page mp pml4 (KERNEL_HEAP_BASE + of_nat i * PAGE_SIZE) f (PTE_PRESENT OR PTE_WRITABLE))"

definition init_kernel_page_tables :: "mapper \<Rightarrow> u64 \<Rightarrow> u64 \<Rightarrow> (vmem, 'e, u64) op" where
  "init_kernel_page_tables mp kernel_phys_start kernel_phys_end =
     (let flags = PTE_PRESENT OR PTE_WRITABLE; virt_offset = KERNEL_VIRT_BASE - kernel_phys_start in
      sbind create_empty_pml4 (\<lambda>pml4.
      sbind (each (\<lambda>a. map_page mp pml4 (a + virt_offset) a flags) (pages_from kernel_phys_start kernel_phys_end)) (\<lambda>_.
      sbind (each (map_heap_page mp pml4) [0..<unat (KERNEL_HEAP_INITIAL_SIZE div PAGE_SIZE)]) (\<lambda>_.
      sbind (each (\<lambda>a. map_page mp pml4 a a flags) (pages_from 0 0x100000000)) (\<lambda>_.
      sbind (map_page mp pml4 0xFFFFFFFFFEE00000 0xFEE00000 flags) (\<lambda>_. sreturn pml4))))))"

end
