(* ===== verification/Address_Space.thy ===== *)
theory Address_Space
  imports Vmm "HOL-Library.Multiset"
begin

text \<open>
  Address spaces as trees of page tables: what a page table maps, which frames hold its tables, and the
  invariant that ties the reference counts of the frame allocator to the mappings of all address spaces.
\<close>

subsection \<open>Entries\<close>

definition read_only :: "u64 \<Rightarrow> u64" where
  "read_only e = e AND NOT PTE_WRITABLE"

lemma addr_mask: "(0x000FFFFFFFFFF000 :: u64) = push_bit 12 (mask 40)"
  by (simp add: push_bit_eq_mult mask_eq_exp_minus_1)

lemma bit_addr_mask: "bit (push_bit 12 (mask 40) :: u64) n \<longleftrightarrow> 12 \<le> n \<and> n < 52"
  by (auto simp: bit_push_bit_iff bit_mask_iff)

lemma bit_pte_addr: "bit (pte_addr e) n \<longleftrightarrow> bit e n \<and> 12 \<le> n \<and> n < 52"
  unfolding pte_addr_def addr_mask bit_and_iff bit_addr_mask by simp

lemma bit_pte_flags: "bit (pte_flags e) n \<longleftrightarrow> bit e n \<and> \<not> (12 \<le> n \<and> n < 52)"
  unfolding pte_flags_def addr_mask bit_and_iff bit_not_iff bit_addr_mask by (auto dest: bit_imp_le_length)

lemma bit_PTE [simp]:
  "bit PTE_PRESENT n \<longleftrightarrow> n = 0" "bit PTE_WRITABLE n \<longleftrightarrow> n = 1" "bit PTE_USER n \<longleftrightarrow> n = 2" "bit PTE_NO_EXECUTE n \<longleftrightarrow> n = 63"
proof -
  have e: "PTE_PRESENT = 2 ^ 0" "PTE_WRITABLE = 2 ^ 1" "PTE_USER = 2 ^ 2" "PTE_NO_EXECUTE = 2 ^ 63"
    by (simp_all add: PTE_PRESENT_def PTE_WRITABLE_def PTE_USER_def PTE_NO_EXECUTE_def)
  show "bit PTE_PRESENT n \<longleftrightarrow> n = 0" "bit PTE_WRITABLE n \<longleftrightarrow> n = 1" "bit PTE_USER n \<longleftrightarrow> n = 2" "bit PTE_NO_EXECUTE n \<longleftrightarrow> n = 63"
    unfolding e bit_exp_iff by auto
qed

lemmas pte_bits = bit_pte_addr bit_pte_flags bit_and_iff bit_or_iff bit_not_iff

lemma frame_addr_pte_addr:
  assumes "i < MAX_FRAMES"
  shows "pte_addr (of_nat i * PAGE_SIZE) = of_nat i * PAGE_SIZE"
proof (rule bit_word_eqI)
  fix n
  have e: "of_nat i * PAGE_SIZE = push_bit 12 (of_nat i)" by (simp add: PAGE_SIZE_def push_bit_eq_mult)
  have "i < 2 ^ 22" using assms by (simp add: MAX_FRAMES_def)
  then have "bit i m \<Longrightarrow> m < 22" for m by (metis bit_take_bit_iff take_bit_nat_eq_self)
  then have "bit (of_nat i :: u64) m \<Longrightarrow> m < 22" for m by (auto simp: bit_of_nat_iff)
  then show "bit (pte_addr (of_nat i * PAGE_SIZE)) n = bit (of_nat i * PAGE_SIZE :: u64) n"
    unfolding e bit_pte_addr bit_push_bit_iff by fastforce
qed

lemma pte_addr_or:
  assumes "pte_addr a = a" "pte_addr fl = 0"
  shows "pte_addr (a OR fl) = a"
  using assms by (simp add: pte_addr_def bit.conj_disj_distrib2)

lemma pte_addr_flags [simp]: "pte_addr (pte_flags e) = 0" "pte_addr (pte_addr e) = pte_addr e" "pte_addr (fl AND NOT b) = pte_addr fl AND NOT b"
  "pte_addr (a OR b) = pte_addr a OR pte_addr b" "pte_addr PTE_PRESENT = 0" "pte_addr PTE_WRITABLE = 0" "pte_addr PTE_USER = 0"
  by (auto intro!: bit_word_eqI simp: pte_bits)

lemma read_only_eq: "pte_addr e OR (pte_flags e AND NOT PTE_WRITABLE) = read_only e"
  by (rule bit_word_eqI) (auto simp: read_only_def pte_bits)

lemma read_only_fields [simp]:
  "pte_addr (read_only e) = pte_addr e" "pte_present (read_only e) = pte_present e" "pte_huge (read_only e) = pte_huge e"
  "\<not> pte_writable (read_only e)" "read_only (read_only e) = read_only e" "pte_user (read_only e) = pte_user e"
  by (auto intro!: bit_word_eqI simp: read_only_def pte_bits pte_present_def pte_huge_def pte_writable_def pte_user_def)

subsection \<open>Trees of tables\<close>

text \<open>
  Level 4 is the PML4, of which a user address space owns the lower half, and level 1 a page table. An entry is
  followed when it is present and not a huge page. \<open>mapped k m e\<close> lists what the table of level \<open>k\<close> at the
  address in \<open>e\<close> maps, as pairs of the indices on the path and the last entry; \<open>tables k m e\<close> lists the
  frames of the tables of this tree.
\<close>

definition width :: "nat \<Rightarrow> nat" where
  "width k = (if k = 4 then 256 else 512)"

definition follows :: "nat \<Rightarrow> u64 \<Rightarrow> bool" where
  "follows k e \<longleftrightarrow> pte_present e \<and> (k = 2 \<or> k = 3 \<longrightarrow> \<not> pte_huge e)"

primrec mapped :: "nat \<Rightarrow> phys_mem \<Rightarrow> u64 \<Rightarrow> (nat list \<times> u64) list" where
  "mapped 0 m e = [([], e)]"
| "mapped (Suc k) m e = concat (map (\<lambda>i. let e' = entry m (pte_addr e) i in
     if follows (Suc k) e' then map (apfst (Cons i)) (mapped k m e') else []) [0..<width (Suc k)])"

primrec tables :: "nat \<Rightarrow> phys_mem \<Rightarrow> u64 \<Rightarrow> u64 list" where
  "tables 0 m e = []"
| "tables (Suc k) m e = concat (map (\<lambda>i. let e' = entry m (pte_addr e) i in
     if follows (Suc k) e' then tables k m e' else []) [0..<width (Suc k)]) @ [pte_addr e]"

definition leaves :: "nat \<Rightarrow> phys_mem \<Rightarrow> u64 \<Rightarrow> u64 list" where
  "leaves k m e = map (pte_addr \<circ> snd) (mapped k m e)"

text \<open>The part of a table of level \<open>k + 1\<close> below some of its indices.\<close>

definition mapped_at :: "nat \<Rightarrow> phys_mem \<Rightarrow> u64 \<Rightarrow> nat list \<Rightarrow> (nat list \<times> u64) list" where
  "mapped_at k m t is = concat (map (\<lambda>i. let e = entry m t i in
     if follows (Suc k) e then map (apfst (Cons i)) (mapped k m e) else []) is)"

definition tables_at :: "nat \<Rightarrow> phys_mem \<Rightarrow> u64 \<Rightarrow> nat list \<Rightarrow> u64 list" where
  "tables_at k m t is = concat (map (\<lambda>i. let e = entry m t i in if follows (Suc k) e then tables k m e else []) is)"

definition leaves_at :: "nat \<Rightarrow> phys_mem \<Rightarrow> u64 \<Rightarrow> nat list \<Rightarrow> u64 list" where
  "leaves_at k m t is = map (pte_addr \<circ> snd) (mapped_at k m t is)"

lemma mapped_Suc: "mapped (Suc k) m e = mapped_at k m (pte_addr e) [0..<width (Suc k)]"
  by (simp add: mapped_at_def)

lemma tables_Suc: "tables (Suc k) m e = tables_at k m (pte_addr e) [0..<width (Suc k)] @ [pte_addr e]"
  by (simp add: tables_at_def)

lemma leaves_Suc: "leaves (Suc k) m e = leaves_at k m (pte_addr e) [0..<width (Suc k)]"
  unfolding leaves_def leaves_at_def mapped_Suc by (rule refl)

lemma leaves_0: "leaves 0 m e = [pte_addr e]"
  by (simp add: leaves_def)

lemma at_Nil [simp]: "mapped_at k m t [] = []" "tables_at k m t [] = []" "leaves_at k m t [] = []"
  by (simp_all add: mapped_at_def tables_at_def leaves_at_def)

lemma at_Cons:
  "mapped_at k m t (i # is) = mapped_at k m t [i] @ mapped_at k m t is"
  "tables_at k m t (i # is) = tables_at k m t [i] @ tables_at k m t is"
  "leaves_at k m t (i # is) = leaves_at k m t [i] @ leaves_at k m t is"
  by (simp_all add: mapped_at_def tables_at_def leaves_at_def)

lemma at_one:
  "mapped_at k m t [i] = (if follows (Suc k) (entry m t i) then map (apfst (Cons i)) (mapped k m (entry m t i)) else [])"
  "tables_at k m t [i] = (if follows (Suc k) (entry m t i) then tables k m (entry m t i) else [])"
  "leaves_at k m t [i] = (if follows (Suc k) (entry m t i) then leaves k m (entry m t i) else [])"
  by (simp_all add: mapped_at_def tables_at_def leaves_at_def leaves_def comp_def Let_def)

lemma width_le: "width k \<le> 512"
  by (simp add: width_def)

lemmas del_tree = mapped.simps(2) tables.simps(2)
declare del_tree [simp del]

lemma tables_aligned: "t \<in> set (tables k m e) \<Longrightarrow> page_aligned t"
  by (induction k arbitrary: e) (auto simp: del_tree Let_def split: if_splits)

text \<open>
  Memories whose entries in a tree differ only in their permissions have the same tables there and map the same
  frames. In one, entries may have lost the write permission (\<open>weakened\<close>).
\<close>

definition weakened :: "u64 \<Rightarrow> u64 \<Rightarrow> bool" where
  "weakened e e' \<longleftrightarrow> e' = e \<or> e' = read_only e"

definition entries_all :: "(u64 \<Rightarrow> u64 \<Rightarrow> bool) \<Rightarrow> (nat list \<times> u64) list \<Rightarrow> (nat list \<times> u64) list \<Rightarrow> bool" where
  "entries_all R = list_all2 (\<lambda>p q. fst p = fst q \<and> R (snd p) (snd q))"

definition same_target :: "u64 \<Rightarrow> u64 \<Rightarrow> bool" where
  "same_target e e' \<longleftrightarrow> pte_addr e' = pte_addr e \<and> pte_present e' = pte_present e \<and> pte_huge e' = pte_huge e"

lemma weakened_same_target: "weakened e e' \<Longrightarrow> same_target e e'"
  by (auto simp: weakened_def same_target_def)

lemma same_target_follows: "same_target e e' \<Longrightarrow> follows k e' = follows k e"
  by (simp add: same_target_def follows_def)

lemma weakened_trans: "weakened a b \<Longrightarrow> weakened b c \<Longrightarrow> weakened a c"
  by (auto simp: weakened_def)

lemma entries_all_append: "entries_all R a b \<Longrightarrow> entries_all R c d \<Longrightarrow> entries_all R (a @ c) (b @ d)"
  by (simp add: entries_all_def list_all2_appendI)

lemma entries_all_Cons_path: "entries_all R a b \<Longrightarrow> entries_all R (map (apfst (Cons i)) a) (map (apfst (Cons i)) b)"
  by (auto simp: entries_all_def list_all2_map1 list_all2_map2 elim!: list_all2_mono)

lemma entries_all_eq: "entries_all (=) a b \<longleftrightarrow> a = b"
proof -
  have "(\<lambda>p q. fst p = fst q \<and> snd p = snd q) = ((=) :: nat list \<times> u64 \<Rightarrow> _)" by (auto simp: fun_eq_iff prod_eq_iff)
  then show ?thesis by (simp add: entries_all_def list_all2_eq)
qed

lemma set_tables_at: "i \<in> set is \<Longrightarrow> follows (Suc k) (entry m t i) \<Longrightarrow> set (tables k m (entry m t i)) \<subseteq> set (tables_at k m t is)"
  by (auto simp: tables_at_def Let_def)

lemma related_at:
  assumes tree: "\<And>e e'. (\<And>t i. t \<in> set (tables k m e) \<Longrightarrow> i < 512 \<Longrightarrow> R (entry m t i) (entry m' t i)) \<Longrightarrow> R e e' \<Longrightarrow>
      tables k m' e' = tables k m e \<and> entries_all R (mapped k m e) (mapped k m' e')"
    and R: "\<And>e e'. R e e' \<Longrightarrow> same_target e e'"
    and below: "\<And>t i. t \<in> set (tables_at k m t0 is) \<Longrightarrow> i < 512 \<Longrightarrow> R (entry m t i) (entry m' t i)"
    and here: "\<And>i. i \<in> set is \<Longrightarrow> R (entry m t0 i) (entry m' t0 i)"
  shows "tables_at k m' t0 is = tables_at k m t0 is \<and> entries_all R (mapped_at k m t0 is) (mapped_at k m' t0 is)"
  using below here
proof (induction "is")
  case Nil
  then show ?case by (simp add: entries_all_def)
next
  case (Cons i "is")
  let ?e = "entry m t0 i" and ?e' = "entry m' t0 i"
  have r: "R ?e ?e'" using Cons.prems(2) by simp
  have f: "follows (Suc k) ?e' = follows (Suc k) ?e" using R [OF r] by (rule same_target_follows)
  have sub: "tables k m' ?e' = tables k m ?e \<and> entries_all R (mapped k m ?e) (mapped k m' ?e')" if "follows (Suc k) ?e"
  proof (rule tree [OF _ r])
    fix t j
    assume "t \<in> set (tables k m ?e)" "j < (512 :: nat)"
    then show "R (entry m t j) (entry m' t j)" using set_tables_at [of i "i # is" k m t0] that Cons.prems(1) by auto
  qed
  have one: "tables_at k m' t0 [i] = tables_at k m t0 [i]" "entries_all R (mapped_at k m t0 [i]) (mapped_at k m' t0 [i])"
    using sub by (simp_all add: at_one f entries_all_Cons_path) (simp_all add: entries_all_def)
  have "tables_at k m' t0 is = tables_at k m t0 is \<and> entries_all R (mapped_at k m t0 is) (mapped_at k m' t0 is)"
  proof (rule Cons.IH)
    fix t j
    assume "t \<in> set (tables_at k m t0 is)" "j < (512 :: nat)"
    then show "R (entry m t j) (entry m' t j)" using Cons.prems(1) by (simp add: at_Cons(2) [of k m t0 i "is"])
  next
    fix j
    assume "j \<in> set is"
    then show "R (entry m t0 j) (entry m' t0 j)" using Cons.prems(2) by simp
  qed
  then show ?case using one
    unfolding at_Cons(1,2) [of k m t0 i "is"] at_Cons(1,2) [of k m' t0 i "is"] by (simp add: entries_all_append)
qed

lemma related_tree:
  assumes R: "\<And>e e'. R e e' \<Longrightarrow> same_target e e'"
  shows "(\<And>t i. t \<in> set (tables k m e) \<Longrightarrow> i < 512 \<Longrightarrow> R (entry m t i) (entry m' t i)) \<Longrightarrow> R e e' \<Longrightarrow>
    tables k m' e' = tables k m e \<and> entries_all R (mapped k m e) (mapped k m' e')"
proof (induction k arbitrary: e e')
  case 0
  then show ?case by (simp add: entries_all_def)
next
  case (Suc k)
  have t': "pte_addr e' = pte_addr e" using R [OF Suc.prems(2)] by (simp add: same_target_def)
  have "tables_at k m' (pte_addr e) [0..<width (Suc k)] = tables_at k m (pte_addr e) [0..<width (Suc k)] \<and>
      entries_all R (mapped_at k m (pte_addr e) [0..<width (Suc k)]) (mapped_at k m' (pte_addr e) [0..<width (Suc k)])"
  proof (rule related_at [OF Suc.IH R])
    fix t i
    assume "t \<in> set (tables_at k m (pte_addr e) [0..<width (Suc k)])" "i < (512 :: nat)"
    then show "R (entry m t i) (entry m' t i)" by (intro Suc.prems(1)) (simp add: tables_Suc)
  next
    fix i
    assume "i \<in> set [0..<width (Suc k)]"
    then show "R (entry m (pte_addr e) i) (entry m' (pte_addr e) i)"
      using width_le [of "Suc k"] by (intro Suc.prems(1)) (simp_all add: tables_Suc)
  qed
  then show ?case by (simp add: tables_Suc mapped_Suc t')
qed

lemmas weakened_tree = related_tree [of weakened, OF weakened_same_target]

lemma weakened_at:
  assumes "\<And>t i. t \<in> set (tables_at k m t0 is) \<Longrightarrow> i < 512 \<Longrightarrow> weakened (entry m t i) (entry m' t i)"
    "\<And>i. i \<in> set is \<Longrightarrow> weakened (entry m t0 i) (entry m' t0 i)"
  shows "tables_at k m' t0 is = tables_at k m t0 is" "entries_all weakened (mapped_at k m t0 is) (mapped_at k m' t0 is)"
proof -
  have "tables_at k m' t0 is = tables_at k m t0 is \<and> entries_all weakened (mapped_at k m t0 is) (mapped_at k m' t0 is)"
    by (rule related_at [of _ _ weakened, OF weakened_tree weakened_same_target]) (simp_all add: assms)
  then show "tables_at k m' t0 is = tables_at k m t0 is" "entries_all weakened (mapped_at k m t0 is) (mapped_at k m' t0 is)"
    by simp_all
qed

lemma eq_same_target: "e = e' \<Longrightarrow> same_target e e'"
  by (simp add: same_target_def)

lemma same_tree:
  assumes "\<And>t i. t \<in> set (tables k m e) \<Longrightarrow> i < 512 \<Longrightarrow> entry m' t i = entry m t i"
  shows "tables k m' e = tables k m e" "mapped k m' e = mapped k m e"
proof -
  have "tables k m' e = tables k m e \<and> entries_all (=) (mapped k m e) (mapped k m' e)"
    by (rule related_tree [of "(=)", OF eq_same_target]) (simp_all add: assms)
  then show "tables k m' e = tables k m e" "mapped k m' e = mapped k m e" by (simp_all add: entries_all_eq)
qed

lemma same_at:
  assumes "\<And>t i. t \<in> set (tables_at k m t0 is) \<Longrightarrow> i < 512 \<Longrightarrow> entry m' t i = entry m t i"
    "\<And>i. i \<in> set is \<Longrightarrow> entry m' t0 i = entry m t0 i"
  shows "tables_at k m' t0 is = tables_at k m t0 is" "mapped_at k m' t0 is = mapped_at k m t0 is"
proof -
  have "tables_at k m' t0 is = tables_at k m t0 is \<and> entries_all (=) (mapped_at k m t0 is) (mapped_at k m' t0 is)"
    by (rule related_at [of _ _ "(=)", OF related_tree [of "(=)", OF eq_same_target] eq_same_target]) (simp_all add: assms)
  then show "tables_at k m' t0 is = tables_at k m t0 is" "mapped_at k m' t0 is = mapped_at k m t0 is"
    by (simp_all add: entries_all_eq)
qed

end
