(* ===== verification/Space_Release.thy ===== *)
theory Space_Release
  imports Address_Space
begin

text \<open>
  Releasing an address space: every table frame is returned to the allocator, every mapped frame loses one
  holder per mapping, and nothing else changes. The invariant of the address spaces rules out every panic on the way.
\<close>

subsection \<open>Holders of frames\<close>

definition holders :: "pmm \<Rightarrow> u64 \<Rightarrow> nat" where
  "holders s f = unat (refcounts s (frame_index f))"

definition is_free :: "pmm \<Rightarrow> u64 \<Rightarrow> bool" where
  "is_free s f \<longleftrightarrow> frame_index f \<in> free_set s"

definition managed :: "pmm \<Rightarrow> u64 \<Rightarrow> bool" where
  "managed s f \<longleftrightarrow> page_aligned f \<and> frame_index f < total_frames s"

lemma frame_index_inject: "page_aligned f \<Longrightarrow> page_aligned g \<Longrightarrow> frame_index f = frame_index g \<longleftrightarrow> f = g"
proof
  assume a: "page_aligned f" "page_aligned g" and "frame_index f = frame_index g"
  then have "of_nat (frame_index f) * PAGE_SIZE = of_nat (frame_index g) * PAGE_SIZE" by (simp only:)
  moreover have "f mod PAGE_SIZE = 0" "g mod PAGE_SIZE = 0" using a by (simp_all add: page_aligned_def PAGE_SIZE_def)
  ultimately show "f = g" by (simp only: aligned_frame_address)
qed simp

lemma holders_1: "holders s f = 1 \<longleftrightarrow> refcounts s (frame_index f) = 1"
  unfolding holders_def by (metis unat_1 unsigned_word_eqI)

lemma holders_pos: "0 < holders s f \<longleftrightarrow> 0 < refcounts s (frame_index f)"
  by (simp add: holders_def word_gt_0 unat_gt_0)

lemma held_not_free: "pmm_inv s \<Longrightarrow> 0 < holders s f \<Longrightarrow> \<not> is_free s f"
  by (auto simp: pmm_inv_def holders_pos is_free_def free_set_def)

lemma held_used: "pmm_inv s \<Longrightarrow> managed s f \<Longrightarrow> 0 < holders s f \<Longrightarrow> frame_used s (frame_index f)"
  using held_not_free [of s f] by (auto simp: is_free_def free_set_def managed_def)

text \<open>The frames \<open>ts\<close> are freed and each occurrence in \<open>ls\<close> drops a holder.\<close>

definition dropped :: "u64 list \<Rightarrow> u64 list \<Rightarrow> pmm \<Rightarrow> pmm \<Rightarrow> bool" where
  "dropped ts ls s s' \<longleftrightarrow> pmm_inv s' \<and> total_frames s' = total_frames s \<and>
     (\<forall>f. managed s f \<longrightarrow>
       holders s' f = (if f \<in> set ts then 0 else holders s f - count_list ls f) \<and>
       (is_free s' f \<longleftrightarrow> is_free s f \<or> f \<in> set ts \<or> f \<in> set ls \<and> holders s f \<le> count_list ls f))"

definition droppable :: "u64 list \<Rightarrow> u64 list \<Rightarrow> pmm \<Rightarrow> bool" where
  "droppable ts ls s \<longleftrightarrow> pmm_inv s \<and> distinct ts \<and> set ts \<inter> set ls = {} \<and>
     (\<forall>t \<in> set ts. managed s t \<and> holders s t = 1) \<and>
     (\<forall>f \<in> set ls. managed s f \<and> count_list ls f \<le> holders s f)"

lemma managed_cong: "total_frames s' = total_frames s \<Longrightarrow> managed s' = managed s"
  by (simp add: managed_def fun_eq_iff)

lemma droppable_Nil: "pmm_inv s \<Longrightarrow> dropped [] [] s s"
  by (simp add: dropped_def)

lemma count_list_pos: "x \<in> set xs \<longleftrightarrow> 0 < count_list xs x"
  using count_list_0_iff [of xs x] by auto

lemma dropped_append:
  assumes "dropped ts ls s s'" "dropped us ks s' s''" "set ks \<inter> set ts = {}" "set us \<inter> set ls = {}" "set ts \<inter> set us = {}"
  shows "dropped (ts @ us) (ls @ ks) s s''"
proof -
  have m: "managed s' = managed s" using assms(1) by (intro managed_cong) (simp add: dropped_def)
  have "holders s'' f = (if f \<in> set (ts @ us) then 0 else holders s f - count_list (ls @ ks) f) \<and>
      (is_free s'' f \<longleftrightarrow> is_free s f \<or> f \<in> set (ts @ us) \<or> f \<in> set (ls @ ks) \<and> holders s f \<le> count_list (ls @ ks) f)"
    if f: "managed s f" for f
  proof -
    have 1: "holders s' f = (if f \<in> set ts then 0 else holders s f - count_list ls f)"
        "is_free s' f \<longleftrightarrow> is_free s f \<or> f \<in> set ts \<or> f \<in> set ls \<and> holders s f \<le> count_list ls f"
      using assms(1) f by (simp_all add: dropped_def)
    have 2: "holders s'' f = (if f \<in> set us then 0 else holders s' f - count_list ks f)"
        "is_free s'' f \<longleftrightarrow> is_free s' f \<or> f \<in> set us \<or> f \<in> set ks \<and> holders s' f \<le> count_list ks f"
      using assms(2) f by (simp_all add: dropped_def m)
    have "f \<in> set ts \<Longrightarrow> f \<notin> set ks" "f \<in> set us \<Longrightarrow> f \<notin> set ls" using assms(3,4) by auto
    moreover have "f \<notin> set ks \<Longrightarrow> count_list ks f = 0" "f \<notin> set ls \<Longrightarrow> count_list ls f = 0"
      by (simp_all add: count_list_0_iff)
    ultimately show ?thesis using 1 2 by (cases "f \<in> set ts"; cases "f \<in> set us"; cases "f \<in> set ls"; cases "f \<in> set ks") auto
  qed
  then show ?thesis using assms(1,2) by (simp add: dropped_def)
qed

lemma droppable_append:
  assumes "droppable (ts @ us) (ls @ ks) s"
  shows "droppable ts ls s" "dropped ts ls s s' \<Longrightarrow> droppable us ks s'"
    "set ks \<inter> set ts = {}" "set us \<inter> set ls = {}" "set ts \<inter> set us = {}"
proof -
  show disj: "set ks \<inter> set ts = {}" "set us \<inter> set ls = {}" "set ts \<inter> set us = {}"
    using assms by (auto simp: droppable_def)
  have ks: "managed s f" "count_list ls f + count_list ks f \<le> holders s f" if "f \<in> set ls \<union> set ks" for f
    using assms that by (auto simp: droppable_def)
  show "droppable ts ls s" using assms ks by (auto simp: droppable_def intro: add_leD1)
  assume d: "dropped ts ls s s'"
  then have m: "managed s' = managed s" by (intro managed_cong) (simp add: dropped_def)
  have "holders s' t = 1" if "t \<in> set us" for t
  proof -
    have "t \<notin> set ts" "count_list ls t = 0" using that disj by (auto simp: count_list_0_iff)
    moreover have "managed s t" "holders s t = 1" using assms that by (simp_all add: droppable_def)
    ultimately show ?thesis using d by (simp add: dropped_def)
  qed
  moreover have "count_list ks f \<le> holders s' f" if "f \<in> set ks" for f
  proof -
    have "f \<notin> set ts" using that disj by auto
    moreover have "managed s f" "count_list ls f + count_list ks f \<le> holders s f" using ks that by auto
    ultimately show ?thesis using d by (simp add: dropped_def)
  qed
  moreover have "set us \<inter> set ks = {}" using assms by (auto simp: droppable_def)
  ultimately show "droppable us ks s'"
    using assms d ks by (simp add: droppable_def m dropped_def)
qed

subsection \<open>The two ways to give up a frame\<close>

lemma free_frame_drops:
  assumes "droppable [t] [] s"
  obtains s' where "free_frame t s = Inr s'" "dropped [t] [] s s'"
proof
  have s: "pmm_inv s" "managed s t" "holders s t = 1" using assms by (simp_all add: droppable_def)
  let ?i = "frame_index t"
  have rc: "refcounts s ?i = 1" using s(3) holders_1 [of s t] by simp
  have used: "frame_used s ?i" "?i < total_frames s" "?i \<noteq> 0" "total_frames s \<le> MAX_FRAMES"
    using s held_used [OF s(1,2)] pmm_inv_held_frame [OF s(1), of ?i] rc by (auto simp: managed_def pmm_inv_def)
  show "free_frame t s = Inr (release_at ?i s)"
    using used rc s(2) by (simp add: free_frame_Inr managed_def page_aligned_def PAGE_SIZE_def)
  show "dropped [t] [] s (release_at ?i s)"
    using s used pmm_inv_release_at [OF s(1) used(3,2,1)]
    by (auto simp: dropped_def holders_def is_free_def frame_index_inject managed_def)
qed

lemma decref_drops:
  assumes "droppable [] [f] s"
  obtains s' where "decref f s = Inr s'" "dropped [] [f] s s'"
proof
  have s: "pmm_inv s" "managed s f" "0 < holders s f" using assms by (auto simp: droppable_def)
  let ?i = "frame_index f"
  have rc: "0 < refcounts s ?i" using s(3) by (simp add: holders_pos)
  have used: "frame_used s ?i" "?i < total_frames s" "?i \<noteq> 0" "total_frames s \<le> MAX_FRAMES"
    using s held_used [OF s(1,2,3)] pmm_inv_held_frame [OF s(1) rc] by (auto simp: managed_def pmm_inv_def)
  let ?s = "if refcounts s ?i = 1 then release_at ?i s else s\<lparr>refcounts := (refcounts s)(?i := refcounts s ?i - 1)\<rparr>"
  show d: "decref f s = Inr ?s" unfolding decref_Inr [OF used(4)] using used rc by simp
  have inv: "pmm_inv ?s" using pmm_inv_decref [OF s(1) d] .
  have dec: "refcounts s ?i \<noteq> 1 \<Longrightarrow> 1 < holders s f"
    using s(3) holders_1 [of s f] by linarith
  have u: "unat (refcounts s ?i - 1) = unat (refcounts s ?i) - 1" using s(3) by (simp add: holders_def unat_minus1)
  show "dropped [] [f] s ?s"
  proof (cases "refcounts s ?i = 1")
    case True
    then show ?thesis using inv used s(2)
      by (auto simp: dropped_def holders_def is_free_def frame_index_inject managed_def)
  next
    case False
    then show ?thesis using inv used s(2) u dec
      by (auto simp: dropped_def holders_def is_free_def frame_index_inject managed_def)
  qed
qed

subsection \<open>Releasing trees\<close>

definition releases :: "vmem \<Rightarrow> u64 list \<Rightarrow> u64 list \<Rightarrow> ('e, unit) outcome \<times> vmem \<Rightarrow> bool" where
  "releases v ts ls r \<longleftrightarrow> (\<exists>s. r = (Inr (), v\<lparr>vm_pmm := s\<rparr>) \<and> dropped ts ls (vm_pmm v) s)"

lemma releases_nothing: "droppable [] [] (vm_pmm v) \<Longrightarrow> releases v [] [] (sreturn () v)"
  by (auto simp: releases_def sreturn_def droppable_def intro!: exI [of _ "vm_pmm v"] droppable_Nil)

lemma releases_bind:
  assumes "droppable (ts @ us) (ls @ ks) (vm_pmm v)" "releases v ts ls (f v)"
    "\<And>s. droppable us ks s \<Longrightarrow> releases (v\<lparr>vm_pmm := s\<rparr>) us ks (g (v\<lparr>vm_pmm := s\<rparr>))"
  shows "releases v (ts @ us) (ls @ ks) (sbind f (\<lambda>_. g) v)"
proof -
  obtain s where s: "f v = (Inr (), v\<lparr>vm_pmm := s\<rparr>)" "dropped ts ls (vm_pmm v) s"
    using assms(2) by (auto simp: releases_def)
  obtain s' where s': "g (v\<lparr>vm_pmm := s\<rparr>) = (Inr (), v\<lparr>vm_pmm := s'\<rparr>)" "dropped us ks s s'"
    using assms(3) [OF droppable_append(2) [OF assms(1) s(2)]] by (auto simp: releases_def)
  have "dropped (ts @ us) (ls @ ks) (vm_pmm v) s'"
    by (rule dropped_append [OF s(2) s'(2) droppable_append(3-5) [OF assms(1)]])
  then show ?thesis using s s' by (auto simp: releases_def op_simps intro!: exI [of _ s'])
qed

lemma releases_free_frame: "droppable [t] [] (vm_pmm v) \<Longrightarrow> releases v [t] [] (pmm_op (free_frame t) v)"
  by (erule free_frame_drops) (auto simp: releases_def pmm_op_def)

lemma releases_decref: "droppable [] [f] (vm_pmm v) \<Longrightarrow> releases v [] [f] (pmm_op (decref f) v)"
  by (erule decref_drops) (auto simp: releases_def pmm_op_def)

text \<open>A loop over indices of a table, given that each index is released correctly.\<close>

lemma releases_each:
  assumes "\<And>i v. vm_mem v = m \<Longrightarrow> i \<in> set is \<Longrightarrow> droppable (tables_at k m t [i]) (leaves_at k m t [i]) (vm_pmm v) \<Longrightarrow>
      releases v (tables_at k m t [i]) (leaves_at k m t [i]) (f i v)"
  shows "vm_mem v = m \<Longrightarrow> droppable (tables_at k m t is) (leaves_at k m t is) (vm_pmm v) \<Longrightarrow>
    releases v (tables_at k m t is) (leaves_at k m t is) (each f is v)"
  using assms
proof (induction "is" arbitrary: v)
  case Nil
  then show ?case by (simp add: releases_nothing)
next
  case (Cons i "is")
  note split = at_Cons(2,3) [of k m t i "is"]
  show ?case unfolding split each.simps
  proof (rule releases_bind)
    show d: "droppable (tables_at k m t [i] @ tables_at k m t is) (leaves_at k m t [i] @ leaves_at k m t is) (vm_pmm v)"
      using Cons.prems(2) unfolding split .
    show "releases v (tables_at k m t [i]) (leaves_at k m t [i]) (f i v)"
      using Cons.prems(1,3) droppable_append(1) [OF d] by simp
  next
    fix s
    assume "droppable (tables_at k m t is) (leaves_at k m t is) s"
    then show "releases (v\<lparr>vm_pmm := s\<rparr>) (tables_at k m t is) (leaves_at k m t is) (each f is (v\<lparr>vm_pmm := s\<rparr>))"
      using Cons.prems(1,3) by (intro Cons.IH) simp_all
  qed
qed

text \<open>A table is released index by index, and then its own frame.\<close>

lemma releases_table:
  assumes n: "n = Suc k" "width n = w"
    and step: "\<And>i v. vm_mem v = m \<Longrightarrow> droppable (tables_at k m (pte_addr e) [i]) (leaves_at k m (pte_addr e) [i]) (vm_pmm v) \<Longrightarrow>
      releases v (tables_at k m (pte_addr e) [i]) (leaves_at k m (pte_addr e) [i]) (f i v)"
    and v: "vm_mem v = m" "droppable (tables n m e) (leaves n m e) (vm_pmm v)"
  shows "releases v (tables n m e) (leaves n m e) (sbind (each f [0..<w]) (\<lambda>_. pmm_op (free_frame (pte_addr e))) v)"
proof -
  let ?ts = "tables_at k m (pte_addr e) [0..<w]" and ?ls = "leaves_at k m (pte_addr e) [0..<w]"
  have t: "tables n m e = ?ts @ [pte_addr e]" "leaves n m e = ?ls @ []"
    using n by (simp_all add: tables_Suc leaves_Suc)
  note d = v(2) [unfolded t]
  show ?thesis unfolding t
  proof (rule releases_bind [OF d])
    show "releases v ?ts ?ls (each f [0..<w] v)"
      by (rule releases_each [OF _ v(1) droppable_append(1) [OF d]]) (rule step)
  qed (simp add: releases_free_frame)
qed

lemma releases_pt:
  assumes "vm_mem v = m" "droppable (tables 1 m e) (leaves 1 m e) (vm_pmm v)"
  shows "releases v (tables 1 m e) (leaves 1 m e) (free_pt (pte_addr e) v)"
  unfolding free_pt_def
proof (rule releases_table [OF _ _ _ assms, of 0])
  fix i and v :: vmem
  assume "vm_mem v = m" "droppable (tables_at 0 m (pte_addr e) [i]) (leaves_at 0 m (pte_addr e) [i]) (vm_pmm v)"
  then show "releases v (tables_at 0 m (pte_addr e) [i]) (leaves_at 0 m (pte_addr e) [i]) (free_pt_entry (pte_addr e) i v)"
    by (auto simp: free_pt_entry_def at_one leaves_0 follows_def releases_decref releases_nothing Let_def)
qed (simp_all add: width_def)

lemma releases_in_subtables:
  assumes "\<And>e v. vm_mem v = m \<Longrightarrow> droppable (tables k m e) (leaves k m e) (vm_pmm v) \<Longrightarrow>
      releases v (tables k m e) (leaves k m e) (f (pte_addr e) v)"
    "vm_mem v = m" "droppable (tables_at k m t [i]) (leaves_at k m t [i]) (vm_pmm v)" "Suc k = 2 \<or> Suc k = 3"
  shows "releases v (tables_at k m t [i]) (leaves_at k m t [i]) (in_subtables f t i v)"
proof -
  have "subtable m t i = (if follows (Suc k) (entry m t i) then Some (pte_addr (entry m t i)) else None)"
    using assms(4) by (auto simp: subtable_def follows_def Let_def)
  then show ?thesis using assms(1-3) by (auto simp: in_subtables_def at_one releases_nothing)
qed

lemma releases_pd:
  assumes "vm_mem v = m" "droppable (tables 2 m e) (leaves 2 m e) (vm_pmm v)"
  shows "releases v (tables 2 m e) (leaves 2 m e) (free_pd (pte_addr e) v)"
  unfolding free_pd_def
  by (rule releases_table [OF _ _ releases_in_subtables [OF releases_pt] assms]) (simp_all add: width_def)

lemma releases_pdpt:
  assumes "vm_mem v = m" "droppable (tables 3 m e) (leaves 3 m e) (vm_pmm v)"
  shows "releases v (tables 3 m e) (leaves 3 m e) (free_pdpt (pte_addr e) v)"
  unfolding free_pdpt_def
  by (rule releases_table [OF _ _ releases_in_subtables [OF releases_pd] assms]) (simp_all add: width_def)

lemma releases_with_kernel_pml4:
  "releases (v\<lparr>vm_cr3 := vm_kernel_pml4 v\<rparr>) ts ls (f (v\<lparr>vm_cr3 := vm_kernel_pml4 v\<rparr>)) \<Longrightarrow> releases v ts ls (with_kernel_pml4 f v)"
  by (auto simp: releases_def with_kernel_pml4_def)

lemma releases_space:
  assumes "droppable (tables 4 (vm_mem v) p) (leaves 4 (vm_mem v) p) (vm_pmm v)" "pte_addr p = p"
  shows "releases v (tables 4 (vm_mem v) p) (leaves 4 (vm_mem v) p) (free_user_address_space p v)"
proof -
  let ?m = "vm_mem v" and ?f = "\<lambda>i v. let e = entry (vm_mem v) p i in if pte_present e then free_pdpt (pte_addr e) v else sreturn () v"
  let ?ts = "tables_at 3 ?m p [0..<256]" and ?ls = "leaves_at 3 ?m p [0..<256]"
  have n: "(4 :: nat) = Suc 3" "width 4 = 256" by (simp_all add: width_def)
  have t: "tables 4 ?m p = ?ts @ [p]" "leaves 4 ?m p = ?ls @ []"
    using assms(2) n(2) unfolding n(1) tables_Suc leaves_Suc by simp_all
  have step: "releases w (tables_at 3 ?m p [i]) (leaves_at 3 ?m p [i]) (?f i w)"
    if "vm_mem w = ?m" "droppable (tables_at 3 ?m p [i]) (leaves_at 3 ?m p [i]) (vm_pmm w)" for w :: vmem and i
    using that by (auto simp: at_one follows_def releases_nothing releases_pdpt Let_def)
  have d: "droppable (?ts @ [p]) (?ls @ []) (vm_pmm v)" using assms(1) unfolding t .
  have "releases v ?ts ?ls (with_kernel_pml4 (each ?f [0..<256]) v)"
    by (rule releases_with_kernel_pml4, rule releases_each) (use step droppable_append(1) [OF d] in simp_all)
  then show ?thesis unfolding t free_user_address_space_def
    by (intro releases_bind [OF d]) (simp_all add: releases_free_frame)
qed

end
