(* ===== verification/Space_Copy.thy ===== *)
theory Space_Copy
  imports Space_Release
begin

text \<open>
  Sharing an address space with a forked child: the child's tables map what the parent's map, both without write
  permission, and every shared frame gains one holder. When memory runs out, what was taken is given back.
\<close>

subsection \<open>Taking frames\<close>

text \<open>The free frames \<open>N\<close> are allocated, and each occurrence in \<open>inc\<close> gains a holder.\<close>

definition granted :: "u64 list \<Rightarrow> u64 list \<Rightarrow> pmm \<Rightarrow> pmm \<Rightarrow> bool" where
  "granted N inc s s' \<longleftrightarrow> pmm_inv s' \<and> total_frames s' = total_frames s \<and> distinct N \<and>
     (\<forall>f \<in> set N. managed s f \<and> is_free s f) \<and>
     (\<forall>f. managed s f \<longrightarrow> holders s' f = (if f \<in> set N then 1 else holders s f + count_list inc f) \<and>
       (is_free s' f \<longleftrightarrow> is_free s f \<and> f \<notin> set N))"

lemma granted_Nil: "pmm_inv s \<Longrightarrow> granted [] [] s s"
  by (simp add: granted_def)

lemma granted_managed: "granted N inc s s' \<Longrightarrow> managed s' = managed s"
  by (rule managed_cong) (simp add: granted_def)

lemma granted_append:
  assumes "granted N inc s s'" "granted M jnc s' s''" "\<And>f. f \<in> set jnc \<Longrightarrow> \<not> is_free s f"
  shows "granted (N @ M) (inc @ jnc) s s''"
proof -
  have m: "managed s' = managed s" using assms(1) by (rule granted_managed)
  have 1: "holders s' f = (if f \<in> set N then 1 else holders s f + count_list inc f)" "is_free s' f \<longleftrightarrow> is_free s f \<and> f \<notin> set N"
    if "managed s f" for f using assms(1) that by (simp_all add: granted_def)
  have 2: "holders s'' f = (if f \<in> set M then 1 else holders s' f + count_list jnc f)" "is_free s'' f \<longleftrightarrow> is_free s' f \<and> f \<notin> set M"
    if "managed s f" for f using assms(2) that by (simp_all add: granted_def m)
  have N: "managed s f" "is_free s f" if "f \<in> set N" for f using assms(1) that by (simp_all add: granted_def)
  have M: "managed s f" "is_free s f" "f \<notin> set N" if "f \<in> set M" for f
    using assms(2) that 1(2) [of f] by (auto simp: granted_def m)
  have j: "count_list jnc f = 0" if "f \<in> set N" for f using assms(3) N [OF that] by (auto simp: count_list_0_iff)
  have "distinct (N @ M)" using assms(1,2) M by (auto simp: granted_def)
  moreover have "holders s'' f = (if f \<in> set (N @ M) then 1 else holders s f + count_list (inc @ jnc) f)"
      "is_free s'' f \<longleftrightarrow> is_free s f \<and> f \<notin> set (N @ M)" if "managed s f" for f
    using 1 [OF that] 2 [OF that] j [of f] by auto
  ultimately show ?thesis using assms(1,2) N M by (auto simp: granted_def)
qed

lemma alloc_grants:
  assumes "pmm_inv s"
  obtains "alloc_frame s = Inr (None, s)" "free_set s = {}"
  | f s' where "alloc_frame s = Inr (Some f, s')" "granted [f] [] s s'" "pte_addr f = f"
proof (cases "free_set s = {}")
  case True
  then show ?thesis using that(1) alloc_frame_None [OF assms] by simp
next
  case False
  have t: "total_frames s \<le> MAX_FRAMES" using assms by (simp add: pmm_inv_def)
  have "alloc_frame s \<noteq> Inr (None, s)" using False alloc_frame_None [OF assms] by simp
  then obtain a s' where a: "alloc_frame s = Inr (Some a, s')"
    by (auto simp: alloc_frame_eq [OF t] split: option.splits)
  from t a obtain i where i: "i \<in> free_set s" "a = of_nat i * PAGE_SIZE" "s' = alloc_at i s"
    by (rule alloc_frame_Some)
  have im: "i < MAX_FRAMES" "i < total_frames s" using i(1) t by (auto simp: free_set_def)
  have al: "page_aligned a" "frame_index a = i" using im i(2) by simp_all
  have inj: "frame_index g = i \<longleftrightarrow> g = a" if "managed s g" for g
    using frame_index_inject [OF al(1), of g] al(2) that by (auto simp: managed_def)
  have "managed s a" "is_free s a" using al im(2) i(1) by (simp_all add: managed_def is_free_def)
  then have "granted [a] [] s (alloc_at i s)"
    using pmm_inv_alloc_at [OF assms i(1)] inj by (auto simp: granted_def is_free_def holders_def)
  then show ?thesis using that(2) a i(2,3) frame_addr_pte_addr [OF im(1)] by simp
qed

lemma incref_grants:
  assumes "pmm_inv s" "managed s f" "0 < holders s f" "holders s f < 255"
  obtains s' where "incref f s = Inr s'" "granted [] [f] s s'"
proof
  let ?i = "frame_index f" and ?s = "s\<lparr>refcounts := (refcounts s)(frame_index f := saturating_add (refcounts s (frame_index f)) 1)\<rparr>"
  have t: "total_frames s \<le> MAX_FRAMES" using assms(1) by (simp add: pmm_inv_def)
  show d: "incref f s = Inr ?s"
    using held_used [OF assms(1-3)] assms(2) by (simp add: incref_Inr [OF t] managed_def)
  have inv: "pmm_inv ?s" using pmm_inv_incref [OF assms(1) _ d] assms(3) by (simp add: holders_pos)
  have u: "unat (saturating_add (refcounts s ?i) 1) = holders s f + 1"
    using assms(4) by (simp add: unat_saturating_add holders_def)
  have "holders ?s g = holders s g + count_list [f] g" if "managed s g" for g
  proof (cases "g = f")
    case True
    then show ?thesis using u by (simp add: holders_def)
  next
    case False
    then have "frame_index g \<noteq> ?i" using frame_index_inject [of g f] assms(2) that by (simp add: managed_def)
    then show ?thesis using False by (simp add: holders_def)
  qed
  then show "granted [] [f] s ?s" using inv by (simp add: granted_def is_free_def)
qed

text \<open>Giving back what was taken restores the counts.\<close>

lemma granted_undo:
  assumes "granted N inc s s'" "pmm_inv s" "\<And>f. f \<in> set inc \<Longrightarrow> managed s f \<and> 0 < holders s f"
  shows "droppable N inc s'"
    and "dropped N inc s' s'' \<Longrightarrow> managed s f \<Longrightarrow> holders s'' f = holders s f \<and> (is_free s'' f \<longleftrightarrow> is_free s f)"
proof -
  have m: "managed s' = managed s" using assms(1) by (rule granted_managed)
  have 1: "holders s' f = (if f \<in> set N then 1 else holders s f + count_list inc f)" "is_free s' f \<longleftrightarrow> is_free s f \<and> f \<notin> set N"
    if "managed s f" for f using assms(1) that by (simp_all add: granted_def)
  have N: "managed s f" "is_free s f" if "f \<in> set N" for f using assms(1) that by (simp_all add: granted_def)
  have i: "f \<notin> set N" if "f \<in> set inc" for f using N held_not_free [OF assms(2)] assms(3) that by blast
  show "droppable N inc s'" using assms(1,3) 1 N i by (auto simp: droppable_def m) (auto simp: granted_def)
  assume "dropped N inc s' s''" "managed s f"
  then have 2: "holders s'' f = (if f \<in> set N then 0 else holders s' f - count_list inc f)"
      "is_free s'' f \<longleftrightarrow> is_free s' f \<or> f \<in> set N \<or> f \<in> set inc \<and> holders s' f \<le> count_list inc f"
    by (simp_all add: dropped_def m)
  have "f \<in> set N \<Longrightarrow> holders s f = 0" using N held_not_free [OF assms(2), of f] by auto
  then show "holders s'' f = holders s f \<and> (is_free s'' f \<longleftrightarrow> is_free s f)"
    using 1 [OF \<open>managed s f\<close>] 2 N [of f] i [of f] assms(3) [of f] by auto
qed

subsection \<open>What copying a table does\<close>

text \<open>
  \<open>t\<close> is a table of level \<open>k + 1\<close> of the parent and \<open>ch\<close> the child's, still empty at the indices \<open>is\<close>.
\<close>

definition copyable :: "nat \<Rightarrow> u64 \<Rightarrow> u64 \<Rightarrow> nat list \<Rightarrow> phys_mem \<Rightarrow> pmm \<Rightarrow> bool" where
  "copyable k t ch is m s \<longleftrightarrow> pmm_inv s \<and> distinct is \<and> set is \<subseteq> {..<512} \<and>
     distinct (t # ch # tables_at k m t is) \<and>
     (\<forall>x \<in> set (t # ch # tables_at k m t is). managed s x \<and> holders s x = 1) \<and>
     (\<forall>i \<in> set is. entry m ch i = 0) \<and>
     (\<forall>f \<in> set (leaves_at k m t is). f \<notin> set (t # ch # tables_at k m t is) \<and> managed s f \<and> 0 < holders s f \<and>
        holders s f + count_list (leaves_at k m t is) f \<le> 255)"

text \<open>Apart from new tables and the child's entries, only entries of the parent's tree change, by losing write permission.\<close>

definition touched :: "nat \<Rightarrow> u64 \<Rightarrow> u64 \<Rightarrow> nat list \<Rightarrow> phys_mem \<Rightarrow> u64 list \<Rightarrow> phys_mem \<Rightarrow> bool" where
  "touched k t ch is m N m' \<longleftrightarrow>
     (\<forall>x j. page_aligned x \<and> j < 512 \<and> x \<notin> set N \<and> \<not> (x = ch \<and> j \<in> set is) \<longrightarrow>
        entry m' x j = entry m x j \<or>
        entry m' x j = read_only (entry m x j) \<and> (x \<in> set (tables_at k m t is) \<or> k = 0 \<and> x = t \<and> j \<in> set is)) \<and>
     (\<forall>x n. page_aligned x \<and> n < 4096 \<and> x \<notin> set N \<and> x \<noteq> ch \<and> x \<notin> set (tables_at k m t is) \<and> x \<noteq> t \<longrightarrow>
        m' (x + of_nat n) = m (x + of_nat n))"

definition copied :: "nat \<Rightarrow> u64 \<Rightarrow> u64 \<Rightarrow> nat list \<Rightarrow> phys_mem \<Rightarrow> u64 list \<Rightarrow> phys_mem \<Rightarrow> bool" where
  "copied k t ch is m N m' \<longleftrightarrow>
     mapped_at k m' t is = map (apsnd read_only) (mapped_at k m t is) \<and>
     mapped_at k m' ch is = map (apsnd read_only) (mapped_at k m t is) \<and>
     mset (tables_at k m' ch is) = mset N \<and> length N = length (tables_at k m t is)"

definition copies :: "nat \<Rightarrow> u64 \<Rightarrow> u64 \<Rightarrow> nat list \<Rightarrow> copying \<Rightarrow> (unit, unit) outcome \<times> copying \<Rightarrow> bool" where
  "copies k t ch is c r \<longleftrightarrow> (\<exists>m' s' N inc.
     snd r = c\<lparr>cp_vm := (cp_vm c)\<lparr>vm_mem := m', vm_pmm := s'\<rparr>, cp_allocated := cp_allocated c @ N,
       cp_increfed := cp_increfed c @ inc\<rparr> \<and>
     granted N inc (vm_pmm (cp_vm c)) s' \<and> set inc \<subseteq> set (leaves_at k (vm_mem (cp_vm c)) t is) \<and>
     touched k t ch is (vm_mem (cp_vm c)) N m' \<and>
     (case fst r of
        Inr _ \<Rightarrow> copied k t ch is (vm_mem (cp_vm c)) N m' \<and> inc = leaves_at k (vm_mem (cp_vm c)) t is
      | Inl (Err _) \<Rightarrow> free_set s' = {} \<and> length N < length (tables_at k (vm_mem (cp_vm c)) t is)
      | Inl (Crash _) \<Rightarrow> False))"

abbreviation copyable_in :: "nat \<Rightarrow> u64 \<Rightarrow> u64 \<Rightarrow> nat list \<Rightarrow> copying \<Rightarrow> bool" where
  "copyable_in k t ch is c \<equiv> copyable k t ch is (vm_mem (cp_vm c)) (vm_pmm (cp_vm c))"

lemma touched_same:
  assumes "touched k t ch is m N m'" "page_aligned x" "j < 512" "x \<notin> set N" "x = ch \<Longrightarrow> j \<notin> set is"
    "x \<notin> set (tables_at k m t is)" "k = 0 \<Longrightarrow> x = t \<Longrightarrow> j \<notin> set is"
  shows "entry m' x j = entry m x j"
  using assms by (auto simp: touched_def)

lemma touched_weakened:
  assumes "touched k t ch is m N m'" "page_aligned x" "j < 512" "x \<notin> set N" "x = ch \<Longrightarrow> j \<notin> set is"
  shows "weakened (entry m x j) (entry m' x j)"
  using assms by (auto simp: touched_def weakened_def)

lemma touched_refl: "touched k t ch is m [] m"
  by (simp add: touched_def)

lemma copyable_aligned: "copyable k t ch is m s \<Longrightarrow> page_aligned t" "copyable k t ch is m s \<Longrightarrow> page_aligned ch"
  by (simp_all add: copyable_def managed_def)

lemma copyable_not_free:
  "copyable k t ch is m s \<Longrightarrow> x \<in> set (t # ch # tables_at k m t is) \<union> set (leaves_at k m t is) \<Longrightarrow> managed s x \<and> \<not> is_free s x"
  using held_not_free [of s x] by (auto simp: copyable_def)

text \<open>After the first index, the others are as they were.\<close>

lemma copyable_rest:
  assumes pre: "copyable k t ch (i # is) m s" and g: "granted N (leaves_at k m t [i]) s s'" and t: "touched k t ch [i] m N m'"
  shows "tables_at k m' t is = tables_at k m t is" "mapped_at k m' t is = mapped_at k m t is" "copyable k t ch is m' s'"
proof -
  have al: "page_aligned t" "page_aligned ch" using copyable_aligned [OF pre] by simp_all
  have free: "\<not> is_free s x" if "x \<in> set (t # ch # tables_at k m t (i # is)) \<union> set (leaves_at k m t (i # is))" for x
    using copyable_not_free [OF pre that] by simp
  have N: "x \<notin> set N" if "x \<in> set (t # ch # tables_at k m t (i # is)) \<union> set (leaves_at k m t (i # is))" for x
    using g free [OF that] by (auto simp: granted_def)
  have d: "distinct (t # ch # tables_at k m t [i] @ tables_at k m t is)" "i \<notin> set is" "distinct is" "set is \<subseteq> {..<512}"
    using pre by (auto simp: copyable_def at_Cons(2) [of k m t i "is"])
  have e: "entry m' x j = entry m x j"
    if "x \<in> set (tables_at k m t is) \<and> j < 512 \<or> x \<in> {t, ch} \<and> j \<in> set is" for x j
  proof -
    have "x \<in> set (t # ch # tables_at k m t (i # is))" "x \<notin> set (tables_at k m t [i])" "j < 512"
      using that d(1,4) by (auto simp: at_Cons(2) [of k m t i "is"])
    moreover have "page_aligned x" using that al pre calculation(1) by (auto simp: copyable_def managed_def)
    ultimately show ?thesis using that N d(1,2) by (intro touched_same [OF t]) auto
  qed
  show same: "tables_at k m' t is = tables_at k m t is" "mapped_at k m' t is = mapped_at k m t is"
    using same_at [of k m t "is" m'] e by auto
  have l: "leaves_at k m' t is = leaves_at k m t is" by (simp add: leaves_at_def same)
  have m: "managed s' = managed s" using g by (rule granted_managed)
  have h: "holders s' x = holders s x + count_list (leaves_at k m t [i]) x"
    if "x \<in> set (t # ch # tables_at k m t is) \<union> set (leaves_at k m t is)" for x
  proof -
    have x: "x \<in> set (t # ch # tables_at k m t (i # is)) \<union> set (leaves_at k m t (i # is))"
      using that by (auto simp: at_Cons(2,3) [of k m t i "is"])
    show ?thesis using g N [OF x] copyable_not_free [OF pre x] by (simp add: granted_def)
  qed
  have tab: "managed s' x \<and> holders s' x = 1" if "x \<in> set (t # ch # tables_at k m t is)" for x
  proof -
    have x: "x \<in> set (t # ch # tables_at k m t (i # is))" using that by (auto simp: at_Cons(2) [of k m t i "is"])
    then have "x \<notin> set (leaves_at k m t (i # is))" using pre unfolding copyable_def by blast
    then have "count_list (leaves_at k m t [i]) x = 0" by (simp add: at_Cons(3) [of k m t i "is"] count_list_0_iff)
    moreover have "managed s x \<and> holders s x = 1" using pre x unfolding copyable_def by blast
    moreover have "holders s' x = holders s x + count_list (leaves_at k m t [i]) x" using that by (intro h) (rule UnI1)
    ultimately show ?thesis by (simp only: m add_0_right simp_thms)
  qed
  have leaf: "f \<notin> set (t # ch # tables_at k m t is) \<and> managed s' f \<and> 0 < holders s' f \<and>
      holders s' f + count_list (leaves_at k m t is) f \<le> 255" if "f \<in> set (leaves_at k m t is)" for f
  proof -
    have "f \<in> set (leaves_at k m t (i # is))" using that by (simp add: at_Cons(3) [of k m t i "is"])
    then have "f \<notin> set (t # ch # tables_at k m t (i # is)) \<and> managed s f \<and> 0 < holders s f \<and>
        holders s f + count_list (leaves_at k m t (i # is)) f \<le> 255"
      using pre unfolding copyable_def by blast
    then show ?thesis using h [of f] that by (simp add: at_Cons(2,3) [of k m t i "is"] m)
  qed
  have zero: "entry m' ch j = 0" if "j \<in> set is" for j
    using e [of ch j] that pre by (simp add: copyable_def)
  show "copyable k t ch is m' s'"
    unfolding copyable_def same l using g d tab leaf zero by (simp add: granted_def)
qed

lemma touched_Cons: "touched k t ch [i] m N m' \<Longrightarrow> touched k t ch (i # is) m N m'"
  unfolding touched_def at_Cons(2) [of k m t i "is"] by (simp, blast)

lemma touched_append:
  assumes "touched k t ch [i] m N m'" "touched k t ch is m' M m''" "tables_at k m' t is = tables_at k m t is"
  shows "touched k t ch (i # is) m (N @ M) m''"
  unfolding touched_def at_Cons(2) [of k m t i "is"]
proof (intro conjI allI impI)
  fix x j
  assume x: "page_aligned x \<and> j < 512 \<and> x \<notin> set (N @ M) \<and> \<not> (x = ch \<and> j \<in> set (i # is))"
  have 1: "entry m' x j = entry m x j \<or> entry m' x j = read_only (entry m x j) \<and> (x \<in> set (tables_at k m t [i]) \<or> k = 0 \<and> x = t \<and> j = i)"
    using assms(1) x by (simp add: touched_def)
  have 2: "entry m'' x j = entry m' x j \<or> entry m'' x j = read_only (entry m' x j) \<and> (x \<in> set (tables_at k m t is) \<or> k = 0 \<and> x = t \<and> j \<in> set is)"
    using assms(2) x by (simp add: touched_def assms(3))
  show "entry m'' x j = entry m x j \<or> entry m'' x j = read_only (entry m x j) \<and>
      (x \<in> set (tables_at k m t [i] @ tables_at k m t is) \<or> k = 0 \<and> x = t \<and> j \<in> set (i # is))"
    using 1 2 by auto
next
  fix x and n :: nat
  assume x: "page_aligned x \<and> n < 4096 \<and> x \<notin> set (N @ M) \<and> x \<noteq> ch \<and> x \<notin> set (tables_at k m t [i] @ tables_at k m t is) \<and> x \<noteq> t"
  have "m' (x + of_nat n) = m (x + of_nat n)" using assms(1) x by (simp add: touched_def)
  moreover have "m'' (x + of_nat n) = m' (x + of_nat n)" using assms(2) x by (simp add: touched_def assms(3))
  ultimately show "m'' (x + of_nat n) = m (x + of_nat n)" by (simp only:)
qed

lemma copied_append:
  assumes pre: "copyable k t ch (i # is) m s" and g: "granted N (leaves_at k m t [i]) s s'" and g2: "granted M inc s' s''"
    and t1: "touched k t ch [i] m N m'" and t2: "touched k t ch is m' M m''"
    and c1: "copied k t ch [i] m N m'" and c2: "copied k t ch is m' M m''"
  shows "copied k t ch (i # is) m (N @ M) m''"
proof -
  note rest = copyable_rest [OF pre g t1]
  have al: "page_aligned t" "page_aligned ch" using copyable_aligned [OF pre] by simp_all
  have d: "distinct (t # ch # tables_at k m t [i] @ tables_at k m t is)" "i \<notin> set is" "i < 512"
    using pre by (auto simp: copyable_def at_Cons(2) [of k m t i "is"])
  have old: "managed s x" "\<not> is_free s x" if "x \<in> set (t # ch # tables_at k m t (i # is))" for x
    using copyable_not_free [OF pre, of x] that by auto
  have N: "managed s x" "is_free s x" "\<not> is_free s' x" if "x \<in> set N" for x
    using g that by (auto simp: granted_def)
  have M: "managed s x" "is_free s x" "x \<notin> set N" if "x \<in> set M" for x
    using g2 g that granted_managed [OF g] by (auto simp: granted_def)
  have same: "entry m'' x j = entry m' x j" if "page_aligned x" "j < 512" "x \<notin> set M" "x = ch \<Longrightarrow> j \<notin> set is"
      "x \<notin> set (tables_at k m t is)" "x = t \<Longrightarrow> j \<notin> set is" for x j
    using that rest(1) by (intro touched_same [OF t2]) simp_all
  have t1': "tables_at k m' t [i] = tables_at k m t [i]"
  proof -
    have old1: "x \<notin> set N \<and> x \<noteq> ch \<and> page_aligned x" if "x \<in> set (tables_at k m t [i])" for x
      using that old [of x] N(2) [of x] d(1) by (auto simp: at_Cons(2) [of k m t i "is"] managed_def)
    have "t \<notin> set N" using old(2) [of t] N(2) [of t] by auto
    then show ?thesis using old1 d al by (intro weakened_at(1) touched_weakened [OF t1]) auto
  qed
  have p: "mapped_at k m'' t [i] = mapped_at k m' t [i]"
  proof (rule same_at)
    fix x j
    assume "x \<in> set (tables_at k m' t [i])" "j < (512 :: nat)"
    then have x: "x \<in> set (tables_at k m t [i])" "j < 512" by (simp_all add: t1')
    then have "x \<in> set (t # ch # tables_at k m t (i # is))" by (simp add: at_Cons(2) [of k m t i "is"])
    then have "page_aligned x" "x \<notin> set M" using old [of x] M(2) [of x] by (auto simp: managed_def)
    then show "entry m'' x j = entry m' x j" using x d(1) by (intro same) auto
  next
    fix j
    assume "j \<in> set [i]"
    then have j: "j = i" by simp
    have "t \<notin> set M" using old(2) [of t] M(2) [of t] by auto
    then show "entry m'' t j = entry m' t j" using d al(1) unfolding j by (intro same) auto
  qed
  have q: "tables_at k m'' ch [i] = tables_at k m' ch [i]" "mapped_at k m'' ch [i] = mapped_at k m' ch [i]"
  proof -
    have x: "entry m'' x j = entry m' x j" if "x \<in> set (tables_at k m' ch [i])" "j < 512" for x j
    proof -
      have "x \<in> set N" using c1 that(1) unfolding copied_def by (metis set_mset_mset)
      then have "page_aligned x" "x \<notin> set M" "x \<notin> set (t # ch # tables_at k m t (i # is))"
        using N(1,2) [of x] M(3) [of x] old(2) [of x] by (auto simp: managed_def)
      then show ?thesis using that(2) by (intro same) (auto simp: at_Cons(2) [of k m t i "is"])
    qed
    have y: "entry m'' ch j = entry m' ch j" if "j \<in> set [i]" for j
    proof -
      have "ch \<notin> set M" using old(2) [of ch] M(2) [of ch] by auto
      then show ?thesis using that d al(2) by (intro same) auto
    qed
    show "tables_at k m'' ch [i] = tables_at k m' ch [i]" "mapped_at k m'' ch [i] = mapped_at k m' ch [i]"
      using same_at [of k m' ch "[i]" m''] x y by blast+
  qed
  show ?thesis using c1 c2 unfolding copied_def
    at_Cons(1) [of k m'' t i "is"] at_Cons(1) [of k m t i "is"] at_Cons(1) [of k m'' ch i "is"]
    at_Cons(2) [of k m'' ch i "is"] at_Cons(2) [of k m t i "is"] p q rest(1,2)
    by simp
qed

lemma copies_Cons:
  assumes pre: "copyable_in k t ch (i # is) c" and first: "copies k t ch [i] c (f c)"
    and rest: "\<And>c'. copyable_in k t ch is c' \<Longrightarrow> copies k t ch is c' (g c')"
  shows "copies k t ch (i # is) c (sbind f (\<lambda>_. g) c)"
proof -
  let ?m = "vm_mem (cp_vm c)" and ?s = "vm_pmm (cp_vm c)"
  obtain r c' where fc: "f c = (r, c')" by (cases "f c") auto
  from first obtain m' s' N inc where 1: "c' = c\<lparr>cp_vm := (cp_vm c)\<lparr>vm_mem := m', vm_pmm := s'\<rparr>,
      cp_allocated := cp_allocated c @ N, cp_increfed := cp_increfed c @ inc\<rparr>"
      "granted N inc ?s s'" "set inc \<subseteq> set (leaves_at k ?m t [i])" "touched k t ch [i] ?m N m'"
      "case r of Inr _ \<Rightarrow> copied k t ch [i] ?m N m' \<and> inc = leaves_at k ?m t [i]
       | Inl (Err _) \<Rightarrow> free_set s' = {} \<and> length N < length (tables_at k ?m t [i]) | Inl (Crash _) \<Rightarrow> False"
    unfolding copies_def fc by auto
  show ?thesis
  proof (cases r)
    case (Inl e)
    have b: "sbind f (\<lambda>_. g) c = (Inl e, c')" using fc Inl by (simp add: op_simps)
    show ?thesis unfolding copies_def b
      using 1 Inl touched_Cons [OF 1(4)]
      by (intro exI [of _ m'] exI [of _ s'] exI [of _ N] exI [of _ inc])
        (auto simp: at_Cons(2,3) [of k ?m t i "is"] split: fault.splits)
  next
    case (Inr u)
    then have ok: "copied k t ch [i] ?m N m'" "inc = leaves_at k ?m t [i]" using 1(5) by simp_all
    note rest' = copyable_rest [OF pre 1(2) [unfolded ok(2)] 1(4)]
    have b: "sbind f (\<lambda>_. g) c = g c'" using fc Inr by (simp add: op_simps)
    have c': "vm_mem (cp_vm c') = m'" "vm_pmm (cp_vm c') = s'" by (simp_all add: 1(1))
    have l: "leaves_at k m' t is = leaves_at k ?m t is" by (simp add: leaves_at_def rest'(2))
    obtain r2 c2 where gc: "g c' = (r2, c2)" by (cases "g c'") auto
    have "copies k t ch is c' (g c')" using rest'(3) by (intro rest) (simp add: c')
    then obtain m2 s2 M jnc where 2: "c2 = c'\<lparr>cp_vm := (cp_vm c')\<lparr>vm_mem := m2, vm_pmm := s2\<rparr>,
        cp_allocated := cp_allocated c' @ M, cp_increfed := cp_increfed c' @ jnc\<rparr>"
        "granted M jnc s' s2" "set jnc \<subseteq> set (leaves_at k ?m t is)" "touched k t ch is m' M m2"
        "case r2 of Inr _ \<Rightarrow> copied k t ch is m' M m2 \<and> jnc = leaves_at k ?m t is
         | Inl (Err _) \<Rightarrow> free_set s2 = {} \<and> length M < length (tables_at k ?m t is) | Inl (Crash _) \<Rightarrow> False"
      unfolding copies_def gc c' rest'(1) l by auto
    have free: "\<not> is_free ?s f" if "f \<in> set jnc" for f
      using copyable_not_free [OF pre, of f] that 2(3) by (auto simp: at_Cons(3) [of k ?m t i "is"])
    have len: "length N = length (tables_at k ?m t [i])" using ok(1) by (simp add: copied_def)
    show ?thesis unfolding copies_def b gc
    proof (intro exI conjI)
      show "snd (r2, c2) = c\<lparr>cp_vm := (cp_vm c)\<lparr>vm_mem := m2, vm_pmm := s2\<rparr>, cp_allocated := cp_allocated c @ (N @ M),
          cp_increfed := cp_increfed c @ (inc @ jnc)\<rparr>"
        by (simp add: 1(1) 2(1))
      show "granted (N @ M) (inc @ jnc) ?s s2" using 1(2) 2(2) free by (rule granted_append)
      show "set (inc @ jnc) \<subseteq> set (leaves_at k ?m t (i # is))" using 1(3) 2(3) by (auto simp: at_Cons(3) [of k ?m t i "is"])
      show "touched k t ch (i # is) ?m (N @ M) m2" using 1(4) 2(4) rest'(1) by (rule touched_append)
      show "case fst (r2, c2) of Inr _ \<Rightarrow> copied k t ch (i # is) ?m (N @ M) m2 \<and> inc @ jnc = leaves_at k ?m t (i # is)
          | Inl (Err _) \<Rightarrow> free_set s2 = {} \<and> length (N @ M) < length (tables_at k ?m t (i # is)) | Inl (Crash _) \<Rightarrow> False"
        using 2(5) ok len copied_append [OF pre 1(2) [unfolded ok(2)] 2(2) 1(4) 2(4) ok(1)]
        by (auto simp: at_Cons(2,3) [of k ?m t i "is"] split: sum.splits fault.splits)
    qed
  qed
qed

lemma empty_at:
  assumes "\<And>i. i \<in> set is \<Longrightarrow> entry m ch i = 0"
  shows "mapped_at k m ch is = []" "tables_at k m ch is = []"
  using assms by (auto simp: mapped_at_def tables_at_def Let_def follows_def pte_present_def)

lemma copies_nothing:
  assumes "copyable_in k t ch is c" "mapped_at k (vm_mem (cp_vm c)) t is = []" "tables_at k (vm_mem (cp_vm c)) t is = []"
  shows "copies k t ch is c (Inr (), c)"
  unfolding copies_def using assms empty_at [of "is" "vm_mem (cp_vm c)" ch k]
  by (intro exI [of _ "vm_mem (cp_vm c)"] exI [of _ "vm_pmm (cp_vm c)"] exI [of _ "[]"])
    (simp add: copyable_def granted_Nil touched_refl copied_def leaves_at_def)

lemma copyable_head:
  assumes "copyable k t ch (i # is) m s"
  shows "copyable k t ch [i] m s"
proof -
  note split = at_Cons(2,3) [of k m t i "is"]
  have "f \<notin> set (t # ch # tables_at k m t [i]) \<and> managed s f \<and> 0 < holders s f \<and> holders s f + count_list (leaves_at k m t [i]) f \<le> 255"
    if "f \<in> set (leaves_at k m t [i])" for f
    using assms that unfolding copyable_def split by (auto intro: order_trans [rotated])
  then show ?thesis using assms unfolding copyable_def split by auto
qed

lemma copies_each:
  assumes "\<And>i c. copyable_in k t ch [i] c \<Longrightarrow> copies k t ch [i] c (f i c)"
  shows "copyable_in k t ch is c \<Longrightarrow> copies k t ch is c (each f is c)"
proof (induction "is" arbitrary: c)
  case Nil
  then show ?case by (simp add: op_simps copies_nothing)
next
  case (Cons i "is")
  have "copyable_in k t ch [i] c" using Cons.prems by (rule copyable_head)
  then show ?case using Cons by (simp add: copies_Cons assms)
qed

subsection \<open>The steps of the loops\<close>

lemma copies_pt_entry:
  assumes pre: "copyable_in 0 t ch [i] c"
  shows "copies 0 t ch [i] c (copy_pt_entry t ch i c)"
proof -
  let ?m = "vm_mem (cp_vm c)" and ?s = "vm_pmm (cp_vm c)"
  let ?e = "entry ?m t i"
  show ?thesis
  proof (cases "pte_present ?e")
    case False
    then have "copy_pt_entry t ch i c = (Inr (), c)" by (simp add: copy_pt_entry_def op_simps)
    then show ?thesis using False pre by (simp add: copies_nothing at_one follows_def)
  next
    case True
    have at: "tables_at 0 ?m t [i] = []" "leaves_at 0 ?m t [i] = [pte_addr ?e]" "mapped_at 0 ?m t [i] = [([i], ?e)]"
      using True by (simp_all add: at_one leaves_0 follows_def)
    have i: "i < 512" "t \<noteq> ch" "page_aligned t" "page_aligned ch" "pmm_inv ?s"
      using pre copyable_aligned [OF pre] by (auto simp: copyable_def)
    have f: "managed ?s (pte_addr ?e)" "0 < holders ?s (pte_addr ?e)" "holders ?s (pte_addr ?e) < 255"
      using pre by (auto simp: copyable_def at)
    obtain s' where s': "incref (pte_addr ?e) ?s = Inr s'" "granted [] [pte_addr ?e] ?s s'"
      using incref_grants [OF i(5) f] by blast
    let ?m' = "set_entry t i (read_only ?e) (set_entry ch i (read_only ?e) ?m)"
    have run: "copy_pt_entry t ch i c = (Inr (), c\<lparr>cp_vm := (cp_vm c)\<lparr>vm_mem := ?m', vm_pmm := s'\<rparr>,
        cp_allocated := cp_allocated c @ [], cp_increfed := cp_increfed c @ [pte_addr ?e]\<rparr>)"
      using True s'(1) by (simp add: copy_pt_entry_def Let_def sbind_def on_vm_def pmm_op_def read_only_eq)
    have e': "entry ?m' x j = (if x = t \<and> j = i \<or> x = ch \<and> j = i then read_only ?e else entry ?m x j)"
      if "page_aligned x" "j < 512" for x j
      using that i by (simp add: entry_set_entry)
    have b': "?m' (x + of_nat n) = ?m (x + of_nat n)" if "page_aligned x" "n < 4096" "x \<noteq> t" "x \<noteq> ch" for x n
      using that i by (simp add: set_entry_byte)
    have "mapped_at 0 ?m' t [i] = [([i], read_only ?e)]" "mapped_at 0 ?m' ch [i] = [([i], read_only ?e)]" "tables_at 0 ?m' ch [i] = []"
      using True i by (simp_all add: at_one follows_def e')
    then have "copied 0 t ch [i] ?m [] ?m'" by (simp add: copied_def at)
    moreover have "touched 0 t ch [i] ?m [] ?m'"
      unfolding touched_def using e' b' by auto
    ultimately show ?thesis unfolding copies_def run
      using s'(2) by (intro exI [of _ ?m'] exI [of _ s'] exI [of _ "[]"] exI [of _ "[pte_addr ?e]"]) (simp add: at)
  qed
qed

lemma new_table_entry:
  assumes "pte_addr f = f"
  shows "pte_addr (f OR (PTE_PRESENT OR PTE_WRITABLE OR PTE_USER)) = f"
    "follows k (f OR (PTE_PRESENT OR PTE_WRITABLE OR PTE_USER))"
proof -
  show "pte_addr (f OR (PTE_PRESENT OR PTE_WRITABLE OR PTE_USER)) = f" using assms by simp
  have "\<not> bit f 7" using arg_cong [OF assms, of "\<lambda>w. bit w 7"] by (simp add: bit_pte_addr)
  then show "follows k (f OR (PTE_PRESENT OR PTE_WRITABLE OR PTE_USER))"
    by (simp add: follows_def pte_present_def pte_huge_def bit_or_iff)
qed

text \<open>A new child table is empty, and nothing else changed but its link.\<close>

lemma child_table_link:
  assumes al: "page_aligned f" "page_aligned ch" and "f \<noteq> ch" "i < 512" and m: "m' = set_entry ch i w (zero_frame f m)"
  shows "page_aligned x \<Longrightarrow> j < 512 \<Longrightarrow> entry m' x j = (if x = ch \<and> j = i then w else if x = f then 0 else entry m x j)"
    and "page_aligned x \<Longrightarrow> n < 4096 \<Longrightarrow> x \<noteq> ch \<Longrightarrow> x \<noteq> f \<Longrightarrow> m' (x + of_nat n) = m (x + of_nat n)"
  using assms by (auto simp: m entry_set_entry zero_frame_def entry_fill_frame set_entry_byte fill_frame_byte)

lemma update_order:
  "v\<lparr>vm_pmm := s, vm_mem := m\<rparr> = v\<lparr>vm_mem := m, vm_pmm := s\<rparr>"
  "c\<lparr>cp_allocated := a, cp_vm := v\<rparr> = c\<lparr>cp_vm := v, cp_allocated := a\<rparr>"
  by (cases v; simp) (cases c; simp)

lemma copies_table:
  assumes pre: "copyable_in (Suc k) t ch [i] c" and k: "Suc k < 4"
    and e: "e = entry (vm_mem (cp_vm c)) t i" "follows (Suc (Suc k)) e"
    and copy: "\<And>ch' c. copyable_in k (pte_addr e) ch' [0..<512] c \<Longrightarrow> copies k (pte_addr e) ch' [0..<512] c (copy (pte_addr e) ch' c)"
  shows "copies (Suc k) t ch [i] c (sbind (child_table ch i) (copy (pte_addr e)) c)"
proof -
  let ?m = "vm_mem (cp_vm c)" and ?s = "vm_pmm (cp_vm c)" and ?t = "pte_addr e"
  have w: "width (Suc k) = 512" using k by (simp add: width_def)
  have at: "tables_at (Suc k) ?m t [i] = tables_at k ?m ?t [0..<512] @ [?t]" "leaves_at (Suc k) ?m t [i] = leaves_at k ?m ?t [0..<512]"
      "mapped_at (Suc k) ?m t [i] = map (apfst (Cons i)) (mapped_at k ?m ?t [0..<512])"
    using e by (simp_all add: at_one tables_Suc leaves_Suc mapped_Suc w)
  have i: "i < 512" "t \<noteq> ch" "page_aligned t" "page_aligned ch" "pmm_inv ?s"
    using pre copyable_aligned [OF pre] by (auto simp: copyable_def)
  have d: "distinct (t # ch # tables_at k ?m ?t [0..<512] @ [?t])" using pre unfolding copyable_def at by simp
  have old: "managed ?s x" "\<not> is_free ?s x" if "x \<in> set (t # ch # ?t # tables_at k ?m ?t [0..<512]) \<union> set (leaves_at k ?m ?t [0..<512])" for x
    using copyable_not_free [OF pre, of x] that by (auto simp: at)
  from i(5) show ?thesis
  proof (cases rule: alloc_grants)
    case 1
    then have "sbind (child_table ch i) (copy ?t) c = (Inl (Err ()), c)"
      by (simp add: child_table_def sbind_def on_vm_def pmm_alloc_def sfail_def)
    then show ?thesis unfolding copies_def using 1 granted_Nil [OF i(5)]
      by (intro exI [of _ ?m] exI [of _ ?s] exI [of _ "[]"]) (simp add: touched_refl at)
  next
    case (2 f s1)
    let ?w = "f OR (PTE_PRESENT OR PTE_WRITABLE OR PTE_USER)"
    define m1 where "m1 = set_entry ch i ?w (zero_frame f ?m)"
    define c1 where "c1 = c\<lparr>cp_vm := (cp_vm c)\<lparr>vm_mem := m1, vm_pmm := s1\<rparr>, cp_allocated := cp_allocated c @ [f]\<rparr>"
    have run: "sbind (child_table ch i) (copy ?t) c = copy ?t f c1"
      using 2(1) by (simp add: child_table_def sbind_def on_vm_def pmm_alloc_def c1_def m1_def update_order)
    have c1: "vm_mem (cp_vm c1) = m1" "vm_pmm (cp_vm c1) = s1" by (simp_all add: c1_def)
    have f: "managed ?s f" "is_free ?s f" "page_aligned f" using 2(2) by (simp_all add: granted_def managed_def)
    have nf: "x \<noteq> f" if "x \<in> set (t # ch # ?t # tables_at k ?m ?t [0..<512]) \<union> set (leaves_at k ?m ?t [0..<512])" for x
      using old(2) [OF that] f(2) by auto
    have fch: "f \<noteq> ch" using nf [of ch] by simp
    note link = child_table_link [OF f(3) i(4) fch i(1) m1_def]
    have same: "entry m1 x j = entry ?m x j" if "x \<in> set (?t # tables_at k ?m ?t [0..<512])" "j < 512" for x j
    proof -
      have "page_aligned x" "x \<noteq> f" "x \<noteq> ch" using old(1) [of x] nf [of x] that d by (auto simp: managed_def)
      then show ?thesis using link(1) that(2) by simp
    qed
    have tree: "tables_at k m1 ?t [0..<512] = tables_at k ?m ?t [0..<512]" "mapped_at k m1 ?t [0..<512] = mapped_at k ?m ?t [0..<512]"
      using same by (intro same_at; simp)+
    have l1: "leaves_at k m1 ?t [0..<512] = leaves_at k ?m ?t [0..<512]" by (simp add: leaves_at_def tree)
    have m1: "managed s1 = managed ?s" using 2(2) by (rule granted_managed)
    have h1: "holders s1 x = holders ?s x" if "x \<in> set (t # ch # ?t # tables_at k ?m ?t [0..<512]) \<union> set (leaves_at k ?m ?t [0..<512])" for x
      using 2(2) nf [OF that] old(1) [OF that] by (simp add: granted_def)
    have pre1: "copyable_in k ?t f [0..<512] c1"
    proof -
      have "distinct (?t # f # tables_at k ?m ?t [0..<512])" using d nf by auto
      moreover have "managed ?s x \<and> holders s1 x = 1" if "x \<in> set (?t # f # tables_at k ?m ?t [0..<512])" for x
      proof (cases "x = f")
        case True
        then show ?thesis using 2(2) f(1) by (simp add: granted_def)
      next
        case False
        then have "x \<in> set (?t # tables_at k ?m ?t [0..<512])" using that by auto
        moreover from this have "managed ?s x \<and> holders ?s x = 1" using pre by (auto simp: copyable_def at)
        ultimately show ?thesis using h1 [of x] by auto
      qed
      moreover have "x \<notin> set (?t # f # tables_at k ?m ?t [0..<512]) \<and> managed ?s x \<and> 0 < holders s1 x \<and>
          holders s1 x + count_list (leaves_at k ?m ?t [0..<512]) x \<le> 255" if "x \<in> set (leaves_at k ?m ?t [0..<512])" for x
        using pre h1 [of x] nf [of x] that by (auto simp: copyable_def at)
      moreover have "entry m1 f j = 0" if "j < 512" for j using link(1) [OF f(3) that] fch by simp
      moreover have "pmm_inv s1" using 2(2) by (simp add: granted_def)
      ultimately show ?thesis unfolding copyable_def c1 tree l1 m1 by auto
    qed
    obtain r c2 where rc: "copy ?t f c1 = (r, c2)" by (cases "copy ?t f c1") auto
    from copy [OF pre1] obtain m2 s2 N inc where 3: "c2 = c1\<lparr>cp_vm := (cp_vm c1)\<lparr>vm_mem := m2, vm_pmm := s2\<rparr>,
        cp_allocated := cp_allocated c1 @ N, cp_increfed := cp_increfed c1 @ inc\<rparr>"
        "granted N inc s1 s2" "set inc \<subseteq> set (leaves_at k ?m ?t [0..<512])" "touched k ?t f [0..<512] m1 N m2"
        "case r of Inr _ \<Rightarrow> copied k ?t f [0..<512] m1 N m2 \<and> inc = leaves_at k ?m ?t [0..<512]
         | Inl (Err _) \<Rightarrow> free_set s2 = {} \<and> length N < length (tables_at k ?m ?t [0..<512]) | Inl (Crash _) \<Rightarrow> False"
      unfolding copies_def rc c1 tree l1 by auto
    have inc: "\<not> is_free ?s x" if "x \<in> set inc" for x using old(2) [of x] 3(3) that by auto
    have g: "granted ([f] @ N) ([] @ inc) ?s s2" using 2(2) 3(2) inc by (rule granted_append)
    have nN: "x \<notin> set N" if "x \<in> set (t # ch # ?t # tables_at k ?m ?t [0..<512])" for x
      using g old(2) [of x] that by (auto simp: granted_def)
    have tch: "touched (Suc k) t ch [i] ?m (f # N) m2"
      unfolding touched_def at
    proof (intro conjI allI impI)
      fix x j
      assume x: "page_aligned x \<and> j < 512 \<and> x \<notin> set (f # N) \<and> \<not> (x = ch \<and> j \<in> set [i])"
      have "entry m1 x j = entry ?m x j" using x link(1) by auto
      then show "entry m2 x j = entry ?m x j \<or> entry m2 x j = read_only (entry ?m x j) \<and>
          (x \<in> set (tables_at k ?m ?t [0..<512] @ [?t]) \<or> Suc k = 0 \<and> x = t \<and> j \<in> set [i])"
        using 3(4) x unfolding touched_def tree by fastforce
    next
      fix x and n :: nat
      assume x: "page_aligned x \<and> n < 4096 \<and> x \<notin> set (f # N) \<and> x \<noteq> ch \<and> x \<notin> set (tables_at k ?m ?t [0..<512] @ [?t]) \<and> x \<noteq> t"
      have "m1 (x + of_nat n) = ?m (x + of_nat n)" using x by (intro link(2)) simp_all
      moreover have "m2 (x + of_nat n) = m1 (x + of_nat n)" using 3(4) x by (simp add: touched_def tree)
      ultimately show "m2 (x + of_nat n) = ?m (x + of_nat n)" by (simp only:)
    qed
    have cp: "copied (Suc k) t ch [i] ?m (f # N) m2" if ok: "copied k ?t f [0..<512] m1 N m2"
    proof -
      have "entry m2 ch i = entry m1 ch i" "entry m2 t i = entry m1 t i"
        using d fch nN [of ch] nN [of t] nf [of t] i by (intro touched_same [OF 3(4)]; auto simp: tree)+
      then have ee: "entry m2 ch i = ?w" "entry m2 t i = e" using link(1) i nf [of t] e(1) by simp_all
      show ?thesis using ok unfolding copied_def at
        by (simp add: at_one ee e(2) new_table_entry [OF 2(3)] 2(3) mapped_Suc tables_Suc w tree map_prod_def comp_def)
    qed
    show ?thesis unfolding copies_def run rc
    proof (intro exI conjI)
      show "snd (r, c2) = c\<lparr>cp_vm := (cp_vm c)\<lparr>vm_mem := m2, vm_pmm := s2\<rparr>, cp_allocated := cp_allocated c @ (f # N),
          cp_increfed := cp_increfed c @ inc\<rparr>"
        by (simp add: 3(1) c1_def)
      show "granted (f # N) inc ?s s2" using g by simp
      show "set inc \<subseteq> set (leaves_at (Suc k) ?m t [i])" using 3(3) by (simp add: at)
      show "touched (Suc k) t ch [i] ?m (f # N) m2" by (rule tch)
      show "case fst (r, c2) of Inr _ \<Rightarrow> copied (Suc k) t ch [i] ?m (f # N) m2 \<and> inc = leaves_at (Suc k) ?m t [i]
          | Inl (Err _) \<Rightarrow> free_set s2 = {} \<and> length (f # N) < length (tables_at (Suc k) ?m t [i]) | Inl (Crash _) \<Rightarrow> False"
        using 3(5) cp by (auto simp: at split: sum.splits fault.splits)
    qed
  qed
qed

lemma copies_copy_subtable:
  assumes pre: "copyable_in (Suc k) t ch [i] c" and k: "Suc (Suc k) = 2 \<or> Suc (Suc k) = 3"
    and copy: "\<And>t ch c. copyable_in k t ch [0..<512] c \<Longrightarrow> copies k t ch [0..<512] c (copy t ch c)"
  shows "copies (Suc k) t ch [i] c (copy_subtable copy t ch i c)"
proof -
  let ?e = "entry (vm_mem (cp_vm c)) t i"
  have sub: "subtable (vm_mem (cp_vm c)) t i = (if follows (Suc (Suc k)) ?e then Some (pte_addr ?e) else None)"
    using k by (auto simp: subtable_def follows_def Let_def)
  show ?thesis
  proof (cases "follows (Suc (Suc k)) ?e")
    case True
    have "copies (Suc k) t ch [i] c (sbind (child_table ch i) (copy (pte_addr ?e)) c)"
      by (rule copies_table [OF pre _ refl True]) (use k copy in auto)
    then show ?thesis using True by (simp add: copy_subtable_def sub)
  next
    case False
    then show ?thesis using pre by (simp add: copy_subtable_def sub copies_nothing at_one op_simps)
  qed
qed

lemma copies_pt: "copyable_in 0 t ch [0..<512] c \<Longrightarrow> copies 0 t ch [0..<512] c (copy_pt t ch c)"
  unfolding copy_pt_def by (rule copies_each) (rule copies_pt_entry)

lemma copies_pd: "copyable_in 1 t ch [0..<512] c \<Longrightarrow> copies 1 t ch [0..<512] c (copy_pd t ch c)"
  unfolding copy_pd_def by (rule copies_each) (simp_all add: copies_copy_subtable copies_pt)

lemma copies_pdpt: "copyable_in 2 t ch [0..<512] c \<Longrightarrow> copies 2 t ch [0..<512] c (copy_pdpt t ch c)"
  unfolding copy_pdpt_def
  by (rule copies_each) (use copies_copy_subtable [where k = 1 and copy = copy_pd] copies_pd in \<open>simp_all add: numeral_2_eq_2\<close>)

lemma copies_pml4_entry:
  assumes pre: "copyable_in 3 t ch [i] c"
  shows "copies 3 t ch [i] c (copy_pml4_entry t ch i c)"
proof -
  let ?e = "entry (vm_mem (cp_vm c)) t i"
  have n: "(3 :: nat) = Suc 2" by simp
  show ?thesis
  proof (cases "pte_present ?e")
    case True
    have "copies (Suc 2) t ch [i] c (sbind (child_table ch i) (copy_pdpt (pte_addr ?e)) c)"
      by (rule copies_table [OF pre [unfolded n] _ refl]) (use True copies_pdpt in \<open>auto simp: follows_def\<close>)
    then show ?thesis using True by (simp add: copy_pml4_entry_def)
  next
    case False
    then show ?thesis using pre by (simp add: copy_pml4_entry_def copies_nothing at_one follows_def op_simps)
  qed
qed

lemma copies_space: "copyable_in 3 t ch [0..<256] c \<Longrightarrow> copies 3 t ch [0..<256] c (each (copy_pml4_entry t ch) [0..<256] c)"
  by (rule copies_each) (rule copies_pml4_entry)

end
