(* ===== verification/Copy_On_Write.thy ===== *)
theory Copy_On_Write
  imports Space_Copy
begin

text \<open>
  The invariant of all address spaces together, and what the operations of the virtual memory manager guarantee about it:
  releasing a space, sharing one with a child, and the private copy on a write fault.
\<close>

subsection \<open>Changing one mapping\<close>

text \<open>The table and index of the entry at the end of a path of indices.\<close>

fun slot :: "nat \<Rightarrow> phys_mem \<Rightarrow> u64 \<Rightarrow> nat list \<Rightarrow> (u64 \<times> nat) option" where
  "slot (Suc k) m e (i # is) =
     (let t = pte_addr e; e' = entry m t i in
      if i < width (Suc k) \<and> follows (Suc k) e'
      then if k = 0 then (if is = [] then Some (t, i) else None) else slot k m e' is
      else None)"
| "slot _ m e _ = None"

lemma slot_tables: "slot k m e p = Some (t, i) \<Longrightarrow> t \<in> set (tables k m e) \<and> i < 512"
proof (induction k m e p rule: slot.induct)
  case (1 k m e i' "is")
  then show ?case
  proof (cases "k = 0")
    case True
    then show ?thesis using 1(2) width_le [of 1] by (auto simp: Let_def tables_Suc split: if_splits)
  next
    case False
    then have f: "i' < width (Suc k)" "follows (Suc k) (entry m (pte_addr e) i')" "slot k m (entry m (pte_addr e) i') is = Some (t, i)"
      using 1(2) by (auto simp: Let_def split: if_splits)
    then have "t \<in> set (tables k m (entry m (pte_addr e) i'))" "i < 512" using 1(1) False by auto
    then show ?thesis using set_tables_at [of i' "[0..<width (Suc k)]" k m "pte_addr e"] f(1,2) by (auto simp: tables_Suc)
  qed
qed simp_all

text \<open>Replacing or removing the mapping at a path.\<close>

definition put_path :: "nat list \<Rightarrow> u64 option \<Rightarrow> (nat list \<times> u64) list \<Rightarrow> (nat list \<times> u64) list" where
  "put_path p r xs = concat (map (\<lambda>x. if fst x = p then (case r of None \<Rightarrow> [] | Some e \<Rightarrow> [(p, e)]) else [x]) xs)"

definition set_path :: "nat list \<Rightarrow> u64 \<Rightarrow> (nat list \<times> u64) list \<Rightarrow> (nat list \<times> u64) list" where
  "set_path p e = map (\<lambda>x. if fst x = p then (p, e) else x)"

lemma put_path_Some: "put_path p (Some e) xs = set_path p e xs"
  by (induction xs) (simp_all add: put_path_def set_path_def)

lemma put_path_None: "put_path p None xs = filter (\<lambda>x. fst x \<noteq> p) xs"
  by (induction xs) (simp_all add: put_path_def)

lemma put_path_append [simp]: "put_path p e (xs @ ys) = put_path p e xs @ put_path p e ys"
  by (simp add: put_path_def)

lemma put_path_Cons_other: "i \<noteq> j \<Longrightarrow> put_path (i # p) e (map (apfst (Cons j)) xs) = map (apfst (Cons j)) xs"
  by (induction xs) (auto simp: put_path_def)

lemma put_path_Cons_same: "put_path (i # p) e (map (apfst (Cons i)) xs) = map (apfst (Cons i)) (put_path p e xs)"
  by (induction xs) (auto simp: put_path_def split: option.splits)

lemma mapped_at_other: "i \<notin> set is \<Longrightarrow> put_path (i # p) e (mapped_at k m t is) = mapped_at k m t is"
proof (induction "is")
  case Nil
  then show ?case by (simp add: put_path_def)
next
  case (Cons j "is")
  then have "put_path (i # p) e (mapped_at k m t [j]) = mapped_at k m t [j]"
    by (simp add: at_one put_path_Cons_other) (simp add: put_path_def)
  then show ?case using Cons by (simp add: at_Cons(1) [of k m t j "is"])
qed

lemma at_append:
  "tables_at k m t (xs @ ys) = tables_at k m t xs @ tables_at k m t ys"
  "mapped_at k m t (xs @ ys) = mapped_at k m t xs @ mapped_at k m t ys"
  by (simp_all add: tables_at_def mapped_at_def)

lemma upt_split: "i < n \<Longrightarrow> [0..<n] = [0..<i] @ i # [Suc i..<n]"
  using upt_add_eq_append [of 0 i "n - i"] by (simp add: upt_conv_Cons)

lemma put_path_tree:
  assumes "slot k m e p = Some (t, i)" "distinct (tables k m e)" "r = (if follows 1 e' then Some e' else None)"
    "\<And>x j. x \<in> set (tables k m e) \<Longrightarrow> j < 512 \<Longrightarrow> entry m' x j = (if x = t \<and> j = i then e' else entry m x j)"
  shows "tables k m' e = tables k m e \<and> mapped k m' e = put_path p r (mapped k m e)"
  using assms
proof (induction k m e p rule: slot.induct)
  case (1 k m e i0 "is")
  let ?t = "pte_addr e" and ?w = "width (Suc k)"
  let ?e = "entry m ?t i0" and ?l = "[0..<i0]" and ?r = "[Suc i0..<?w]"
  have i0: "i0 < ?w" "i0 < 512" "follows (Suc k) ?e" using 1(2) width_le [of "Suc k"] by (auto simp: Let_def split: if_splits)
  note split = upt_split [OF i0(1)]
  have d: "distinct (tables_at k m ?t ?l @ tables_at k m ?t [i0] @ tables_at k m ?t ?r @ [?t])"
    using 1(3) by (simp add: tables_Suc split at_append at_Cons(2) [of k m ?t i0 ?r])
  have sub: "set (tables_at k m ?t is) \<subseteq> set (tables (Suc k) m e)" if "set is \<subseteq> {..<?w}" for "is"
    using that by (auto simp: tables_Suc tables_at_def)
  have others: "tables_at k m' ?t js = tables_at k m ?t js" "mapped_at k m' ?t js = mapped_at k m ?t js"
    if js: "set js \<subseteq> {..<?w}" "i0 \<notin> set js" "t \<notin> set (tables_at k m ?t js)" "t = ?t \<Longrightarrow> i = i0" for js
  proof -
    have "entry m' x j = entry m x j" if "x \<in> set (tables_at k m ?t js)" "j < 512" for x j
    proof -
      have "x \<in> set (tables (Suc k) m e)" using sub [OF js(1)] that(1) by auto
      moreover have "x \<noteq> t" using that(1) js(3) by auto
      ultimately show ?thesis using 1(5) that(2) by simp
    qed
    moreover have "entry m' ?t j = entry m ?t j" if "j \<in> set js" for j
    proof -
      have "?t \<in> set (tables (Suc k) m e)" by (simp add: tables_Suc)
      moreover have "j < 512" "j \<noteq> i0" using that js(1,2) width_le [of "Suc k"] by auto
      ultimately show ?thesis using 1(5) [of ?t j] js(4) by auto
    qed
    ultimately show "tables_at k m' ?t js = tables_at k m ?t js" "mapped_at k m' ?t js = mapped_at k m ?t js"
      using same_at [of k m ?t js m'] by auto
  qed
  have one: "tables_at k m' ?t [i0] = tables_at k m ?t [i0] \<and>
      mapped_at k m' ?t [i0] = put_path (i0 # is) r (mapped_at k m ?t [i0]) \<and>
      (t = ?t \<longrightarrow> i = i0) \<and> t \<notin> set (tables_at k m ?t ?l) \<and> t \<notin> set (tables_at k m ?t ?r)"
  proof (cases "k = 0")
    case True
    then have s: "is = []" "t = ?t" "i = i0" using 1(2) by (auto simp: Let_def split: if_splits)
    have "entry m' ?t i0 = e'" using 1(5) [of ?t i0] i0(2) s by (simp add: tables_Suc)
    then show ?thesis using True s i0(3) 1(4) d by (auto simp: at_one put_path_def)
  next
    case False
    have s: "slot k m ?e is = Some (t, i)" using 1(2) False i0 by (simp add: Let_def)
    have tb: "tables_at k m ?t [i0] = tables k m ?e" using i0(3) by (simp add: at_one)
    have t: "t \<in> set (tables k m ?e)" using slot_tables [OF s] by simp
    then have t': "t \<noteq> ?t" "t \<notin> set (tables_at k m ?t ?l)" "t \<notin> set (tables_at k m ?t ?r)" using d unfolding tb by auto
    have "?t \<in> set (tables (Suc k) m e)" by (simp add: tables_Suc)
    then have e0: "entry m' ?t i0 = ?e" using 1(5) [of ?t i0] i0(2) t'(1) by auto
    have "tables k m' ?e = tables k m ?e \<and> mapped k m' ?e = put_path is r (mapped k m ?e)"
    proof (rule 1(1) [OF refl refl _ False s _ 1(4)])
      show "i0 < ?w \<and> follows (Suc k) ?e" using i0 by simp
      show "distinct (tables k m ?e)" using d unfolding tb by simp
      fix x j
      assume "x \<in> set (tables k m ?e)" "j < (512 :: nat)"
      then show "entry m' x j = (if x = t \<and> j = i then e' else entry m x j)"
        using sub [of "[i0]"] i0(1) by (intro 1(5)) (auto simp: tb)
    qed
    then show ?thesis using i0(3) t' by (simp add: at_one e0 put_path_Cons_same)
  qed
  have "set ?l \<subseteq> {..<?w}" "set ?r \<subseteq> {..<?w}" "i0 \<notin> set ?l" "i0 \<notin> set ?r" using i0(1) by auto
  then show ?case using one others [of ?l] others [of ?r]
    by (simp add: tables_Suc mapped_Suc split at_append at_Cons(1,2) [of k _ ?t i0 ?r] mapped_at_other)
qed simp_all

lemma set_path_tree:
  assumes "slot k m e p = Some (t, i)" "distinct (tables k m e)" "follows 1 e'"
    "\<And>x j. x \<in> set (tables k m e) \<Longrightarrow> j < 512 \<Longrightarrow> entry m' x j = (if x = t \<and> j = i then e' else entry m x j)"
  shows "tables k m' e = tables k m e \<and> mapped k m' e = set_path p e' (mapped k m e)"
  using put_path_tree [OF assms(1,2) _ assms(4)] assms(3) by (simp add: put_path_Some)

lemma clear_path_tree:
  assumes "slot k m e p = Some (t, i)" "distinct (tables k m e)"
    "\<And>x j. x \<in> set (tables k m e) \<Longrightarrow> j < 512 \<Longrightarrow> entry m' x j = (if x = t \<and> j = i then 0 else entry m x j)"
  shows "tables k m' e = tables k m e \<and> mapped k m' e = filter (\<lambda>x. fst x \<noteq> p) (mapped k m e)"
  using put_path_tree [OF assms(1,2) _ assms(3)] by (simp add: put_path_None follows_def pte_present_def)

text \<open>Every path occurs once, so the change replaces one mapped frame by another.\<close>

lemma mapped_at_path: "x \<in> set (mapped_at k m t is) \<Longrightarrow> \<exists>i q. fst x = i # q \<and> i \<in> set is"
  by (auto simp: mapped_at_def Let_def split: if_splits)

lemma distinct_paths: "distinct (map fst (mapped k m e))"
proof (induction k arbitrary: e)
  case 0
  then show ?case by simp
next
  case (Suc k)
  have "distinct (map fst (mapped_at k m t is))" if "distinct is" for t "is"
    using that
  proof (induction "is")
    case Nil
    then show ?case by simp
  next
    case (Cons i "is")
    have "distinct (map fst (mapped_at k m t [i]))"
    proof (cases "follows (Suc k) (entry m t i)")
      case True
      have "map fst (mapped_at k m t [i]) = map (Cons i) (map fst (mapped k m (entry m t i)))" using True by (simp add: at_one)
      then show ?thesis using Suc.IH [of "entry m t i"] by (simp only: distinct_map inj_on_def) simp
    qed (simp add: at_one)
    moreover have "fst ` set (mapped_at k m t [i]) \<inter> fst ` set (mapped_at k m t is) = {}"
      using Cons.prems mapped_at_path [of _ k m t "[i]"] mapped_at_path [of _ k m t "is"] by fastforce
    ultimately show ?case using Cons by (simp add: at_Cons(1) [of k m t i "is"])
  qed
  then show ?case by (simp add: mapped_Suc)
qed

lemma slot_mapped: "slot k m e p = Some (t, i) \<Longrightarrow> (p, entry m t i) \<in> set (mapped k m e)"
proof (induction k m e p rule: slot.induct)
  case (1 k m e i0 "is")
  let ?e = "entry m (pte_addr e) i0"
  have i0: "i0 < width (Suc k)" "follows (Suc k) ?e" using 1(2) by (auto simp: Let_def split: if_splits)
  have "(is, entry m t i) \<in> set (mapped k m ?e)"
  proof (cases "k = 0")
    case True
    then show ?thesis using 1(2) by (auto simp: Let_def split: if_splits)
  next
    case False
    then show ?thesis using 1 i0 by (simp add: Let_def)
  qed
  then have "(i0 # is, entry m t i) \<in> set (mapped_at k m (pte_addr e) [i0])" using i0(2) by (force simp: at_one)
  then show ?case using i0(1) by (auto simp: mapped_Suc mapped_at_def)
qed simp_all

lemma mset_set_path:
  assumes "distinct (map fst xs)" "(p, e) \<in> set xs"
  shows "mset (map g (set_path p e' xs)) = mset (map g xs) - {#g (p, e)#} + {#g (p, e')#}"
  using assms
proof (induction xs)
  case (Cons x xs)
  show ?case
  proof (cases "fst x = p")
    case True
    then have x: "x = (p, e)" using Cons.prems by (auto simp: rev_image_eqI)
    have "set_path p e' xs = xs" using Cons.prems(1) True unfolding set_path_def by (intro map_idI) (auto simp: rev_image_eqI)
    then show ?thesis using x by (simp add: set_path_def)
  next
    case False
    then have "(p, e) \<in> set xs" using Cons.prems by auto
    moreover from this have "g (p, e) \<in># mset (map g xs)" by simp
    ultimately show ?thesis using Cons False by (simp add: set_path_def)
  qed
qed simp

lemma mset_leaves_set_path:
  assumes "slot k m e p = Some (t, i)" "mapped k m' e = set_path p e' (mapped k m e)"
  shows "mset (leaves k m' e) = mset (leaves k m e) - {#pte_addr (entry m t i)#} + {#pte_addr e'#}"
  using mset_set_path [OF distinct_paths slot_mapped [OF assms(1)], of "pte_addr \<circ> snd" e'] by (simp add: leaves_def assms(2))

subsection \<open>Address spaces\<close>

definition all_tables :: "phys_mem \<Rightarrow> u64 list \<Rightarrow> u64 list" where
  "all_tables m ps = concat (map (tables 4 m) ps)"

definition all_leaves :: "phys_mem \<Rightarrow> u64 list \<Rightarrow> u64 list" where
  "all_leaves m ps = concat (map (leaves 4 m) ps)"

text \<open>
  The address spaces \<open>ps\<close>: their tables are in distinct frames with one holder each, and a frame they map has at least as
  many holders as mappings and holds no table.
\<close>

definition spaces_ok :: "u64 list \<Rightarrow> vmem \<Rightarrow> bool" where
  "spaces_ok ps v \<longleftrightarrow> (\<forall>p \<in> set ps. pte_addr p = p) \<and>
     droppable (all_tables (vm_mem v) ps) (all_leaves (vm_mem v) ps) (vm_pmm v)"

lemma droppable_mset:
  assumes "mset ts = mset ts'" "mset ls = mset ls'"
  shows "droppable ts ls s = droppable ts' ls' s"
proof -
  have "set ts = set ts'" "set ls = set ls'" by (rule mset_eq_setD [OF assms(1)], rule mset_eq_setD [OF assms(2)])
  moreover have "distinct ts = distinct ts'" using assms(1) by (rule mset_eq_imp_distinct_iff)
  moreover have "count_list ls = count_list ls'" by (rule ext) (simp only: count_mset [symmetric] assms(2))
  ultimately show ?thesis by (simp add: droppable_def)
qed

lemma all_Cons [simp]:
  "all_tables m (p # ps) = tables 4 m p @ all_tables m ps" "all_leaves m (p # ps) = leaves 4 m p @ all_leaves m ps"
  by (simp_all add: all_tables_def all_leaves_def)

lemma all_Nil [simp]: "all_tables m [] = []" "all_leaves m [] = []"
  by (simp_all add: all_tables_def all_leaves_def)

lemma mset_all: "mset ps = mset qs \<Longrightarrow> mset (all_tables m ps) = mset (all_tables m qs)"
  "mset ps = mset qs \<Longrightarrow> mset (all_leaves m ps) = mset (all_leaves m qs)"
  by (simp_all add: all_tables_def all_leaves_def mset_concat flip: sum_mset_sum_list)

lemma spaces_ok_mset: "mset ps = mset qs \<Longrightarrow> spaces_ok ps v = spaces_ok qs v"
proof -
  assume eq: "mset ps = mset qs"
  have "droppable (all_tables (vm_mem v) ps) (all_leaves (vm_mem v) ps) (vm_pmm v) =
      droppable (all_tables (vm_mem v) qs) (all_leaves (vm_mem v) qs) (vm_pmm v)"
    using mset_all [OF eq] by (rule droppable_mset)
  then show ?thesis unfolding spaces_ok_def using mset_eq_setD [OF eq] by (simp only:)
qed

text \<open>The entry that a walk finds is at the end of the path that the address determines.\<close>

definition path_of :: "u64 \<Rightarrow> nat list" where
  "path_of virt = [page_index 39 virt, page_index 30 virt, page_index 21 virt, page_index 12 virt]"

definition lower_half :: "u64 \<Rightarrow> bool" where
  "lower_half virt \<longleftrightarrow> page_index 39 virt < 256"

lemma page_index_less: "page_index n virt < 512"
proof -
  have "drop_bit n virt AND 0x1FF = take_bit 9 (drop_bit n virt)" by (simp add: take_bit_eq_mask mask_eq_exp_minus_1)
  then have "unat (drop_bit n virt AND 0x1FF) = take_bit 9 (unat (drop_bit n virt))" by (simp add: unsigned_take_bit_eq)
  also have "\<dots> < 2 ^ 9" by (rule take_bit_nat_less_exp)
  finally show ?thesis by (simp add: page_index_def)
qed

lemma walk_slot:
  assumes "walk_page_table_to_pte m p virt = Some (t, i)" "lower_half virt" "pte_addr p = p"
  shows "slot 4 m p (path_of virt) = Some (t, i)"
proof -
  have n: "(4 :: nat) = Suc (Suc (Suc (Suc 0)))" by simp
  show ?thesis using assms unfolding n
    by (auto simp: walk_page_table_to_pte_def path_of_def subtable_def follows_def width_def lower_half_def page_index_less Let_def
        split: if_splits option.splits)
qed

lemma spaces_okD:
  assumes "spaces_ok ps v"
  shows "pmm_inv (vm_pmm v)" "distinct (all_tables (vm_mem v) ps)"
    "t \<in> set (all_tables (vm_mem v) ps) \<Longrightarrow> managed (vm_pmm v) t \<and> holders (vm_pmm v) t = 1 \<and> \<not> is_free (vm_pmm v) t"
    "f \<in> set (all_leaves (vm_mem v) ps) \<Longrightarrow> managed (vm_pmm v) f \<and> 0 < holders (vm_pmm v) f \<and>
       count_list (all_leaves (vm_mem v) ps) f \<le> holders (vm_pmm v) f \<and> \<not> is_free (vm_pmm v) f \<and>
       f \<notin> set (all_tables (vm_mem v) ps)"
    "p \<in> set ps \<Longrightarrow> pte_addr p = p"
proof -
  show inv: "pmm_inv (vm_pmm v)" "distinct (all_tables (vm_mem v) ps)" using assms by (simp_all add: spaces_ok_def droppable_def)
  show "p \<in> set ps \<Longrightarrow> pte_addr p = p" using assms by (simp add: spaces_ok_def)
  show "managed (vm_pmm v) t \<and> holders (vm_pmm v) t = 1 \<and> \<not> is_free (vm_pmm v) t" if "t \<in> set (all_tables (vm_mem v) ps)"
    using assms that held_not_free [OF inv(1), of t] by (auto simp: spaces_ok_def droppable_def)
  assume f: "f \<in> set (all_leaves (vm_mem v) ps)"
  then have "count_list (all_leaves (vm_mem v) ps) f \<le> holders (vm_pmm v) f" "managed (vm_pmm v) f"
    using assms by (simp_all add: spaces_ok_def droppable_def)
  moreover from f have "0 < count_list (all_leaves (vm_mem v) ps) f" by (simp add: count_list_pos)
  moreover have "f \<notin> set (all_tables (vm_mem v) ps)" using assms f by (auto simp: spaces_ok_def droppable_def)
  ultimately show "managed (vm_pmm v) f \<and> 0 < holders (vm_pmm v) f \<and>
       count_list (all_leaves (vm_mem v) ps) f \<le> holders (vm_pmm v) f \<and> \<not> is_free (vm_pmm v) f \<and>
       f \<notin> set (all_tables (vm_mem v) ps)"
    using held_not_free [OF inv(1), of f] by auto
qed

lemma same_spaces:
  assumes "\<And>t i. t \<in> set (all_tables m ps) \<Longrightarrow> i < 512 \<Longrightarrow> entry m' t i = entry m t i"
  shows "p \<in> set ps \<Longrightarrow> mapped 4 m' p = mapped 4 m p" "p \<in> set ps \<Longrightarrow> tables 4 m' p = tables 4 m p"
    "all_tables m' ps = all_tables m ps" "all_leaves m' ps = all_leaves m ps"
proof -
  have each: "mapped 4 m' q = mapped 4 m q \<and> tables 4 m' q = tables 4 m q" if "q \<in> set ps" for q
    using assms that same_tree [of 4 m q m'] by (auto simp: all_tables_def)
  then show "p \<in> set ps \<Longrightarrow> mapped 4 m' p = mapped 4 m p" "p \<in> set ps \<Longrightarrow> tables 4 m' p = tables 4 m p" by simp_all
  show "all_tables m' ps = all_tables m ps" using each unfolding all_tables_def by (simp cong: map_cong)
  show "all_leaves m' ps = all_leaves m ps" using each unfolding all_leaves_def leaves_def by (simp cong: map_cong)
qed

subsection \<open>Releasing an address space\<close>

lemma free_space:
  assumes "spaces_ok (p # ps) v"
  obtains s where "free_user_address_space p v = (Inr () :: ('e, unit) outcome, v\<lparr>vm_pmm := s\<rparr>)" "spaces_ok ps (v\<lparr>vm_pmm := s\<rparr>)"
    "dropped (tables 4 (vm_mem v) p) (leaves 4 (vm_mem v) p) (vm_pmm v) s"
proof -
  let ?m = "vm_mem v" and ?s = "vm_pmm v"
  have d: "droppable (tables 4 ?m p @ all_tables ?m ps) (leaves 4 ?m p @ all_leaves ?m ps) ?s" and p: "pte_addr p = p"
    using assms by (simp_all add: spaces_ok_def)
  have "releases v (tables 4 ?m p) (leaves 4 ?m p) (free_user_address_space p v :: ('e, unit) outcome \<times> vmem)"
    using droppable_append(1) [OF d] p by (rule releases_space)
  then obtain s where s: "free_user_address_space p v = (Inr () :: ('e, unit) outcome, v\<lparr>vm_pmm := s\<rparr>)" "dropped (tables 4 ?m p) (leaves 4 ?m p) ?s s"
    unfolding releases_def by blast
  have "droppable (all_tables ?m ps) (all_leaves ?m ps) s" using d s(2) by (rule droppable_append(2))
  then have "spaces_ok ps (v\<lparr>vm_pmm := s\<rparr>)" using assms by (simp add: spaces_ok_def)
  then show ?thesis using that s by blast
qed

subsection \<open>Write faults\<close>

text \<open>Replacing the entry at a path by one that maps \<open>f'\<close>.\<close>

lemma set_path_spaces:
  assumes ok: "spaces_ok (p # ps) v" and sl: "slot 4 (vm_mem v) p path = Some (t, i)" and pr: "follows 1 e'"
    and m': "\<And>x j. x \<in> set (all_tables (vm_mem v) (p # ps)) \<Longrightarrow> j < 512 \<Longrightarrow>
      entry m' x j = (if x = t \<and> j = i then e' else entry (vm_mem v) x j)"
  shows "mapped 4 m' p = set_path path e' (mapped 4 (vm_mem v) p)"
    "q \<in> set ps \<Longrightarrow> mapped 4 m' q = mapped 4 (vm_mem v) q"
    "all_tables m' (p # ps) = all_tables (vm_mem v) (p # ps)"
    "mset (all_leaves m' (p # ps)) = mset (all_leaves (vm_mem v) (p # ps)) - {#pte_addr (entry (vm_mem v) t i)#} + {#pte_addr e'#}"
proof -
  let ?m = "vm_mem v"
  have d: "distinct (tables 4 ?m p)" "set (tables 4 ?m p) \<inter> set (all_tables ?m ps) = {}" using spaces_okD(2) [OF ok] by simp_all
  have t: "t \<in> set (tables 4 ?m p)" using slot_tables [OF sl] by simp
  have tree: "tables 4 m' p = tables 4 ?m p \<and> mapped 4 m' p = set_path path e' (mapped 4 ?m p)"
    by (rule set_path_tree [OF sl d(1) pr]) (simp add: m')
  then show "mapped 4 m' p = set_path path e' (mapped 4 ?m p)" by simp
  have others: "entry m' x j = entry ?m x j" if "x \<in> set (all_tables ?m ps)" "j < 512" for x j
  proof -
    have "x \<noteq> t" using that(1) t d(2) by auto
    then show ?thesis using that m' by simp
  qed
  show "q \<in> set ps \<Longrightarrow> mapped 4 m' q = mapped 4 ?m q" by (rule same_spaces(1) [OF others])
  show "all_tables m' (p # ps) = all_tables ?m (p # ps)" using tree same_spaces(3) [of ?m ps m', OF others] by simp
  have l: "all_leaves m' ps = all_leaves ?m ps" by (rule same_spaces(4) [OF others])
  have "pte_addr (entry ?m t i) \<in># mset (leaves 4 ?m p)" using slot_mapped [OF sl] by (force simp: leaves_def)
  then show "mset (all_leaves m' (p # ps)) = mset (all_leaves ?m (p # ps)) - {#pte_addr (entry ?m t i)#} + {#pte_addr e'#}"
    using mset_leaves_set_path [OF sl, of m' e'] tree l by simp
qed

lemma count_list_mset: "mset xs = mset ys - {#a#} + {#b#} \<Longrightarrow> a \<in> set ys \<Longrightarrow>
    count_list xs x = count_list ys x - (if x = a then 1 else 0) + (if x = b then 1 else 0)"
  by (simp flip: count_mset)

text \<open>What a handled fault leaves: the page mapped writable to a frame of its own, with the contents it had.\<close>

definition made_private :: "u64 \<Rightarrow> u64 list \<Rightarrow> u64 \<Rightarrow> u64 \<Rightarrow> vmem \<Rightarrow> vmem \<Rightarrow> bool" where
  "made_private p ps virt e v v' \<longleftrightarrow> spaces_ok (p # ps) v' \<and> (\<exists>f. pte_addr f = f \<and>
     mapped 4 (vm_mem v') p = set_path (path_of virt) (f OR (pte_flags e OR PTE_WRITABLE)) (mapped 4 (vm_mem v) p) \<and>
     (\<forall>q \<in> set ps. mapped 4 (vm_mem v') q = mapped 4 (vm_mem v) q) \<and>
     count_list (all_leaves (vm_mem v') (p # ps)) f = 1 \<and>
     (\<forall>n < 4096. vm_mem v' (f + of_nat n) = vm_mem v (pte_addr e + of_nat n)) \<and>
     (\<forall>g \<in> set (all_leaves (vm_mem v') (p # ps)). g \<noteq> f \<longrightarrow>
        (\<forall>n < 4096. vm_mem v' (g + of_nat n) = vm_mem v (g + of_nat n))))"

lemma new_leaf_entry:
  assumes "pte_addr f = f" "pte_present e"
  shows "pte_addr (f OR (pte_flags e OR PTE_WRITABLE)) = f" "follows 1 (f OR (pte_flags e OR PTE_WRITABLE))"
  using assms by (simp_all add: follows_def pte_present_def bit_or_iff bit_pte_flags)

lemma slot_present: "slot k m e p = Some (t, i) \<Longrightarrow> pte_present (entry m t i)"
proof (induction k m e p rule: slot.induct)
  case (1 k m e i0 "is")
  then show ?case by (cases "k = 0") (auto simp: Let_def follows_def split: if_splits)
qed simp_all

lemma remap_private:
  assumes ok: "spaces_ok (p # ps) v" and sl: "slot 4 (vm_mem v) p (path_of virt) = Some (t, i)" and e: "e = entry (vm_mem v) t i"
    and f: "pte_addr f = f" "managed (vm_pmm v) f" "f \<notin> set (all_tables (vm_mem v) (p # ps))"
    and s: "pmm_inv s" "total_frames s = total_frames (vm_pmm v)"
      "\<And>x. x \<in> set (all_tables (vm_mem v) (p # ps)) \<Longrightarrow> holders s x = 1"
      "\<And>g. g \<in> set (all_leaves (vm_mem v) (p # ps)) \<or> g = f \<Longrightarrow>
        count_list (all_leaves (vm_mem v) (p # ps)) g - (if g = pte_addr e then 1 else 0) + (if g = f then 1 else 0) \<le> holders s g"
    and one: "count_list (all_leaves (vm_mem v) (p # ps)) f - (if f = pte_addr e then 1 else 0) = 0"
    and m: "\<And>x j. x \<in> set (all_tables (vm_mem v) (p # ps)) \<Longrightarrow> j < 512 \<Longrightarrow> entry m x j = entry (vm_mem v) x j"
      "\<And>n. n < 4096 \<Longrightarrow> m (f + of_nat n) = vm_mem v (pte_addr e + of_nat n)"
      "\<And>g n. g \<in> set (all_leaves (vm_mem v) (p # ps)) \<Longrightarrow> g \<noteq> f \<Longrightarrow> n < 4096 \<Longrightarrow> m (g + of_nat n) = vm_mem v (g + of_nat n)"
  shows "made_private p ps virt e v
    (v\<lparr>vm_mem := set_entry t i (f OR (pte_flags e OR PTE_WRITABLE)) m, vm_pmm := s\<rparr>)"
proof -
  let ?m = "vm_mem v" and ?e = "f OR (pte_flags e OR PTE_WRITABLE)"
  let ?m' = "set_entry t i ?e m" and ?ts = "all_tables ?m (p # ps)" and ?ls = "all_leaves ?m (p # ps)"
  have i: "t \<in> set ?ts" "i < 512" using slot_tables [OF sl] by simp_all
  have al: "page_aligned x" if "x \<in> set ?ts" for x using spaces_okD(3) [OF ok that] by (simp add: managed_def)
  have fal: "page_aligned f" using f(2) by (simp add: managed_def)
  note e' = new_leaf_entry [OF f(1) slot_present [OF sl, folded e]]
  have m': "entry ?m' x j = (if x = t \<and> j = i then ?e else entry ?m x j)" if "x \<in> set ?ts" "j < 512" for x j
    using that al i m(1) by (simp add: entry_set_entry)
  note upd = set_path_spaces [OF ok sl e'(2), of ?m', OF m', folded e, unfolded e'(1)]
  have old: "pte_addr e \<in> set ?ls"
    using slot_mapped [OF sl] unfolding e by (force simp: leaves_def)
  let ?ls' = "all_leaves ?m' (p # ps)"
  have cnt: "count_list ?ls' g = count_list ?ls g - (if g = pte_addr e then 1 else 0) + (if g = f then 1 else 0)" for g
    using upd(4) old by (rule count_list_mset)
  have leaf: "g \<in> set ?ls \<or> g = f" if "g \<in> set ?ls'" for g
    using that cnt [of g] unfolding count_list_pos by (auto split: if_splits)
  have "droppable ?ts ?ls' s"
  proof -
    have mg: "managed s = managed (vm_pmm v)" using s(2) by (rule managed_cong)
    have "managed (vm_pmm v) g \<and> count_list ?ls' g \<le> holders s g \<and> g \<notin> set ?ts" if "g \<in> set ?ls'" for g
      using leaf [OF that] s(4) [of g] f spaces_okD(4) [OF ok, of g] cnt [of g] by auto
    moreover have "managed (vm_pmm v) x \<and> holders s x = 1" if "x \<in> set ?ts" for x
      using spaces_okD(3) [OF ok that] s(3) [OF that] by simp
    ultimately show ?thesis using s(1) spaces_okD(2) [OF ok] unfolding droppable_def mg by blast
  qed
  then have "spaces_ok (p # ps) (v\<lparr>vm_mem := ?m', vm_pmm := s\<rparr>)"
    using spaces_okD(5) [OF ok] upd(3) unfolding spaces_ok_def by simp
  moreover have "count_list ?ls' f = 1" using cnt [of f] one by simp
  moreover have byte: "?m' (g + of_nat n) = m (g + of_nat n)" if "page_aligned g" "g \<notin> set ?ts" "n < 4096" for g n
    using that al [OF i(1)] i by (subst set_entry_byte) auto
  moreover have "?m' (f + of_nat n) = ?m (pte_addr e + of_nat n)" if "n < 4096" for n
    using byte [OF fal f(3) that] m(2) [OF that] by simp
  moreover have "?m' (g + of_nat n) = ?m (g + of_nat n)" if "g \<in> set ?ls'" "g \<noteq> f" "n < 4096" for g n
  proof -
    have "g \<in> set ?ls" using leaf that by auto
    moreover from spaces_okD(4) [OF ok this] have "page_aligned g" "g \<notin> set ?ts" by (simp_all add: managed_def)
    ultimately show ?thesis using byte that m(3) by simp
  qed
  ultimately show ?thesis unfolding made_private_def
    using upd(1,2) f(1) by (intro conjI exI [of _ f]) simp_all
qed

lemma get_refcount_managed:
  "pmm_inv s \<Longrightarrow> managed s f \<Longrightarrow> get_refcount f s = Inr (refcounts s (frame_index f))"
  by (simp add: get_refcount_def managed_def pmm_inv_def pmm_simps Let_def)

lemma shared_holders: "1 < refcounts s (frame_index f) \<longleftrightarrow> 1 < holders s f"
  by (simp add: holders_def word_less_nat_alt)

lemma cow_shared:
  assumes ok: "spaces_ok (p # ps) v" and sl: "slot 4 (vm_mem v) p (path_of virt) = Some (t, i)" and e: "e = entry (vm_mem v) t i"
    and h: "1 < holders (vm_pmm v) (pte_addr e)" and f: "alloc_frame (vm_pmm v) = Inr (Some f, s1)" "granted [f] [] (vm_pmm v) s1" "pte_addr f = f"
  obtains s2 where "decref (pte_addr e) s1 = Inr s2"
    "made_private p ps virt e v (v\<lparr>vm_mem := set_entry t i (f OR (pte_flags e OR PTE_WRITABLE)) (copy_bytes (pte_addr e) f 4096 (vm_mem v)),
       vm_pmm := s2\<rparr>)"
proof -
  let ?m = "vm_mem v" and ?s = "vm_pmm v" and ?a = "pte_addr e"
  let ?ts = "all_tables ?m (p # ps)" and ?ls = "all_leaves ?m (p # ps)"
  have old: "?a \<in> set ?ls" using slot_mapped [OF sl] unfolding e by (force simp: leaves_def)
  have a: "managed ?s ?a" "\<not> is_free ?s ?a" "count_list ?ls ?a \<le> holders ?s ?a" using spaces_okD(4) [OF ok old] by simp_all
  have nf: "managed ?s f" "is_free ?s f" using f(2) by (simp_all add: granted_def)
  have fa: "f \<noteq> ?a" using a nf by auto
  have h1: "holders s1 g = (if g = f then 1 else holders ?s g)" if "managed ?s g" for g using f(2) that by (simp add: granted_def)
  have m1: "managed s1 = managed ?s" using f(2) by (rule granted_managed)
  have "droppable [] [?a] s1" using f(2) h1 [OF a(1)] fa h a(1) by (simp add: droppable_def granted_def m1)
  then obtain s2 where s2: "decref ?a s1 = Inr s2" "dropped [] [?a] s1 s2" by (rule decref_drops)
  have h2: "holders s2 g = (if g = f then 1 else if g = ?a then holders ?s g - 1 else holders ?s g)" if "managed ?s g" for g
    using s2(2) h1 [OF that] that fa by (auto simp: dropped_def m1)
  have f_ts: "f \<notin> set ?ts" using spaces_okD(3) [OF ok, of f] nf(2) by auto
  have f_ls: "f \<notin> set ?ls" using spaces_okD(4) [OF ok, of f] nf(2) by auto
  have fal: "page_aligned f" using nf(1) by (simp add: managed_def)
  have "made_private p ps virt e v (v\<lparr>vm_mem := set_entry t i (f OR (pte_flags e OR PTE_WRITABLE)) (copy_bytes ?a f 4096 ?m), vm_pmm := s2\<rparr>)"
  proof (rule remap_private [OF ok sl e f(3) nf(1) f_ts])
    show "pmm_inv s2" "total_frames s2 = total_frames ?s" using s2(2) f(2) by (simp_all add: dropped_def granted_def)
    show "holders s2 x = 1" if "x \<in> set ?ts" for x
    proof -
      have "x \<noteq> ?a" using that spaces_okD(4) [OF ok old] by auto
      then show ?thesis using spaces_okD(3) [OF ok that] h2 [of x] by simp
    qed
    show "count_list ?ls g - (if g = ?a then 1 else 0) + (if g = f then 1 else 0) \<le> holders s2 g" if "g \<in> set ?ls \<or> g = f" for g
    proof (cases "g = f")
      case True
      then show ?thesis using f_ls h2 [OF nf(1)] by (simp add: count_list_0_iff)
    next
      case False
      then have "managed ?s g" "count_list ?ls g \<le> holders ?s g" using that spaces_okD(4) [OF ok, of g] by simp_all
      then show ?thesis using False h2 [of g] by auto
    qed
    show "count_list ?ls f - (if f = ?a then 1 else 0) = 0" using f_ls by (simp add: count_list_0_iff)
    show "entry (copy_bytes ?a f 4096 ?m) x j = entry ?m x j" if "x \<in> set ?ts" "j < 512" for x j
    proof (rule entry_cong [OF _ that(2)])
      fix n :: nat
      assume "n < 4096"
      moreover have "page_aligned x" "x \<noteq> f" using spaces_okD(3) [OF ok that(1)] that(1) f_ts by (auto simp: managed_def)
      ultimately show "copy_bytes ?a f 4096 ?m (x + of_nat n) = ?m (x + of_nat n)" using fal by (simp add: copy_frame_byte)
    qed
    show "copy_bytes ?a f 4096 ?m (f + of_nat n) = ?m (?a + of_nat n)" if "n < 4096" for n
      using fal that by (simp add: copy_frame_byte)
    show "copy_bytes ?a f 4096 ?m (g + of_nat n) = ?m (g + of_nat n)" if "g \<in> set ?ls" "g \<noteq> f" "n < 4096" for g n
    proof -
      have "page_aligned g" using spaces_okD(4) [OF ok that(1)] by (simp add: managed_def)
      then show ?thesis using fal that by (simp add: copy_frame_byte)
    qed
  qed
  with s2(1) show ?thesis by (rule that)
qed

lemma cow_sole_owner:
  assumes ok: "spaces_ok (p # ps) v" and sl: "slot 4 (vm_mem v) p (path_of virt) = Some (t, i)" and e: "e = entry (vm_mem v) t i"
    and h: "\<not> 1 < holders (vm_pmm v) (pte_addr e)"
  shows "made_private p ps virt e v (v\<lparr>vm_mem := set_entry t i (pte_addr e OR (pte_flags e OR PTE_WRITABLE)) (vm_mem v)\<rparr>)"
proof -
  let ?m = "vm_mem v" and ?s = "vm_pmm v" and ?a = "pte_addr e"
  let ?ls = "all_leaves ?m (p # ps)"
  have old: "?a \<in> set ?ls" using slot_mapped [OF sl] unfolding e by (force simp: leaves_def)
  have a: "managed ?s ?a" "?a \<notin> set (all_tables ?m (p # ps))" "count_list ?ls ?a \<le> holders ?s ?a"
    using spaces_okD(4) [OF ok old] by simp_all
  have "0 < count_list ?ls ?a" using old by (simp only: count_list_pos)
  then have c: "count_list ?ls ?a = 1" "holders ?s ?a = 1" using a(3) h by linarith+
  have "made_private p ps virt e v (v\<lparr>vm_mem := set_entry t i (?a OR (pte_flags e OR PTE_WRITABLE)) ?m, vm_pmm := ?s\<rparr>)"
    by (rule remap_private [OF ok sl e _ a(1,2)])
      (use c spaces_okD(1) [OF ok] spaces_okD(3) [OF ok] spaces_okD(4) [OF ok] in auto)
  then show ?thesis by simp
qed

lemma cow_fault_ok:
  assumes ok: "spaces_ok (p # ps) v" and low: "lower_half virt"
    and w: "walk_page_table_to_pte (vm_mem v) p virt = Some (t, i)" and e: "e = entry (vm_mem v) t i"
  shows "case cow_fault p virt v of
      (Inr _, v') \<Rightarrow> made_private p ps virt e v v' \<and> vm_cr3 v' = vm_cr3 v \<and> vm_kernel_pml4 v' = vm_kernel_pml4 v \<and>
        (if 1 < holders (vm_pmm v) (pte_addr e) then free_set (vm_pmm v) \<noteq> {} else \<not> pte_writable e)
    | (Inl (Err _), v') \<Rightarrow> v' = v \<and> (if 1 < holders (vm_pmm v) (pte_addr e) then free_set (vm_pmm v) = {} else pte_writable e)
    | (Inl (Crash _), _) \<Rightarrow> False"
proof -
  let ?s = "vm_pmm v" and ?a = "pte_addr e"
  have inv: "pmm_inv ?s" by (rule spaces_okD(1) [OF ok])
  have sl: "slot 4 (vm_mem v) p (path_of virt) = Some (t, i)"
    by (rule walk_slot [OF w low spaces_okD(5) [OF ok]]) simp
  have "?a \<in> set (all_leaves (vm_mem v) (p # ps))" using slot_mapped [OF sl] unfolding e by (force simp: leaves_def)
  then have "managed ?s ?a" using spaces_okD(4) [OF ok] by simp
  then have rc: "get_refcount ?a ?s = Inr (refcounts ?s (frame_index ?a))" by (rule get_refcount_managed [OF inv])
  show ?thesis
  proof (cases "1 < holders ?s ?a")
    case True
    note run = cow_fault_def w e [symmetric] rc shared_holders True sbind_def pmm_alloc_def sfail_def Let_def
    from inv show ?thesis
    proof (cases rule: alloc_grants)
      case 1
      then show ?thesis using True by (simp add: run)
    next
      case (2 f s1)
      obtain s2 where s2: "decref ?a s1 = Inr s2"
          "made_private p ps virt e v (v\<lparr>vm_mem := set_entry t i (f OR (pte_flags e OR PTE_WRITABLE)) (copy_bytes ?a f 4096 (vm_mem v)), vm_pmm := s2\<rparr>)"
        by (rule cow_shared [OF ok sl e True 2])
      have "free_set ?s \<noteq> {}" using 2(1) alloc_frame_None [OF inv] by auto
      then show ?thesis using True s2 2(1) by (simp add: run mem_modify_def pmm_op_def update_order)
    qed
  next
    case False
    note run = cow_fault_def w e [symmetric] rc shared_holders False mem_modify_def sfail_def Let_def
    show ?thesis using False cow_sole_owner [OF ok sl e False] by (simp add: run)
  qed
qed

subsection \<open>Forking\<close>

definition empty_space :: "phys_mem \<Rightarrow> u64 \<Rightarrow> bool" where
  "empty_space m p \<longleftrightarrow> (\<forall>i < 256. entry m p i = 0)"

text \<open>No reference count saturates.\<close>

definition count_room :: "u64 \<Rightarrow> vmem \<Rightarrow> bool" where
  "count_room p v \<longleftrightarrow> (\<forall>f \<in> set (leaves 4 (vm_mem v) p). holders (vm_pmm v) f + count_list (leaves 4 (vm_mem v) p) f \<le> 255)"

lemma space_4:
  assumes "pte_addr p = p"
  shows "tables 4 m p = tables_at 3 m p [0..<256] @ [p]" "mapped 4 m p = mapped_at 3 m p [0..<256]" "leaves 4 m p = leaves_at 3 m p [0..<256]"
proof -
  have n: "(4 :: nat) = Suc 3" "width (Suc 3) = 256" by (simp_all add: width_def)
  show "tables 4 m p = tables_at 3 m p [0..<256] @ [p]" "mapped 4 m p = mapped_at 3 m p [0..<256]" "leaves 4 m p = leaves_at 3 m p [0..<256]"
    unfolding n(1) tables_Suc mapped_Suc leaves_Suc n(2) assms by simp_all
qed

lemma empty_space_4:
  assumes "pte_addr p = p" "empty_space m p"
  shows "tables 4 m p = [p]" "mapped 4 m p = []" "leaves 4 m p = []"
proof -
  have "mapped_at 3 m p [0..<256] = []" "tables_at 3 m p [0..<256] = []"
    using assms(2) by (intro empty_at; simp add: empty_space_def)+
  then show "tables 4 m p = [p]" "mapped 4 m p = []" "leaves 4 m p = []"
    using space_4 [OF assms(1), of m] by (simp_all add: leaves_at_def)
qed

lemma copyable_space:
  assumes ok: "spaces_ok (p # ch # ps) v" and e: "empty_space (vm_mem v) ch" and r: "count_room p v"
  shows "copyable 3 p ch [0..<256] (vm_mem v) (vm_pmm v)"
proof -
  let ?m = "vm_mem v" and ?s = "vm_pmm v"
  have p: "pte_addr p = p" "pte_addr ch = ch" using spaces_okD(5) [OF ok] by simp_all
  note t = space_4 [OF p(1), of ?m] empty_space_4 [OF p(2) e]
  have "distinct (p # ch # tables_at 3 ?m p [0..<256])" using spaces_okD(2) [OF ok] by (auto simp: t)
  moreover have "managed ?s x \<and> holders ?s x = 1" if "x \<in> set (p # ch # tables_at 3 ?m p [0..<256])" for x
    using spaces_okD(3) [OF ok, of x] that by (auto simp: t)
  moreover have "f \<notin> set (p # ch # tables_at 3 ?m p [0..<256]) \<and> managed ?s f \<and> 0 < holders ?s f \<and>
      holders ?s f + count_list (leaves_at 3 ?m p [0..<256]) f \<le> 255" if "f \<in> set (leaves_at 3 ?m p [0..<256])" for f
    using spaces_okD(4) [OF ok, of f] r that by (auto simp: t count_room_def)
  moreover have "entry ?m ch i = 0" if "i \<in> set [0..<256]" for i using e that by (simp add: empty_space_def)
  moreover have "set [0..<256] \<subseteq> {..<512 :: nat}" by auto
  ultimately show ?thesis using spaces_okD(1) [OF ok] unfolding copyable_def by (simp only: distinct_upt simp_thms) blast
qed

text \<open>Giving frames back one by one.\<close>

lemma releases_each_free:
  "droppable ts [] (vm_pmm v) \<Longrightarrow> releases v ts [] (each (\<lambda>f. pmm_op (free_frame f)) ts v :: ('e, unit) outcome \<times> vmem)"
proof (induction ts arbitrary: v)
  case Nil
  then show ?case by (simp add: releases_nothing)
next
  case (Cons t ts)
  have d: "droppable ([t] @ ts) ([] @ []) (vm_pmm v)" using Cons.prems by simp
  have "releases v ([t] @ ts) ([] @ []) (each (\<lambda>f. pmm_op (free_frame f)) (t # ts) v :: ('e, unit) outcome \<times> vmem)"
    unfolding each.simps by (rule releases_bind [OF d]) (simp_all add: Cons.IH releases_free_frame droppable_append(1) [OF d])
  then show ?case by simp
qed

lemma releases_each_decref:
  "droppable [] ls (vm_pmm v) \<Longrightarrow> releases v [] ls (each (\<lambda>f. pmm_op (decref f)) ls v :: ('e, unit) outcome \<times> vmem)"
proof (induction ls arbitrary: v)
  case Nil
  then show ?case by (simp add: releases_nothing)
next
  case (Cons f ls)
  have d: "droppable ([] @ []) ([f] @ ls) (vm_pmm v)" using Cons.prems by simp
  have "releases v ([] @ []) ([f] @ ls) (each (\<lambda>f. pmm_op (decref f)) (f # ls) v :: ('e, unit) outcome \<times> vmem)"
    unfolding each.simps by (rule releases_bind [OF d]) (simp_all add: Cons.IH releases_decref droppable_append(1) [OF d])
  then show ?case by simp
qed

lemma rollback:
  assumes "droppable N inc (vm_pmm v)"
  obtains s where "sbind (each (\<lambda>f. pmm_op (free_frame f)) N) (\<lambda>_. sbind (each (\<lambda>f. pmm_op (decref f)) inc) (\<lambda>_. sfail e)) v =
      (Inl (Err e), v\<lparr>vm_pmm := s\<rparr>)" "dropped N inc (vm_pmm v) s"
proof -
  have d: "droppable (N @ []) ([] @ inc) (vm_pmm v)" using assms by simp
  have "releases v N [] (each (\<lambda>f. pmm_op (free_frame f)) N v :: ('a, unit) outcome \<times> vmem)"
    by (rule releases_each_free [OF droppable_append(1) [OF d]])
  then obtain s1 where 1: "each (\<lambda>f. pmm_op (free_frame f)) N v = (Inr () :: ('a, unit) outcome, v\<lparr>vm_pmm := s1\<rparr>)" "dropped N [] (vm_pmm v) s1"
    unfolding releases_def by blast
  have d1: "droppable [] inc (vm_pmm (v\<lparr>vm_pmm := s1\<rparr>))" using droppable_append(2) [OF d 1(2)] by simp
  have "releases (v\<lparr>vm_pmm := s1\<rparr>) [] inc (each (\<lambda>f. pmm_op (decref f)) inc (v\<lparr>vm_pmm := s1\<rparr>) :: ('a, unit) outcome \<times> vmem)"
    by (rule releases_each_decref [OF d1])
  then obtain s2 where 2: "each (\<lambda>f. pmm_op (decref f)) inc (v\<lparr>vm_pmm := s1\<rparr>) = (Inr () :: ('a, unit) outcome, v\<lparr>vm_pmm := s2\<rparr>)" "dropped [] inc s1 s2"
    unfolding releases_def by auto
  have "dropped (N @ []) ([] @ inc) (vm_pmm v) s2" by (rule dropped_append [OF 1(2) 2(2) droppable_append(3-5) [OF d]])
  then show ?thesis using that [of s2] 1(1) 2(1) by (simp add: op_simps)
qed

text \<open>The tables of the other spaces and all mapped frames are untouched.\<close>

lemma touched_spaces:
  assumes ok: "spaces_ok (p # ch # ps) v" and e: "empty_space (vm_mem v) ch" and t: "touched 3 p ch [0..<256] (vm_mem v) N m'"
    and N: "\<And>f. f \<in> set N \<Longrightarrow> is_free (vm_pmm v) f"
  shows "q \<in> set ps \<Longrightarrow> mapped 4 m' q = mapped 4 (vm_mem v) q" "all_tables m' ps = all_tables (vm_mem v) ps"
    "all_leaves m' ps = all_leaves (vm_mem v) ps"
    "f \<in> set (all_leaves (vm_mem v) (p # ps)) \<Longrightarrow> n < 4096 \<Longrightarrow> m' (f + of_nat n) = vm_mem v (f + of_nat n)"
    "tables 4 m' p = tables 4 (vm_mem v) p" "entries_all weakened (mapped 4 (vm_mem v) p) (mapped 4 m' p)"
    "i < 512 \<Longrightarrow> 256 \<le> i \<Longrightarrow> entry m' ch i = entry (vm_mem v) ch i"
proof -
  let ?m = "vm_mem v" and ?s = "vm_pmm v"
  have p: "pte_addr p = p" "pte_addr ch = ch" using spaces_okD(5) [OF ok] by simp_all
  note t4 = space_4 [OF p(1), of ?m] empty_space_4 [OF p(2) e]
  have d: "distinct (tables_at 3 ?m p [0..<256] @ [p] @ [ch] @ all_tables ?m ps)" using spaces_okD(2) [OF ok] by (simp add: t4)
  have tab: "page_aligned x" "x \<notin> set N" if "x \<in> set (tables_at 3 ?m p [0..<256] @ [p] @ [ch] @ all_tables ?m ps)" for x
    using spaces_okD(3) [OF ok, of x] that N [of x] by (auto simp: t4 managed_def)
  have others: "entry m' x j = entry ?m x j" if "x \<in> set (all_tables ?m ps)" "j < 512" for x j
    using that tab [of x] d by (intro touched_same [OF t]) auto
  show "q \<in> set ps \<Longrightarrow> mapped 4 m' q = mapped 4 ?m q" by (rule same_spaces(1) [OF others])
  show "all_tables m' ps = all_tables ?m ps" "all_leaves m' ps = all_leaves ?m ps"
    by (rule same_spaces(3) [OF others], assumption+, rule same_spaces(4) [OF others])
  show "m' (f + of_nat n) = ?m (f + of_nat n)" if "f \<in> set (all_leaves ?m (p # ps))" "n < 4096"
  proof -
    have "f \<in> set (all_leaves ?m (p # ch # ps))" using that(1) by auto
    from spaces_okD(4) [OF ok this] have "page_aligned f" "\<not> is_free ?s f" "f \<notin> set (tables_at 3 ?m p [0..<256] @ [p] @ [ch] @ all_tables ?m ps)"
      by (simp_all add: managed_def t4)
    then show ?thesis using t that(2) N [of f] by (auto simp: touched_def)
  qed
  have "weakened (entry ?m x j) (entry m' x j)" if "x \<in> set (tables_at 3 ?m p [0..<256] @ [p])" "j < 512" for x j
    using that tab [of x] d by (intro touched_weakened [OF t]) auto
  then have w: "tables_at 3 m' p [0..<256] = tables_at 3 ?m p [0..<256]" "entries_all weakened (mapped_at 3 ?m p [0..<256]) (mapped_at 3 m' p [0..<256])"
    by (intro weakened_at; simp)+
  then show "tables 4 m' p = tables 4 ?m p" "entries_all weakened (mapped 4 ?m p) (mapped 4 m' p)"
    using space_4 [OF p(1), of m'] t4 by simp_all
  show "entry m' ch i = entry ?m ch i" if "i < 512" "256 \<le> i"
    using that tab [of ch] d by (intro touched_same [OF t]) auto
qed

lemma entries_all_addrs: "entries_all weakened xs ys \<Longrightarrow> map (pte_addr \<circ> snd) ys = map (pte_addr \<circ> snd) xs"
proof -
  have "list_all2 (\<lambda>p q. fst p = fst q \<and> weakened (snd p) (snd q)) xs ys \<Longrightarrow> ?thesis"
    by (induction rule: list_all2_induct) (auto simp: weakened_def)
  then show "entries_all weakened xs ys \<Longrightarrow> ?thesis" by (simp add: entries_all_def)
qed

lemma entries_all_leaves: "entries_all weakened (mapped k m e) (mapped k m' e') \<Longrightarrow> leaves k m' e' = leaves k m e"
  unfolding leaves_def by (rule entries_all_addrs)

lemma granted_card:
  assumes "granted N inc s s'" "pmm_inv s"
  shows "card (free_set s') + length N = card (free_set s)"
proof -
  have N: "managed s f" "is_free s f" if "f \<in> set N" for f using assms(1) that by (simp_all add: granted_def)
  have "inj_on frame_index (set N)"
    using N(1) by (intro inj_onI) (simp add: frame_index_inject managed_def)
  moreover have "distinct N" using assms(1) by (simp add: granted_def)
  ultimately have c: "card (frame_index ` set N) = length N" by (simp add: card_image distinct_card)
  have sub: "frame_index ` set N \<subseteq> free_set s" using N(2) by (auto simp: is_free_def)
  have t: "total_frames s' = total_frames s" using assms(1) by (simp add: granted_def)
  have "i \<in> free_set s' \<longleftrightarrow> i \<in> free_set s \<and> i \<notin> frame_index ` set N" for i
  proof (cases "i < total_frames s")
    case True
    let ?f = "of_nat i * PAGE_SIZE :: u64"
    have "i < MAX_FRAMES" using True assms(2) by (simp add: pmm_inv_def)
    then have f: "frame_index ?f = i" "managed s ?f" using True by (simp_all add: managed_def)
    then have "i \<in> free_set s' \<longleftrightarrow> i \<in> free_set s \<and> ?f \<notin> set N"
      using assms(1) by (auto simp: granted_def is_free_def)
    moreover have "i \<in> frame_index ` set N \<longleftrightarrow> ?f \<in> set N"
    proof
      assume "i \<in> frame_index ` set N"
      then obtain g where g: "g \<in> set N" "frame_index g = i" by auto
      then have "g = ?f" using frame_index_inject [of g ?f] N(1) [OF g(1)] f by (simp add: managed_def)
      then show "?f \<in> set N" using g(1) by simp
    next
      assume "?f \<in> set N"
      then show "i \<in> frame_index ` set N" using f(1) by (metis imageI)
    qed
    ultimately show ?thesis by simp
  next
    case False
    then show ?thesis using t by (simp add: free_set_def)
  qed
  then have "free_set s' = free_set s - frame_index ` set N" by blast
  then show ?thesis using card_mono [OF _ sub] c sub by (simp add: card_Diff_subset)
qed

text \<open>
  The parent and the child map the same frames at the same addresses with the same flags but for the write permission, which
  both have lost; the other spaces, the contents of all mapped frames and the child's kernel half are as before.
\<close>

definition shared_with_child :: "u64 \<Rightarrow> u64 \<Rightarrow> u64 list \<Rightarrow> vmem \<Rightarrow> vmem \<Rightarrow> bool" where
  "shared_with_child p ch ps v v' \<longleftrightarrow> spaces_ok (p # ch # ps) v' \<and>
     mapped 4 (vm_mem v') p = map (apsnd read_only) (mapped 4 (vm_mem v) p) \<and>
     mapped 4 (vm_mem v') ch = map (apsnd read_only) (mapped 4 (vm_mem v) p) \<and>
     (\<forall>q \<in> set ps. mapped 4 (vm_mem v') q = mapped 4 (vm_mem v) q) \<and>
     (\<forall>f \<in> set (all_leaves (vm_mem v) (p # ps)). \<forall>n < 4096. vm_mem v' (f + of_nat n) = vm_mem v (f + of_nat n)) \<and>
     (\<forall>i < 512. 256 \<le> i \<longrightarrow> entry (vm_mem v') ch i = entry (vm_mem v) ch i)"

text \<open>No frame gained or lost a holder, and the parent's mappings lost at most write permission.\<close>

definition rolled_back :: "u64 \<Rightarrow> u64 list \<Rightarrow> vmem \<Rightarrow> vmem \<Rightarrow> bool" where
  "rolled_back p ps v v' \<longleftrightarrow> spaces_ok (p # ps) v' \<and>
     (\<forall>f. managed (vm_pmm v) f \<longrightarrow> holders (vm_pmm v') f = holders (vm_pmm v) f \<and> (is_free (vm_pmm v') f \<longleftrightarrow> is_free (vm_pmm v) f)) \<and>
     entries_all weakened (mapped 4 (vm_mem v) p) (mapped 4 (vm_mem v') p) \<and>
     (\<forall>q \<in> set ps. mapped 4 (vm_mem v') q = mapped 4 (vm_mem v) q) \<and>
     (\<forall>f \<in> set (all_leaves (vm_mem v) (p # ps)). \<forall>n < 4096. vm_mem v' (f + of_nat n) = vm_mem v (f + of_nat n))"

lemma copied_space:
  assumes ok: "spaces_ok (p # ch # ps) v" and e: "empty_space (vm_mem v) ch"
    and g: "granted N (leaves 4 (vm_mem v) p) (vm_pmm v) s'" and t: "touched 3 p ch [0..<256] (vm_mem v) N m'"
    and c: "copied 3 p ch [0..<256] (vm_mem v) N m'"
    and v': "vm_mem v' = m'" "vm_pmm v' = s'"
  shows "shared_with_child p ch ps v v'"
proof -
  let ?m = "vm_mem v" and ?s = "vm_pmm v"
  have p: "pte_addr p = p" "pte_addr ch = ch" using spaces_okD(5) [OF ok] by simp_all
  note t4 = space_4 [OF p(1), of ?m] empty_space_4 [OF p(2) e]
  have N: "managed ?s f" "is_free ?s f" if "f \<in> set N" for f using g that by (simp_all add: granted_def)
  note touch = touched_spaces [OF ok e t N(2)]
  have m: "mapped 4 m' p = map (apsnd read_only) (mapped 4 ?m p)" "mapped 4 m' ch = map (apsnd read_only) (mapped 4 ?m p)"
    and tc: "mset (tables 4 m' ch) = add_mset ch (mset N)"
    using c space_4 [OF p(1), of m'] space_4 [OF p(2), of m'] t4 by (simp_all add: copied_def)
  have l: "leaves 4 m' p = leaves 4 ?m p" "leaves 4 m' ch = leaves 4 ?m p" by (simp_all add: leaves_def m comp_def)
  let ?ts = "tables 4 ?m p @ (ch # N) @ all_tables ?m ps" and ?ls = "leaves 4 ?m p @ leaves 4 ?m p @ all_leaves ?m ps"
  have old_t: "managed ?s x \<and> holders ?s x = 1 \<and> \<not> is_free ?s x" if "x \<in> set (tables 4 ?m p @ [ch] @ all_tables ?m ps)" for x
    using spaces_okD(3) [OF ok, of x] that by (simp add: t4)
  have old_l: "managed ?s f \<and> count_list (leaves 4 ?m p) f + count_list (all_leaves ?m ps) f \<le> holders ?s f \<and> \<not> is_free ?s f \<and>
      f \<notin> set (tables 4 ?m p @ [ch] @ all_tables ?m ps)" if "f \<in> set (leaves 4 ?m p) \<union> set (all_leaves ?m ps)" for f
    using spaces_okD(4) [OF ok, of f] that by (simp add: t4)
  have h: "holders s' f = (if f \<in> set N then 1 else holders ?s f + count_list (leaves 4 ?m p) f)" if "managed ?s f" for f
    using g that by (simp add: granted_def)
  have mg: "managed s' = managed ?s" using g by (rule granted_managed)
  have "droppable ?ts ?ls s'"
  proof -
    have "distinct ?ts" using spaces_okD(2) [OF ok] old_t N(2) g by (auto simp: t4 granted_def)
    moreover have "managed ?s x \<and> holders s' x = 1" if "x \<in> set ?ts" for x
    proof (cases "x \<in> set N")
      case True
      then show ?thesis using h [of x] N(1) by simp
    next
      case False
      then have x: "x \<in> set (tables 4 ?m p @ [ch] @ all_tables ?m ps)" using that by auto
      then have "x \<notin> set (leaves 4 ?m p)" using old_l [of x] by auto
      then have "count_list (leaves 4 ?m p) x = 0" by (simp add: count_list_0_iff)
      then show ?thesis using old_t [OF x] h [of x] False by simp
    qed
    moreover have "managed ?s f \<and> count_list ?ls f \<le> holders s' f \<and> f \<notin> set ?ts" if "f \<in> set ?ls" for f
    proof -
      have "f \<in> set (leaves 4 ?m p) \<union> set (all_leaves ?m ps)" using that by auto
      note f = old_l [OF this]
      then have "f \<notin> set N" using N(2) by auto
      then show ?thesis using f h [of f] by auto
    qed
    moreover have "pmm_inv s'" using g by (simp add: granted_def)
    ultimately show ?thesis unfolding droppable_def mg by blast
  qed
  moreover have "mset (all_tables m' (p # ch # ps)) = mset ?ts" "mset (all_leaves m' (p # ch # ps)) = mset ?ls"
    using touch(2,3,5) tc l by simp_all
  ultimately have "droppable (all_tables m' (p # ch # ps)) (all_leaves m' (p # ch # ps)) s'" using droppable_mset by blast
  then have "spaces_ok (p # ch # ps) v'" using spaces_okD(5) [OF ok] by (simp add: spaces_ok_def v')
  then show ?thesis unfolding shared_with_child_def v' using m touch(1,4,7) by simp
qed

lemma rolled_back_space:
  assumes ok: "spaces_ok (p # ch # ps) v" and e: "empty_space (vm_mem v) ch"
    and g: "granted N inc (vm_pmm v) s'" "set inc \<subseteq> set (leaves 4 (vm_mem v) p)" "dropped N inc s' s''"
    and t: "touched 3 p ch [0..<256] (vm_mem v) N m'" and v': "vm_mem v' = m'" "vm_pmm v' = s''"
  shows "rolled_back p ps v v'"
proof -
  let ?m = "vm_mem v" and ?s = "vm_pmm v"
  have inv: "pmm_inv ?s" using spaces_okD(1) [OF ok] .
  have p: "pte_addr p = p" "pte_addr ch = ch" using spaces_okD(5) [OF ok] by simp_all
  note t4 = empty_space_4 [OF p(2) e]
  have "is_free ?s f" if "f \<in> set N" for f using g that by (simp add: granted_def)
  note touch = touched_spaces [OF ok e t this]
  have "managed ?s f \<and> 0 < holders ?s f" if "f \<in> set inc" for f
    using spaces_okD(4) [OF ok, of f] g(2) that by auto
  note undo = granted_undo(2) [OF g(1) inv this g(3)]
  have mg: "managed s'' = managed ?s" using g by (intro managed_cong) (simp add: dropped_def granted_def)
  have l: "leaves 4 m' p = leaves 4 ?m p" using touch(6) by (rule entries_all_leaves)
  have "droppable (all_tables ?m (p # ps)) (all_leaves ?m (p # ps)) s''"
  proof -
    have "managed ?s x \<and> holders s'' x = 1" if "x \<in> set (all_tables ?m (p # ps))" for x
      using spaces_okD(3) [OF ok, of x] undo [of x] that by auto
    moreover have "managed ?s f \<and> count_list (all_leaves ?m (p # ps)) f \<le> holders s'' f \<and> f \<notin> set (all_tables ?m (p # ps))"
      if "f \<in> set (all_leaves ?m (p # ps))" for f
      using spaces_okD(4) [OF ok, of f] undo [of f] that by (auto simp: t4)
    moreover have "pmm_inv s''" using g(3) by (simp add: dropped_def)
    moreover have "distinct (all_tables ?m (p # ps))" using spaces_okD(2) [OF ok] by (simp add: t4)
    ultimately show ?thesis unfolding droppable_def mg by blast
  qed
  then have "spaces_ok (p # ps) v'"
    using spaces_okD(5) [OF ok] touch(2,3,5) l by (simp add: spaces_ok_def v')
  then show ?thesis unfolding rolled_back_def v' using undo touch(1,4,6) by simp
qed

lemma copy_user_pages_ok:
  assumes ok: "spaces_ok (p # ch # ps) v" and e: "empty_space (vm_mem v) ch" and r: "count_room p v"
  shows "case copy_user_pages p ch v of
      (Inr _, v') \<Rightarrow> shared_with_child p ch ps v v' \<and> card (free_set (vm_pmm v')) + length (tables 4 (vm_mem v) p) = card (free_set (vm_pmm v)) + 1
    | (Inl (Err _), v') \<Rightarrow> rolled_back p ps v v' \<and> card (free_set (vm_pmm v)) + 1 < length (tables 4 (vm_mem v) p)
    | (Inl (Crash _), _) \<Rightarrow> False"
proof -
  let ?m = "vm_mem v" and ?s = "vm_pmm v" and ?v = "v\<lparr>vm_cr3 := vm_kernel_pml4 v\<rparr>"
  let ?c = "\<lparr>cp_vm = ?v, cp_allocated = [], cp_increfed = []\<rparr>"
  have p: "pte_addr p = p" using spaces_okD(5) [OF ok] by simp
  note t4 = space_4 [OF p, of ?m]
  have inv: "pmm_inv ?s" using spaces_okD(1) [OF ok] .
  have "copyable_in 3 p ch [0..<256] ?c" using copyable_space [OF ok e r] by simp
  then have cp: "copies 3 p ch [0..<256] ?c (each (copy_pml4_entry p ch) [0..<256] ?c)" by (rule copies_space)
  have c0: "vm_mem (cp_vm ?c) = ?m" "vm_pmm (cp_vm ?c) = ?s" by simp_all
  obtain x c' where run: "each (copy_pml4_entry p ch) [0..<256] ?c = (x, c')" by fastforce
  from cp obtain m' s' N inc where c': "c' = ?c\<lparr>cp_vm := ?v\<lparr>vm_mem := m', vm_pmm := s'\<rparr>, cp_allocated := N, cp_increfed := inc\<rparr>"
      "granted N inc ?s s'" "set inc \<subseteq> set (leaves 4 ?m p)" "touched 3 p ch [0..<256] ?m N m'"
      "case x of Inr _ \<Rightarrow> copied 3 p ch [0..<256] ?m N m' \<and> inc = leaves 4 ?m p
       | Inl (Err _) \<Rightarrow> free_set s' = {} \<and> length N < length (tables_at 3 ?m p [0..<256]) | Inl (Crash _) \<Rightarrow> False"
    unfolding copies_def run t4 c0 fst_conv snd_conv by auto
  show ?thesis
  proof (cases x)
    case (Inr u)
    have ok': "copied 3 p ch [0..<256] ?m N m'" "inc = leaves 4 ?m p" using c'(5) Inr by simp_all
    have "card (free_set s') + length N = card (free_set ?s)" by (rule granted_card [OF c'(2) inv])
    moreover have "length (tables 4 ?m p) = length N + 1" using ok'(1) by (simp add: copied_def t4)
    moreover have "shared_with_child p ch ps v (v\<lparr>vm_mem := m', vm_pmm := s'\<rparr>)"
      by (rule copied_space [OF ok e c'(2) [unfolded ok'(2)] c'(4) ok'(1)]) simp_all
    ultimately show ?thesis using Inr c'(1) by (simp add: copy_user_pages_def with_kernel_pml4_def run)
  next
    case (Inl f)
    then obtain u where f: "x = Inl (Err u)" using c'(5) by (cases f) auto
    have full: "free_set s' = {}" "length N < length (tables_at 3 ?m p [0..<256])" using c'(5) f by simp_all
    have inc: "managed ?s g \<and> 0 < holders ?s g" if "g \<in> set inc" for g
      using spaces_okD(4) [OF ok, of g] c'(3) that by auto
    have d: "droppable N inc (vm_pmm (?v\<lparr>vm_mem := m', vm_pmm := s'\<rparr>))" using granted_undo(1) [OF c'(2) inv inc] by simp
    obtain s'' where s'': "sbind (each (\<lambda>f. pmm_op (free_frame f)) N) (\<lambda>_. sbind (each (\<lambda>f. pmm_op (decref f)) inc) (\<lambda>_. sfail ()))
        (?v\<lparr>vm_mem := m', vm_pmm := s'\<rparr>) = (Inl (Err ()) :: (unit, unit) outcome, ?v\<lparr>vm_mem := m', vm_pmm := s'\<rparr>\<lparr>vm_pmm := s''\<rparr>)"
        "dropped N inc s' s''"
      using rollback [OF d, of "()"] by auto
    have "card (free_set ?s) = length N" using granted_card [OF c'(2) inv] full(1) by simp
    moreover have "length (tables 4 ?m p) = length (tables_at 3 ?m p [0..<256]) + 1" by (simp add: t4)
    moreover have "rolled_back p ps v (v\<lparr>vm_mem := m', vm_pmm := s''\<rparr>)"
      by (rule rolled_back_space [OF ok e c'(2,3) s''(2) c'(4)]) simp_all
    ultimately show ?thesis using f full(2) c'(1) s''(1) by (simp add: copy_user_pages_def with_kernel_pml4_def run)
  qed
qed

subsection \<open>New address spaces\<close>

lemma create_user_pml4_ok:
  assumes ok: "spaces_ok ps v" and k: "page_aligned k" and r: "create_user_pml4 k v = (Inr p, v')"
  shows "spaces_ok (p # ps) v' \<and> empty_space (vm_mem v') p \<and> (\<forall>q \<in> set ps. mapped 4 (vm_mem v') q = mapped 4 (vm_mem v) q) \<and>
    (\<not> is_free (vm_pmm v) k \<longrightarrow> (\<forall>i. 256 \<le> i \<and> i < 512 \<longrightarrow> entry (vm_mem v') p i = entry (vm_mem v) k i))"
proof -
  let ?m = "vm_mem v" and ?s = "vm_pmm v"
  have inv: "pmm_inv ?s" using spaces_okD(1) [OF ok] .
  from inv show ?thesis
  proof (cases rule: alloc_grants)
    case 1
    then show ?thesis using r by (simp add: create_user_pml4_def create_empty_pml4_def sbind_def pmm_alloc_def scrash_def)
  next
    case (2 f s1)
    let ?m1 = "zero_frame f ?m"
    let ?m2 = "copy_bytes (k + 2048) (f + 2048) 2048 ?m1"
    have p: "p = f" "v' = v\<lparr>vm_mem := ?m2, vm_pmm := s1\<rparr>"
      using r 2(1) by (auto simp: create_user_pml4_def create_empty_pml4_def sbind_def pmm_alloc_def mem_modify_def sreturn_def update_order)
    have f: "managed ?s f" "is_free ?s f" "page_aligned f" using 2(2) by (simp_all add: granted_def managed_def)
    have byte: "?m2 (x + of_nat n) = (if x = f then if 2048 \<le> n then ?m1 (k + of_nat n) else 0 else ?m (x + of_nat n))"
      if x: "page_aligned x" "n < 4096" for x n
    proof -
      have u: "unat (f + 2048) = unat f + 2048" using unat_page_offset [OF f(3), of 2048] by simp
      have room: "unat (f + 2048) + 2048 \<le> 2 ^ 64" using u page_room [OF f(3)] by simp
      have xn: "unat (x + of_nat n) = unat x + n" by (rule unat_page_offset [OF x])
      have in_range: "unat (x + of_nat n - (f + 2048)) < 2048 \<longleftrightarrow> x = f \<and> 2048 \<le> n"
      proof
        assume "unat (x + of_nat n - (f + 2048)) < 2048"
        then have l: "unat f + 2048 \<le> unat x + n" "unat x + n < unat f + 4096" using unat_diff_less(1) [OF room, of "x + of_nat n"] u xn by simp_all
        define j where "j = unat x + n - unat f"
        have "j < 4096" "unat x + n = unat f + j" "2048 \<le> j" using l by (auto simp: j_def)
        then show "x = f \<and> 2048 \<le> n" using page_offset_unique [OF x(1) f(3) x(2)] by blast
      next
        assume "x = f \<and> 2048 \<le> n"
        then show "unat (x + of_nat n - (f + 2048)) < 2048" using unat_diff_less(1) [OF room, of "x + of_nat n"] u xn x(2) by simp
      qed
      show ?thesis
      proof (cases "x = f \<and> 2048 \<le> n")
        case True
        have "k + 2048 + (x + of_nat n - (f + 2048)) = k + of_nat n" using True by simp
        then show ?thesis using True in_range f(3) x(2) by (simp add: copy_bytes_def zero_frame_def fill_frame_byte)
      next
        case False
        then show ?thesis using in_range x f(3) by (auto simp: copy_bytes_def zero_frame_def fill_frame_byte)
      qed
    qed
    have e_other: "entry ?m2 x j = entry ?m x j" if "page_aligned x" "x \<noteq> f" "j < 512" for x j
      using that byte by (intro entry_cong) simp_all
    have e_low: "entry ?m2 f j = 0" if "j < 256" for j
    proof -
      have "?m2 (f + 8 * of_nat j + of_nat b) = 0" if "b < 8" for b
        using byte [OF f(3), of "8 * j + b"] \<open>j < 256\<close> that by (simp add: algebra_simps)
      then show ?thesis unfolding entry_def rd64_def
        by (intro bit_word_eqI) (auto simp: bit_from_le_bytes)
    qed
    have e_high: "entry ?m2 f j = entry ?m k j" if "256 \<le> j" "j < 512" "\<not> is_free ?s k" for j
    proof -
      have "k \<noteq> f" using that(3) f(2) by auto
      then have "?m1 (k + of_nat n) = ?m (k + of_nat n)" if "n < 4096" for n
        using that k f(3) by (simp add: zero_frame_def fill_frame_byte)
      from this [of "8 * j + b" for b] have m1: "b < 8 \<Longrightarrow> ?m1 (k + of_nat (8 * j + b)) = ?m (k + of_nat (8 * j + b))" for b
        using \<open>j < 512\<close> by simp
      have "?m2 (f + 8 * of_nat j + of_nat b) = ?m (k + 8 * of_nat j + of_nat b)" if "b < 8" for b
        using byte [OF f(3), of "8 * j + b"] \<open>256 \<le> j\<close> \<open>j < 512\<close> that m1 [of b] by (simp add: algebra_simps)
      then show ?thesis unfolding entry_def rd64_def by (intro arg_cong [of _ _ from_le_bytes]) simp
    qed
    have old: "page_aligned x \<and> x \<noteq> f" if "x \<in> set (all_tables ?m ps)" for x
      using spaces_okD(3) [OF ok that] f(2) by (auto simp: managed_def)
    have others: "entry ?m2 x j = entry ?m x j" if "x \<in> set (all_tables ?m ps)" "j < 512" for x j
      using old [OF that(1)] that(2) by (intro e_other) simp_all
    have emp: "empty_space ?m2 f" using e_low by (simp add: empty_space_def)
    note t4 = empty_space_4 [OF 2(3) emp]
    have h: "holders s1 x = (if x = f then 1 else holders ?s x)" if "managed ?s x" for x using 2(2) that by (simp add: granted_def)
    have mg: "managed s1 = managed ?s" using 2(2) by (rule granted_managed)
    have "droppable (f # all_tables ?m ps) (all_leaves ?m ps) s1"
    proof -
      have "managed ?s x \<and> holders s1 x = 1" if "x \<in> set (f # all_tables ?m ps)" for x
        using that f(1) h [of x] spaces_okD(3) [OF ok, of x] by auto
      moreover have "managed ?s x \<and> count_list (all_leaves ?m ps) x \<le> holders s1 x \<and> x \<notin> set (f # all_tables ?m ps)"
        if "x \<in> set (all_leaves ?m ps)" for x
        using spaces_okD(4) [OF ok that] h [of x] f(2) by auto
      moreover have "pmm_inv s1" using 2(2) by (simp add: granted_def)
      moreover have "distinct (f # all_tables ?m ps)" using spaces_okD(2) [OF ok] old by auto
      ultimately show ?thesis unfolding droppable_def mg by blast
    qed
    then have "spaces_ok (p # ps) v'"
      using spaces_okD(5) [OF ok] same_spaces(3,4) [of ?m ps ?m2, OF others] 2(3) t4 unfolding spaces_ok_def p by simp
    then show ?thesis using emp e_high same_spaces(1) [of ?m ps ?m2, OF others] by (simp add: p)
  qed
qed

end
