(* ===== verification/Paging.thy ===== *)
theory Paging
  imports Copy_On_Write
begin

text \<open>
  The contract of the paging crate's mapper, as its documentation states it over the trees of page tables, and a
  reference mapper that satisfies it.
\<close>

subsection \<open>Changing one subtree\<close>

lemma subtree_change:
  assumes i: "i < width (Suc k)" and t: "t = pte_addr e"
    and same: "\<And>j. j < width (Suc k) \<Longrightarrow> j \<noteq> i \<Longrightarrow> entry m' t j = entry m t j"
    and below: "\<And>x j. x \<in> set (tables_at k m t ([0..<i] @ [Suc i..<width (Suc k)])) \<Longrightarrow> j < 512 \<Longrightarrow> entry m' x j = entry m x j"
  shows "mset (tables (Suc k) m' e) + mset (tables_at k m t [i]) = mset (tables (Suc k) m e) + mset (tables_at k m' t [i])"
    "mset (mapped (Suc k) m' e) + mset (mapped_at k m t [i]) = mset (mapped (Suc k) m e) + mset (mapped_at k m' t [i])"
proof -
  let ?l = "[0..<i]" and ?r = "[Suc i..<width (Suc k)]"
  have s: "tables_at k m' t (?l @ ?r) = tables_at k m t (?l @ ?r)" "mapped_at k m' t (?l @ ?r) = mapped_at k m t (?l @ ?r)"
  proof -
    have "entry m' t j = entry m t j" if "j \<in> set (?l @ ?r)" for j using that i by (intro same) auto
    then show "tables_at k m' t (?l @ ?r) = tables_at k m t (?l @ ?r)" "mapped_at k m' t (?l @ ?r) = mapped_at k m t (?l @ ?r)"
      using same_at [of k m t "?l @ ?r" m'] below by auto
  qed
  have split: "mset (tables (Suc k) n e) = mset (tables_at k n t (?l @ ?r)) + mset (tables_at k n t [i]) + {#t#}"
    "mset (mapped (Suc k) n e) = mset (mapped_at k n t (?l @ ?r)) + mset (mapped_at k n t [i])" for n
    unfolding tables_Suc mapped_Suc upt_split [OF i] at_append at_Cons(1,2) [of k _ _ i ?r] by (simp_all add: t)
  show "mset (tables (Suc k) m' e) + mset (tables_at k m t [i]) = mset (tables (Suc k) m e) + mset (tables_at k m' t [i])"
    "mset (mapped (Suc k) m' e) + mset (mapped_at k m t [i]) = mset (mapped (Suc k) m e) + mset (mapped_at k m' t [i])"
    unfolding split s by simp_all
qed

lemma tables_split:
  assumes "i < width (Suc k)" "t = pte_addr e"
  shows "mset (tables (Suc k) m e) = mset (tables_at k m t ([0..<i] @ [Suc i..<width (Suc k)])) + mset (tables_at k m t [i]) + {#t#}"
  unfolding tables_Suc upt_split [OF assms(1)] at_append at_Cons(2) [of k _ _ i "[Suc i..<width (Suc k)]"] by (simp add: assms(2))

subsection \<open>A reference mapper\<close>

definition next_table :: "(vmem, unit, u64 option) op \<Rightarrow> u64 \<Rightarrow> u64 \<Rightarrow> nat \<Rightarrow> (vmem, unit, u64) op" where
  "next_table alloc flags t i = (\<lambda>v. let e = entry (vm_mem v) t i in
     if \<not> pte_present e then
       sbind alloc (\<lambda>r. case r of None \<Rightarrow> sfail ()
         | Some f \<Rightarrow> sbind (mem_modify (set_entry t i (f OR flags))) (\<lambda>_. sreturn f)) v
     else if pte_huge e then sfail () v
     else sbind (mem_modify (set_entry t i (e OR flags))) (\<lambda>_. sreturn (pte_addr e)) v)"

fun map_path :: "(vmem, unit, u64 option) op \<Rightarrow> u64 \<Rightarrow> u64 \<Rightarrow> nat list \<Rightarrow> u64 \<Rightarrow> (vmem, unit, unit) op" where
  "map_path alloc flags leaf [] t = sfail ()"
| "map_path alloc flags leaf [i] t = (\<lambda>v. if pte_present (entry (vm_mem v) t i) then sfail () v else mem_modify (set_entry t i leaf) v)"
| "map_path alloc flags leaf (i # is) t = sbind (next_table alloc flags t i) (map_path alloc flags leaf is)"

definition reference_map_to :: "(vmem, unit, u64 option) op \<Rightarrow> u64 \<Rightarrow> u64 \<Rightarrow> u64 \<Rightarrow> u64 \<Rightarrow> (vmem, unit, unit) op" where
  "reference_map_to alloc pml4 page frame flags = map_path alloc (flags AND 7) (frame OR flags) (path_of page) pml4"

definition reference_unmap :: "u64 \<Rightarrow> u64 \<Rightarrow> (vmem, unit, u64) op" where
  "reference_unmap pml4 page = (\<lambda>v. case walk_page_table_to_pte (vm_mem v) pml4 page of None \<Rightarrow> sfail () v
     | Some (t, i) \<Rightarrow> sbind (mem_modify (set_entry t i 0)) (\<lambda>_. sreturn (pte_addr (entry (vm_mem v) t i))) v)"

definition reference_translate :: "phys_mem \<Rightarrow> u64 \<Rightarrow> u64 \<Rightarrow> u64 option" where
  "reference_translate m pml4 page = map_option (\<lambda>(t, i). pte_addr (entry m t i)) (walk_page_table_to_pte m pml4 page)"

definition reference_virt :: "u64 \<Rightarrow> u64 or_panic" where
  "reference_virt a = (if drop_bit 47 a = 0 \<or> drop_bit 47 a = 0x1FFFF then Inr a else Inl (Panic ''address passed to VirtAddr::new must be canonical''))"

definition reference_mapper :: mapper where
  "reference_mapper = \<lparr>map_to = reference_map_to, unmap = reference_unmap, translate_page = reference_translate, virt_addr_new = reference_virt\<rparr>"

text \<open>
  The effect of mapping within a tree: the frames \<open>N\<close> became tables of it, at most one for each level below the root, and
  only its tables changed; a new mapping appears only on success, for a path that was not mapped.
\<close>

definition no_huge :: "nat \<Rightarrow> phys_mem \<Rightarrow> u64 \<Rightarrow> bool" where
  "no_huge k m e \<longleftrightarrow> (\<forall>t \<in> set (tables k m e). \<forall>i < 512. pte_present (entry m t i) \<longrightarrow> \<not> pte_huge (entry m t i))"

definition map_result :: "nat \<Rightarrow> u64 \<Rightarrow> nat list \<Rightarrow> u64 \<Rightarrow> phys_mem \<Rightarrow> phys_mem \<Rightarrow> pmm \<Rightarrow> (unit, unit) outcome \<Rightarrow> bool" where
  "map_result k e path leaf m m' s' x \<longleftrightarrow>
     (case x of
        Inr _ \<Rightarrow> path \<notin> fst ` set (mapped k m e) \<and> mset (mapped k m' e) = add_mset (path, leaf) (mset (mapped k m e))
      | Inl (Err _) \<Rightarrow> mset (mapped k m' e) = mset (mapped k m e) \<and>
          (path \<in> fst ` set (mapped k m e) \<or> \<not> no_huge k m e \<or> free_set s' = {})
      | Inl (Crash _) \<Rightarrow> False)"

definition map_effect :: "nat \<Rightarrow> u64 \<Rightarrow> nat list \<Rightarrow> u64 \<Rightarrow> vmem \<Rightarrow> (unit, unit) outcome \<times> vmem \<Rightarrow> bool" where
  "map_effect k e path leaf v r \<longleftrightarrow> (\<exists>m' s' N. snd r = v\<lparr>vm_mem := m', vm_pmm := s'\<rparr> \<and>
     granted N [] (vm_pmm v) s' \<and> length N < k \<and>
     mset (tables k m' e) = mset (tables k (vm_mem v) e) + mset N \<and>
     (\<forall>x n. page_aligned x \<and> n < 4096 \<and> x \<notin> set (tables k (vm_mem v) e) \<and> x \<notin> set N \<longrightarrow>
        m' (x + of_nat n) = vm_mem v (x + of_nat n)) \<and>
     (\<forall>j < 512. width k \<le> j \<longrightarrow> entry m' (pte_addr e) j = entry (vm_mem v) (pte_addr e) j) \<and>
     (no_huge k (vm_mem v) e \<and> \<not> pte_huge leaf \<longrightarrow> no_huge k m' e) \<and>
     map_result k e path leaf (vm_mem v) m' s' (fst r))"

definition tree_ok :: "nat \<Rightarrow> phys_mem \<Rightarrow> u64 \<Rightarrow> pmm \<Rightarrow> bool" where
  "tree_ok k m e s \<longleftrightarrow> pmm_inv s \<and> distinct (tables k m e) \<and> (\<forall>x \<in> set (tables k m e). managed s x \<and> \<not> is_free s x)"

fun path_ok :: "nat \<Rightarrow> nat list \<Rightarrow> bool" where
  "path_ok 0 path \<longleftrightarrow> path = []"
| "path_ok (Suc k) path \<longleftrightarrow> (case path of [] \<Rightarrow> False | i # is \<Rightarrow> i < width (Suc k) \<and> path_ok k is)"

text \<open>From the table \<open>t\<close>, the walk has descended to the entry \<open>e1\<close> at index \<open>i\<close>, which was made to lead to a table if it did not.\<close>

definition descended :: "nat \<Rightarrow> u64 \<Rightarrow> nat \<Rightarrow> phys_mem \<Rightarrow> pmm \<Rightarrow> u64 list \<Rightarrow> phys_mem \<Rightarrow> pmm \<Rightarrow> u64 \<Rightarrow> bool" where
  "descended k t i m s N1 m1 s1 e1 \<longleftrightarrow> granted N1 [] s s1 \<and> length N1 \<le> 1 \<and> entry m1 t i = e1 \<and> follows (Suc k) e1 \<and> \<not> pte_huge e1 \<and>
     mset (tables k m1 e1) = mset (tables_at k m t [i]) + mset N1 \<and>
     map (apfst (Cons i)) (mapped k m1 e1) = mapped_at k m t [i] \<and>
     (\<forall>j < 512. j \<noteq> i \<longrightarrow> entry m1 t j = entry m t j) \<and>
     (\<forall>x n. page_aligned x \<and> n < 4096 \<and> x \<noteq> t \<and> x \<notin> set N1 \<longrightarrow> m1 (x + of_nat n) = m (x + of_nat n)) \<and>
     (\<forall>x \<in> set N1. \<forall>j < 512. entry m1 x j = 0)"

lemma frame_entries:
  assumes "\<forall>x n. page_aligned x \<and> n < 4096 \<and> P x \<longrightarrow> m' (x + of_nat n) = m (x + of_nat n)" "page_aligned x" "P x" "j < 512"
  shows "entry m' x j = entry m x j"
  using assms by (intro entry_cong) simp_all

lemma map_descend:
  assumes ok: "tree_ok (Suc k) m e s" and m: "vm_mem v = m" "vm_pmm v = s" and i: "i < width (Suc k)"
    and d: "descended k (pte_addr e) i m s N1 m1 s1 e1"
    and r: "map_effect k e1 is leaf (v\<lparr>vm_mem := m1, vm_pmm := s1\<rparr>) r"
  shows "map_effect (Suc k) e (i # is) leaf v r"
proof -
  let ?t = "pte_addr e"
  let ?js = "[0..<i] @ [Suc i..<width (Suc k)]"
  note d' = d [unfolded descended_def]
  have i512: "i < 512" using i width_le [of "Suc k"] by simp
  from r obtain m2 s2 N2 where 2: "snd r = v\<lparr>vm_mem := m2, vm_pmm := s2\<rparr>" "granted N2 [] s1 s2"
      "mset (tables k m2 e1) = mset (tables k m1 e1) + mset N2"
      "\<forall>x n. page_aligned x \<and> n < 4096 \<and> (x \<notin> set (tables k m1 e1) \<and> x \<notin> set N2) \<longrightarrow> m2 (x + of_nat n) = m1 (x + of_nat n)"
      "no_huge k m1 e1 \<and> \<not> pte_huge leaf \<longrightarrow> no_huge k m2 e1"
      "map_result k e1 is leaf m1 m2 s2 (fst r)" "length N2 < k"
    unfolding map_effect_def by auto
  have g: "granted (N1 @ N2) [] s s2" using granted_append [of N1 "[]" s s1 N2 "[]" s2] d' 2(2) by simp
  have split: "mset (tables (Suc k) m e) = mset (tables_at k m ?t ?js) + mset (tables_at k m ?t [i]) + {#?t#}"
    using i by (rule tables_split) simp
  have dist: "distinct (tables_at k m ?t ?js @ tables_at k m ?t [i] @ [?t])" "set (tables (Suc k) m e) = set (tables_at k m ?t ?js @ tables_at k m ?t [i] @ [?t])"
  proof -
    have "mset (tables (Suc k) m e) = mset (tables_at k m ?t ?js @ tables_at k m ?t [i] @ [?t])" using split by simp
    note eq = this
    show "distinct (tables_at k m ?t ?js @ tables_at k m ?t [i] @ [?t])" using ok mset_eq_imp_distinct_iff [OF eq] by (simp add: tree_ok_def)
    show "set (tables (Suc k) m e) = set (tables_at k m ?t ?js @ tables_at k m ?t [i] @ [?t])" by (rule mset_eq_setD [OF eq])
  qed
  have old: "page_aligned x" "x \<notin> set (N1 @ N2)" if "x \<in> set (tables (Suc k) m e)" for x
    using ok g that by (auto simp: tree_ok_def managed_def granted_def)
  have sub: "set (tables k m1 e1) = set (tables_at k m ?t [i]) \<union> set N1"
  proof -
    have "mset (tables k m1 e1) = mset (tables_at k m ?t [i] @ N1)" using d' by simp
    from mset_eq_setD [OF this] show ?thesis by simp
  qed
  have e2: "entry m2 x j = entry m1 x j" if "x \<in> set (tables_at k m ?t ?js @ [?t])" "j < 512" for x j
  proof (rule frame_entries [OF 2(4)])
    show "x \<notin> set (tables k m1 e1) \<and> x \<notin> set N2" using that(1) dist sub old(2) [of x] by auto
  qed (use that old(1) [of x] dist(2) in auto)
  have e1: "entry m1 x j = entry m x j" if "x \<in> set (tables_at k m ?t ?js)" "j < 512" for x j
  proof (rule frame_entries [where P = "\<lambda>x. x \<noteq> ?t \<and> x \<notin> set N1"])
    show "\<forall>x n. page_aligned x \<and> n < 4096 \<and> x \<noteq> ?t \<and> x \<notin> set N1 \<longrightarrow> m1 (x + of_nat n) = m (x + of_nat n)" using d' by simp
    show "x \<noteq> ?t \<and> x \<notin> set N1" using that(1) dist old(2) [of x] by auto
  qed (use that old(1) [of x] dist(2) in auto)
  have ti: "entry m2 ?t i = e1" using e2 [of ?t i] i512 d' by simp
  have tj: "entry m2 ?t j = entry m ?t j" if "j < 512" "j \<noteq> i" for j using e2 [of ?t j] that d' by simp
  have tables2: "tables_at k m2 ?t [i] = tables k m2 e1" "mapped_at k m2 ?t [i] = map (apfst (Cons i)) (mapped k m2 e1)"
    using d' ti by (simp_all add: at_one)
  have change: "mset (tables (Suc k) m2 e) + mset (tables_at k m ?t [i]) = mset (tables (Suc k) m e) + mset (tables_at k m2 ?t [i])"
    "mset (mapped (Suc k) m2 e) + mset (mapped_at k m ?t [i]) = mset (mapped (Suc k) m e) + mset (mapped_at k m2 ?t [i])"
  proof -
    have a: "entry m2 ?t j = entry m ?t j" if "j < width (Suc k)" "j \<noteq> i" for j using tj that width_le [of "Suc k"] by simp
    have b: "entry m2 x j = entry m x j" if "x \<in> set (tables_at k m ?t ?js)" "j < 512" for x j using e1 e2 that by simp
    show "mset (tables (Suc k) m2 e) + mset (tables_at k m ?t [i]) = mset (tables (Suc k) m e) + mset (tables_at k m2 ?t [i])"
      by (rule subtree_change(1) [OF i refl a b])
    show "mset (mapped (Suc k) m2 e) + mset (mapped_at k m ?t [i]) = mset (mapped (Suc k) m e) + mset (mapped_at k m2 ?t [i])"
      by (rule subtree_change(2) [OF i refl a b])
  qed
  have T: "mset (tables (Suc k) m2 e) = mset (tables (Suc k) m e) + mset (N1 @ N2)"
    using change(1) 2(3) d' by (simp add: tables2)
  have mi: "mapped_at k m ?t [i] = map (apfst (Cons i)) (mapped k m1 e1)" using d' by simp
  have bytes: "\<forall>x n. page_aligned x \<and> n < 4096 \<and> x \<notin> set (tables (Suc k) m e) \<and> x \<notin> set (N1 @ N2) \<longrightarrow> m2 (x + of_nat n) = m (x + of_nat n)"
  proof (intro allI impI)
    fix x and n :: nat
    assume x: "page_aligned x \<and> n < 4096 \<and> x \<notin> set (tables (Suc k) m e) \<and> x \<notin> set (N1 @ N2)"
    then have "m2 (x + of_nat n) = m1 (x + of_nat n)" using 2(4) dist(2) sub by auto
    also have "\<dots> = m (x + of_nat n)" using d' x dist(2) by auto
    finally show "m2 (x + of_nat n) = m (x + of_nat n)" .
  qed
  have huge1: "no_huge k m1 e1" if "no_huge (Suc k) m e"
    unfolding no_huge_def
  proof (intro ballI allI impI)
    fix x j
    assume x: "x \<in> set (tables k m1 e1)" "j < 512" "pte_present (entry m1 x j)"
    show "\<not> pte_huge (entry m1 x j)"
    proof (cases "x \<in> set N1")
      case True
      then have "entry m1 x j = 0" using d' x(2) by simp
      then show ?thesis using x(3) by (simp add: pte_present_def)
    next
      case False
      then have x': "x \<in> set (tables_at k m ?t [i])" using x(1) sub by auto
      have "entry m1 x j = entry m x j"
      proof (rule frame_entries [where P = "\<lambda>x. x \<noteq> ?t \<and> x \<notin> set N1"])
        show "\<forall>x n. page_aligned x \<and> n < 4096 \<and> x \<noteq> ?t \<and> x \<notin> set N1 \<longrightarrow> m1 (x + of_nat n) = m (x + of_nat n)" using d' by simp
        show "x \<noteq> ?t \<and> x \<notin> set N1" using x' False dist by auto
      qed (use x(2) x' old(1) [of x] dist(2) in auto)
      then show ?thesis using that x x' dist(2) by (auto simp: no_huge_def)
    qed
  qed
  have huge: "no_huge (Suc k) m2 e" if nh: "no_huge (Suc k) m e \<and> \<not> pte_huge leaf"
    unfolding no_huge_def
  proof (intro ballI allI impI)
    fix x j
    assume x: "x \<in> set (tables (Suc k) m2 e)" "j < 512" "pte_present (entry m2 x j)"
    have "mset (tables (Suc k) m2 e) = mset (tables_at k m ?t ?js @ tables k m2 e1 @ [?t])" using T split 2(3) d' by simp
    from mset_eq_setD [OF this] x(1) have "x \<in> set (tables_at k m ?t ?js @ tables k m2 e1 @ [?t])" by simp
    then consider "x \<in> set (tables_at k m ?t ?js)" | "x \<in> set (tables k m2 e1)" | "x = ?t" by auto
    then show "\<not> pte_huge (entry m2 x j)"
    proof cases
      case 1
      then have "entry m2 x j = entry m x j" using e1 e2 x(2) by simp
      then show ?thesis using 1 nh x dist(2) by (auto simp: no_huge_def)
    next
      case 2
      then show ?thesis using \<open>no_huge k m1 e1 \<and> \<not> pte_huge leaf \<longrightarrow> no_huge k m2 e1\<close> huge1 nh x by (auto simp: no_huge_def)
    next
      case 3
      then show ?thesis using ti tj [OF x(2)] nh x d' dist(2) by (cases "j = i") (auto simp: no_huge_def)
    qed
  qed
  have path: "i # is \<in> fst ` set (mapped (Suc k) m e) \<longleftrightarrow> is \<in> fst ` set (mapped k m1 e1)"
  proof -
    have "set (mapped (Suc k) m e) = set (mapped_at k m ?t ?js) \<union> set (mapped_at k m ?t [i])"
      unfolding mapped_Suc upt_split [OF i] at_append at_Cons(1) [of k _ _ i "[Suc i..<width (Suc k)]"] by auto
    moreover have "i # is \<notin> fst ` set (mapped_at k m ?t ?js)" using mapped_at_path [of _ k m ?t ?js] by fastforce
    moreover have "fst ` set (mapped_at k m ?t [i]) = Cons i ` fst ` set (mapped k m1 e1)" unfolding mi by (simp add: image_image)
    ultimately show ?thesis by (simp add: image_Un inj_image_mem_iff)
  qed
  have res: "map_result (Suc k) e (i # is) leaf m m2 s2 (fst r)"
    using 2(6) change(2) path huge1 unfolding map_result_def tables2 mi by (auto split: sum.splits fault.splits)
  show ?thesis unfolding map_effect_def m
  proof (intro exI conjI)
    show "snd r = v\<lparr>vm_mem := m2, vm_pmm := s2\<rparr>" by (rule 2(1))
    show "granted (N1 @ N2) [] s s2" by (rule g)
    show "length (N1 @ N2) < Suc k" using 2(7) d' by simp
    show "mset (tables (Suc k) m2 e) = mset (tables (Suc k) m e) + mset (N1 @ N2)" by (rule T)
    show "\<forall>j < 512. width (Suc k) \<le> j \<longrightarrow> entry m2 ?t j = entry m ?t j" using tj i by auto
  qed (use bytes huge res in blast)+
qed

lemma tables_target: "pte_addr e = pte_addr e' \<Longrightarrow> tables (Suc k) m e = tables (Suc k) m e'"
  "pte_addr e = pte_addr e' \<Longrightarrow> mapped (Suc k) m e = mapped (Suc k) m e'"
  by (simp_all add: tables_Suc mapped_Suc)

lemma tables_at_0 [simp]: "tables_at 0 m t is = []"
  by (auto simp: tables_at_def Let_def)

lemma map_leaf:
  assumes ok: "tree_ok 1 (vm_mem v) e (vm_pmm v)" and i: "i < width 1" and leaf: "follows 1 leaf"
  shows "map_effect 1 e [i] leaf v (map_path alloc fl leaf [i] (pte_addr e) v)"
proof -
  let ?m = "vm_mem v" and ?t = "pte_addr e"
  have i512: "i < 512" using i width_le [of 1] by simp
  have g: "granted [] [] (vm_pmm v) (vm_pmm v)" using ok by (intro granted_Nil) (simp add: tree_ok_def)
  have t: "tables (Suc 0) n e = [?t]" for n by (simp add: tables_Suc)
  have mp: "[i] \<in> fst ` set (mapped 1 ?m e) \<longleftrightarrow> pte_present (entry ?m ?t i)"
    using i by (force simp: mapped_at_def mapped_Suc [of 0, simplified] follows_def Let_def split: if_splits)
  show ?thesis
  proof (cases "pte_present (entry ?m ?t i)")
    case True
    then show ?thesis unfolding map_effect_def
      using g mp by (intro exI [of _ ?m] exI [of _ "vm_pmm v"] exI [of _ "[]"]) (simp add: map_result_def sfail_def)
  next
    case False
    let ?m' = "set_entry ?t i leaf ?m"
    have e': "entry ?m' x j = (if x = ?t \<and> j = i then leaf else entry ?m x j)" if "page_aligned x" "j < 512" for x j
      using that i512 by (simp add: entry_set_entry)
    have "mset (mapped 1 ?m' e) + mset (mapped_at 0 ?m ?t [i]) = mset (mapped 1 ?m e) + mset (mapped_at 0 ?m' ?t [i])"
    proof -
      have "mset (mapped (Suc 0) ?m' e) + mset (mapped_at 0 ?m ?t [i]) = mset (mapped (Suc 0) ?m e) + mset (mapped_at 0 ?m' ?t [i])"
        using e' i width_le [of 1] by (intro subtree_change(2)) simp_all
      then show ?thesis by simp
    qed
    moreover have "mapped_at 0 ?m ?t [i] = []" "mapped_at 0 ?m' ?t [i] = [([i], leaf)]"
      using False leaf i512 e' by (simp_all add: at_one follows_def)
    ultimately have "map_result 1 e [i] leaf ?m ?m' (vm_pmm v) (Inr ())" using mp False by (simp add: map_result_def)
    moreover have "no_huge 1 ?m' e" if "no_huge 1 ?m e \<and> \<not> pte_huge leaf"
      using that e' [of ?t] by (auto simp: no_huge_def t)
    moreover have "?m' (x + of_nat n) = ?m (x + of_nat n)" if "page_aligned x" "n < 4096" "x \<noteq> ?t" for x n
      using that i512 by (simp add: set_entry_byte)
    ultimately show ?thesis unfolding map_effect_def
      using g False e' i by (intro exI [of _ ?m'] exI [of _ "vm_pmm v"] exI [of _ "[]"]) (auto simp: t mem_modify_def)
  qed
qed

lemma allocate_frame_eq:
  "allocate_frame v = (case alloc_frame (vm_pmm v) of
     Inl p \<Rightarrow> (Inl (Crash p), v)
   | Inr (None, s) \<Rightarrow> (Inr None, v\<lparr>vm_pmm := s\<rparr>)
   | Inr (Some f, s) \<Rightarrow> (Inr (Some f), v\<lparr>vm_mem := zero_frame f (vm_mem v), vm_pmm := s\<rparr>))"
  by (auto simp: allocate_frame_def sbind_def pmm_alloc_def sreturn_def mem_modify_def update_order split: sum.splits option.splits)

lemma or_flags:
  assumes "pte_addr fl = 0" "pte_present fl" "\<not> pte_huge fl"
  shows "pte_addr (e OR fl) = pte_addr e" "pte_present (e OR fl)" "pte_huge (e OR fl) = pte_huge e"
  using assms by (simp_all add: pte_present_def pte_huge_def bit_or_iff)

text \<open>An entry that leads to a table keeps leading to it, and an empty one leads to a new, empty table.\<close>

lemma descend_existing:
  assumes ok: "tree_ok (Suc (Suc k)) (vm_mem v) e (vm_pmm v)" and i: "i < width (Suc (Suc k))"
    and fl: "pte_addr fl = 0" "pte_present fl" "\<not> pte_huge fl"
    and e0: "e0 = entry (vm_mem v) (pte_addr e) i" "pte_present e0" "\<not> pte_huge e0"
  shows "descended (Suc k) (pte_addr e) i (vm_mem v) (vm_pmm v) [] (set_entry (pte_addr e) i (e0 OR fl) (vm_mem v)) (vm_pmm v) (e0 OR fl)"
proof -
  let ?t = "pte_addr e" and ?m = "vm_mem v"
  let ?m1 = "set_entry ?t i (e0 OR fl) ?m" and ?js = "[0..<i] @ [Suc i..<width (Suc (Suc k))]"
  have i512: "i < 512" using i width_le [of "Suc (Suc k)"] by simp
  have f0: "follows (Suc (Suc k)) e0" using e0 by (simp add: follows_def)
  note of = or_flags [OF fl, of e0]
  have e1: "entry ?m1 x j = (if x = ?t \<and> j = i then e0 OR fl else entry ?m x j)" if "page_aligned x" "j < 512" for x j
    using that i512 by (simp add: entry_set_entry)
  have split: "mset (tables (Suc (Suc k)) ?m e) = mset (tables_at (Suc k) ?m ?t ?js) + mset (tables_at (Suc k) ?m ?t [i]) + {#?t#}"
    using i by (rule tables_split) simp
  have at: "tables_at (Suc k) ?m ?t [i] = tables (Suc k) ?m e0" "mapped_at (Suc k) ?m ?t [i] = map (apfst (Cons i)) (mapped (Suc k) ?m e0)"
    using f0 e0(1) by (simp_all add: at_one)
  have nt: "x \<noteq> ?t" "page_aligned x" if "x \<in> set (tables (Suc k) ?m e0)" for x
  proof -
    have eq: "mset (tables (Suc (Suc k)) ?m e) = mset (tables_at (Suc k) ?m ?t ?js @ tables (Suc k) ?m e0 @ [?t])" using split at by simp
    have "distinct (tables_at (Suc k) ?m ?t ?js @ tables (Suc k) ?m e0 @ [?t])"
      using ok mset_eq_imp_distinct_iff [OF eq] by (simp add: tree_ok_def)
    then show "x \<noteq> ?t" using that by auto
    show "page_aligned x" using tables_aligned [OF that] .
  qed
  have "tables (Suc k) ?m1 e0 = tables (Suc k) ?m e0" "mapped (Suc k) ?m1 e0 = mapped (Suc k) ?m e0"
    using nt e1 by (intro same_tree; simp)+
  then have tree: "tables (Suc k) ?m1 (e0 OR fl) = tables (Suc k) ?m e0" "mapped (Suc k) ?m1 (e0 OR fl) = mapped (Suc k) ?m e0"
    using tables_target [OF of(1), of k ?m1] by simp_all
  show ?thesis unfolding descended_def
    using ok granted_Nil e1 i512 of e0 tree at
    by (auto simp: tree_ok_def follows_def set_entry_byte)
qed

lemma descend_new:
  assumes ok: "tree_ok (Suc (Suc k)) (vm_mem v) e (vm_pmm v)" and i: "i < width (Suc (Suc k))"
    and fl: "pte_addr fl = 0" "pte_present fl" "\<not> pte_huge fl"
    and e0: "\<not> pte_present (entry (vm_mem v) (pte_addr e) i)"
    and f: "granted [f] [] (vm_pmm v) s1" "pte_addr f = f"
  shows "descended (Suc k) (pte_addr e) i (vm_mem v) (vm_pmm v) [f]
    (set_entry (pte_addr e) i (f OR fl) (zero_frame f (vm_mem v))) s1 (f OR fl)"
proof -
  let ?t = "pte_addr e" and ?m = "vm_mem v"
  let ?m1 = "set_entry ?t i (f OR fl) (zero_frame f ?m)"
  have i512: "i < 512" using i width_le [of "Suc (Suc k)"] by simp
  have free: "managed (vm_pmm v) f" "is_free (vm_pmm v) f" "page_aligned f" using f(1) by (simp_all add: granted_def managed_def)
  have "?t \<in> set (tables (Suc (Suc k)) ?m e)" by (simp add: tables_Suc)
  then have ft: "f \<noteq> ?t" using ok free(2) by (auto simp: tree_ok_def)
  have m1: "?m1 = set_entry ?t i (f OR fl) (zero_frame f ?m)" by (rule refl)
  note link = child_table_link [OF free(3) page_aligned_pte_addr ft i512 m1]
  have nh: "\<not> pte_huge f" using arg_cong [OF f(2), of "\<lambda>w. bit w 7"] by (simp add: bit_pte_addr pte_huge_def)
  note of = or_flags [OF fl, of f]
  have z: "entry ?m1 f j = 0" if "j < 512" for j using link(1) [OF free(3) that] ft by simp
  have "tables_at k ?m1 f [0..<width (Suc k)] = []" "mapped_at k ?m1 f [0..<width (Suc k)] = []"
    using z width_le [of "Suc k"] by (intro empty_at; simp)+
  then have tree: "tables (Suc k) ?m1 (f OR fl) = [f]" "mapped (Suc k) ?m1 (f OR fl) = []"
    using of(1) f(2) by (simp_all add: tables_Suc mapped_Suc)
  have at: "tables_at (Suc k) ?m ?t [i] = []" "mapped_at (Suc k) ?m ?t [i] = []" using e0 by (simp_all add: at_one follows_def)
  have "entry ?m1 ?t i = f OR fl" "\<forall>j < 512. j \<noteq> i \<longrightarrow> entry ?m1 ?t j = entry ?m ?t j" using link(1) i512 ft by simp_all
  moreover have "follows (Suc (Suc k)) (f OR fl)" "\<not> pte_huge (f OR fl)" using of nh by (simp_all add: follows_def)
  moreover have "\<forall>x n. page_aligned x \<and> n < 4096 \<and> x \<noteq> ?t \<and> x \<notin> set [f] \<longrightarrow> ?m1 (x + of_nat n) = ?m (x + of_nat n)"
    using link(2) by auto
  ultimately show ?thesis unfolding descended_def using f(1) z tree at by simp
qed

lemma descended_tree_ok:
  assumes ok: "tree_ok (Suc k) m e s" and i: "i < width (Suc k)" and d: "descended k (pte_addr e) i m s N m1 s1 e1"
  shows "tree_ok k m1 e1 s1"
proof -
  have g: "granted N [] s s1" and t: "mset (tables k m1 e1) = mset (tables_at k m (pte_addr e) [i] @ N)"
    using d by (simp_all add: descended_def)
  have split: "mset (tables (Suc k) m e) = mset (tables_at k m (pte_addr e) ([0..<i] @ [Suc i..<width (Suc k)]) @ tables_at k m (pte_addr e) [i] @ [pte_addr e])"
    using tables_split [OF i refl] by simp
  have sub: "distinct (tables_at k m (pte_addr e) [i])" "x \<in> set (tables_at k m (pte_addr e) [i]) \<Longrightarrow> managed s x \<and> \<not> is_free s x" for x
    using ok mset_eq_imp_distinct_iff [OF split] mset_eq_setD [OF split] by (auto simp: tree_ok_def)
  have N: "distinct N" "x \<in> set N \<Longrightarrow> managed s x \<and> is_free s x" for x using g by (simp_all add: granted_def)
  have "distinct (tables_at k m (pte_addr e) [i] @ N)" using sub N by auto
  moreover have "managed s1 x \<and> \<not> is_free s1 x" if "x \<in> set (tables_at k m (pte_addr e) [i] @ N)" for x
  proof -
    have "managed s x" using that sub(2) [of x] N(2) [of x] by auto
    moreover from this have "is_free s1 x \<longleftrightarrow> is_free s x \<and> x \<notin> set N" using g by (simp add: granted_def)
    ultimately show ?thesis using that sub(2) [of x] granted_managed [OF g] by auto
  qed
  ultimately show ?thesis using g mset_eq_imp_distinct_iff [OF t] mset_eq_setD [OF t] by (simp add: tree_ok_def granted_def)
qed

lemma map_path_effect:
  assumes fl: "pte_addr fl = 0" "pte_present fl" "\<not> pte_huge fl" and leaf: "follows 1 leaf"
  shows "tree_ok (Suc k) (vm_mem v) e (vm_pmm v) \<Longrightarrow> path_ok (Suc k) path \<Longrightarrow>
    map_effect (Suc k) e path leaf v (map_path allocate_frame fl leaf path (pte_addr e) v)"
proof (induction k arbitrary: v e path)
  case 0
  then obtain i where "path = [i]" "i < width 1" by (auto split: list.splits)
  then show ?case using map_leaf [OF _ _ leaf, of v e i allocate_frame fl] 0(1) by simp
next
  case (Suc k)
  let ?t = "pte_addr e" and ?m = "vm_mem v" and ?s = "vm_pmm v"
  obtain i js where path: "path = i # js" "i < width (Suc (Suc k))" "path_ok (Suc k) js" using Suc.prems(2) by (auto split: list.splits)
  then obtain j js' where js: "js = j # js'" by (auto split: list.splits)
  have run: "map_path allocate_frame fl leaf path ?t = sbind (next_table allocate_frame fl ?t i) (map_path allocate_frame fl leaf js)"
    by (simp add: path js)
  have down: "map_effect (Suc (Suc k)) e path leaf v (map_path allocate_frame fl leaf path ?t v)"
    if d: "descended (Suc k) ?t i ?m ?s N m1 s1 e1"
      and n: "next_table allocate_frame fl ?t i v = (Inr (pte_addr e1), v\<lparr>vm_mem := m1, vm_pmm := s1\<rparr>)" for N m1 s1 e1
  proof -
    let ?v = "v\<lparr>vm_mem := m1, vm_pmm := s1\<rparr>"
    have "tree_ok (Suc k) (vm_mem ?v) e1 (vm_pmm ?v)" using descended_tree_ok [OF Suc.prems(1) path(2) d] by simp
    from Suc.IH [OF this path(3)]
    have "map_effect (Suc k) e1 js leaf ?v (map_path allocate_frame fl leaf js (pte_addr e1) ?v)" .
    from map_descend [OF Suc.prems(1) refl refl path(2) d this]
    have "map_effect (Suc (Suc k)) e path leaf v (map_path allocate_frame fl leaf js (pte_addr e1) ?v)" unfolding path(1) .
    moreover have "map_path allocate_frame fl leaf path ?t v = map_path allocate_frame fl leaf js (pte_addr e1) ?v"
      unfolding run using n by (rule sbind_value)
    ultimately show ?thesis by (simp only:)
  qed
  have stop: "map_effect (Suc (Suc k)) e path leaf v (map_path allocate_frame fl leaf path ?t v)"
    if n: "next_table allocate_frame fl ?t i v = (Inl (Err ()), v)" and c: "\<not> no_huge (Suc (Suc k)) ?m e \<or> free_set ?s = {}"
    unfolding map_effect_def run
    using n c granted_Nil [of ?s] Suc.prems(1)
    by (intro exI [of _ ?m] exI [of _ ?s] exI [of _ "[]"]) (simp add: op_simps tree_ok_def map_result_def)
  let ?e0 = "entry ?m ?t i"
  show ?case
  proof (cases "pte_present ?e0")
    case True
    show ?thesis
    proof (cases "pte_huge ?e0")
      case huge: True
      have "i < 512" using path(2) width_le [of "Suc (Suc k)"] by simp
      moreover have "?t \<in> set (tables (Suc (Suc k)) ?m e)" by (simp add: tables_Suc)
      ultimately have "\<not> no_huge (Suc (Suc k)) ?m e" using True huge unfolding no_huge_def by blast
      then show ?thesis using True huge by (intro stop) (simp_all add: next_table_def sfail_def)
    next
      case False
      have "next_table allocate_frame fl ?t i v = (Inr (pte_addr (?e0 OR fl)), v\<lparr>vm_mem := set_entry ?t i (?e0 OR fl) ?m, vm_pmm := ?s\<rparr>)"
        using True False or_flags(1) [OF fl, of ?e0] by (simp add: next_table_def Let_def sbind_def mem_modify_def sreturn_def)
      then show ?thesis by (rule down [OF descend_existing [OF Suc.prems(1) path(2) fl refl True False]])
    qed
  next
    case False
    have inv: "pmm_inv ?s" using Suc.prems(1) by (simp add: tree_ok_def)
    from inv show ?thesis
    proof (cases rule: alloc_grants)
      case 1
      then show ?thesis using False
        by (intro stop) (simp_all add: next_table_def Let_def sbind_def allocate_frame_eq sfail_def)
    next
      case (2 f s1)
      have "next_table allocate_frame fl ?t i v = (Inr (pte_addr (f OR fl)), v\<lparr>vm_mem := set_entry ?t i (f OR fl) (zero_frame f ?m), vm_pmm := s1\<rparr>)"
        using False 2(1,3) or_flags(1) [OF fl, of f]
        by (simp add: next_table_def Let_def sbind_def allocate_frame_eq mem_modify_def sreturn_def update_order)
      then show ?thesis by (rule down [OF descend_new [OF Suc.prems(1) path(2) fl False 2(2,3)]])
    qed
  qed
qed

subsection \<open>The mapper's contract\<close>

text \<open>Removing a mapping empties its entry and returns the frame.\<close>

definition unmap_effect :: "u64 \<Rightarrow> nat list \<Rightarrow> vmem \<Rightarrow> (unit, u64) outcome \<times> vmem \<Rightarrow> bool" where
  "unmap_effect p path v r \<longleftrightarrow>
     (case r of
        (Inr f, v') \<Rightarrow> \<exists>e m'. v' = v\<lparr>vm_mem := m'\<rparr> \<and> (path, e) \<in> set (mapped 4 (vm_mem v) p) \<and> f = pte_addr e \<and>
          mapped 4 m' p = filter (\<lambda>x. fst x \<noteq> path) (mapped 4 (vm_mem v) p) \<and> tables 4 m' p = tables 4 (vm_mem v) p \<and>
          (\<forall>x n. page_aligned x \<and> n < 4096 \<and> x \<notin> set (tables 4 (vm_mem v) p) \<longrightarrow> m' (x + of_nat n) = vm_mem v (x + of_nat n)) \<and>
          (\<forall>j < 512. 256 \<le> j \<longrightarrow> entry m' p j = entry (vm_mem v) p j) \<and>
          (no_huge 4 (vm_mem v) p \<longrightarrow> no_huge 4 m' p)
      | (Inl (Err _), v') \<Rightarrow> v' = v \<and> path \<notin> fst ` set (mapped 4 (vm_mem v) p)
      | (Inl (Crash _), _) \<Rightarrow> False)"

definition leaf_flags :: "u64 \<Rightarrow> bool" where
  "leaf_flags fl \<longleftrightarrow> pte_addr fl = 0 \<and> pte_present fl \<and> \<not> pte_huge fl"

text \<open>
  The documented behaviour of the crate on an address space that is in order. \<open>map_to\<close> adds exactly the
  mapping asked for, and tables in frames it took from the allocator; it fails if the page is mapped or lies in a huge page, or no frame
  is left. \<open>unmap\<close> removes exactly the page's mapping; \<open>translate_page\<close> returns the frame mapped at a page.
  Addresses of the lower half are canonical.
\<close>

locale page_mapper =
  fixes mp :: mapper
  assumes map_to_effect: "spaces_ok (p # ps) v \<Longrightarrow> lower_half page \<Longrightarrow> pte_addr f = f \<Longrightarrow> leaf_flags fl \<Longrightarrow>
      map_effect 4 p (path_of page) (f OR fl) v (map_to mp allocate_frame p page f fl v)"
    and unmap_effect: "spaces_ok (p # ps) v \<Longrightarrow> lower_half page \<Longrightarrow> unmap_effect p (path_of page) v (unmap mp p page v)"
    and translate: "pte_addr p = p \<Longrightarrow> lower_half page \<Longrightarrow>
      translate_page mp m p page = map_option pte_addr (map_of (mapped 4 m p) (path_of page))"
    and virt_new: "a < 2 ^ 47 \<Longrightarrow> virt_addr_new mp a = Inr a"

lemma slot_iff: "slot k m e p \<noteq> None \<longleftrightarrow> 0 < k \<and> p \<in> fst ` set (mapped k m e)"
proof (induction k arbitrary: e p)
  case 0
  then show ?case by simp
next
  case (Suc k)
  show ?case
  proof (cases p)
    case Nil
    then show ?thesis using mapped_at_path [of _ k m "pte_addr e" "[0..<width (Suc k)]"] by (fastforce simp: mapped_Suc)
  next
    case (Cons i "is")
    let ?e = "entry m (pte_addr e) i"
    have "p \<in> fst ` set (mapped (Suc k) m e) \<longleftrightarrow> i < width (Suc k) \<and> follows (Suc k) ?e \<and> is \<in> fst ` set (mapped k m ?e)"
      unfolding Cons mapped_Suc mapped_at_def by (force simp: Let_def image_iff split: if_splits)
    then show ?thesis using Suc.IH [of ?e "is"] Cons by (cases "k = 0") (auto simp: Let_def)
  qed
qed

lemma slot_walk:
  assumes "slot 4 m p (path_of virt) = Some (t, i)" "pte_addr p = p"
  shows "walk_page_table_to_pte m p virt = Some (t, i)"
proof -
  have n: "(4 :: nat) = Suc (Suc (Suc (Suc 0)))" by simp
  show ?thesis using assms unfolding n
    by (auto simp: walk_page_table_to_pte_def path_of_def subtable_def follows_def Let_def split: if_splits option.splits)
qed

lemma walk_None:
  assumes "walk_page_table_to_pte m p virt = None" "pte_addr p = p"
  shows "path_of virt \<notin> fst ` set (mapped 4 m p)"
proof
  assume "path_of virt \<in> fst ` set (mapped 4 m p)"
  then have "slot 4 m p (path_of virt) \<noteq> None" unfolding slot_iff by simp
  then obtain t i where "slot 4 m p (path_of virt) = Some (t, i)" by auto
  then show False using slot_walk [OF _ assms(2)] assms(1) by simp
qed

lemma path_ok_path_of: "lower_half virt \<Longrightarrow> path_ok 4 (path_of virt)"
proof -
  have n: "(4 :: nat) = Suc (Suc (Suc (Suc 0)))" by simp
  show "lower_half virt \<Longrightarrow> ?thesis"
    unfolding n by (simp add: path_of_def lower_half_def width_def page_index_less)
qed

lemma spaces_tree_ok: "spaces_ok (p # ps) v \<Longrightarrow> tree_ok 4 (vm_mem v) p (vm_pmm v)"
  using spaces_okD(1-3) [of "p # ps" v] by (simp add: tree_ok_def)

lemma reference_map_effect:
  assumes "spaces_ok (p # ps) v" "lower_half page" "pte_addr f = f" "leaf_flags fl"
  shows "map_effect 4 p (path_of page) (f OR fl) v (reference_map_to allocate_frame p page f fl v)"
proof -
  have p: "pte_addr p = p" using spaces_okD(5) [OF assms(1)] by simp
  have b7: "bit (7 :: u64) n \<longleftrightarrow> n < 3" for n
  proof -
    have "(7 :: u64) = mask 3" by (simp add: mask_eq_exp_minus_1)
    then show ?thesis by (simp only: bit_mask_iff) auto
  qed
  have a: "pte_addr (fl AND 7) = 0" unfolding bit_eq_iff bit_pte_addr bit_and_iff b7 by auto
  have b: "pte_present (fl AND 7)" "\<not> pte_huge (fl AND 7)"
    using assms(4) unfolding leaf_flags_def pte_present_def pte_huge_def bit_and_iff b7 by auto
  have c: "follows 1 (f OR fl)" using assms(4) by (simp add: leaf_flags_def follows_def pte_present_def bit_or_iff)
  have n: "Suc 3 = 4" by simp
  have "map_effect (Suc 3) p (path_of page) (f OR fl) v (map_path allocate_frame (fl AND 7) (f OR fl) (path_of page) (pte_addr p) v)"
    by (rule map_path_effect [OF a b c]) (use spaces_tree_ok [OF assms(1)] path_ok_path_of [OF assms(2)] in \<open>simp_all only: n\<close>)
  then show ?thesis by (simp add: reference_map_to_def p)
qed

lemma slot_not_root:
  assumes "slot (Suc (Suc k)) m e path = Some (t, i)" "distinct (tables (Suc (Suc k)) m e)"
  shows "t \<noteq> pte_addr e"
proof -
  obtain j js where path: "path = j # js" using assms(1) by (cases path) auto
  let ?e = "entry m (pte_addr e) j"
  have j: "j < width (Suc (Suc k))" "follows (Suc (Suc k)) ?e" "slot (Suc k) m ?e js = Some (t, i)"
    using assms(1) path by (auto simp: Let_def split: if_splits)
  have "t \<in> set (tables_at (Suc k) m (pte_addr e) [0..<width (Suc (Suc k))])"
    using slot_tables [OF j(3)] set_tables_at [OF _ j(2), of "[0..<width (Suc (Suc k))]"] j(1) by auto
  then show ?thesis using assms(2) by (auto simp: tables_Suc)
qed

lemma reference_unmap_effect:
  assumes ok: "spaces_ok (p # ps) v" and low: "lower_half page"
  shows "unmap_effect p (path_of page) v (reference_unmap p page v)"
proof (cases "walk_page_table_to_pte (vm_mem v) p page")
  case None
  then show ?thesis using walk_None [OF None] spaces_okD(5) [OF ok]
    by (simp add: unmap_effect_def reference_unmap_def sfail_def)
next
  case (Some ti)
  then obtain t i where w: "walk_page_table_to_pte (vm_mem v) p page = Some (t, i)" by (cases ti) auto
  let ?m = "vm_mem v"
  let ?e = "entry ?m t i" and ?m' = "set_entry t i 0 ?m"
  have p: "pte_addr p = p" using spaces_okD(5) [OF ok] by simp
  have sl: "slot 4 ?m p (path_of page) = Some (t, i)" by (rule walk_slot [OF w low p])
  have t: "t \<in> set (tables 4 ?m p)" "i < 512" using slot_tables [OF sl] by simp_all
  have d: "distinct (tables 4 ?m p)" using spaces_okD(2) [OF ok] by simp
  have e': "entry ?m' x j = (if x = t \<and> j = i then 0 else entry ?m x j)" if "page_aligned x" "j < 512" for x j
    using that t tables_aligned [OF t(1)] by (simp add: entry_set_entry)
  have tree: "tables 4 ?m' p = tables 4 ?m p \<and> mapped 4 ?m' p = filter (\<lambda>x. fst x \<noteq> path_of page) (mapped 4 ?m p)"
    by (rule clear_path_tree [OF sl d]) (simp add: e' tables_aligned)
  have upper: "entry ?m' p j = entry ?m p j" if "j < 512" for j
  proof -
    have n: "(4 :: nat) = Suc (Suc 2)" by simp
    have "t \<noteq> p" using slot_not_root [of 2 ?m p "path_of page" t i] sl d p unfolding n by simp
    moreover have "page_aligned p" using page_aligned_pte_addr [of p] p by simp
    ultimately show ?thesis using e' [of p j] that by simp
  qed
  have run: "reference_unmap p page v = (Inr (pte_addr ?e), v\<lparr>vm_mem := ?m'\<rparr>)"
    using w by (simp add: reference_unmap_def sbind_def mem_modify_def sreturn_def)
  have "no_huge 4 ?m p \<longrightarrow> no_huge 4 ?m' p"
    using tree e' tables_aligned [of _ 4 ?m p] by (auto simp: no_huge_def pte_present_def)
  moreover have "?m' (x + of_nat n) = ?m (x + of_nat n)" if "page_aligned x" "n < 4096" "x \<notin> set (tables 4 ?m p)" for x n
    using that t tables_aligned [OF t(1)] by (subst set_entry_byte) auto
  ultimately show ?thesis unfolding unmap_effect_def run prod.case sum.case
    using slot_mapped [OF sl] tree upper by (intro exI [of _ ?e] exI [of _ ?m']) auto
qed

lemma map_of_slot: "slot k m e path = Some (t, i) \<Longrightarrow> map_of (mapped k m e) path = Some (entry m t i)"
  using map_of_is_SomeI [OF distinct_paths slot_mapped] .

interpretation reference: page_mapper reference_mapper
proof
  fix p ps page f fl and v :: vmem
  assume "spaces_ok (p # ps) v" "lower_half page" "pte_addr f = f" "leaf_flags fl"
  then show "map_effect 4 p (path_of page) (f OR fl) v (map_to reference_mapper allocate_frame p page f fl v)"
    by (simp add: reference_mapper_def reference_map_effect)
next
  fix p ps page and v :: vmem
  assume "spaces_ok (p # ps) v" "lower_half page"
  then show "unmap_effect p (path_of page) v (unmap reference_mapper p page v)"
    by (simp add: reference_mapper_def reference_unmap_effect)
next
  fix p page m
  assume p: "pte_addr p = p" and low: "lower_half page"
  show "translate_page reference_mapper m p page = map_option pte_addr (map_of (mapped 4 m p) (path_of page))"
  proof (cases "walk_page_table_to_pte m p page")
    case None
    then have "map_of (mapped 4 m p) (path_of page) = None" using walk_None [OF None p] by (simp add: map_of_eq_None_iff)
    then show ?thesis using None by (simp add: reference_mapper_def reference_translate_def)
  next
    case (Some ti)
    then obtain t i where w: "walk_page_table_to_pte m p page = Some (t, i)" by (cases ti) auto
    then show ?thesis using map_of_slot [OF walk_slot [OF w low p]]
      by (simp add: reference_mapper_def reference_translate_def)
  qed
next
  fix a :: u64
  assume a: "a < 2 ^ 47"
  show "virt_addr_new reference_mapper a = Inr a"
    using a [unfolded below_47] by (simp add: reference_mapper_def reference_virt_def)
qed

subsection \<open>Mapping and unmapping pages of address spaces\<close>

lemma mset_leaves_add:
  "mset (mapped k m' e) = add_mset (path, l) (mset (mapped k m e)) \<Longrightarrow> mset (leaves k m' e) = add_mset (pte_addr l) (mset (leaves k m e))"
  by (simp add: leaves_def)

text \<open>
  A frame that nothing maps yet and that has a holder to spare may be mapped.
\<close>

lemma map_effect_spaces:
  assumes ok: "spaces_ok (p # ps) v" and eff: "map_effect 4 p path leaf v (r, v')"
    and f: "managed (vm_pmm v) (pte_addr leaf)" "0 < holders (vm_pmm v) (pte_addr leaf)"
      "pte_addr leaf \<notin> set (all_tables (vm_mem v) (p # ps))" "pte_addr leaf \<notin> set (all_leaves (vm_mem v) (p # ps))"
  shows "spaces_ok (p # ps) v'" "q \<in> set ps \<Longrightarrow> mapped 4 (vm_mem v') q = mapped 4 (vm_mem v) q"
    "g \<in> set (all_leaves (vm_mem v) (p # ps)) \<or> g = pte_addr leaf \<Longrightarrow> n < 4096 \<Longrightarrow> vm_mem v' (g + of_nat n) = vm_mem v (g + of_nat n)"
proof -
  let ?m = "vm_mem v" and ?s = "vm_pmm v" and ?f = "pte_addr leaf"
  from eff obtain m' s' N where e: "v' = v\<lparr>vm_mem := m', vm_pmm := s'\<rparr>" "granted N [] ?s s'"
      "mset (tables 4 m' p) = mset (tables 4 ?m p) + mset N"
      "\<forall>x n. page_aligned x \<and> n < 4096 \<and> (x \<notin> set (tables 4 ?m p) \<and> x \<notin> set N) \<longrightarrow> m' (x + of_nat n) = ?m (x + of_nat n)"
      "map_result 4 p path leaf ?m m' s' r"
    unfolding map_effect_def by auto
  have N: "managed ?s x" "is_free ?s x" if "x \<in> set N" for x using e(2) that by (simp_all add: granted_def)
  have h: "holders s' x = (if x \<in> set N then 1 else holders ?s x)" if "managed ?s x" for x using e(2) that by (simp add: granted_def)
  have mg: "managed s' = managed ?s" using e(2) by (rule granted_managed)
  have d: "set (tables 4 ?m p) \<inter> set (all_tables ?m ps) = {}" using spaces_okD(2) [OF ok] by simp
  have others: "entry m' x j = entry ?m x j" if "x \<in> set (all_tables ?m ps)" "j < 512" for x j
  proof (rule frame_entries [OF e(4) _ _ that(2)])
    show "page_aligned x" using spaces_okD(3) [OF ok, of x] that by (simp add: managed_def)
    show "x \<notin> set (tables 4 ?m p) \<and> x \<notin> set N" using that(1) d N(2) spaces_okD(3) [OF ok, of x] by auto
  qed
  show "q \<in> set ps \<Longrightarrow> mapped 4 (vm_mem v') q = mapped 4 ?m q" unfolding e(1) using same_spaces(1) [of ?m ps m', OF others] by simp
  show "vm_mem v' (g + of_nat n) = ?m (g + of_nat n)" if "g \<in> set (all_leaves ?m (p # ps)) \<or> g = ?f" "n < 4096"
  proof -
    have "page_aligned g" "g \<notin> set (tables 4 ?m p)" "\<not> is_free ?s g"
      using that(1) f spaces_okD(4) [OF ok, of g] held_not_free [OF spaces_okD(1) [OF ok], of ?f] by (auto simp: managed_def)
    then show ?thesis using e(1,4) N(2) that(2) by auto
  qed
  have "mset (leaves 4 m' p) \<subseteq># add_mset ?f (mset (leaves 4 ?m p))"
  proof (cases r)
    case (Inr u)
    then show ?thesis using e(5) mset_leaves_add [of 4 m' p path leaf ?m] by (simp add: map_result_def)
  next
    case (Inl x)
    then have "mset (mapped 4 m' p) = mset (mapped 4 ?m p)" using e(5) by (cases x) (simp_all add: map_result_def)
    then have "mset (leaves 4 m' p) = mset (leaves 4 ?m p)" by (simp add: leaves_def)
    then show ?thesis by simp
  qed
  note sub = this
  have l: "count_list (leaves 4 m' p) x \<le> count_list (leaves 4 ?m p) x + (if x = ?f then 1 else 0)" for x
    using mset_subset_eq_count [OF sub, of x] by (cases "x = ?f") (simp_all flip: count_mset)
  have lx: "x = ?f \<or> x \<in> set (leaves 4 ?m p)" if "x \<in> set (leaves 4 m' p)" for x
    using l [of x] that unfolding count_list_pos by (auto split: if_splits)
  have eq: "mset (all_tables m' (p # ps)) = mset (all_tables ?m (p # ps) @ N)" using e(3) same_spaces(3) [of ?m ps m', OF others] by simp
  have al: "all_leaves m' ps = all_leaves ?m ps" using same_spaces(4) [of ?m ps m', OF others] by simp
  have "droppable (all_tables ?m (p # ps) @ N) (all_leaves m' (p # ps)) s'"
  proof -
    have "distinct (all_tables ?m (p # ps) @ N)" using spaces_okD(2,3) [OF ok] N(2) e(2) by (auto simp: granted_def)
    moreover have "managed ?s x \<and> holders s' x = 1" if "x \<in> set (all_tables ?m (p # ps) @ N)" for x
      using that spaces_okD(3) [OF ok, of x] N(1) [of x] h [of x] by auto
    moreover have "managed ?s x \<and> count_list (all_leaves m' (p # ps)) x \<le> holders s' x \<and> x \<notin> set (all_tables ?m (p # ps) @ N)"
      if "x \<in> set (all_leaves m' (p # ps))" for x
    proof (cases "x = ?f")
      case True
      have z: "count_list (leaves 4 ?m p) ?f = 0" "count_list (all_leaves ?m ps) ?f = 0" using f(4) by (simp_all add: count_list_0_iff)
      have "?f \<notin> set N" using N(2) held_not_free [OF spaces_okD(1) [OF ok] f(2)] by auto
      then show ?thesis using True f l [of ?f] z h [OF f(1)] by (simp add: al)
    next
      case False
      then have x: "x \<in> set (all_leaves ?m (p # ps))" using that lx [of x] by (auto simp: al)
      note okx = spaces_okD(4) [OF ok this]
      then have "x \<notin> set N" using N(2) by auto
      then show ?thesis using okx l [of x] False h [of x] by (simp add: al)
    qed
    moreover have "pmm_inv s'" using e(2) by (simp add: granted_def)
    ultimately show ?thesis unfolding droppable_def mg by blast
  qed
  then have "droppable (all_tables m' (p # ps)) (all_leaves m' (p # ps)) s'" using droppable_mset [OF eq refl] by blast
  then show "spaces_ok (p # ps) v'" using spaces_okD(5) [OF ok] by (simp add: spaces_ok_def e(1))
qed

lemma unmap_effect_spaces:
  assumes ok: "spaces_ok (p # ps) v" and eff: "unmap_effect p path v (Inr f, v')"
  shows "spaces_ok (p # ps) v'" "q \<in> set ps \<Longrightarrow> mapped 4 (vm_mem v') q = mapped 4 (vm_mem v) q"
    "g \<in> set (all_leaves (vm_mem v) (p # ps)) \<Longrightarrow> n < 4096 \<Longrightarrow> vm_mem v' (g + of_nat n) = vm_mem v (g + of_nat n)"
    "vm_pmm v' = vm_pmm v" "managed (vm_pmm v) f"
    "count_list (all_leaves (vm_mem v') (p # ps)) f < holders (vm_pmm v) f" "f \<notin> set (all_tables (vm_mem v') (p # ps))"
proof -
  let ?m = "vm_mem v" and ?s = "vm_pmm v"
  from eff obtain e m' where e: "v' = v\<lparr>vm_mem := m'\<rparr>" "(path, e) \<in> set (mapped 4 ?m p)" "f = pte_addr e"
      "mapped 4 m' p = filter (\<lambda>x. fst x \<noteq> path) (mapped 4 ?m p)" "tables 4 m' p = tables 4 ?m p"
      "\<forall>x n. page_aligned x \<and> n < 4096 \<and> x \<notin> set (tables 4 ?m p) \<longrightarrow> m' (x + of_nat n) = ?m (x + of_nat n)"
    unfolding unmap_effect_def prod.case sum.case by blast
  have d: "set (tables 4 ?m p) \<inter> set (all_tables ?m ps) = {}" using spaces_okD(2) [OF ok] by simp
  have others: "entry m' x j = entry ?m x j" if "x \<in> set (all_tables ?m ps)" "j < 512" for x j
    using that d spaces_okD(3) [OF ok, of x] by (intro frame_entries [OF e(6)]) (auto simp: managed_def)
  show "q \<in> set ps \<Longrightarrow> mapped 4 (vm_mem v') q = mapped 4 ?m q" unfolding e(1) using same_spaces(1) [of ?m ps m', OF others] by simp
  show "vm_mem v' (g + of_nat n) = ?m (g + of_nat n)" if "g \<in> set (all_leaves ?m (p # ps))" "n < 4096"
    using spaces_okD(4) [OF ok that(1)] that(2) e(1,6) by (simp add: managed_def)
  show "vm_pmm v' = ?s" by (simp add: e(1))
  have f: "f \<in> set (all_leaves ?m (p # ps))" using e(2,3) by (force simp: leaves_def)
  show "managed ?s f" using spaces_okD(4) [OF ok f] by simp
  have t: "all_tables m' (p # ps) = all_tables ?m (p # ps)" using e(5) same_spaces(3) [of ?m ps m', OF others] by simp
  show "f \<notin> set (all_tables (vm_mem v') (p # ps))" using spaces_okD(4) [OF ok f] t by (simp add: e(1))
  have al: "all_leaves m' ps = all_leaves ?m ps" using same_spaces(4) [of ?m ps m', OF others] by simp
  have less: "count_list (leaves 4 m' p) g \<le> count_list (leaves 4 ?m p) g" "count_list (leaves 4 m' p) f < count_list (leaves 4 ?m p) f" for g
  proof -
    have "mset (mapped 4 m' p) \<subseteq># mset (mapped 4 ?m p)" by (simp add: e(4) mset_filter)
    then have sub: "mset (leaves 4 m' p) \<subseteq># mset (leaves 4 ?m p)" unfolding leaves_def mset_map by (rule image_mset_subseteq_mono)
    show "count_list (leaves 4 m' p) g \<le> count_list (leaves 4 ?m p) g" using mset_subset_eq_count [OF sub, of g] by (simp only: count_mset)
    have "mset (mapped 4 ?m p) = mset (mapped 4 m' p) + mset (filter (\<lambda>x. fst x = path) (mapped 4 ?m p))"
      unfolding e(4) mset_filter using multiset_partition [of "mset (mapped 4 ?m p)" "\<lambda>x. fst x = path"] by (simp add: add.commute)
    from arg_cong [OF this, of "image_mset (pte_addr \<circ> snd)"]
    have "mset (leaves 4 ?m p) = mset (leaves 4 m' p) + mset (map (pte_addr \<circ> snd) (filter (\<lambda>x. fst x = path) (mapped 4 ?m p)))"
      unfolding leaves_def mset_map image_mset_union .
    from arg_cong [OF this, of "\<lambda>M. count M f"]
    have "count_list (leaves 4 ?m p) f = count_list (leaves 4 m' p) f + count_list (map (pte_addr \<circ> snd) (filter (\<lambda>x. fst x = path) (mapped 4 ?m p))) f"
      unfolding count_union count_mset .
    moreover have "(path, e) \<in> set (filter (\<lambda>x. fst x = path) (mapped 4 ?m p))" using e(2) by simp
    then have "(pte_addr \<circ> snd) (path, e) \<in> set (map (pte_addr \<circ> snd) (filter (\<lambda>x. fst x = path) (mapped 4 ?m p)))"
      unfolding set_map by (rule imageI)
    then have "0 < count_list (map (pte_addr \<circ> snd) (filter (\<lambda>x. fst x = path) (mapped 4 ?m p))) f"
      unfolding count_list_pos by (simp add: e(3))
    ultimately show "count_list (leaves 4 m' p) f < count_list (leaves 4 ?m p) f" by linarith
  qed
  show "count_list (all_leaves (vm_mem v') (p # ps)) f < holders ?s f"
    using less(2) spaces_okD(4) [OF ok f] by (simp add: e(1) al)
  have "droppable (all_tables ?m (p # ps)) (all_leaves m' (p # ps)) ?s"
  proof -
    have "managed ?s g \<and> count_list (all_leaves m' (p # ps)) g \<le> holders ?s g \<and> g \<notin> set (all_tables ?m (p # ps))"
      if "g \<in> set (all_leaves m' (p # ps))" for g
    proof -
      have "g \<in> set (all_leaves ?m (p # ps))" using that less(1) [of g] unfolding count_list_pos by (auto simp: al)
      from spaces_okD(4) [OF ok this] show ?thesis using less(1) [of g] by (simp add: al)
    qed
    moreover have "managed ?s x \<and> holders ?s x = 1" if "x \<in> set (all_tables ?m (p # ps))" for x using spaces_okD(3) [OF ok that] by simp
    ultimately show ?thesis using spaces_okD(1,2) [OF ok] unfolding droppable_def by blast
  qed
  then show "spaces_ok (p # ps) v'" using spaces_okD(5) [OF ok] t by (simp add: spaces_ok_def e(1))
qed

end
