(* ===== verification/Isolation.thy ===== *)
theory Isolation
  imports Paging
begin

text \<open>
  Isolation of user memory: a frame that some address space maps writable is mapped nowhere else. Every operation on
  address spaces preserves this, so a store of one process never changes what another one reads.
\<close>

subsection \<open>Loads and stores\<close>

text \<open>What the processor does for a user program while \<open>p\<close> is the active page table.\<close>

definition user_load :: "vmem \<Rightarrow> u64 \<Rightarrow> u64 \<Rightarrow> u8 option" where
  "user_load v p virt = (case walk_page_table_to_pte (vm_mem v) p virt of None \<Rightarrow> None
     | Some (t, i) \<Rightarrow> Some (vm_mem v (pte_addr (entry (vm_mem v) t i) + (virt AND 0xFFF))))"

definition user_store :: "vmem \<Rightarrow> u64 \<Rightarrow> u64 \<Rightarrow> u8 \<Rightarrow> vmem option" where
  "user_store v p virt b = (case walk_page_table_to_pte (vm_mem v) p virt of None \<Rightarrow> None
     | Some (t, i) \<Rightarrow> let e = entry (vm_mem v) t i in
         if pte_writable e then Some (v\<lparr>vm_mem := (vm_mem v)(pte_addr e + (virt AND 0xFFF) := b)\<rparr>) else None)"

definition isolated :: "u64 list \<Rightarrow> vmem \<Rightarrow> bool" where
  "isolated ps v \<longleftrightarrow> spaces_ok ps v \<and>
     (\<forall>q \<in> set ps. \<forall>x \<in> set (mapped 4 (vm_mem v) q). pte_writable (snd x) \<longrightarrow>
        count_list (all_leaves (vm_mem v) ps) (pte_addr (snd x)) = 1)"

lemma leaf_of_mapped: "q \<in> set ps \<Longrightarrow> x \<in> set (mapped 4 m q) \<Longrightarrow> pte_addr (snd x) \<in> set (all_leaves m ps)"
  by (auto simp: all_leaves_def leaves_def)

lemma isolatedI:
  assumes "spaces_ok ps v"
    "\<And>q x. q \<in> set ps \<Longrightarrow> x \<in> set (mapped 4 (vm_mem v) q) \<Longrightarrow> pte_writable (snd x) \<Longrightarrow>
      count_list (all_leaves (vm_mem v) ps) (pte_addr (snd x)) \<le> 1"
  shows "isolated ps v"
  unfolding isolated_def
proof (intro conjI ballI impI)
  fix q x
  assume x: "q \<in> set ps" "x \<in> set (mapped 4 (vm_mem v) q)" "pte_writable (snd x)"
  have "0 < count_list (all_leaves (vm_mem v) ps) (pte_addr (snd x))"
    using leaf_of_mapped [OF x(1,2)] by (simp only: count_list_pos)
  then show "count_list (all_leaves (vm_mem v) ps) (pte_addr (snd x)) = 1" using assms(2) [OF x] by linarith
qed (rule assms(1))

lemma isolatedD:
  "isolated ps v \<Longrightarrow> q \<in> set ps \<Longrightarrow> x \<in> set (mapped 4 (vm_mem v) q) \<Longrightarrow> pte_writable (snd x) \<Longrightarrow>
    count_list (all_leaves (vm_mem v) ps) (pte_addr (snd x)) = 1"
  "isolated ps v \<Longrightarrow> spaces_ok ps v"
  by (auto simp: isolated_def)

lemma isolated_mset: "mset ps = mset qs \<Longrightarrow> isolated ps v = isolated qs v"
proof -
  assume eq: "mset ps = mset qs"
  have "count_list (all_leaves (vm_mem v) ps) = count_list (all_leaves (vm_mem v) qs)"
    by (rule ext) (simp only: count_mset [symmetric] mset_all(2) [OF eq])
  then show ?thesis unfolding isolated_def spaces_ok_mset [OF eq] mset_eq_setD [OF eq] by (simp only:)
qed

lemma byte_offset: "unat (virt AND 0xFFF :: u64) < 4096" "virt AND 0xFFF = of_nat (unat (virt AND 0xFFF :: u64))"
proof -
  have "virt AND 0xFFF = take_bit 12 virt" by (simp add: take_bit_eq_mask mask_eq_exp_minus_1)
  then have "unat (virt AND 0xFFF) = take_bit 12 (unat virt)" by (simp add: unsigned_take_bit_eq)
  also have "\<dots> < 2 ^ 12" by (rule take_bit_nat_less_exp)
  finally show "unat (virt AND 0xFFF) < 4096" by simp
qed simp

lemma page_bytes_differ:
  assumes "page_aligned f" "page_aligned g" "f \<noteq> g" "m < 4096" "n < 4096"
  shows "f + of_nat m \<noteq> g + of_nat n"
proof
  assume "f + of_nat m = g + of_nat n"
  then have "unat f + m = unat g + n" using unat_page_offset [OF assms(1,4)] unat_page_offset [OF assms(2,5)] by simp
  then show False using page_offset_unique [OF assms(1,2,4,5)] assms(3) by blast
qed

text \<open>A store changes one byte of a frame that holds no table.\<close>

lemma store_same_spaces:
  assumes ok: "spaces_ok ps v" and f: "f \<in> set (all_leaves (vm_mem v) ps)" and n: "n < 4096"
    and v': "v' = v\<lparr>vm_mem := (vm_mem v)(f + of_nat n := b)\<rparr>"
  shows "q \<in> set ps \<Longrightarrow> mapped 4 (vm_mem v') q = mapped 4 (vm_mem v) q" "all_tables (vm_mem v') ps = all_tables (vm_mem v) ps"
    "all_leaves (vm_mem v') ps = all_leaves (vm_mem v) ps" "spaces_ok ps v'"
    "x \<in> set (all_tables (vm_mem v) ps) \<Longrightarrow> i < 512 \<Longrightarrow> entry (vm_mem v') x i = entry (vm_mem v) x i"
proof -
  let ?m = "vm_mem v"
  have e: "entry (vm_mem v') x i = entry ?m x i" if "x \<in> set (all_tables ?m ps)" "i < 512" for x i
  proof (rule entry_cong [OF _ that(2)])
    fix k :: nat
    assume "k < 4096"
    moreover have "page_aligned x" "page_aligned f" "x \<noteq> f"
      using spaces_okD(3) [OF ok that(1)] spaces_okD(4) [OF ok f] that(1) by (auto simp: managed_def)
    ultimately show "vm_mem v' (x + of_nat k) = ?m (x + of_nat k)"
      using page_bytes_differ [of x f k n] n by (simp add: v')
  qed
  then show "x \<in> set (all_tables ?m ps) \<Longrightarrow> i < 512 \<Longrightarrow> entry (vm_mem v') x i = entry ?m x i" .
  show "q \<in> set ps \<Longrightarrow> mapped 4 (vm_mem v') q = mapped 4 ?m q" by (rule same_spaces(1) [OF e])
  show t: "all_tables (vm_mem v') ps = all_tables ?m ps" by (rule same_spaces(3) [OF e])
  show l: "all_leaves (vm_mem v') ps = all_leaves ?m ps" by (rule same_spaces(4) [OF e])
  show "spaces_ok ps v'" using ok unfolding spaces_ok_def t l by (simp add: v')
qed

text \<open>What an address space reads is determined by its mappings.\<close>

lemma user_load_mapped:
  assumes "pte_addr p = p" "lower_half virt"
  shows "user_load v p virt = map_option (\<lambda>e. vm_mem v (pte_addr e + (virt AND 0xFFF))) (map_of (mapped 4 (vm_mem v) p) (path_of virt))"
proof (cases "walk_page_table_to_pte (vm_mem v) p virt")
  case None
  then show ?thesis using walk_None [OF None assms(1)] by (simp add: user_load_def map_of_eq_None_iff [THEN iffD2])
next
  case (Some ti)
  then obtain t i where w: "walk_page_table_to_pte (vm_mem v) p virt = Some (t, i)" by (cases ti) auto
  then show ?thesis using map_of_slot [OF walk_slot [OF w assms(2,1)]] by (simp add: user_load_def)
qed

lemma store_isolated:
  assumes iso: "isolated (p # ps) v" and low: "lower_half virt" and st: "user_store v p virt b = Some v'"
  shows "isolated (p # ps) v'" "q \<in> set ps \<Longrightarrow> lower_half virt' \<Longrightarrow> user_load v' q virt' = user_load v q virt'"
    "user_load v' p virt = Some b"
proof -
  let ?m = "vm_mem v"
  note ok = isolatedD(2) [OF iso]
  have p: "pte_addr p = p" using spaces_okD(5) [OF ok] by simp
  obtain t i where w: "walk_page_table_to_pte ?m p virt = Some (t, i)" "pte_writable (entry ?m t i)"
      and v': "v' = v\<lparr>vm_mem := ?m(pte_addr (entry ?m t i) + (virt AND 0xFFF) := b)\<rparr>"
    using st by (auto simp: user_store_def Let_def split: option.splits if_splits)
  let ?e = "entry ?m t i" and ?n = "unat (virt AND 0xFFF)"
  have sl: "slot 4 ?m p (path_of virt) = Some (t, i)" by (rule walk_slot [OF w(1) low p])
  have mem: "(path_of virt, ?e) \<in> set (mapped 4 ?m p)" by (rule slot_mapped [OF sl])
  have f: "pte_addr ?e \<in> set (all_leaves ?m (p # ps))" using leaf_of_mapped [OF _ mem, of "p # ps"] by simp
  have one: "count_list (all_leaves ?m (p # ps)) (pte_addr ?e) = 1" using isolatedD(1) [OF iso _ mem] w(2) by simp
  have v'': "v' = v\<lparr>vm_mem := ?m(pte_addr ?e + of_nat ?n := b)\<rparr>" using v' byte_offset(2) [of virt] by simp
  note same = store_same_spaces [OF ok f byte_offset(1) v'']
  show "isolated (p # ps) v'"
  proof (rule isolatedI [OF same(4)])
    fix q x
    assume "q \<in> set (p # ps)" "x \<in> set (mapped 4 (vm_mem v') q)" "pte_writable (snd x)"
    then have "count_list (all_leaves ?m (p # ps)) (pte_addr (snd x)) = 1" using isolatedD(1) [OF iso] same(1) by simp
    then show "count_list (all_leaves (vm_mem v') (p # ps)) (pte_addr (snd x)) \<le> 1" unfolding same(3) by simp
  qed
  show "user_load v' q virt' = user_load v q virt'" if q: "q \<in> set ps" "lower_half virt'"
  proof -
    have q': "pte_addr q = q" using spaces_okD(5) [OF ok, of q] q(1) by simp
    have sm: "mapped 4 (vm_mem v') q = mapped 4 ?m q" using same(1) q(1) by simp
    have "vm_mem v' (pte_addr e + (virt' AND 0xFFF)) = ?m (pte_addr e + (virt' AND 0xFFF))" if "map_of (mapped 4 ?m q) (path_of virt') = Some e" for e
    proof -
      have "(path_of virt', e) \<in> set (mapped 4 ?m q)" using that by (rule map_of_SomeD)
      then have l: "pte_addr e \<in> set (all_leaves ?m ps)" using leaf_of_mapped [OF q(1)] by fastforce
      have "pte_addr ?e \<in> set (leaves 4 ?m p)" using mem by (force simp: leaves_def)
      then have "0 < count_list (leaves 4 ?m p) (pte_addr ?e)" by (simp only: count_list_pos)
      then have "count_list (all_leaves ?m ps) (pte_addr ?e) = 0" using one by simp
      then have "pte_addr e \<noteq> pte_addr ?e" using l by (auto simp: count_list_0_iff)
      then show ?thesis using page_bytes_differ [of "pte_addr e" "pte_addr ?e" "unat (virt' AND 0xFFF)" ?n] byte_offset(1) by (simp add: v'')
    qed
    then show ?thesis unfolding user_load_mapped [OF q' q(2)] sm by (cases "map_of (mapped 4 ?m q) (path_of virt')") simp_all
  qed
  have sp: "mapped 4 (vm_mem v') p = mapped 4 ?m p" by (rule same(1)) simp
  have "map_of (mapped 4 ?m p) (path_of virt) = Some ?e" by (rule map_of_slot [OF sl])
  then show "user_load v' p virt = Some b" unfolding user_load_mapped [OF p low] sp by (simp add: v')
qed

subsection \<open>Operations on address spaces keep them isolated\<close>

lemma isolated_mono:
  assumes iso: "isolated ps v" and ok: "spaces_ok qs v'"
    and "\<And>q x. q \<in> set qs \<Longrightarrow> x \<in> set (mapped 4 (vm_mem v') q) \<Longrightarrow> pte_writable (snd x) \<Longrightarrow>
      (\<exists>q0 \<in> set ps. x \<in> set (mapped 4 (vm_mem v) q0)) \<and>
      count_list (all_leaves (vm_mem v') qs) (pte_addr (snd x)) \<le> count_list (all_leaves (vm_mem v) ps) (pte_addr (snd x))"
  shows "isolated qs v'"
proof (rule isolatedI [OF ok])
  fix q x
  assume x: "q \<in> set qs" "x \<in> set (mapped 4 (vm_mem v') q)" "pte_writable (snd x)"
  from assms(3) [OF this] obtain q0 where "q0 \<in> set ps" "x \<in> set (mapped 4 (vm_mem v) q0)"
      "count_list (all_leaves (vm_mem v') qs) (pte_addr (snd x)) \<le> count_list (all_leaves (vm_mem v) ps) (pte_addr (snd x))"
    by blast
  then show "count_list (all_leaves (vm_mem v') qs) (pte_addr (snd x)) \<le> 1" using isolatedD(1) [OF iso _ _ x(3), of q0] by simp
qed

lemma create_isolated:
  assumes iso: "isolated ps v" and k: "page_aligned k" and r: "create_user_pml4 k v = (Inr p, v')"
  shows "isolated (p # ps) v'"
proof -
  have c: "spaces_ok (p # ps) v'" "empty_space (vm_mem v') p" "\<And>q. q \<in> set ps \<Longrightarrow> mapped 4 (vm_mem v') q = mapped 4 (vm_mem v) q"
    using create_user_pml4_ok [OF isolatedD(2) [OF iso] k r] by auto
  have p: "pte_addr p = p" using spaces_okD(5) [OF c(1)] by simp
  note e4 = empty_space_4 [OF p c(2)]
  have l: "all_leaves (vm_mem v') (p # ps) = all_leaves (vm_mem v) ps"
    using c(3) by (simp add: e4) (simp add: all_leaves_def leaves_def cong: map_cong)
  show ?thesis
  proof (rule isolated_mono [OF iso c(1)])
    fix q x
    assume "q \<in> set (p # ps)" "x \<in> set (mapped 4 (vm_mem v') q)" "pte_writable (snd x)"
    then show "(\<exists>q0 \<in> set ps. x \<in> set (mapped 4 (vm_mem v) q0)) \<and>
        count_list (all_leaves (vm_mem v') (p # ps)) (pte_addr (snd x)) \<le> count_list (all_leaves (vm_mem v) ps) (pte_addr (snd x))"
      unfolding l using c(3) by (auto simp: e4)
  qed
qed

lemma free_isolated:
  assumes iso: "isolated (p # ps) v" and r: "free_user_address_space p v = (Inr (), v')"
  shows "isolated ps v'"
proof -
  obtain s where s: "free_user_address_space p v = (Inr () :: ('a, unit) outcome, v\<lparr>vm_pmm := s\<rparr>)" "spaces_ok ps (v\<lparr>vm_pmm := s\<rparr>)"
    using free_space [OF isolatedD(2) [OF iso]] by blast
  have v': "v' = v\<lparr>vm_pmm := s\<rparr>" using r s(1) by simp
  show ?thesis unfolding v'
  proof (rule isolated_mono [OF iso s(2)])
    fix q x
    assume "q \<in> set ps" "x \<in> set (mapped 4 (vm_mem (v\<lparr>vm_pmm := s\<rparr>)) q)" "pte_writable (snd x)"
    then show "(\<exists>q0 \<in> set (p # ps). x \<in> set (mapped 4 (vm_mem v) q0)) \<and>
        count_list (all_leaves (vm_mem (v\<lparr>vm_pmm := s\<rparr>)) ps) (pte_addr (snd x)) \<le> count_list (all_leaves (vm_mem v) (p # ps)) (pte_addr (snd x))"
      by auto
  qed
qed

lemma fork_isolated:
  assumes iso: "isolated (p # ch # ps) v" and e: "empty_space (vm_mem v) ch" and s: "shared_with_child p ch ps v v'"
  shows "isolated (p # ch # ps) v'"
proof -
  let ?m = "vm_mem v" and ?m' = "vm_mem v'"
  have sh: "spaces_ok (p # ch # ps) v'" "mapped 4 ?m' p = map (apsnd read_only) (mapped 4 ?m p)"
      "mapped 4 ?m' ch = map (apsnd read_only) (mapped 4 ?m p)" "\<And>q. q \<in> set ps \<Longrightarrow> mapped 4 ?m' q = mapped 4 ?m q"
    using s by (simp_all add: shared_with_child_def)
  have "pte_addr ch = ch" using spaces_okD(5) [OF sh(1)] by simp
  note e4 = empty_space_4 [OF this e]
  have l: "leaves 4 ?m' p = leaves 4 ?m p" "leaves 4 ?m' ch = leaves 4 ?m p" by (simp_all add: leaves_def sh comp_def)
  have ls: "all_leaves ?m' ps = all_leaves ?m ps" using sh(4) by (simp add: all_leaves_def leaves_def cong: map_cong)
  show ?thesis
  proof (rule isolatedI [OF sh(1)])
    fix q x
    assume x: "q \<in> set (p # ch # ps)" "x \<in> set (mapped 4 ?m' q)" "pte_writable (snd x)"
    have "q \<in> set ps"
    proof (rule ccontr)
      assume "q \<notin> set ps"
      then have "x \<in> set (map (apsnd read_only) (mapped 4 ?m p))" using x(1,2) sh(2,3) by auto
      then show False using x(3) by auto
    qed
    then have q: "q \<in> set ps" "x \<in> set (mapped 4 ?m q)" using sh(4) x(2) by simp_all
    let ?g = "pte_addr (snd x)"
    have "count_list (all_leaves ?m (p # ch # ps)) ?g = 1" using isolatedD(1) [OF iso _ q(2) x(3)] q(1) by simp
    moreover have "0 < count_list (all_leaves ?m ps) ?g" using leaf_of_mapped [OF q] by (simp only: count_list_pos)
    ultimately have "count_list (leaves 4 ?m p) ?g = 0" "count_list (all_leaves ?m ps) ?g = 1" by (simp_all add: e4)
    then show "count_list (all_leaves ?m' (p # ch # ps)) ?g \<le> 1" by (simp add: l ls)
  qed
qed

lemma weakened_writable:
  assumes "entries_all weakened xs ys" "y \<in> set ys" "pte_writable (snd y)"
  shows "y \<in> set xs"
proof -
  have "list_all2 (\<lambda>p q. fst p = fst q \<and> weakened (snd p) (snd q)) xs ys" using assms(1) by (simp add: entries_all_def)
  then have "y \<in> set ys \<longrightarrow> y \<in> set xs"
  proof (induction rule: list_all2_induct)
    case (Cons x xs z ys)
    have "z = x" if "z = y"
      using Cons.hyps(1) assms(3) that by (auto simp: weakened_def prod_eq_iff)
    then show ?case using Cons.IH by auto
  qed simp
  then show ?thesis using assms(2) by simp
qed

lemma fork_failed_isolated:
  assumes iso: "isolated (p # ch # ps) v" and s: "rolled_back p ps v v'"
  shows "isolated (p # ps) v'"
proof -
  let ?m = "vm_mem v" and ?m' = "vm_mem v'"
  have r: "spaces_ok (p # ps) v'" "entries_all weakened (mapped 4 ?m p) (mapped 4 ?m' p)" "\<And>q. q \<in> set ps \<Longrightarrow> mapped 4 ?m' q = mapped 4 ?m q"
    using s by (simp_all add: rolled_back_def)
  have l: "leaves 4 ?m' p = leaves 4 ?m p" using r(2) by (rule entries_all_leaves)
  have ls: "all_leaves ?m' ps = all_leaves ?m ps" using r(3) by (simp add: all_leaves_def leaves_def cong: map_cong)
  show ?thesis
  proof (rule isolated_mono [OF iso r(1)])
    fix q x
    assume x: "q \<in> set (p # ps)" "x \<in> set (mapped 4 ?m' q)" "pte_writable (snd x)"
    have "x \<in> set (mapped 4 ?m q)" using x r(3) [of q] weakened_writable [OF r(2), of x] by auto
    then show "(\<exists>q0 \<in> set (p # ch # ps). x \<in> set (mapped 4 ?m q0)) \<and>
        count_list (all_leaves ?m' (p # ps)) (pte_addr (snd x)) \<le> count_list (all_leaves ?m (p # ch # ps)) (pte_addr (snd x))"
      using x by (auto simp: l ls)
  qed
qed

lemma fault_isolated:
  assumes iso: "isolated (p # ps) v" and sl: "slot 4 (vm_mem v) p (path_of virt) = Some (t, i)" and e: "e = entry (vm_mem v) t i"
    and mp: "made_private p ps virt e v v'"
  shows "isolated (p # ps) v'"
proof -
  let ?m = "vm_mem v" and ?m' = "vm_mem v'"
  from mp obtain f where r: "spaces_ok (p # ps) v'" "pte_addr f = f"
      "mapped 4 ?m' p = set_path (path_of virt) (f OR (pte_flags e OR PTE_WRITABLE)) (mapped 4 ?m p)"
      "\<And>q. q \<in> set ps \<Longrightarrow> mapped 4 ?m' q = mapped 4 ?m q" "count_list (all_leaves ?m' (p # ps)) f = 1"
    unfolding made_private_def by auto
  let ?e = "f OR (pte_flags e OR PTE_WRITABLE)"
  have e': "pte_addr ?e = f" using new_leaf_entry(1) [OF r(2) slot_present [OF sl, folded e]] .
  have ls: "all_leaves ?m' ps = all_leaves ?m ps" using r(4) by (simp add: all_leaves_def leaves_def cong: map_cong)
  have m: "mset (leaves 4 ?m' p) = mset (leaves 4 ?m p) - {#pte_addr (entry ?m t i)#} + {#f#}"
    using mset_leaves_set_path [OF sl r(3)] unfolding e' .
  have cnt: "count_list (all_leaves ?m' (p # ps)) g \<le> count_list (all_leaves ?m (p # ps)) g" if "g \<noteq> f" for g
  proof -
    have "count (mset (leaves 4 ?m' p)) g \<le> count (mset (leaves 4 ?m p)) g" unfolding m using that by simp
    then show ?thesis by (simp add: count_mset ls)
  qed
  show ?thesis
  proof (rule isolatedI [OF r(1)])
    fix q x
    assume x: "q \<in> set (p # ps)" "x \<in> set (mapped 4 ?m' q)" "pte_writable (snd x)"
    show "count_list (all_leaves ?m' (p # ps)) (pte_addr (snd x)) \<le> 1"
    proof (cases "pte_addr (snd x) = f")
      case True
      then show ?thesis using r(5) by simp
    next
      case False
      have "x \<in> set (mapped 4 ?m q)"
      proof (cases "q \<in> set ps")
        case True
        then show ?thesis using x(2) r(4) by simp
      next
        case q: False
        then have "x \<in> set (set_path (path_of virt) ?e (mapped 4 ?m p))" using x(1,2) r(3) by simp
        then show ?thesis using False e' q x(1) by (auto simp: set_path_def split: if_splits)
      qed
      then have "count_list (all_leaves ?m (p # ps)) (pte_addr (snd x)) = 1" using isolatedD(1) [OF iso x(1) _ x(3)] by simp
      then show ?thesis using cnt [OF False] by linarith
    qed
  qed
qed

subsection \<open>Mapping and unmapping through the crate\<close>

lemma bit_page_base: "bit (page_base a) n \<longleftrightarrow> bit a n \<and> 12 \<le> n"
proof -
  have "(0xFFF :: u64) = mask 12" by (simp add: mask_eq_exp_minus_1)
  then show ?thesis unfolding page_base_def by (auto simp only: bit_and_iff bit_not_iff bit_mask_iff possible_bit_word dest: bit_imp_le_length)
qed

lemma page_base_pte_addr: "pte_addr f = f \<Longrightarrow> page_base f = f"
  using bit_pte_addr [of f] by (intro bit_word_eqI) (auto simp: bit_page_base)

lemma path_of_page_base: "path_of (page_base virt) = path_of virt" "lower_half (page_base virt) = lower_half virt"
proof -
  have "page_index n (page_base virt) = page_index n virt" if "12 \<le> n" for n
  proof -
    have "drop_bit n (page_base virt) = drop_bit n virt" using that by (intro bit_word_eqI) (simp add: bit_drop_bit_eq bit_page_base)
    then show ?thesis by (simp add: page_index_def)
  qed
  then show "path_of (page_base virt) = path_of virt" "lower_half (page_base virt) = lower_half virt"
    by (simp_all add: path_of_def lower_half_def)
qed

lemma granted_spaces:
  assumes ok: "spaces_ok ps v" and g: "granted N [] (vm_pmm v) s"
  shows "spaces_ok ps (v\<lparr>vm_pmm := s\<rparr>)" "f \<in> set N \<Longrightarrow> f \<notin> set (all_tables (vm_mem v) ps) \<and> f \<notin> set (all_leaves (vm_mem v) ps)"
proof -
  have N: "is_free (vm_pmm v) f" if "f \<in> set N" for f using g that by (simp add: granted_def)
  show new: "f \<notin> set (all_tables (vm_mem v) ps) \<and> f \<notin> set (all_leaves (vm_mem v) ps)" if "f \<in> set N" for f
    using N [OF that] spaces_okD(3,4) [OF ok, of f] by auto
  have h: "holders s x = (if x \<in> set N then 1 else holders (vm_pmm v) x)" if "managed (vm_pmm v) x" for x using g that by (simp add: granted_def)
  have mg: "managed s = managed (vm_pmm v)" using g by (rule granted_managed)
  have "droppable (all_tables (vm_mem v) ps) (all_leaves (vm_mem v) ps) s"
  proof -
    have "managed (vm_pmm v) x \<and> holders s x = 1" if "x \<in> set (all_tables (vm_mem v) ps)" for x
      using spaces_okD(3) [OF ok that] h [of x] new [of x] that by auto
    moreover have "managed (vm_pmm v) x \<and> count_list (all_leaves (vm_mem v) ps) x \<le> holders s x \<and> x \<notin> set (all_tables (vm_mem v) ps)"
      if "x \<in> set (all_leaves (vm_mem v) ps)" for x
      using spaces_okD(4) [OF ok that] h [of x] new [of x] that by auto
    moreover have "pmm_inv s" using g by (simp add: granted_def)
    ultimately show ?thesis using spaces_okD(2) [OF ok] unfolding droppable_def mg by blast
  qed
  then show "spaces_ok ps (v\<lparr>vm_pmm := s\<rparr>)" using spaces_okD(5) [OF ok] by (simp add: spaces_ok_def)
qed

lemma dropped_spaces:
  assumes ok: "spaces_ok ps v" and d: "dropped ts ls (vm_pmm v) s"
    and "set ts \<inter> set (all_tables (vm_mem v) ps) = {}" "set ts \<inter> set (all_leaves (vm_mem v) ps) = {}" "set ls \<inter> set (all_tables (vm_mem v) ps) = {}"
    and c: "\<And>f. f \<in> set (all_leaves (vm_mem v) ps) \<Longrightarrow> count_list (all_leaves (vm_mem v) ps) f + count_list ls f \<le> holders (vm_pmm v) f"
  shows "spaces_ok ps (v\<lparr>vm_pmm := s\<rparr>)"
proof -
  have h: "holders s x = (if x \<in> set ts then 0 else holders (vm_pmm v) x - count_list ls x)" if "managed (vm_pmm v) x" for x
    using d that by (simp add: dropped_def)
  have mg: "managed s = managed (vm_pmm v)" using d by (intro managed_cong) (simp add: dropped_def)
  have "droppable (all_tables (vm_mem v) ps) (all_leaves (vm_mem v) ps) s"
  proof -
    have "managed (vm_pmm v) x \<and> holders s x = 1" if "x \<in> set (all_tables (vm_mem v) ps)" for x
    proof -
      have "x \<notin> set ts" "count_list ls x = 0" using that assms(3,5) by (auto simp: count_list_0_iff)
      then show ?thesis using spaces_okD(3) [OF ok that] h [of x] by simp
    qed
    moreover have "managed (vm_pmm v) x \<and> count_list (all_leaves (vm_mem v) ps) x \<le> holders s x \<and> x \<notin> set (all_tables (vm_mem v) ps)"
      if "x \<in> set (all_leaves (vm_mem v) ps)" for x
      using spaces_okD(4) [OF ok that] h [of x] c [OF that] that assms(4) by auto
    moreover have "pmm_inv s" using d by (simp add: dropped_def)
    ultimately show ?thesis using spaces_okD(2) [OF ok] unfolding droppable_def mg by blast
  qed
  then show ?thesis using spaces_okD(5) [OF ok] by (simp add: spaces_ok_def)
qed

lemma sexpect_value: "sexpect msg m v = (Inr x, v') \<longleftrightarrow> m v = (Inr x, v')"
  by (auto simp: sexpect_def split: prod.splits sum.splits fault.splits)

context page_mapper
begin

text \<open>A frame fresh from the allocator becomes a page of one address space.\<close>

lemma map_page_new:
  assumes iso: "isolated (p # ps) v" and g: "granted [f] [] (vm_pmm v) s" "pte_addr f = f" and low: "lower_half virt" and fl: "leaf_flags fl"
    and r: "map_page mp p virt f fl (v\<lparr>vm_pmm := s\<rparr>) = (Inr (), v')"
  shows "isolated (p # ps) v'" "path_of virt \<notin> fst ` set (mapped 4 (vm_mem v) p)"
    "mset (mapped 4 (vm_mem v') p) = add_mset (path_of virt, f OR fl) (mset (mapped 4 (vm_mem v) p))"
    "q \<in> set ps \<Longrightarrow> mapped 4 (vm_mem v') q = mapped 4 (vm_mem v) q"
    "h \<in> set (all_leaves (vm_mem v) (p # ps)) \<or> h = f \<Longrightarrow> n < 4096 \<Longrightarrow> vm_mem v' (h + of_nat n) = vm_mem v (h + of_nat n)"
    "no_huge 4 (vm_mem v) p \<Longrightarrow> no_huge 4 (vm_mem v') p" "vm_cr3 v' = vm_cr3 v" "vm_kernel_pml4 v' = vm_kernel_pml4 v"
proof -
  let ?m = "vm_mem v" and ?v = "v\<lparr>vm_pmm := s\<rparr>"
  note ok = isolatedD(2) [OF iso]
  note ok1 = granted_spaces(1) [OF ok g(1)]
  have new: "f \<notin> set (all_tables ?m (p # ps))" "f \<notin> set (all_leaves ?m (p # ps))" using granted_spaces(2) [OF ok g(1), of f] by simp_all
  have leaf: "pte_addr (f OR fl) = f" using fl g(2) by (simp add: leaf_flags_def)
  have f: "managed s f" "0 < holders s f" using g(1) granted_managed [OF g(1)] by (simp_all add: granted_def)
  have run: "map_to mp allocate_frame p (page_base virt) f fl ?v = (Inr (), v')"
    using r page_base_pte_addr [OF g(2)] by (simp add: map_page_def sexpect_value)
  have eff: "map_effect 4 p (path_of virt) (f OR fl) ?v (Inr (), v')"
    using map_to_effect [OF ok1, of "page_base virt" f fl] low fl g(2) run by (simp add: path_of_page_base)
  note sp = map_effect_spaces [OF ok1 eff, unfolded leaf]
  have sp': "spaces_ok (p # ps) v'" "q \<in> set ps \<Longrightarrow> mapped 4 (vm_mem v') q = mapped 4 ?m q"
      "h \<in> set (all_leaves ?m (p # ps)) \<or> h = f \<Longrightarrow> n < 4096 \<Longrightarrow> vm_mem v' (h + of_nat n) = ?m (h + of_nat n)" for q h n
    using sp f new by simp_all
  then show "q \<in> set ps \<Longrightarrow> mapped 4 (vm_mem v') q = mapped 4 ?m q"
    "h \<in> set (all_leaves ?m (p # ps)) \<or> h = f \<Longrightarrow> n < 4096 \<Longrightarrow> vm_mem v' (h + of_nat n) = ?m (h + of_nat n)" by blast+
  from eff obtain m' s' N where e: "v' = ?v\<lparr>vm_mem := m', vm_pmm := s'\<rparr>" "no_huge 4 ?m p \<and> \<not> pte_huge (f OR fl) \<longrightarrow> no_huge 4 m' p"
      "map_result 4 p (path_of virt) (f OR fl) ?m m' s' (Inr ())"
    unfolding map_effect_def by auto
  show new_path: "path_of virt \<notin> fst ` set (mapped 4 ?m p)"
    and grows: "mset (mapped 4 (vm_mem v') p) = add_mset (path_of virt, f OR fl) (mset (mapped 4 ?m p))"
    using e(1,3) by (simp_all add: map_result_def)
  show "vm_cr3 v' = vm_cr3 v" "vm_kernel_pml4 v' = vm_kernel_pml4 v" using e(1) by simp_all
  have "\<not> pte_huge (f OR fl)"
    using fl arg_cong [OF g(2), of "\<lambda>w. bit w 7"] by (simp add: leaf_flags_def pte_huge_def bit_or_iff bit_pte_addr)
  then show "no_huge 4 ?m p \<Longrightarrow> no_huge 4 (vm_mem v') p" using e(1,2) by simp
  have ls: "all_leaves (vm_mem v') ps = all_leaves ?m ps" using sp'(2) by (simp add: all_leaves_def leaves_def cong: map_cong)
  have lp: "mset (leaves 4 (vm_mem v') p) = add_mset f (mset (leaves 4 ?m p))" using mset_leaves_add [OF grows] leaf by simp
  have cnt: "count_list (all_leaves (vm_mem v') (p # ps)) h = count_list (all_leaves ?m (p # ps)) h + (if h = f then 1 else 0)" for h
    using arg_cong [OF lp, of "\<lambda>M. count M h"] by (cases "h = f") (simp_all add: count_mset ls)
  show "isolated (p # ps) v'"
  proof (rule isolatedI [OF sp'(1)])
    fix q x
    assume x: "q \<in> set (p # ps)" "x \<in> set (mapped 4 (vm_mem v') q)" "pte_writable (snd x)"
    show "count_list (all_leaves (vm_mem v') (p # ps)) (pte_addr (snd x)) \<le> 1"
    proof (cases "pte_addr (snd x) = f")
      case True
      have "count_list (all_leaves ?m (p # ps)) f = 0" using new(2) unfolding count_list_0_iff .
      then show ?thesis unfolding cnt True by simp
    next
      case False
      have "x \<in> set (mapped 4 ?m q)"
      proof (cases "q \<in> set ps")
        case True
        then show ?thesis using x(2) sp'(2) by simp
      next
        case q: False
        then have "x \<in># mset (mapped 4 (vm_mem v') p)" using x(1,2) by simp
        then have "x = (path_of virt, f OR fl) \<or> x \<in> set (mapped 4 ?m p)" unfolding grows by simp
        then show ?thesis using False leaf q x(1) by auto
      qed
      then have "count_list (all_leaves ?m (p # ps)) (pte_addr (snd x)) = 1" by (rule isolatedD(1) [OF iso x(1) _ x(3)])
      then show ?thesis unfolding cnt using False by simp
    qed
  qed
qed

text \<open>Removing a page and giving up its frame.\<close>

lemma unmap_page_effect:
  assumes "spaces_ok (p # ps) v" "lower_half virt" "unmap_page mp p virt v = (Inr f, v')"
  shows "unmap_effect p (path_of virt) v (Inr f, v')"
  using unmap_effect [OF assms(1), of "page_base virt"] assms(2,3) by (simp add: unmap_page_def sexpect_value path_of_page_base)

lemma unmap_page_isolated:
  assumes iso: "isolated (p # ps) v" and low: "lower_half virt" and r: "unmap_page mp p virt v = (Inr f, v1)"
    and d: "decref f (vm_pmm v1) = Inr s \<or> free_frame f (vm_pmm v1) = Inr s"
  shows "isolated (p # ps) (v1\<lparr>vm_pmm := s\<rparr>)"
proof -
  let ?m = "vm_mem v"
  note ok = isolatedD(2) [OF iso]
  note eff = unmap_page_effect [OF ok low r]
  note sp = unmap_effect_spaces [OF ok eff]
  have inv: "pmm_inv (vm_pmm v)" by (rule spaces_okD(1) [OF ok])
  have t: "total_frames (vm_pmm v) \<le> MAX_FRAMES" using inv by (simp add: pmm_inv_def)
  have ok': "spaces_ok (p # ps) (v1\<lparr>vm_pmm := s\<rparr>)"
    using d
  proof
    assume "decref f (vm_pmm v1) = Inr s"
    moreover have "droppable [] [f] (vm_pmm v1)" using inv sp(4,5,6) by (simp add: droppable_def)
    ultimately have "dropped [] [f] (vm_pmm v1) s" by (metis decref_drops sum.inject(2))
    then show ?thesis
    proof (rule dropped_spaces [OF sp(1)])
      fix g
      assume "g \<in> set (all_leaves (vm_mem v1) (p # ps))"
      then have "count_list (all_leaves (vm_mem v1) (p # ps)) g \<le> holders (vm_pmm v1) g" using spaces_okD(4) [OF sp(1)] by simp
      then show "count_list (all_leaves (vm_mem v1) (p # ps)) g + count_list [f] g \<le> holders (vm_pmm v1) g"
        using sp(4,6) by (cases "g = f") simp_all
    qed (use sp(7) in auto)
  next
    assume fr: "free_frame f (vm_pmm v1) = Inr s"
    then have "holders (vm_pmm v) f = 1" using t sp(4) by (simp add: free_frame_Inr holders_def)
    then have z: "count_list (all_leaves (vm_mem v1) (p # ps)) f = 0" and "droppable [f] [] (vm_pmm v1)"
      using inv sp(4,5,6) by (simp_all add: droppable_def)
    then have "dropped [f] [] (vm_pmm v1) s" using fr by (metis free_frame_drops sum.inject(2))
    then show ?thesis
    proof (rule dropped_spaces [OF sp(1)])
      show "set [f] \<inter> set (all_leaves (vm_mem v1) (p # ps)) = {}" using z unfolding count_list_0_iff by simp
    qed (use sp(7) spaces_okD(4) [OF sp(1)] in auto)
  qed
  from eff obtain e m' where e: "v1 = v\<lparr>vm_mem := m'\<rparr>" "mapped 4 m' p = filter (\<lambda>x. fst x \<noteq> path_of virt) (mapped 4 ?m p)"
    unfolding unmap_effect_def prod.case sum.case by blast
  show ?thesis
  proof (rule isolated_mono [OF iso ok'])
    fix q x
    assume x: "q \<in> set (p # ps)" "x \<in> set (mapped 4 (vm_mem (v1\<lparr>vm_pmm := s\<rparr>)) q)" "pte_writable (snd x)"
    have "x \<in> set (mapped 4 ?m q)" using x(1,2) sp(2) e by auto
    moreover have ls: "all_leaves m' ps = all_leaves ?m ps" using sp(2) by (simp add: all_leaves_def leaves_def e(1) cong: map_cong)
    moreover have "count_list (leaves 4 m' p) g \<le> count_list (leaves 4 ?m p) g" for g
    proof -
      have "mset (mapped 4 m' p) \<subseteq># mset (mapped 4 ?m p)" by (simp add: e(2))
      then have "mset (leaves 4 m' p) \<subseteq># mset (leaves 4 ?m p)" unfolding leaves_def mset_map by (rule image_mset_subseteq_mono)
      from mset_subset_eq_count [OF this, of g] show ?thesis by (simp only: count_mset)
    qed
    ultimately show "(\<exists>q0 \<in> set (p # ps). x \<in> set (mapped 4 ?m q0)) \<and>
        count_list (all_leaves (vm_mem (v1\<lparr>vm_pmm := s\<rparr>)) (p # ps)) (pte_addr (snd x)) \<le> count_list (all_leaves ?m (p # ps)) (pte_addr (snd x))"
      using x(1) by (auto simp: e(1))
  qed
qed

end

end
