(* ===== verification/Vm_Safety.thy ===== *)
theory Vm_Safety
  imports Isolation
begin

text \<open>
  The address spaces as a transition system: creation, fork, write faults, release, mapping and unmapping of pages,
  and the stores of user programs, in any order. In every reachable state the address spaces are isolated.
\<close>

subsection \<open>Steps\<close>

text \<open>The kernel fills a frame: only bytes of the frame change.\<close>

definition only_frame :: "u64 \<Rightarrow> phys_mem \<Rightarrow> phys_mem \<Rightarrow> bool" where
  "only_frame f m m' \<longleftrightarrow> (\<forall>x n. page_aligned x \<and> x \<noteq> f \<and> n < 4096 \<longrightarrow> m' (x + of_nat n) = m (x + of_nat n))"

type_synonym vm_state = "u64 list \<times> vmem"

inductive vm_step :: "mapper \<Rightarrow> vm_state \<Rightarrow> vm_state \<Rightarrow> bool" for mp where
  create: "page_aligned (vm_kernel_pml4 v) \<Longrightarrow> create_user_pml4 (vm_kernel_pml4 v) v = (Inr p :: (unit, u64) outcome, v') \<Longrightarrow>
    vm_step mp (ps, v) (p # ps, v')"
| fork: "mset ps = mset (p # ch # qs) \<Longrightarrow> empty_space (vm_mem v) ch \<Longrightarrow> count_room p v \<Longrightarrow>
    copy_user_pages p ch v = (Inr (), v') \<Longrightarrow> vm_step mp (ps, v) (ps, v')"
| fork_failed: "mset ps = mset (p # ch # qs) \<Longrightarrow> empty_space (vm_mem v) ch \<Longrightarrow> count_room p v \<Longrightarrow>
    copy_user_pages p ch v = (Inl (Err ()), v') \<Longrightarrow> vm_step mp (ps, v) (p # qs, v')"
| fault: "vm_cr3 v \<in> set ps \<Longrightarrow> lower_half virt \<Longrightarrow> handle_cow_fault virt v = (Inr (), v') \<Longrightarrow> vm_step mp (ps, v) (ps, v')"
| exit: "mset ps = mset (p # qs) \<Longrightarrow> free_user_address_space p v = (Inr () :: (unit, unit) outcome, v') \<Longrightarrow> vm_step mp (ps, v) (qs, v')"
| map_new: "p \<in> set ps \<Longrightarrow> lower_half virt \<Longrightarrow> leaf_flags fl \<Longrightarrow> pmm_alloc v = (Inr (Some f) :: (unit, u64 option) outcome, v1) \<Longrightarrow>
    only_frame f (vm_mem v1) m \<Longrightarrow> map_page mp p virt f fl (v1\<lparr>vm_mem := m\<rparr>) = (Inr () :: (unit, unit) outcome, v') \<Longrightarrow>
    vm_step mp (ps, v) (ps, v')"
| fill: "page_aligned f \<Longrightarrow> f \<notin> set (all_tables (vm_mem v) ps) \<Longrightarrow> only_frame f (vm_mem v) m \<Longrightarrow> vm_step mp (ps, v) (ps, v\<lparr>vm_mem := m\<rparr>)"
| unmap: "p \<in> set ps \<Longrightarrow> lower_half virt \<Longrightarrow> unmap_page mp p virt v = (Inr f :: (unit, u64) outcome, v1) \<Longrightarrow>
    decref f (vm_pmm v1) = Inr s \<or> free_frame f (vm_pmm v1) = Inr s \<Longrightarrow> vm_step mp (ps, v) (ps, v1\<lparr>vm_pmm := s\<rparr>)"
| store: "p \<in> set ps \<Longrightarrow> lower_half virt \<Longrightarrow> user_store v p virt b = Some v' \<Longrightarrow> vm_step mp (ps, v) (ps, v')"
| switch: "vm_step mp (ps, v) (ps, v\<lparr>vm_cr3 := p\<rparr>)"

subsection \<open>Every step keeps the address spaces isolated\<close>

lemma front: "p \<in> set ps \<Longrightarrow> mset (p # remove1 p ps) = mset ps"
  by simp

lemma only_frame_same:
  assumes "only_frame f (vm_mem v) m" "spaces_ok ps v" "f \<notin> set (all_tables (vm_mem v) ps)"
  shows "q \<in> set ps \<Longrightarrow> mapped 4 m q = mapped 4 (vm_mem v) q" "all_tables m ps = all_tables (vm_mem v) ps" "all_leaves m ps = all_leaves (vm_mem v) ps"
proof -
  have e: "entry m x i = entry (vm_mem v) x i" if "x \<in> set (all_tables (vm_mem v) ps)" "i < 512" for x i
  proof (rule entry_cong [OF _ that(2)])
    fix n :: nat
    assume "n < 4096"
    then show "m (x + of_nat n) = vm_mem v (x + of_nat n)"
      using assms(1,3) spaces_okD(3) [OF assms(2) that(1)] that(1) by (auto simp: only_frame_def managed_def)
  qed
  show "q \<in> set ps \<Longrightarrow> mapped 4 m q = mapped 4 (vm_mem v) q" by (rule same_spaces(1) [OF e])
  show "all_tables m ps = all_tables (vm_mem v) ps" by (rule same_spaces(3) [OF e])
  show "all_leaves m ps = all_leaves (vm_mem v) ps" by (rule same_spaces(4) [OF e])
qed

lemma fill_isolated:
  assumes "isolated ps v" "f \<notin> set (all_tables (vm_mem v) ps)" "only_frame f (vm_mem v) m"
  shows "isolated ps (v\<lparr>vm_mem := m\<rparr>)"
  using assms only_frame_same [OF assms(3) isolatedD(2) [OF assms(1)] assms(2)]
  by (simp add: isolated_def spaces_ok_def)

lemma isolated_cr3 [simp]: "isolated ps (v\<lparr>vm_cr3 := p\<rparr>) = isolated ps v"
  by (simp add: isolated_def spaces_ok_def)

lemma granted_isolated: "isolated ps v \<Longrightarrow> granted N [] (vm_pmm v) s \<Longrightarrow> isolated ps (v\<lparr>vm_pmm := s\<rparr>)"
  using granted_spaces(1) [OF isolatedD(2)] by (auto simp: isolated_def)

lemma pmm_alloc_Some:
  assumes "pmm_inv (vm_pmm v)" "pmm_alloc v = (Inr (Some f), v1)"
  obtains s where "v1 = v\<lparr>vm_pmm := s\<rparr>" "granted [f] [] (vm_pmm v) s" "pte_addr f = f"
  using assms(1)
proof (cases rule: alloc_grants)
  case 1
  then show ?thesis using assms(2) by (simp add: pmm_alloc_def)
next
  case (2 f' s)
  then show ?thesis using assms(2) that by (auto simp: pmm_alloc_def)
qed

lemma made_private_cr3:
  "made_private p ps virt e (v\<lparr>vm_cr3 := c\<rparr>) v' = made_private p ps virt e v v'"
  "made_private p ps virt e v (v'\<lparr>vm_cr3 := c\<rparr>) = made_private p ps virt e v v'"
  by (simp_all add: made_private_def spaces_ok_def)

lemma handle_cow_fault_private:
  assumes ok: "spaces_ok (vm_cr3 v # ps) v" and low: "lower_half virt" and r: "handle_cow_fault virt v = (Inr (), v')"
  obtains t i where "walk_page_table_to_pte (vm_mem v) (vm_cr3 v) virt = Some (t, i)"
    "made_private (vm_cr3 v) ps virt (entry (vm_mem v) t i) v v'"
proof -
  let ?v = "v\<lparr>vm_cr3 := vm_kernel_pml4 v\<rparr>"
  obtain v1 where v1: "cow_fault (vm_cr3 v) virt ?v = (Inr (), v1)" "v' = v1\<lparr>vm_cr3 := vm_cr3 v\<rparr>"
    using r by (auto simp: handle_cow_fault_def with_kernel_pml4_def split: prod.splits sum.splits fault.splits)
  obtain t i where w: "walk_page_table_to_pte (vm_mem v) (vm_cr3 v) virt = Some (t, i)"
    using v1(1) by (auto simp: cow_fault_def sfail_def split: option.splits)
  have "spaces_ok (vm_cr3 v # ps) ?v" using ok by (simp add: spaces_ok_def)
  from cow_fault_ok [OF this low, of t i "entry (vm_mem v) t i"] w v1
  have "made_private (vm_cr3 v) ps virt (entry (vm_mem v) t i) ?v v1" by simp
  then show ?thesis using that [OF w] v1(2) by (simp add: made_private_cr3)
qed

lemma vm_step_isolated:
  assumes mp: "page_mapper mp" and "vm_step mp (ps, v) (ps', v')" "isolated ps v"
  shows "isolated ps' v'"
  using assms(2,3)
proof (cases rule: vm_step.cases)
  case (create p)
  then show ?thesis using create_isolated [OF assms(3)] by blast
next
  case (fork p ch qs)
  have iso: "isolated (p # ch # qs) v" using assms(3) isolated_mset [OF fork(2)] by simp
  have "shared_with_child p ch qs v v'" using copy_user_pages_ok [OF isolatedD(2) [OF iso] fork(3,4)] fork(5) by simp
  then have "isolated (p # ch # qs) v'" by (rule fork_isolated [OF iso fork(3)])
  then show ?thesis using isolated_mset [OF fork(2)] fork(1) by simp
next
  case (fork_failed p ch qs)
  have iso: "isolated (p # ch # qs) v" using assms(3) isolated_mset [OF fork_failed(2)] by simp
  have "rolled_back p qs v v'" using copy_user_pages_ok [OF isolatedD(2) [OF iso] fork_failed(3,4)] fork_failed(5) by simp
  then show ?thesis using fork_failed_isolated [OF iso] fork_failed(1) by simp
next
  case (fault virt)
  let ?qs = "remove1 (vm_cr3 v) ps"
  have iso: "isolated (vm_cr3 v # ?qs) v" using assms(3) isolated_mset [OF front [OF fault(2)]] by simp
  note ok = isolatedD(2) [OF iso]
  obtain t i where w: "walk_page_table_to_pte (vm_mem v) (vm_cr3 v) virt = Some (t, i)"
      "made_private (vm_cr3 v) ?qs virt (entry (vm_mem v) t i) v v'"
    using handle_cow_fault_private [OF ok fault(3,4)] by blast
  have "slot 4 (vm_mem v) (vm_cr3 v) (path_of virt) = Some (t, i)"
    by (rule walk_slot [OF w(1) fault(3) spaces_okD(5) [OF ok]]) simp
  then have "isolated (vm_cr3 v # ?qs) v'" using w(2) by (rule fault_isolated [OF iso _ refl])
  then show ?thesis using isolated_mset [OF front [OF fault(2)]] fault(1) by simp
next
  case (exit p)
  have "isolated (p # ps') v" using assms(3) isolated_mset [OF exit(1)] by simp
  then show ?thesis using exit(2) by (rule free_isolated)
next
  case (map_new p virt fl f v1 m)
  let ?qs = "remove1 p ps"
  obtain s where s: "v1 = v\<lparr>vm_pmm := s\<rparr>" "granted [f] [] (vm_pmm v) s" "pte_addr f = f"
    using pmm_alloc_Some [OF spaces_okD(1) [OF isolatedD(2) [OF assms(3)]] map_new(5)] by blast
  let ?v = "v\<lparr>vm_mem := m\<rparr>"
  have new: "f \<notin> set (all_tables (vm_mem v) ps)" using granted_spaces(2) [OF isolatedD(2) [OF assms(3)] s(2)] by simp
  have "isolated ps ?v" using fill_isolated [OF assms(3) new] map_new(6) s(1) by simp
  then have iso: "isolated (p # ?qs) ?v" using isolated_mset [OF front [OF map_new(2)]] by simp
  have "map_page mp p virt f fl (?v\<lparr>vm_pmm := s\<rparr>) = (Inr () :: (unit, unit) outcome, v')"
    using map_new(7) s(1) by (simp add: update_order)
  then have "isolated (p # ?qs) v'" using s(2,3) map_new(3,4) by (intro page_mapper.map_page_new(1) [OF mp iso]) simp_all
  then show ?thesis using isolated_mset [OF front [OF map_new(2)]] map_new(1) by simp
next
  case (fill f m)
  then show ?thesis using fill_isolated [OF assms(3)] by simp
next
  case (unmap p virt f v1 s)
  have iso: "isolated (p # remove1 p ps) v" using assms(3) isolated_mset [OF front [OF unmap(3)]] by simp
  then have "isolated (p # remove1 p ps) (v1\<lparr>vm_pmm := s\<rparr>)" by (rule page_mapper.unmap_page_isolated [OF mp _ unmap(4,5,6)])
  then show ?thesis using isolated_mset [OF front [OF unmap(3)]] unmap(1,2) by simp
next
  case (store p virt b)
  have iso: "isolated (p # remove1 p ps) v" using assms(3) isolated_mset [OF front [OF store(2)]] by simp
  then have "isolated (p # remove1 p ps) v'" using store(3,4) by (rule store_isolated(1))
  then show ?thesis using isolated_mset [OF front [OF store(2)]] store(1) by simp
next
  case (switch p)
  then show ?thesis using assms(3) by simp
qed

lemma vm_reachable_isolated:
  assumes "page_mapper mp" "(vm_step mp)\<^sup>*\<^sup>* ([], v0) (ps, v)" "pmm_inv (vm_pmm v0)"
  shows "isolated ps v"
proof -
  have "isolated [] v0" using assms(3) by (simp add: isolated_def spaces_ok_def droppable_def)
  moreover have "isolated (fst y) (snd y)" if "(vm_step mp)\<^sup>*\<^sup>* x y" "isolated (fst x) (snd x)" for x y
    using that by (induction rule: rtranclp_induct) (auto dest: vm_step_isolated [OF assms(1)])
  ultimately show ?thesis using assms(2) by fastforce
qed

end
