(* ===== verification/Vm_Claims.thy ===== *)
theory Vm_Claims
  imports Vm_Safety
begin

text \<open>
  What the operations on address spaces mean for the programs that run in them: fork duplicates what a process
  reads, a write fault makes a page writable without changing what anyone reads, release returns exactly the frames an
  address space held, and a store is seen by the process that made it only.
\<close>

subsection \<open>What programs read and write\<close>

lemma user_load_eqI:
  assumes "pte_addr p = p" "pte_addr p' = p'" "lower_half virt"
    "rel_option (\<lambda>e e'. \<forall>n < 4096. vm_mem v' (pte_addr e' + of_nat n) = vm_mem v (pte_addr e + of_nat n))
      (map_of (mapped 4 (vm_mem v) p) (path_of virt)) (map_of (mapped 4 (vm_mem v') p') (path_of virt))"
  shows "user_load v' p' virt = user_load v p virt"
  unfolding user_load_mapped [OF assms(1,3)] user_load_mapped [OF assms(2,3)]
  using assms(4)
proof (cases rule: option.rel_cases)
  case (Some e e')
  have "vm_mem v' (pte_addr e' + of_nat (unat (virt AND 0xFFF))) = vm_mem v (pte_addr e + of_nat (unat (virt AND 0xFFF)))"
    using Some(3) byte_offset(1) [of virt] by (simp only:)
  then show "map_option (\<lambda>e. vm_mem v' (pte_addr e + (virt AND 0xFFF))) (map_of (mapped 4 (vm_mem v') p') (path_of virt)) =
      map_option (\<lambda>e. vm_mem v (pte_addr e + (virt AND 0xFFF))) (map_of (mapped 4 (vm_mem v) p) (path_of virt))"
    using Some(1,2) by simp
qed simp

lemma user_store_mapped:
  assumes "pte_addr p = p" "lower_half virt"
  shows "user_store v p virt b = (case map_of (mapped 4 (vm_mem v) p) (path_of virt) of None \<Rightarrow> None
    | Some e \<Rightarrow> if pte_writable e then Some (v\<lparr>vm_mem := (vm_mem v)(pte_addr e + (virt AND 0xFFF) := b)\<rparr>) else None)"
proof (cases "walk_page_table_to_pte (vm_mem v) p virt")
  case None
  then show ?thesis using walk_None [OF None assms(1)] by (simp add: user_store_def map_of_eq_None_iff [THEN iffD2])
next
  case (Some ti)
  then obtain t i where w: "walk_page_table_to_pte (vm_mem v) p virt = Some (t, i)" by (cases ti) auto
  then show ?thesis using map_of_slot [OF walk_slot [OF w assms(2,1)]] by (simp add: user_store_def Let_def)
qed

lemma user_cr3:
  "user_load (v\<lparr>vm_cr3 := c\<rparr>) p virt = user_load v p virt"
  "user_store (v\<lparr>vm_cr3 := c\<rparr>) p virt b = None \<longleftrightarrow> user_store v p virt b = None"
  by (auto simp: user_load_def user_store_def Let_def split: option.splits)

lemma mapped_leaf: "map_of (mapped 4 m p) path = Some e \<Longrightarrow> p \<in> set ps \<Longrightarrow> pte_addr e \<in> set (all_leaves m ps)"
  using leaf_of_mapped map_of_SomeD by fastforce

text \<open>All address spaces of \<open>ps\<close> read the same as before.\<close>

definition reads_same :: "u64 list \<Rightarrow> vmem \<Rightarrow> vmem \<Rightarrow> bool" where
  "reads_same ps v v' \<longleftrightarrow> (\<forall>q \<in> set ps. \<forall>virt. lower_half virt \<longrightarrow> user_load v' q virt = user_load v q virt)"

lemma reads_same_mapped:
  assumes "\<And>q. q \<in> set ps \<Longrightarrow> mapped 4 (vm_mem v') q = mapped 4 (vm_mem v) q" "\<And>q. q \<in> set ps \<Longrightarrow> pte_addr q = q"
    "\<And>f n. f \<in> set (all_leaves (vm_mem v) ps) \<Longrightarrow> n < 4096 \<Longrightarrow> vm_mem v' (f + of_nat n) = vm_mem v (f + of_nat n)"
  shows "reads_same ps v v'"
  unfolding reads_same_def
proof (intro ballI allI impI)
  fix q virt
  assume q: "q \<in> set ps" "lower_half virt"
  show "user_load v' q virt = user_load v q virt"
  proof (rule user_load_eqI [OF assms(2) [OF q(1)] assms(2) [OF q(1)] q(2)])
    show "rel_option (\<lambda>e e'. \<forall>n < 4096. vm_mem v' (pte_addr e' + of_nat n) = vm_mem v (pte_addr e + of_nat n))
      (map_of (mapped 4 (vm_mem v) q) (path_of virt)) (map_of (mapped 4 (vm_mem v') q) (path_of virt))"
      unfolding assms(1) [OF q(1)] using assms(3) mapped_leaf [OF _ q(1)]
      by (cases "map_of (mapped 4 (vm_mem v) q) (path_of virt)") auto
  qed
qed

lemma map_of_apsnd: "map_of (map (apsnd f) xs) k = map_option f (map_of xs k)"
  by (induction xs) auto

lemma entries_all_map_of: "entries_all R xs ys \<Longrightarrow> rel_option R (map_of xs k) (map_of ys k)"
  unfolding entries_all_def by (induction rule: list_all2_induct) (auto simp: split_beta)

lemma spaces_front: "spaces_ok (p # ps) v \<Longrightarrow> pte_addr p = p"
  using spaces_okD(5) by simp

subsection \<open>Fork\<close>

lemma shared_reads:
  assumes "shared_with_child p ch ps v v'" "spaces_ok (p # ps) v" "lower_half virt"
  shows "user_load v' p virt = user_load v p virt" "user_load v' ch virt = user_load v p virt" "user_store v' p virt b = None"
    "user_store v' ch virt b = None"
proof -
  let ?m = "vm_mem v" and ?m' = "vm_mem v'"
  have s: "spaces_ok (p # ch # ps) v'" "mapped 4 ?m' p = map (apsnd read_only) (mapped 4 ?m p)" "mapped 4 ?m' ch = map (apsnd read_only) (mapped 4 ?m p)"
      "\<And>f n. f \<in> set (all_leaves ?m (p # ps)) \<Longrightarrow> n < 4096 \<Longrightarrow> ?m' (f + of_nat n) = ?m (f + of_nat n)"
    using assms(1) by (simp_all add: shared_with_child_def)
  have p: "pte_addr p = p" "pte_addr ch = ch" using spaces_okD(5) [OF s(1)] by simp_all
  have r: "rel_option (\<lambda>e e'. \<forall>n < 4096. ?m' (pte_addr e' + of_nat n) = ?m (pte_addr e + of_nat n))
      (map_of (mapped 4 ?m p) (path_of virt)) (map_option read_only (map_of (mapped 4 ?m p) (path_of virt)))"
    using s(4) mapped_leaf [of ?m p "path_of virt" _ "p # ps"] by (cases "map_of (mapped 4 ?m p) (path_of virt)") auto
  show "user_load v' p virt = user_load v p virt" "user_load v' ch virt = user_load v p virt"
    using r by (intro user_load_eqI [OF p(1) _ assms(3)] p; simp add: s(2,3) map_of_apsnd)+
  show "user_store v' p virt b = None" "user_store v' ch virt b = None"
    unfolding user_store_mapped [OF p(1) assms(3)] user_store_mapped [OF p(2) assms(3)] s(2,3) map_of_apsnd
    by (auto split: option.splits)
qed

lemma shared_others:
  assumes "shared_with_child p ch ps v v'" "spaces_ok (p # ch # ps) v" "empty_space (vm_mem v) ch"
  shows "reads_same ps v v'"
proof (rule reads_same_mapped)
  show "pte_addr q = q" if "q \<in> set ps" for q using spaces_okD(5) [OF assms(2)] that by simp
qed (use assms(1) in \<open>auto simp: shared_with_child_def\<close>)

lemma rolled_back_reads:
  assumes "rolled_back p ps v v'" "spaces_ok (p # ps) v"
  shows "reads_same (p # ps) v v'"
proof -
  let ?m = "vm_mem v" and ?m' = "vm_mem v'"
  have s: "entries_all weakened (mapped 4 ?m p) (mapped 4 ?m' p)" "\<And>q. q \<in> set ps \<Longrightarrow> mapped 4 ?m' q = mapped 4 ?m q"
      "\<And>f n. f \<in> set (all_leaves ?m (p # ps)) \<Longrightarrow> n < 4096 \<Longrightarrow> ?m' (f + of_nat n) = ?m (f + of_nat n)"
    using assms(1) by (simp_all add: rolled_back_def)
  have al: "pte_addr q = q" if "q \<in> set (p # ps)" for q using spaces_okD(5) [OF assms(2)] that by simp
  have "reads_same ps v v'" using s(2,3) al by (intro reads_same_mapped) simp_all
  moreover have "user_load v' p virt = user_load v p virt" if low: "lower_half virt" for virt
  proof (rule user_load_eqI [OF _ _ low])
    have "rel_option weakened (map_of (mapped 4 ?m p) (path_of virt)) (map_of (mapped 4 ?m' p) (path_of virt))"
      using s(1) by (rule entries_all_map_of)
    then show "rel_option (\<lambda>e e'. \<forall>n < 4096. ?m' (pte_addr e' + of_nat n) = ?m (pte_addr e + of_nat n))
        (map_of (mapped 4 ?m p) (path_of virt)) (map_of (mapped 4 ?m' p) (path_of virt))"
    proof (cases rule: option.rel_cases)
      case (Some e e')
      have "pte_addr e' = pte_addr e" using weakened_same_target [OF Some(3)] by (simp add: same_target_def)
      then show ?thesis using Some s(3) mapped_leaf [OF Some(1), of "p # ps"] by simp
    qed simp
  qed (use al in simp_all)
  ultimately show ?thesis by (simp add: reads_same_def)
qed

subsection \<open>Write faults\<close>

lemma map_of_set_path: "map_of (set_path k e xs) j = (if j = k then map_option (\<lambda>_. e) (map_of xs j) else map_of xs j)"
  by (induction xs) (auto simp: set_path_def)

lemma two_leaves:
  assumes "x \<in> set xs" "y \<in> set xs" "x \<noteq> y" "h x = h y"
  shows "1 < count_list (map h xs) (h y)"
proof -
  obtain us vs where xs: "xs = us @ x # vs" using assms(1) by (auto dest: split_list)
  then have "h y \<in> set (map h us) \<or> h y \<in> set (map h vs)" using assms(2,3) by auto
  then have "0 < count_list (map h us) (h y) \<or> 0 < count_list (map h vs) (h y)" by (simp only: count_list_pos)
  then show ?thesis using xs assms(4) by auto
qed

lemma private_reads:
  assumes "made_private p ps virt e v v'" "spaces_ok (p # ps) v" "slot 4 (vm_mem v) p (path_of virt) = Some (t, i)" "e = entry (vm_mem v) t i"
  shows "reads_same (p # ps) v v'" "lower_half virt \<Longrightarrow> \<exists>w. user_store v' p virt b = Some w"
proof -
  let ?m = "vm_mem v" and ?m' = "vm_mem v'"
  from assms(1) obtain f where r: "spaces_ok (p # ps) v'" "pte_addr f = f"
      "mapped 4 ?m' p = set_path (path_of virt) (f OR (pte_flags e OR PTE_WRITABLE)) (mapped 4 ?m p)"
      "\<And>q. q \<in> set ps \<Longrightarrow> mapped 4 ?m' q = mapped 4 ?m q"
      "\<And>n. n < 4096 \<Longrightarrow> ?m' (f + of_nat n) = ?m (pte_addr e + of_nat n)" "count_list (all_leaves ?m' (p # ps)) f = 1"
      "\<And>g n. g \<in> set (all_leaves ?m' (p # ps)) \<Longrightarrow> g \<noteq> f \<Longrightarrow> n < 4096 \<Longrightarrow> ?m' (g + of_nat n) = ?m (g + of_nat n)"
    unfolding made_private_def by auto
  let ?e = "f OR (pte_flags e OR PTE_WRITABLE)"
  have e': "pte_addr ?e = f" "pte_writable ?e"
    using new_leaf_entry(1) [OF r(2) slot_present [OF assms(3), folded assms(4)]]
    by (auto simp: pte_writable_def bit_or_iff bit_PTE)
  have al: "pte_addr q = q" if "q \<in> set (p # ps)" for q using spaces_okD(5) [OF assms(2)] that by simp
  have m: "map_of (mapped 4 ?m p) (path_of virt) = Some e" using map_of_slot [OF assms(3)] by (simp add: assms(4))
  have mp: "map_of (mapped 4 ?m' p) path = (if path = path_of virt then Some ?e else map_of (mapped 4 ?m p) path)" for path
    unfolding r(3) map_of_set_path using m by simp
  have inp: "f \<in> set (leaves 4 ?m' p)" using mapped_leaf [of ?m' p "path_of virt" ?e "[p]"] mp e'(1) by simp
  have notin: "f \<notin> set (all_leaves ?m' ps)"
  proof
    assume "f \<in> set (all_leaves ?m' ps)"
    then have "0 < count_list (all_leaves ?m' ps) f" "0 < count_list (leaves 4 ?m' p) f" using inp by (simp_all only: count_list_pos)
    then show False using r(6) by simp
  qed
  have ls: "all_leaves ?m' ps = all_leaves ?m ps" using r(4) by (simp add: all_leaves_def leaves_def cong: map_cong)
  have "reads_same ps v v'" using r(4,7) al notin ls by (intro reads_same_mapped) auto
  moreover have "user_load v' p a = user_load v p a" if low: "lower_half a" for a
  proof (rule user_load_eqI [OF _ _ low])
    show "rel_option (\<lambda>e e'. \<forall>n < 4096. ?m' (pte_addr e' + of_nat n) = ?m (pte_addr e + of_nat n))
        (map_of (mapped 4 ?m p) (path_of a)) (map_of (mapped 4 ?m' p) (path_of a))"
    proof (cases "path_of a = path_of virt")
      case True
      then show ?thesis using m mp e'(1) r(5) by simp
    next
      case False
      then show ?thesis
      proof (cases "map_of (mapped 4 ?m p) (path_of a)")
        case (Some g)
        then have g': "map_of (mapped 4 ?m' p) (path_of a) = Some g" using False mp by simp
        then have "pte_addr g \<in> set (all_leaves ?m' (p # ps))" using mapped_leaf [OF g', of "p # ps"] by simp
        moreover have "pte_addr g \<noteq> f"
        proof
          assume "pte_addr g = f"
          moreover have "(path_of a, g) \<in> set (mapped 4 ?m' p)" "(path_of virt, ?e) \<in> set (mapped 4 ?m' p)"
            using g' mp [of "path_of virt"] by (auto dest: map_of_SomeD)
          ultimately have "1 < count_list (leaves 4 ?m' p) f"
            using False e'(1) two_leaves [of "(path_of a, g)" "mapped 4 ?m' p" "(path_of virt, ?e)" "pte_addr \<circ> snd"] by (simp add: leaves_def)
          then show False using r(6) by simp
        qed
        ultimately show ?thesis using Some g' r(7) by simp
      qed (use False mp in simp)
    qed
  qed (use al in simp_all)
  ultimately show "reads_same (p # ps) v v'" by (simp add: reads_same_def)
  show "\<exists>w. user_store v' p virt b = Some w" if "lower_half virt"
    unfolding user_store_mapped [OF al [OF list.set_intros(1)] that] mp using e'(2) by simp
qed

subsection \<open>An example\<close>

text \<open>Sixteen frames, of which frame 0 is reserved and holds the kernel's empty PML4.\<close>

definition example_pmm :: pmm where
  "example_pmm = \<lparr>bitmap = (\<lambda>i. if i = 0 then 1 else 0), refcounts = (\<lambda>_. 0), total_frames = 16, free_frames = 15\<rparr>"

text \<open>The allocator after the first \<open>n\<close> frames have been taken.\<close>

primrec taken :: "nat \<Rightarrow> pmm" where
  "taken 0 = example_pmm"
| "taken (Suc n) = alloc_at (Suc n) (taken n)"

definition example_vm :: vmem where
  "example_vm = \<lparr>vm_mem = (\<lambda>_. 0), vm_pmm = taken 0, vm_cr3 = 0, vm_kernel_pml4 = 0\<rparr>"

text \<open>Two address spaces, with PML4s in frames 1 and 2; the first maps frame 3 writable at address \<open>0x1000\<close> through tables in frames 4 to 6.\<close>

definition example_mem :: phys_mem where
  "example_mem = set_entry 0x6000 1 0x3007 (set_entry 0x5000 0 0x6007 (zero_frame 0x6000
     (set_entry 0x4000 0 0x5007 (zero_frame 0x5000 (set_entry 0x1000 0 0x4007 (\<lambda>_. 0))))))"

definition example_mapped :: vmem where
  "example_mapped = example_vm\<lparr>vm_mem := example_mem, vm_pmm := taken 6, vm_cr3 := 0x1000\<rparr>"

text \<open>The same after a fork: both programs share frame 3, read-only.\<close>

definition example_forked :: vmem where
  "example_forked = (snd (copy_user_pages 0x1000 0x2000 example_mapped))\<lparr>vm_cr3 := 0x1000\<rparr>"

lemma taken_simps [simp]:
  "total_frames (taken n) = 16" "frame_used (taken n) i \<longleftrightarrow> i \<le> n" "refcounts (taken n) i = (if 0 < i \<and> i \<le> n then 1 else 0)"
proof -
  show "total_frames (taken n) = 16" by (induction n) (simp_all add: example_pmm_def)
  show "frame_used (taken n) i \<longleftrightarrow> i \<le> n"
  proof (induction n)
    case 0
    have b: "bit (1 :: u8) k \<longleftrightarrow> k = 0" for k by (simp add: bit_1_iff)
    have "i div 8 = 0 \<and> i mod 8 = 0 \<longleftrightarrow> i \<le> 0" by presburger
    then show ?case unfolding taken.simps example_pmm_def frame_used_def pmm.simps by (simp only: b bit_0_eq if_distrib [of "\<lambda>w. bit w _"] if_bool_eq_conj bot_apply) auto
  qed auto
  show "refcounts (taken n) i = (if 0 < i \<and> i \<le> n then 1 else 0)" by (induction n) (auto simp: example_pmm_def)
qed

lemma free_set_taken: "free_set (taken n) = {Suc n..<16}"
  by (auto simp: free_set_def)

lemma pmm_inv_taken: "n < 16 \<Longrightarrow> pmm_inv (taken n)"
proof (induction n)
  case 0
  have "free_frames (taken 0) = 15" by (simp add: example_pmm_def)
  then show ?case unfolding pmm_inv_def free_set_taken by (simp add: MAX_FRAMES_def del: taken.simps)
next
  case (Suc n)
  then show ?case using pmm_inv_alloc_at [of "taken n" "Suc n"] by (simp add: free_set_taken)
qed

lemma alloc_taken:
  assumes "n < 15"
  shows "alloc_frame (taken n) = Inr (Some (of_nat (Suc n) * PAGE_SIZE), taken (Suc n))"
proof -
  have "List.find (\<lambda>i. \<not> i \<le> n) [1..<16] = Some (Suc n)"
    using assms unfolding find_Some_iff by (intro exI [of _ n]) auto
  then show ?thesis by (subst alloc_frame_eq) (simp_all add: MAX_FRAMES_def del: taken.simps, simp)
qed

lemma pmm_alloc_taken: "vm_pmm v = taken n \<Longrightarrow> n < 15 \<Longrightarrow> pmm_alloc v = (Inr (Some (of_nat (Suc n) * PAGE_SIZE)), v\<lparr>vm_pmm := taken (Suc n)\<rparr>)"
  by (simp add: pmm_alloc_def alloc_taken)

lemma zero_memory: "zero_frame f (\<lambda>_. 0) = (\<lambda>_. 0)" "copy_bytes a b n (\<lambda>_. 0) = (\<lambda>_. 0)" "entry (\<lambda>_. 0) t i = 0"
proof -
  show "entry (\<lambda>_. 0) t i = 0" by (rule bit_word_eqI) (auto simp: entry_def rd64_def bit_from_le_bytes)
qed (simp_all add: zero_frame_def fill_bytes_def copy_bytes_def fun_eq_iff)

lemma create_taken:
  assumes "vm_pmm v = taken n" "n < 15" "vm_mem v = (\<lambda>_. 0)"
  shows "create_user_pml4 0 v = (Inr (of_nat (Suc n) * PAGE_SIZE), v\<lparr>vm_pmm := taken (Suc n)\<rparr>)"
  using assms by (simp add: create_user_pml4_def create_empty_pml4_def sbind_def pmm_alloc_taken mem_modify_def sreturn_def zero_memory)

lemma example_path: "path_of 0x1000 = [0, 0, 0, 1]" "lower_half 0x1000" "page_base 0x1000 = 0x1000" "page_base 0x3000 = 0x3000"
  by (simp_all add: path_of_def lower_half_def page_index_def page_base_def)

lemma example_entries:
  assumes "i < 512"
  shows "entry example_mem 0x1000 i = (if i = 0 then 0x4007 else 0)" "entry example_mem 0x2000 i = 0"
    "entry example_mem 0x4000 i = (if i = 0 then 0x5007 else 0)" "entry example_mem 0x5000 i = (if i = 0 then 0x6007 else 0)"
    "entry example_mem 0x6000 i = (if i = 1 then 0x3007 else 0)"
  using assms by (simp_all add: example_mem_def zero_frame_def entry_set_entry entry_fill_frame page_aligned_def zero_memory)

lemma allocate_taken:
  "vm_pmm v = taken n \<Longrightarrow> n < 15 \<Longrightarrow>
    allocate_frame v = (Inr (Some (of_nat (Suc n) * PAGE_SIZE)), v\<lparr>vm_pmm := taken (Suc n), vm_mem := zero_frame (of_nat (Suc n) * PAGE_SIZE) (vm_mem v)\<rparr>)"
  by (simp add: allocate_frame_def sbind_def pmm_alloc_taken mem_modify_def sreturn_def del: taken.simps)

lemma next_taken:
  assumes "vm_pmm v = taken n" "n < 15" "entry (vm_mem v) t i = 0"
  shows "next_table allocate_frame fl t i v = (Inr (of_nat (Suc n) * PAGE_SIZE), v\<lparr>vm_pmm := taken (Suc n),
    vm_mem := set_entry t i (of_nat (Suc n) * PAGE_SIZE OR fl) (zero_frame (of_nat (Suc n) * PAGE_SIZE) (vm_mem v))\<rparr>)"
  using assms by (simp add: next_table_def allocate_taken sbind_def mem_modify_def sreturn_def pte_present_def del: taken.simps)

lemma example_map:
  "map_page reference_mapper 0x1000 0x1000 0x3000 7 (example_vm\<lparr>vm_pmm := taken 3\<rparr>) =
    (Inr (), example_vm\<lparr>vm_mem := example_mem, vm_pmm := taken 6\<rparr>)"
proof -
  let ?v = "\<lambda>m n. example_vm\<lparr>vm_mem := m, vm_pmm := taken n\<rparr>"
  let ?m1 = "set_entry 0x1000 0 0x4007 (\<lambda>_. 0)"
  let ?m2 = "set_entry 0x4000 0 0x5007 (zero_frame 0x5000 ?m1)"
  let ?m3 = "set_entry 0x5000 0 0x6007 (zero_frame 0x6000 ?m2)"
  note al = page_aligned_def zero_frame_def entry_set_entry entry_fill_frame zero_memory
  have 0: "example_vm\<lparr>vm_pmm := taken 3\<rparr> = ?v (\<lambda>_. 0) 3" by (simp add: example_vm_def)
  have 1: "next_table allocate_frame 7 0x1000 0 (?v (\<lambda>_. 0) 3) = (Inr 0x4000, ?v ?m1 4)"
    by (subst next_taken [of _ 3]) (simp_all add: zero_memory PAGE_SIZE_def update_order del: taken.simps)
  have 2: "next_table allocate_frame 7 0x4000 0 (?v ?m1 4) = (Inr 0x5000, ?v ?m2 5)"
    by (subst next_taken [of _ 4]) (simp_all add: al PAGE_SIZE_def update_order del: taken.simps)
  have 3: "next_table allocate_frame 7 0x5000 0 (?v ?m2 5) = (Inr 0x6000, ?v ?m3 6)"
    by (subst next_taken [of _ 5]) (simp_all add: al PAGE_SIZE_def update_order del: taken.simps)
  have 4: "\<not> pte_present (entry ?m3 0x6000 (Suc 0))" by (simp add: al pte_present_def)
  show ?thesis unfolding 0 map_page_def sexpect_value
    by (simp add: reference_mapper_def reference_map_to_def example_path sbind_def 1 2 3 4 mem_modify_def example_mem_def update_order del: taken.simps)
qed

lemma example_reachable: "(vm_step reference_mapper)\<^sup>*\<^sup>* ([], example_vm) ([0x2000, 0x1000], example_mapped)"
proof -
  let ?v = "\<lambda>n. example_vm\<lparr>vm_pmm := taken n\<rparr>"
  let ?s = "vm_step reference_mapper"
  have k: "page_aligned (vm_kernel_pml4 (?v n))" "vm_kernel_pml4 (?v n) = 0" "vm_mem (?v n) = (\<lambda>_. 0)" for n
    by (simp_all add: page_aligned_def example_vm_def)
  have v0: "?v 0 = example_vm" by (simp add: example_vm_def)
  have "?s ([], ?v 0) ([0x1000], ?v 1)"
    by (rule vm_step.create [OF k(1)], unfold k(2), subst create_taken [of _ 0]) (simp_all add: k PAGE_SIZE_def del: taken.simps)
  moreover have "?s ([0x1000], ?v 1) ([0x2000, 0x1000], ?v 2)"
    by (rule vm_step.create [OF k(1)], unfold k(2), subst create_taken [of _ 1]) (simp_all add: k PAGE_SIZE_def numeral_2_eq_2 del: taken.simps)
  moreover have "?s ([0x2000, 0x1000], ?v 2) ([0x2000, 0x1000], example_vm\<lparr>vm_mem := example_mem, vm_pmm := taken 6\<rparr>)"
  proof (rule vm_step.map_new)
    show "pmm_alloc (?v 2) = (Inr (Some 0x3000), ?v 3)"
      by (subst pmm_alloc_taken [of _ 2]) (simp_all add: PAGE_SIZE_def del: taken.simps)
    show "only_frame 0x3000 (vm_mem (?v 3)) (\<lambda>_. 0)" by (simp add: only_frame_def k)
    show "map_page reference_mapper 0x1000 0x1000 0x3000 7 (?v 3\<lparr>vm_mem := \<lambda>_. 0\<rparr>) =
        (Inr (), example_vm\<lparr>vm_mem := example_mem, vm_pmm := taken 6\<rparr>)"
      using example_map by (simp add: example_vm_def)
    show "leaf_flags 7" by (simp add: leaf_flags_def pte_present_def pte_huge_def pte_addr_def bit_numeral_rec(2))
  qed (simp_all add: example_path)
  moreover have "?s ([0x2000, 0x1000], example_vm\<lparr>vm_mem := example_mem, vm_pmm := taken 6\<rparr>) ([0x2000, 0x1000], example_mapped)"
    unfolding example_mapped_def by (rule vm_step.switch)
  ultimately show ?thesis unfolding v0 by (meson rtranclp.rtrancl_refl converse_rtranclp_into_rtranclp)
qed

lemma example_isolated: "isolated [0x1000, 0x2000] example_mapped"
proof -
  have "isolated [0x2000, 0x1000] example_mapped"
    by (rule vm_reachable_isolated [OF reference.page_mapper_axioms example_reachable]) (simp add: example_vm_def pmm_inv_taken del: taken.simps)
  then show ?thesis by (rule isolated_mset [THEN iffD1, rotated]) simp
qed

lemma at_single:
  assumes "i < n" "\<And>j. j < n \<Longrightarrow> j \<noteq> i \<Longrightarrow> entry m t j = 0"
  shows "mapped_at k m t [0..<n] = mapped_at k m t [i]" "tables_at k m t [0..<n] = tables_at k m t [i]"
proof -
  have e: "entry m t j = 0" if "j \<in> set [0..<i] \<or> j \<in> set [Suc i..<n]" for j using that assms by auto
  have "[0..<n] = [0..<i] @ i # [Suc i..<n]" using assms(1) by (rule upt_split)
  then show "mapped_at k m t [0..<n] = mapped_at k m t [i]" "tables_at k m t [0..<n] = tables_at k m t [i]"
    using empty_at [of "[0..<i]" m t k] empty_at [of "[Suc i..<n]" m t k] e
    by (simp_all add: at_append at_Cons(1) [of k m t i "[Suc i..<n]"] at_Cons(2) [of k m t i "[Suc i..<n]"])
qed

lemma example_space:
  "tables 4 example_mem 0x1000 = [0x6000, 0x5000, 0x4000, 0x1000]" "mapped 4 example_mem 0x1000 = [([0, 0, 0, 1], 0x3007)]"
  "empty_space example_mem 0x2000"
proof -
  let ?m = example_mem
  have b: "pte_present 0x3007" "pte_present 0x6007" "pte_present 0x5007" "pte_present 0x4007"
      "\<not> pte_huge 0x6007" "\<not> pte_huge 0x5007" "\<not> pte_huge 0x4007"
    by (simp_all add: pte_present_def pte_huge_def bit_numeral_rec(2))
  have a: "pte_addr 0x3007 = 0x3000" "pte_addr 0x6007 = 0x6000" "pte_addr 0x5007 = 0x5000" "pte_addr 0x4007 = 0x4000" "pte_addr 0x1000 = 0x1000"
    by (simp_all add: pte_addr_def)
  have n: "2 = Suc 1" "3 = Suc 2" "4 = Suc 3" by simp_all
  have 1: "mapped 1 ?m 0x6007 = [([1], 0x3007)]" "tables 1 ?m 0x6007 = [0x6000]"
    unfolding One_nat_def tables_Suc mapped_Suc a using at_single [of 1 512 ?m "0x6000" 0] example_entries(5)
    by (simp_all add: width_def at_one follows_def b)
  have 2: "mapped 2 ?m 0x5007 = [([0, 1], 0x3007)]" "tables 2 ?m 0x5007 = [0x6000, 0x5000]"
    unfolding n(1) tables_Suc mapped_Suc a using at_single [of 0 512 ?m "0x5000" 1] example_entries(4) 1
    by (simp_all add: width_def at_one follows_def b)
  have 3: "mapped 3 ?m 0x4007 = [([0, 0, 1], 0x3007)]" "tables 3 ?m 0x4007 = [0x6000, 0x5000, 0x4000]"
    unfolding n(2) tables_Suc mapped_Suc a using at_single [of 0 512 ?m "0x4000" 2] example_entries(3) 2
    by (simp_all add: width_def at_one follows_def b)
  show "tables 4 example_mem 0x1000 = [0x6000, 0x5000, 0x4000, 0x1000]" "mapped 4 example_mem 0x1000 = [([0, 0, 0, 1], 0x3007)]"
    unfolding n(3) tables_Suc mapped_Suc a using at_single [of 0 256 ?m "0x1000" 3] example_entries(1) 3
    by (simp_all add: width_def at_one follows_def b)
  show "empty_space ?m 0x2000" using example_entries(2) by (simp add: empty_space_def)
qed

subsection \<open>Properties\<close>

text \<open>
  C2. Isolation: whatever sequence of address space creation, forks, failed forks, write faults, releases,
  mappings, unmappings and stores has happened, a store of one program is read back by that program and changes nothing
  any other program reads; the crate's mapper is assumed to behave as documented.
\<close>

theorem address_space_isolation:
  assumes "page_mapper mp" "(vm_step mp)\<^sup>*\<^sup>* ([], v0) (ps, v)" "pmm_inv (vm_pmm v0)"
    and "p \<in> set ps" "lower_half virt" "user_store v p virt b = Some v'"
  shows "user_load v' p virt = Some b \<and> isolated ps v' \<and> (\<forall>q \<in> set ps. q \<noteq> p \<longrightarrow> reads_same [q] v v')"
proof -
  have "isolated (p # remove1 p ps) v"
    using vm_reachable_isolated [OF assms(1,2,3)] isolated_mset [OF front [OF assms(4)]] by simp
  note st = store_isolated [OF this assms(5,6)]
  have "isolated ps v'" using st(1) isolated_mset [OF front [OF assms(4)]] by simp
  then show ?thesis using st(2,3) by (auto simp: reads_same_def)
qed

theorem address_space_isolation_witness:
  "\<exists>v'. user_store example_mapped 0x1000 0x1000 7 = Some v' \<and>
    user_load v' 0x1000 0x1000 = Some 7 \<and> user_load v' 0x2000 0x1000 = user_load example_mapped 0x2000 0x1000"
proof -
  have a: "pte_addr 0x1000 = 0x1000" by (simp add: pte_addr_def)
  obtain v' where v': "user_store example_mapped 0x1000 0x1000 7 = Some v'"
    using user_store_mapped [OF a example_path(2), of example_mapped 7]
    by (simp add: example_mapped_def example_path(1) example_space pte_writable_def bit_numeral_rec(2))
  have "pmm_inv (vm_pmm example_vm)" by (simp add: example_vm_def pmm_inv_taken del: taken.simps)
  from address_space_isolation [OF reference.page_mapper_axioms example_reachable this _ example_path(2) v']
  have "user_load v' 0x1000 0x1000 = Some 7 \<and> reads_same [0x2000] example_mapped v'" by simp
  then show ?thesis using v' example_path(2) by (auto simp: reads_same_def)
qed

text \<open>
  C4. Fork: sharing the parent's pages with a child succeeds exactly when there are frames for the child's tables.
  Then the child reads what the parent read, everyone else reads what they read before, and no store of parent or
  child goes through before a write fault. Otherwise everything reads as before and no frame has gained or lost a holder.
\<close>

theorem fork_duplicates:
  assumes "isolated (p # ch # ps) v" "empty_space (vm_mem v) ch" "count_room p v"
  shows "case copy_user_pages p ch v of
      (Inr _, v') \<Rightarrow> isolated (p # ch # ps) v' \<and> reads_same (p # ps) v v' \<and>
        (\<forall>virt. lower_half virt \<longrightarrow> user_load v' ch virt = user_load v p virt \<and>
           (\<forall>b. user_store v' p virt b = None \<and> user_store v' ch virt b = None)) \<and>
        card (free_set (vm_pmm v')) + length (tables 4 (vm_mem v) p) = card (free_set (vm_pmm v)) + 1
    | (Inl (Err _), v') \<Rightarrow> isolated (p # ps) v' \<and> reads_same (p # ps) v v' \<and>
        (\<forall>f. managed (vm_pmm v) f \<longrightarrow> holders (vm_pmm v') f = holders (vm_pmm v) f \<and> is_free (vm_pmm v') f = is_free (vm_pmm v) f) \<and>
        card (free_set (vm_pmm v)) + 1 < length (tables 4 (vm_mem v) p)
    | (Inl (Crash _), _) \<Rightarrow> False"
proof -
  have ok: "spaces_ok (p # ch # ps) v" using isolatedD(2) [OF assms(1)] .
  have ok': "spaces_ok (p # ps) v" using ok empty_space_4 [OF _ assms(2)] by (auto simp: spaces_ok_def droppable_def)
  obtain r v' where rv: "copy_user_pages p ch v = (r, v')" by (cases "copy_user_pages p ch v")
  note res = copy_user_pages_ok [OF ok assms(2,3), unfolded rv prod.case]
  show ?thesis
  proof (cases r)
    case (Inr x)
    then have sh: "shared_with_child p ch ps v v'" using res by simp
    have "reads_same (p # ps) v v'"
      using shared_others [OF sh ok assms(2)] shared_reads(1) [OF sh ok'] by (simp add: reads_same_def)
    then show ?thesis using res shared_reads(2,3,4) [OF sh ok'] fork_isolated [OF assms(1,2) sh] by (simp add: rv Inr)
  next
    case (Inl e)
    then show ?thesis
    proof (cases e)
      case (Err x)
      then have rb: "rolled_back p ps v v'" using res Inl by simp
      then show ?thesis using res fork_failed_isolated [OF assms(1) rb] rolled_back_reads [OF rb ok'] by (simp add: rv Inl Err rolled_back_def)
    next
      case (Crash x)
      then show ?thesis using res Inl by simp
    qed
  qed
qed

lemma example_room: "count_room 0x1000 example_mapped"
  by (simp add: count_room_def leaves_def example_mapped_def example_space holders_def pte_addr_def frame_index_def PAGE_SIZE_def del: taken.simps)

theorem fork_duplicates_witness:
  "\<exists>v'. copy_user_pages 0x1000 0x2000 example_mapped = (Inr (), v') \<and>
    user_load v' 0x2000 0x1000 = user_load example_mapped 0x1000 0x1000 \<and> user_store v' 0x1000 0x1000 7 = None"
proof -
  have e: "empty_space (vm_mem example_mapped) 0x2000" by (simp add: example_mapped_def example_space)
  obtain r v' where rv: "copy_user_pages 0x1000 0x2000 example_mapped = (r, v')" by (cases "copy_user_pages 0x1000 0x2000 example_mapped")
  have "\<not> card (free_set (vm_pmm example_mapped)) + 1 < length (tables 4 (vm_mem example_mapped) 0x1000)"
    by (simp add: example_mapped_def example_space free_set_taken del: taken.simps)
  then have "r = Inr () \<and> user_load v' 0x2000 0x1000 = user_load example_mapped 0x1000 0x1000 \<and> user_store v' 0x1000 0x1000 7 = None"
    using fork_duplicates [OF example_isolated e example_room] example_path(2)
    by (auto simp: rv split: sum.splits fault.splits)
  then show ?thesis using rv by simp
qed

lemma example_forked:
  "isolated [0x1000, 0x2000] example_forked" "vm_cr3 example_forked = 0x1000" "user_load example_forked 0x1000 0x1000 \<noteq> None"
  "user_store example_forked 0x1000 0x1000 b = None" "free_set (vm_pmm example_forked) \<noteq> {}"
proof -
  let ?v = example_mapped and ?c = "snd (copy_user_pages 0x1000 0x2000 example_mapped)"
  have ok: "spaces_ok [0x1000, 0x2000] ?v" by (rule isolatedD(2) [OF example_isolated])
  have e: "empty_space (vm_mem ?v) 0x2000" by (simp add: example_mapped_def example_space)
  have "\<not> card (free_set (vm_pmm ?v)) + 1 < length (tables 4 (vm_mem ?v) 0x1000)"
    by (simp add: example_mapped_def example_space free_set_taken del: taken.simps)
  then have c: "shared_with_child 0x1000 0x2000 [] ?v ?c" "card (free_set (vm_pmm ?c)) + length (tables 4 (vm_mem ?v) 0x1000) = card (free_set (vm_pmm ?v)) + 1"
    using copy_user_pages_ok [OF ok e example_room] by (auto split: prod.splits sum.splits fault.splits)
  have ok1: "spaces_ok [0x1000] ?v" using ok empty_space_4 [OF _ e] by (auto simp: spaces_ok_def droppable_def)
  have l: "user_load ?v 0x1000 0x1000 \<noteq> None"
    using user_load_mapped [OF spaces_front [OF ok1] example_path(2), of ?v]
    by (simp add: example_mapped_def example_path example_space)
  show "isolated [0x1000, 0x2000] example_forked" using fork_isolated [OF example_isolated e c(1)] by (simp add: example_forked_def)
  show "vm_cr3 example_forked = 0x1000" by (simp add: example_forked_def)
  show "user_load example_forked 0x1000 0x1000 \<noteq> None" "user_store example_forked 0x1000 0x1000 b = None"
    using shared_reads(1,3) [OF c(1) ok1 example_path(2)] l by (simp_all add: example_forked_def user_cr3)
  show "free_set (vm_pmm example_forked) \<noteq> {}" using c(2)
    by (auto simp: example_forked_def example_mapped_def example_space free_set_taken simp del: taken.simps)
qed

text \<open>
  C8. Copy on write: a write fault on a mapped page that is not writable succeeds unless a frame for the copy is missing. No one reads
  anything else than before, and the faulting program can now store to the page. A failing fault changes nothing,
  and the handler never panics.
\<close>

theorem cow_fault_private:
  assumes "isolated (p # ps) v" "vm_cr3 v = p" "lower_half virt"
  shows "case handle_cow_fault virt v of
      (Inr _, v') \<Rightarrow> isolated (p # ps) v' \<and> reads_same (p # ps) v v' \<and> (\<forall>b. user_store v' p virt b \<noteq> None)
    | (Inl (Err _), v') \<Rightarrow> v' = v \<and> (user_load v p virt = None \<or> free_set (vm_pmm v) = {} \<or> (\<forall>b. user_store v p virt b \<noteq> None))
    | (Inl (Crash _), _) \<Rightarrow> False"
proof -
  let ?v = "v\<lparr>vm_cr3 := vm_kernel_pml4 v\<rparr>"
  have ok: "spaces_ok (p # ps) v" using isolatedD(2) [OF assms(1)] .
  have ok': "spaces_ok (p # ps) ?v" using ok by (simp add: spaces_ok_def)
  have v: "v\<lparr>vm_cr3 := p\<rparr> = v" using assms(2) by simp
  have p: "pte_addr p = p" using ok by (rule spaces_front)
  show ?thesis
  proof (cases "walk_page_table_to_pte (vm_mem v) p virt")
    case None
    then have "handle_cow_fault virt v = (Inl (Err ()), v)" "user_load v p virt = None"
      using v by (simp_all add: handle_cow_fault_def with_kernel_pml4_def cow_fault_def sfail_def assms(2) user_load_def)
    then show ?thesis by simp
  next
    case (Some ti)
    then obtain t i where w: "walk_page_table_to_pte (vm_mem v) p virt = Some (t, i)" by (cases ti) auto
    then have sl: "slot 4 (vm_mem v) p (path_of virt) = Some (t, i)" using assms(3) p by (rule walk_slot)
    obtain r v1 where rv: "cow_fault p virt ?v = (r, v1)" by (cases "cow_fault p virt ?v")
    have h: "handle_cow_fault virt v = (case r of Inl (Crash x) \<Rightarrow> (Inl (Crash x), v1) | _ \<Rightarrow> (r, v1\<lparr>vm_cr3 := p\<rparr>))"
      by (simp add: handle_cow_fault_def with_kernel_pml4_def assms(2) rv split: sum.splits fault.splits)
    have "walk_page_table_to_pte (vm_mem ?v) p virt = Some (t, i)" using w by simp
    note res = cow_fault_ok [OF ok' assms(3) this refl, unfolded rv prod.case]
    show ?thesis
    proof (cases r)
      case (Inr x)
      then have m: "made_private p ps virt (entry (vm_mem v) t i) v (v1\<lparr>vm_cr3 := p\<rparr>)" using res by (simp add: made_private_cr3)
      show ?thesis using private_reads [OF m ok sl refl] assms(3) fault_isolated [OF assms(1) sl refl m] by (simp add: h Inr)
    next
      case (Inl e)
      then show ?thesis
      proof (cases e)
        case (Err x)
        then have "v1 = ?v" "pte_writable (entry (vm_mem v) t i) \<or> free_set (vm_pmm v) = {}" using res Inl by (auto split: if_splits)
        then show ?thesis using w v by (auto simp: h Inl Err user_store_def Let_def)
      next
        case (Crash x)
        then show ?thesis using res Inl by simp
      qed
    qed
  qed
qed

theorem cow_fault_private_witness:
  "\<exists>v'. handle_cow_fault 0x1000 example_forked = (Inr (), v') \<and>
    user_load v' 0x1000 0x1000 = user_load example_forked 0x1000 0x1000 \<and>
    user_load v' 0x2000 0x1000 = user_load example_forked 0x2000 0x1000 \<and> user_store v' 0x1000 0x1000 7 \<noteq> None"
proof -
  obtain r v' where rv: "handle_cow_fault 0x1000 example_forked = (r, v')" by (cases "handle_cow_fault 0x1000 example_forked")
  have n: "user_load example_forked 0x1000 0x1000 \<noteq> None" "free_set (vm_pmm example_forked) \<noteq> {}" "user_store example_forked 0x1000 0x1000 b = None" for b
    using example_forked by auto
  have "r = Inr () \<and> reads_same [0x1000, 0x2000] example_forked v' \<and> user_store v' 0x1000 0x1000 7 \<noteq> None"
    using cow_fault_private [OF example_forked(1,2) example_path(2)] n by (auto simp: rv split: sum.splits fault.splits)
  then show ?thesis using rv example_path(2) by (auto simp: reads_same_def)
qed

text \<open>
  C9. Release: freeing an address space never panics and changes no memory. It frees exactly the frames of its tables and the frames it was the
  last to map, every frame it maps loses one holder for each mapping, and the remaining address spaces stay in order.
\<close>

theorem release_exact:
  assumes "spaces_ok (p # ps) v"
  shows "\<exists>s. free_user_address_space p v = (Inr () :: (unit, unit) outcome, v\<lparr>vm_pmm := s\<rparr>) \<and> spaces_ok ps (v\<lparr>vm_pmm := s\<rparr>) \<and>
    (\<forall>f. managed (vm_pmm v) f \<longrightarrow>
      holders s f = (if f \<in> set (tables 4 (vm_mem v) p) then 0 else holders (vm_pmm v) f - count_list (leaves 4 (vm_mem v) p) f) \<and>
      (is_free s f \<longleftrightarrow> is_free (vm_pmm v) f \<or> f \<in> set (tables 4 (vm_mem v) p) \<or>
        f \<in> set (leaves 4 (vm_mem v) p) \<and> holders (vm_pmm v) f \<le> count_list (leaves 4 (vm_mem v) p) f))"
proof -
  obtain s where "free_user_address_space p v = (Inr () :: (unit, unit) outcome, v\<lparr>vm_pmm := s\<rparr>)" "spaces_ok ps (v\<lparr>vm_pmm := s\<rparr>)"
      "dropped (tables 4 (vm_mem v) p) (leaves 4 (vm_mem v) p) (vm_pmm v) s"
    using assms by (rule free_space)
  then show ?thesis unfolding dropped_def by blast
qed

theorem release_exact_witness:
  "\<exists>s. free_user_address_space 0x1000 example_mapped = (Inr () :: (unit, unit) outcome, example_mapped\<lparr>vm_pmm := s\<rparr>) \<and>
    is_free s 0x3000 \<and> is_free s 0x1000 \<and> \<not> is_free s 0x2000"
proof -
  have m: "managed (vm_pmm example_mapped) f \<longleftrightarrow> page_aligned f \<and> frame_index f < 16" for f
    by (simp add: managed_def example_mapped_def del: taken.simps)
  have f: "page_aligned 0x1000" "frame_index 0x1000 = 1" "page_aligned 0x2000" "frame_index 0x2000 = 2" "page_aligned 0x3000" "frame_index 0x3000 = 3"
    by (simp_all add: page_aligned_def frame_index_def PAGE_SIZE_def)
  have t: "tables 4 (vm_mem example_mapped) 0x1000 = [0x6000, 0x5000, 0x4000, 0x1000]" "leaves 4 (vm_mem example_mapped) 0x1000 = [0x3000]"
    by (simp_all add: example_mapped_def example_space leaves_def pte_addr_def)
  have h: "holders (vm_pmm example_mapped) 0x3000 = 1" "\<not> is_free (vm_pmm example_mapped) 0x2000"
    by (simp_all add: holders_def is_free_def f example_mapped_def free_set_taken del: taken.simps)
  from release_exact [OF isolatedD(2) [OF example_isolated]] obtain s
    where s: "free_user_address_space 0x1000 example_mapped = (Inr () :: (unit, unit) outcome, example_mapped\<lparr>vm_pmm := s\<rparr>)"
      "\<And>f. managed (vm_pmm example_mapped) f \<Longrightarrow> is_free s f \<longleftrightarrow> is_free (vm_pmm example_mapped) f \<or> f \<in> set [0x6000, 0x5000, 0x4000, 0x1000] \<or>
        f \<in> set [0x3000] \<and> holders (vm_pmm example_mapped) f \<le> count_list [0x3000] f"
    unfolding t by blast
  show ?thesis using s(1) s(2) [of "0x3000"] s(2) [of "0x1000"] s(2) [of "0x2000"] h by (auto simp: m f)
qed

end
