(* ===== verification/Aslr.thy ===== *)
theory Aslr
  imports Phys_Mem
begin

text \<open>
  Random placement of stack, heap and mapped memory (\<^verbatim>\<open>indo-kernel/src/aslr.rs\<close>). The state of the generator is passed along.
  The random number generator is a permutation of its states, and the areas it places lie at page boundaries within their windows.
\<close>

subsection \<open>Random placement\<close>

definition USER_STACK_TOP :: u64 where "USER_STACK_TOP = 0x00007FFFFFFF0000"
definition USER_HEAP_BASE :: u64 where "USER_HEAP_BASE = 0x0000400000000000"
definition USER_MMAP_BASE :: u64 where "USER_MMAP_BASE = 0x0000200000000000"

definition next_u64 :: "u64 \<Rightarrow> u64 \<times> u64" where
  "next_u64 state =
     (let x = state; x = x XOR push_bit 13 x; x = x XOR drop_bit 7 x; x = x XOR push_bit 17 x in (x, x))"

definition rand_range :: "u64 \<Rightarrow> u64 \<Rightarrow> u64 \<times> u64" where
  "rand_range bound state = (if bound = 0 then (0, state) else case next_u64 state of (x, state) \<Rightarrow> (x mod bound, state))"

definition random_page_offset :: "u64 \<Rightarrow> u64 \<Rightarrow> u64 \<times> u64" where
  "random_page_offset num_slots state = (case rand_range num_slots state of (x, state) \<Rightarrow> (x * 4096, state))"

definition randomize_stack_base :: "u64 \<Rightarrow> u64 \<times> u64" where
  "randomize_stack_base state = (case random_page_offset 16 state of (offset, state) \<Rightarrow> (USER_STACK_TOP - offset, state))"

definition randomize_mmap_base :: "u64 \<Rightarrow> u64 \<times> u64" where
  "randomize_mmap_base state = (case random_page_offset 32 state of (offset, state) \<Rightarrow> (USER_MMAP_BASE + offset, state))"

definition randomize_heap_base :: "u64 \<Rightarrow> u64 \<times> u64" where
  "randomize_heap_base state = (case random_page_offset 64 state of (offset, state) \<Rightarrow> (USER_HEAP_BASE + offset, state))"

subsection \<open>The generator\<close>

lemma xor_push_inj:
  fixes x y :: u64
  assumes "0 < k" "x XOR push_bit k x = y XOR push_bit k y"
  shows "x = y"
proof (rule bit_word_eqI)
  fix n :: nat
  assume "n < LENGTH(64)"
  then show "bit x n = bit y n"
  proof (induction n rule: less_induct)
    case (less n)
    have "bit (x XOR push_bit k x) n = bit (y XOR push_bit k y) n" using assms(2) by simp
    then show ?case using less.IH [of "n - k"] less.prems assms(1) by (auto simp: bit_xor_iff bit_push_bit_iff)
  qed
qed

lemma xor_drop_inj:
  fixes x y :: u64
  assumes "0 < k" "x XOR drop_bit k x = y XOR drop_bit k y"
  shows "x = y"
proof (rule bit_word_eqI)
  fix n :: nat
  assume "n < LENGTH(64)"
  then show "bit x n = bit y n"
  proof (induction "LENGTH(64) - n" arbitrary: n rule: less_induct)
    case less
    have "bit (x XOR drop_bit k x) n = bit (y XOR drop_bit k y) n" using assms(2) by simp
    moreover have "bit x (k + n) = bit y (k + n)"
    proof (cases "k + n < LENGTH(64)")
      case True
      then show ?thesis using less.hyps [of "k + n"] assms(1) by auto
    next
      case False
      then show ?thesis by (auto dest: bit_imp_le_length)
    qed
    ultimately show ?case by (auto simp: bit_xor_iff bit_drop_bit_eq)
  qed
qed

lemma next_u64_inj:
  assumes "next_u64 x = next_u64 y"
  shows "x = y"
proof -
  have "0 < (17 :: nat)" "0 < (13 :: nat)" "0 < (7 :: nat)" by simp_all
  note inj = xor_push_inj [OF this(1)] xor_push_inj [OF this(2)] xor_drop_inj [OF this(3)]
  from conjunct1 [OF assms [unfolded next_u64_def Let_def prod.inject]] show ?thesis
    by (rule inj(2) [OF inj(3) [OF inj(1)]])
qed

lemma next_u64_zero: "next_u64 x = (0, 0) \<longleftrightarrow> x = 0"
proof -
  have "next_u64 0 = (0, 0)" by (simp add: next_u64_def)
  then show ?thesis using next_u64_inj [of x 0] by auto
qed

lemma random_offset:
  assumes "0 < n" "n \<le> 64"
  obtains i st where "random_page_offset n s = (of_nat i * 4096, st)" "i < unat n" "i < 64" "st = snd (next_u64 s)"
proof -
  obtain x st where x: "next_u64 s = (x, st)" by (cases "next_u64 s")
  have n: "0 < unat n" "unat n \<le> 64" using assms by (simp_all add: unat_gt_0 word_le_nat_alt)
  have "unat (x mod n) < unat n" using n(1) by (simp add: unat_mod)
  moreover have "random_page_offset n s = (of_nat (unat (x mod n)) * 4096, st)"
  proof -
    have "n \<noteq> 0" using n(1) by auto
    then show ?thesis unfolding random_page_offset_def rand_range_def x by simp
  qed
  moreover have "unat (x mod n) < 64" using calculation(1) n(2) by linarith
  moreover have "st = snd (next_u64 s)" unfolding x by simp
  ultimately show ?thesis by (intro that)
qed

lemma window:
  assumes "i < 64" "a mod 4096 = 0" "a < 2 ^ 47" "64 * 4096 \<le> a"
  shows "unat (a + of_nat i * 4096 :: u64) = unat a + i * 4096" "unat (a - of_nat i * 4096 :: u64) = unat a - i * 4096"
proof -
  have i: "unat (of_nat i * 4096 :: u64) = i * 4096" using assms(1) by (simp add: unat_word_ariths unat_of_nat)
  have a: "unat a < 2 ^ 47" "64 * 4096 \<le> unat a" using assms(3,4) by (simp_all add: word_less_nat_alt word_le_nat_alt)
  show "unat (a + of_nat i * 4096) = unat a + i * 4096" using a i assms(1) by (simp add: unat_word_ariths)
  show "unat (a - of_nat i * 4096) = unat a - i * 4096" using a i assms(1) by (subst unat_sub) (simp_all add: word_le_nat_alt)
qed

lemma aligned_multiple: "page_aligned (x * 4096)"
proof -
  have "x * 4096 mod 4096 = take_bit 12 (push_bit 12 x)" by (simp add: take_bit_eq_mod push_bit_eq_mult)
  also have "\<dots> = 0" by (simp only: take_bit_push_bit) simp
  finally show ?thesis by (simp add: page_aligned_def)
qed

lemma aligned_offset:
  assumes "page_aligned a"
  shows "page_aligned (a + of_nat i * 4096)" "page_aligned (a - of_nat i * 4096)"
proof -
  have a: "a = a div 4096 * 4096" using assms div_mult_mod_eq [of a 4096] by (simp add: page_aligned_def)
  have "a + of_nat i * 4096 = (a div 4096 + of_nat i) * 4096" "a - of_nat i * 4096 = (a div 4096 - of_nat i) * 4096"
    unfolding distrib_right left_diff_distrib using a by simp_all
  then show "page_aligned (a + of_nat i * 4096)" "page_aligned (a - of_nat i * 4096)" by (simp_all only: aligned_multiple)
qed

lemma randomize_mmap_window: "page_aligned (fst (randomize_mmap_base s))" "unat (fst (randomize_mmap_base s)) \<le> 2 ^ 47"
proof -
  obtain j st where j: "random_page_offset 32 s = (of_nat j * 4096, st)" "j < unat (32 :: u64)" "j < 64" by (rule random_offset [of 32 s]) simp_all
  have "page_aligned USER_MMAP_BASE" by (simp add: page_aligned_def USER_MMAP_BASE_def)
  then show "page_aligned (fst (randomize_mmap_base s))" using aligned_offset(1) by (simp add: randomize_mmap_base_def j)
  show "unat (fst (randomize_mmap_base s)) \<le> 2 ^ 47"
    using window(1) [OF j(3), of USER_MMAP_BASE] j(2) by (simp add: randomize_mmap_base_def j(1) USER_MMAP_BASE_def)
qed

text \<open>
  C40. Placement: whatever the state of the generator, stack, mapping area and heap are placed at page boundaries in windows of
  16, 32 and 64 pages. The generator is a permutation of its states, so a non-zero seed never degenerates; zero is a fixed point.
\<close>

theorem aslr_bases:
  shows "page_aligned (fst (randomize_stack_base s)) \<and> USER_STACK_TOP - 15 * PAGE_SIZE \<le> fst (randomize_stack_base s) \<and>
      fst (randomize_stack_base s) \<le> USER_STACK_TOP \<and>
    page_aligned (fst (randomize_mmap_base s)) \<and> USER_MMAP_BASE \<le> fst (randomize_mmap_base s) \<and>
      fst (randomize_mmap_base s) \<le> USER_MMAP_BASE + 31 * PAGE_SIZE \<and>
    page_aligned (fst (randomize_heap_base s)) \<and> USER_HEAP_BASE \<le> fst (randomize_heap_base s) \<and>
      fst (randomize_heap_base s) \<le> USER_HEAP_BASE + 63 * PAGE_SIZE \<and>
    bij (\<lambda>s. snd (next_u64 s)) \<and> (snd (next_u64 s) = 0 \<longleftrightarrow> s = 0)"
proof (intro conjI)
  let ?stack = "USER_STACK_TOP" and ?mmap = "USER_MMAP_BASE" and ?heap = "USER_HEAP_BASE"
  obtain i st where i: "random_page_offset 16 s = (of_nat i * 4096, st)" "i < unat (16 :: u64)" "i < 64" by (rule random_offset [of 16 s]) simp_all
  obtain j st' where j: "random_page_offset 32 s = (of_nat j * 4096, st')" "j < unat (32 :: u64)" "j < 64" by (rule random_offset [of 32 s]) simp_all
  obtain k st'' where k: "random_page_offset 64 s = (of_nat k * 4096, st'')" "k < unat (64 :: u64)" "k < 64" by (rule random_offset [of 64 s]) simp_all
  have al: "page_aligned ?stack" "page_aligned ?mmap" "page_aligned ?heap"
    by (simp_all add: page_aligned_def USER_STACK_TOP_def USER_MMAP_BASE_def USER_HEAP_BASE_def)
  show "page_aligned (fst (randomize_stack_base s))" "page_aligned (fst (randomize_mmap_base s))" "page_aligned (fst (randomize_heap_base s))"
    using aligned_offset al by (simp_all add: randomize_stack_base_def i randomize_mmap_base_def j randomize_heap_base_def k)
  show "?stack - 15 * PAGE_SIZE \<le> fst (randomize_stack_base s)" "fst (randomize_stack_base s) \<le> ?stack"
    using window(2) [OF i(3), of ?stack] i(2) by (simp_all add: randomize_stack_base_def i(1) word_le_nat_alt USER_STACK_TOP_def PAGE_SIZE_def)
  show "?mmap \<le> fst (randomize_mmap_base s)" "fst (randomize_mmap_base s) \<le> ?mmap + 31 * PAGE_SIZE"
    using window(1) [OF j(3), of ?mmap] j(2) by (simp_all add: randomize_mmap_base_def j(1) word_le_nat_alt USER_MMAP_BASE_def PAGE_SIZE_def)
  show "?heap \<le> fst (randomize_heap_base s)" "fst (randomize_heap_base s) \<le> ?heap + 63 * PAGE_SIZE"
    using window(1) [OF k(3), of ?heap] k(2) by (simp_all add: randomize_heap_base_def k(1) word_le_nat_alt USER_HEAP_BASE_def PAGE_SIZE_def)
  have eq: "next_u64 x = (snd (next_u64 x), snd (next_u64 x))" for x by (simp add: next_u64_def Let_def)
  have "inj (\<lambda>s. snd (next_u64 s))" by (rule injI) (metis eq next_u64_inj)
  then show "bij (\<lambda>s. snd (next_u64 s))" unfolding bij_def using finite_UNIV_inj_surj [OF finite_class.finite_UNIV] by blast
  have "next_u64 s = (0, 0) \<longleftrightarrow> snd (next_u64 s) = 0" by (subst eq) simp
  then show "snd (next_u64 s) = 0 \<longleftrightarrow> s = 0" using next_u64_zero [of s] by simp
qed

end
