(* ===== verification/Memory_Calls.thy ===== *)
theory Memory_Calls
  imports Vm_Claims Syscalls Aslr
begin

text \<open>
  The system calls that change a program's memory (\<^verbatim>\<open>brk\<close>, \<^verbatim>\<open>mmap\<close> and \<^verbatim>\<open>munmap\<close> of \<^verbatim>\<open>indo-kernel/src/syscall/mod.rs\<close>),
  over the process table, virtual memory and the state of the random number generator.
\<close>

subsection \<open>State of the calls\<close>

record msys =
  ms_sched :: scheduler
  ms_vm :: vmem
  ms_prng :: u64

definition on_vmem :: "(vmem, int, 'a) op \<Rightarrow> (msys, int, 'a) op" where
  "on_vmem m s = (case m (ms_vm s) of (r, v) \<Rightarrow> (r, s\<lparr>ms_vm := v\<rparr>))"

definition set_process :: "pid \<Rightarrow> process \<Rightarrow> msys \<Rightarrow> msys" where
  "set_process pid p s = s\<lparr>ms_sched := update_process pid (\<lambda>_. p) (ms_sched s)\<rparr>"

definition with_caller :: "(pid \<Rightarrow> process \<Rightarrow> (msys, int, 'a) op) \<Rightarrow> (msys, int, 'a) op" where
  "with_caller f = (\<lambda>s. case s_current_pid (ms_sched s) of
     None \<Rightarrow> sfail ESRCH s
   | Some pid \<Rightarrow> (case s_processes (ms_sched s) ! pid of None \<Rightarrow> sfail ESRCH s | Some p \<Rightarrow> f pid p s))"

text \<open>The calls run on the kernel's page table and return to the caller's, whatever their result.\<close>

definition in_kernel_space :: "(msys, int, 'a) op \<Rightarrow> (msys, int, 'a) op" where
  "in_kernel_space m s = (let v = ms_vm s in
     case m (s\<lparr>ms_vm := v\<lparr>vm_cr3 := vm_kernel_pml4 v\<rparr>\<rparr>) of
       (Inl (Crash p), s') \<Rightarrow> (Inl (Crash p), s')
     | (r, s') \<Rightarrow> (r, s'\<lparr>ms_vm := (ms_vm s')\<lparr>vm_cr3 := vm_cr3 v\<rparr>\<rparr>))"

subsection \<open>Pages\<close>

definition USER_PAGE :: u64 where "USER_PAGE = PTE_PRESENT OR PTE_WRITABLE OR PTE_USER"

text \<open>A frame from the allocator, mapped as it is; \<open>False\<close> if there is none.\<close>

definition map_new_page :: "mapper \<Rightarrow> u64 \<Rightarrow> u64 \<Rightarrow> (vmem, 'e, bool) op" where
  "map_new_page mp pml4 virt = sbind pmm_alloc (\<lambda>r. case r of
     None \<Rightarrow> sreturn False | Some frame \<Rightarrow> sbind (map_page mp pml4 virt frame USER_PAGE) (\<lambda>_. sreturn True))"

text \<open>Unmapping a page if it is mapped, and giving up its frame with \<open>release\<close>.\<close>

definition unmap_if_mapped :: "mapper \<Rightarrow> (u64 \<Rightarrow> pmm \<Rightarrow> pmm or_panic) \<Rightarrow> u64 \<Rightarrow> u64 \<Rightarrow> (vmem, 'e, unit) op" where
  "unmap_if_mapped mp release pml4 virt = (\<lambda>v. case translate_addr mp (vm_mem v) pml4 virt of
     None \<Rightarrow> sreturn () v
   | Some phys \<Rightarrow> sbind (unmap_page mp pml4 virt) (\<lambda>_. pmm_op (release phys)) v)"

definition at_virt :: "mapper \<Rightarrow> u64 \<Rightarrow> (u64 \<Rightarrow> (vmem, 'e, 'a) op) \<Rightarrow> (vmem, 'e, 'a) op" where
  "at_virt mp a f = (case virt_addr_new mp a of Inl p \<Rightarrow> scrash p | Inr virt \<Rightarrow> f virt)"

subsection \<open>brk\<close>

definition BRK_MAX :: u64 where "BRK_MAX = 0x00007FFFFFFFF000"

text \<open>The loop over the pages of the new part of the heap, which returns the address it stopped at: \<open>end\<close> after the last page.\<close>

fun heap_grow :: "mapper \<Rightarrow> u64 \<Rightarrow> u64 list \<Rightarrow> u64 \<Rightarrow> (vmem, 'e, u64) op" where
  "heap_grow mp pml4 [] end_addr = sreturn end_addr"
| "heap_grow mp pml4 (addr # addrs) end_addr = at_virt mp addr (\<lambda>page_virt v.
     if translate_addr mp (vm_mem v) pml4 page_virt = None then
       sbind (map_new_page mp pml4 page_virt) (\<lambda>ok.
         if ok then heap_grow mp pml4 addrs end_addr else sreturn addr) v
     else heap_grow mp pml4 addrs end_addr v)"

definition heap_shrink :: "mapper \<Rightarrow> u64 \<Rightarrow> u64 list \<Rightarrow> (vmem, 'e, unit) op" where
  "heap_shrink mp pml4 = each (\<lambda>addr. at_virt mp addr (unmap_if_mapped mp free_frame pml4))"

definition heap_init :: "process \<Rightarrow> u64 \<Rightarrow> process \<times> u64" where
  "heap_init p prng = (if p_heap_start p = 0
     then case randomize_heap_base prng of (heap_base, prng) \<Rightarrow> (p\<lparr>p_heap_start := heap_base, p_heap_end := heap_base\<rparr>, prng)
     else (p, prng))"

definition sys_brk :: "mapper \<Rightarrow> u64 \<Rightarrow> (msys, int, u64) op" where
  "sys_brk mp new_brk = in_kernel_space (with_caller (\<lambda>pid p s.
     case heap_init p (ms_prng s) of (p, prng) \<Rightarrow>
     let s = set_process pid p (s\<lparr>ms_prng := prng\<rparr>); old_end = p_heap_end p; pml4 = p_pml4_phys p;
         moved = (\<lambda>heap_end. (\<lambda>s. (Inr heap_end, set_process pid (p\<lparr>p_heap_end := heap_end\<rparr>) s))) in
     if new_brk = 0 then (Inr old_end, s)
     else if new_brk < p_heap_start p then (Inr old_end, s)
     else if new_brk > BRK_MAX then sfail ENOMEM s
     else if new_brk > old_end then
       let addrs = pages_from old_end new_brk in
       sbind (on_vmem (heap_grow mp pml4 addrs (old_end + of_nat (length addrs) * PAGE_SIZE))) moved s
     else if new_brk < old_end then
       sbind (on_vmem (heap_shrink mp pml4 (pages_from new_brk old_end))) (\<lambda>_. moved new_brk) s
     else (Inr old_end, s)))"

subsection \<open>mmap and munmap\<close>

definition region_limit :: "u64 \<times> u64 \<Rightarrow> u64" where
  "region_limit r = fst r + snd r * PAGE_SIZE"

definition pages_for :: "u64 \<Rightarrow> u64" where
  "pages_for len = (len + PAGE_SIZE - 1) div PAGE_SIZE"

definition live_regions :: "process \<Rightarrow> (u64 \<times> u64) list" where
  "live_regions p = take (p_mmap_count p) (p_mmap_regions p)"

text \<open>The first mapped page among those of a candidate area.\<close>

fun probe_pages :: "mapper \<Rightarrow> phys_mem \<Rightarrow> u64 \<Rightarrow> u64 \<Rightarrow> nat list \<Rightarrow> nat option or_panic" where
  "probe_pages mp m pml4 base [] = Inr None"
| "probe_pages mp m pml4 base (i # is) = rbind (virt_addr_new mp (base + of_nat i * PAGE_SIZE)) (\<lambda>page_virt.
     if translate_addr mp m pml4 page_virt \<noteq> None then Inr (Some i) else probe_pages mp m pml4 base is)"

datatype search_step = Retry u64 | NoRoom | Found

definition mmap_try :: "mapper \<Rightarrow> phys_mem \<Rightarrow> u64 \<Rightarrow> (u64 \<times> u64) list \<Rightarrow> u64 \<Rightarrow> u64 \<Rightarrow> search_step or_panic" where
  "mmap_try mp m pml4 regions num_pages base =
     (case List.find (\<lambda>r. base < region_limit r \<and> base + num_pages * PAGE_SIZE > fst r) regions of
        Some r \<Rightarrow> Inr (Retry (region_limit r))
      | None \<Rightarrow>
          let stack_bottom = USER_STACK_TOP - 5 * PAGE_SIZE in
          if base + num_pages * PAGE_SIZE > stack_bottom then Inr NoRoom
          else rbind (probe_pages mp m pml4 base [0..<unat num_pages]) (\<lambda>r. case r of
            Some i \<Rightarrow> Inr (Retry (base + of_nat (i + 1) * PAGE_SIZE)) | None \<Rightarrow> Inr Found))"

partial_function (option) mmap_search ::
  "mapper \<Rightarrow> phys_mem \<Rightarrow> u64 \<Rightarrow> (u64 \<times> u64) list \<Rightarrow> u64 \<Rightarrow> u64 \<Rightarrow> u64 option or_panic option" where
  "mmap_search mp m pml4 regions num_pages base =
     (case mmap_try mp m pml4 regions num_pages base of
        Inl p \<Rightarrow> Some (Inl p)
      | Inr NoRoom \<Rightarrow> Some (Inr None)
      | Inr Found \<Rightarrow> Some (Inr (Some base))
      | Inr (Retry base') \<Rightarrow> mmap_search mp m pml4 regions num_pages base')"

text \<open>Mapping the pages of an area; if a frame is missing the pages before it are unmapped again and the answer is \<open>False\<close>.\<close>

fun mmap_pages :: "mapper \<Rightarrow> u64 \<Rightarrow> u64 \<Rightarrow> nat list \<Rightarrow> (vmem, 'e, bool) op" where
  "mmap_pages mp pml4 base [] = sreturn True"
| "mmap_pages mp pml4 base (i # is) = at_virt mp (base + of_nat i * PAGE_SIZE) (\<lambda>page_virt.
     sbind (map_new_page mp pml4 page_virt) (\<lambda>ok.
       if ok then mmap_pages mp pml4 base is
       else sbind (each (\<lambda>j. at_virt mp (base + of_nat j * PAGE_SIZE) (unmap_if_mapped mp free_frame pml4)) [0..<i])
         (\<lambda>_. sreturn False)))"

text \<open>\<open>None\<close> if the search for an area does not end.\<close>

definition sys_mmap :: "mapper \<Rightarrow> u64 \<Rightarrow> u64 \<Rightarrow> msys \<Rightarrow> ((int, u64) outcome \<times> msys) option" where
  "sys_mmap mp addr len s =
     (if len = 0 then Some (sfail EINVAL s)
      else let num_pages = pages_for len in
        case s_current_pid (ms_sched s) of None \<Rightarrow> Some (sfail ESRCH s)
      | Some pid \<Rightarrow> (case s_processes (ms_sched s) ! pid of None \<Rightarrow> Some (sfail ESRCH s)
      | Some p \<Rightarrow>
          if p_pml4_phys p = 0 then Some (sfail ESRCH s)
          else if p_mmap_count p \<ge> MAX_MMAP_REGIONS then Some (sfail ENOMEM s)
          else case randomize_mmap_base (ms_prng s) of (base, prng) \<Rightarrow>
            let s = s\<lparr>ms_prng := prng\<rparr> in
            (case mmap_search mp (vm_mem (ms_vm s)) (p_pml4_phys p) (live_regions p) num_pages base of
               None \<Rightarrow> None
             | Some (Inl c) \<Rightarrow> Some (in_kernel_space (scrash c) s)
             | Some (Inr None) \<Rightarrow> Some (sfail ENOMEM s)
             | Some (Inr (Some base)) \<Rightarrow> Some (in_kernel_space
                 (sbind (on_vmem (mmap_pages mp (p_pml4_phys p) base [0..<unat num_pages])) (\<lambda>ok.
                  if \<not> ok then sfail ENOMEM
                  else (\<lambda>s. (Inr base, set_process pid (p\<lparr>p_mmap_regions := (p_mmap_regions p)[p_mmap_count p := (base, num_pages)],
                         p_mmap_count := p_mmap_count p + 1\<rparr>) s)))) s))))"

definition remove_region :: "nat \<Rightarrow> process \<Rightarrow> process" where
  "remove_region i p = p\<lparr>
     p_mmap_regions := (fold (\<lambda>j rs. rs[j := rs ! (j + 1)]) [i..<p_mmap_count p - 1] (p_mmap_regions p))[p_mmap_count p - 1 := (0, 0)],
     p_mmap_count := p_mmap_count p - 1\<rparr>"

definition sys_munmap :: "mapper \<Rightarrow> u64 \<Rightarrow> u64 \<Rightarrow> (msys, int, u64) op" where
  "sys_munmap mp addr len =
     (if len = 0 \<or> addr = 0 then sfail EINVAL
      else let end_addr = addr + pages_for len * PAGE_SIZE in
        in_kernel_space (with_caller (\<lambda>pid p.
          case List.find (\<lambda>i. let r = live_regions p ! i in addr \<ge> fst r \<and> end_addr \<le> region_limit r) [0..<p_mmap_count p] of
            None \<Rightarrow> sfail EINVAL
          | Some i \<Rightarrow>
              let r = live_regions p ! i in
              sbind (on_vmem (each (\<lambda>j. at_virt mp (fst r + of_nat j * PAGE_SIZE) (unmap_if_mapped mp decref (p_pml4_phys p)))
                [0..<unat (snd r)])) (\<lambda>_ s. (Inr 0, set_process pid (remove_region i p) s)))))"

end
