(* ===== verification/Kernel_Invariant.thy ===== *)
theory Kernel_Invariant
  imports Fork Memory_Calls
begin

text \<open>
  What holds in every state of the running kernel, under any interleaving of timer interrupts, key
  strokes, system calls (\<^verbatim>\<open>exec\<close> and \<^verbatim>\<open>execve\<close> excepted), faults, spawning and the work of the reaper: the invariant of the process table, and the
  accounting of kernel stacks and user address spaces.
\<close>

subsection \<open>Steps of the kernel\<close>

definition keyboard_interrupt :: "u8 \<Rightarrow> 'd kernel \<Rightarrow> 'd kernel" where
  "keyboard_interrupt scancode k = (case keyboard_handler scancode (k_console k) of (sig, c) \<Rightarrow>
     let k = k\<lparr>k_console := c\<rparr> in
     (case sig of None \<Rightarrow> k | Some signum \<Rightarrow> modify_sched (send_signal_to_fg (unat signum) (k_pipes k)) k))"

fun reap_all :: "'d blockdev \<Rightarrow> pid list \<Rightarrow> ('d, unit) kop" where
  "reap_all dev [] = sreturn ()"
| "reap_all dev (pid # pids) = sbind (reap_process dev pid) (\<lambda>_. reap_all dev pids)"

definition init_main_round :: "'d blockdev \<Rightarrow> ('d, unit) kop" where
  "init_main_round dev = (\<lambda>k. reap_all dev (orphan_zombies (k_sched k)) k)"

definition user_running :: "'d kernel \<Rightarrow> bool" where
  "user_running k = (case current_process (k_sched k) of None \<Rightarrow> False | Some p \<Rightarrow> p_is_user p)"

text \<open>What the heap promises of a new stack: it is not null and not in use.\<close>

definition fresh_stack :: "u64 option \<Rightarrow> 'd kernel \<Rightarrow> bool" where
  "fresh_stack stack k = (case stack of None \<Rightarrow> True | Some a \<Rightarrow> a \<noteq> 0 \<and> a \<notin> set (k_stacks k))"

text \<open>
  The numbers of the calls that have steps of their own (fork, brk, mmap and munmap) and of the two whose effect on
  processes and address spaces is not modelled (exec and execve).
\<close>

definition special_calls :: "nat set" where
  "special_calls = {8, 9, 17, 18, 22, 23}"

text \<open>A memory call, on the process table of the kernel, some state of virtual memory and of the random number generator.\<close>

definition memory_call :: "mapper \<Rightarrow> msys \<Rightarrow> msys \<Rightarrow> bool" where
  "memory_call mp s s' \<longleftrightarrow> (\<exists>new_brk r. sys_brk mp new_brk s = (r, s')) \<or> (\<exists>addr len r. sys_mmap mp addr len s = Some (r, s')) \<or>
     (\<exists>addr len r. sys_munmap mp addr len s = (r, s'))"

inductive kernel_reachable :: "'d blockdev \<Rightarrow> (bytes \<Rightarrow> bool) \<Rightarrow> (nat \<Rightarrow> ('d, u64) kop) \<Rightarrow> 'd kernel \<Rightarrow> bool"
  for dev valid_utf8 other where
  reach_boot: "k_sched k = fst (spawn_idle entry_virt cr3 stack (scheduler_init scheduler_new, m)) \<Longrightarrow> stack \<noteq> 0 \<Longrightarrow>
    k_stacks k = [stack] \<Longrightarrow> k_lost k = [] \<Longrightarrow> k_spaces k = [] \<Longrightarrow> k_deferred k = [] \<Longrightarrow> k_init_pid k = 0 \<Longrightarrow>
    kernel_reachable dev valid_utf8 other k"
| reach_spawn_kernel: "kernel_reachable dev valid_utf8 other k \<Longrightarrow> fresh_stack stack k \<Longrightarrow>
    kernel_reachable dev valid_utf8 other (snd (kernel_spawn_kernel entry_virt cr3 stack k))"
| reach_spawn_user: "kernel_reachable dev valid_utf8 other k \<Longrightarrow> fresh_stack stack k \<Longrightarrow>
    (case parent of None \<Rightarrow> True | Some q \<Rightarrow> occupied (k_sched k) q) \<Longrightarrow>
    kernel_reachable dev valid_utf8 other (snd (kernel_spawn_user user_cs user_ss user_rip user_rsp pml4 parent stack k))"
| reach_start_init: "kernel_reachable dev valid_utf8 other k \<Longrightarrow> fresh_stack stack k \<Longrightarrow>
    kernel_spawn_user user_cs user_ss user_rip user_rsp pml4 None stack k = (Some pid, k') \<Longrightarrow>
    kernel_reachable dev valid_utf8 other (k'\<lparr>k_init_pid := pid\<rparr>)"
| reach_timer: "kernel_reachable dev valid_utf8 other k \<Longrightarrow>
    kernel_reachable dev valid_utf8 other (snd (timer_interrupt saved_rsp k))"
| reach_key: "kernel_reachable dev valid_utf8 other k \<Longrightarrow>
    kernel_reachable dev valid_utf8 other (keyboard_interrupt scancode k)"
| reach_syscall: "kernel_reachable dev valid_utf8 other k \<Longrightarrow> user_running k \<Longrightarrow> unat num \<notin> special_calls \<Longrightarrow>
    kernel_reachable dev valid_utf8 other (snd (syscall_dispatch dev valid_utf8 other num arg0 arg1 arg2 k))"
| reach_fork: "kernel_reachable dev valid_utf8 other k \<Longrightarrow> user_running k \<Longrightarrow> fresh_stack stack k \<Longrightarrow> fresh_stack kstack k \<Longrightarrow>
    (stack = None \<or> stack \<noteq> kstack) \<Longrightarrow>
    kernel_reachable dev valid_utf8 other (snd (sys_fork copy kernel_pml4 stack kstack regs user_rsp k))"
| reach_memory: "kernel_reachable dev valid_utf8 other k \<Longrightarrow> user_running k \<Longrightarrow> memory_call mp s s' \<Longrightarrow> ms_sched s = k_sched k \<Longrightarrow>
    kernel_reachable dev valid_utf8 other (k\<lparr>k_sched := ms_sched s', k_machine := m\<rparr>)"
| reach_syscall_exit: "kernel_reachable dev valid_utf8 other k \<Longrightarrow>
    kernel_reachable dev valid_utf8 other (snd (syscall_exit saved_rsp k))"
| reach_fault: "kernel_reachable dev valid_utf8 other k \<Longrightarrow> user_running k \<Longrightarrow>
    kernel_reachable dev valid_utf8 other (snd (kill_current k))"
| reach_reaper: "kernel_reachable dev valid_utf8 other k \<Longrightarrow> s_current_pid (k_sched k) = Some 1 \<Longrightarrow>
    kernel_reachable dev valid_utf8 other (snd (init_main_round dev k))"

subsection \<open>The invariant\<close>

definition init_ok :: "pid \<Rightarrow> scheduler \<Rightarrow> bool" where
  "init_ok init_pid s = (init_pid < MAX_PROCESSES \<and>
     (case s_processes s ! init_pid of None \<Rightarrow> False | Some p \<Rightarrow> p_parent_pid p = None))"

definition kernel_ok :: "'d kernel \<Rightarrow> bool" where
  "kernel_ok k = (sched_inv (k_sched k) \<and> init_ok (k_init_pid k) (k_sched k)
     \<and> mset (k_stacks k) = held_stacks k + mset (k_lost k) \<and> distinct (k_stacks k) \<and> held_spaces k \<subseteq># mset (k_spaces k)
     \<and> length (k_deferred k) \<le> MAX_DEFERRED)"

text \<open>What a slot of the table holds.\<close>

definition resources :: "scheduler \<Rightarrow> (u64 list \<times> u64 list) list" where
  "resources s = map (\<lambda>slot. (slot_stack slot, slot_space slot)) (s_processes s)"

definition table_stacks :: "scheduler \<Rightarrow> u64 multiset" where
  "table_stacks s = mset (concat (map slot_stack (s_processes s)))"

definition table_spaces :: "scheduler \<Rightarrow> u64 multiset" where
  "table_spaces s = mset (concat (map slot_space (s_processes s)))"

lemma held_eq:
  "held_stacks k = table_stacks (k_sched k) + mset (deferred_stacks (k_deferred k))"
  "held_spaces k = table_spaces (k_sched k) + mset (deferred_spaces (k_deferred k))"
  by (simp_all add: held_stacks_def held_spaces_def table_stacks_def table_spaces_def)

lemma resources_table:
  assumes "resources s' = resources s"
  shows "table_stacks s' = table_stacks s" "table_spaces s' = table_spaces s"
proof -
  have "map slot_stack (s_processes s) = map fst (resources s)" "map slot_space (s_processes s) = map snd (resources s)" for s
    by (simp_all add: resources_def comp_def)
  with assms show "table_stacks s' = table_stacks s" "table_spaces s' = table_spaces s"
    by (simp_all add: table_stacks_def table_spaces_def)
qed

text \<open>A step of the table that keeps its invariant, what its slots hold, and who has no parent.\<close>

definition quiet :: "scheduler \<Rightarrow> scheduler \<Rightarrow> bool" where
  "quiet s s' = (sched_inv s' \<and> resources s' = resources s \<and> (\<forall>i < MAX_PROCESSES.
     rel_option (\<lambda>p p'. p_parent_pid p = None \<longrightarrow> p_parent_pid p' = None) (s_processes s ! i) (s_processes s' ! i)))"

lemma quiet_trans:
  assumes "quiet s s'" "quiet s' s''"
  shows "quiet s s''"
proof -
  let ?R = "rel_option (\<lambda>p p'. p_parent_pid p = None \<longrightarrow> p_parent_pid p' = None)"
  have "?R x z" if "?R x y" "?R y z" for x y z
    using that by (cases x; cases y; cases z) auto
  then show ?thesis using assms unfolding quiet_def by simp blast
qed

lemma quiet_refl: "sched_inv s \<Longrightarrow> quiet s s"
  unfolding quiet_def by (simp add: option.rel_refl)

lemma quiet_init_ok: "quiet s s' \<Longrightarrow> init_ok i s \<Longrightarrow> init_ok i s'"
  unfolding quiet_def init_ok_def by (auto split: option.splits elim!: allE [of _ i] simp: option_rel_Some1)

lemma kernel_ok_sched:
  assumes "kernel_ok k" "quiet (k_sched k) s'"
  shows "kernel_ok (k\<lparr>k_sched := s'\<rparr>)"
  using assms quiet_init_ok [OF assms(2)] resources_table [of s' "k_sched k"]
  by (auto simp: kernel_ok_def held_eq quiet_def)

lemma kernel_ok_fields [simp]:
  "kernel_ok (k\<lparr>k_machine := m\<rparr>) = kernel_ok k" "kernel_ok (k\<lparr>k_pipes := pt\<rparr>) = kernel_ok k"
  "kernel_ok (k\<lparr>k_console := c\<rparr>) = kernel_ok k" "kernel_ok (k\<lparr>k_ticks := t\<rparr>) = kernel_ok k"
  "kernel_ok (k\<lparr>k_force_switch := b\<rparr>) = kernel_ok k" "kernel_ok (k\<lparr>k_cr3 := x\<rparr>) = kernel_ok k"
  "kernel_ok (k\<lparr>k_deferred_cr3 := x\<rparr>) = kernel_ok k" "kernel_ok (k\<lparr>k_kernel_rsp := x\<rparr>) = kernel_ok k"
  "kernel_ok (k\<lparr>k_vfs := v\<rparr>) = kernel_ok k" "kernel_ok (k\<lparr>k_world := w\<rparr>) = kernel_ok k"
  "kernel_ok (k\<lparr>k_files := fs\<rparr>) = kernel_ok k"
  by (simp_all add: kernel_ok_def held_stacks_def held_spaces_def)

lemma sched_inv_of: "kernel_ok k \<Longrightarrow> sched_inv (k_sched k)"
  by (simp add: kernel_ok_def)

subsection \<open>Quiet steps\<close>

text \<open>A change of a process that keeps its parent and what it holds.\<close>

definition keeps :: "(process \<Rightarrow> process) \<Rightarrow> bool" where
  "keeps f = (\<forall>p. p_parent_pid (f p) = p_parent_pid p \<and> p_is_user (f p) = p_is_user p
     \<and> p_kernel_stack_base (f p) = p_kernel_stack_base p \<and> p_pml4_phys (f p) = p_pml4_phys p)"

lemma keeps_slot: "keeps f \<Longrightarrow> slot_stack (map_option f x) = slot_stack x \<and> slot_space (map_option f x) = slot_space x"
  by (cases x) (simp_all add: keeps_def slot_stack_def slot_space_def)

text \<open>A step in which every slot changes in this way.\<close>

definition slotwise :: "scheduler \<Rightarrow> scheduler \<Rightarrow> bool" where
  "slotwise s s' = (length (s_processes s') = length (s_processes s) \<and>
     (\<forall>i < length (s_processes s). \<exists>f. keeps f \<and> s_processes s' ! i = map_option f (s_processes s ! i)))"

lemma keeps_id [simp]: "keeps (\<lambda>p. p)"
  by (simp add: keeps_def)

lemma keeps_comp: "keeps f \<Longrightarrow> keeps g \<Longrightarrow> keeps (\<lambda>p. g (f p))"
  by (simp add: keeps_def)

lemma slotwise_same [simp]: "s_processes s' = s_processes s \<Longrightarrow> slotwise s s'"
  unfolding slotwise_def by (auto intro!: exI [of _ "\<lambda>p. p"] simp: option.map_ident)

lemma slotwise_trans:
  assumes "slotwise s s'" "slotwise s' s''"
  shows "slotwise s s''"
  unfolding slotwise_def
proof (intro conjI allI impI)
  show "length (s_processes s'') = length (s_processes s)" using assms by (simp add: slotwise_def)
next
  fix i assume i: "i < length (s_processes s)"
  then obtain f g where "keeps f" "s_processes s' ! i = map_option f (s_processes s ! i)"
      "keeps g" "s_processes s'' ! i = map_option g (s_processes s' ! i)"
    using assms unfolding slotwise_def by metis
  then show "\<exists>f. keeps f \<and> s_processes s'' ! i = map_option f (s_processes s ! i)"
    using keeps_comp by (intro exI [of _ "\<lambda>p. g (f p)"]) (simp add: option.map_comp comp_def)
qed

lemma slotwise_update: "keeps f \<Longrightarrow> slotwise s (update_process pid f s)"
  unfolding slotwise_def
  by (auto simp: update_process_nth option.map_ident intro: exI [of _ f] exI [of _ "\<lambda>p. p"])

lemma slotwise_map: "keeps f \<Longrightarrow> slotwise s (s\<lparr>s_processes := map (map_option f) (s_processes s)\<rparr>)"
  unfolding slotwise_def by auto

lemma slotwise_map_user: "keeps f \<Longrightarrow> slotwise s (map_user_slots f s)"
  unfolding slotwise_def
  by (auto simp: map_user_slots_nth option.map_ident intro: exI [of _ f] exI [of _ "\<lambda>p. p"])

lemma slotwise_quiet:
  assumes "sched_inv s" "sched_inv s'" "slotwise s s'"
  shows "quiet s s'"
proof -
  note sl = assms(3) [unfolded slotwise_def]
  have "slot_stack (s_processes s' ! i) = slot_stack (s_processes s ! i) \<and> slot_space (s_processes s' ! i) = slot_space (s_processes s ! i)"
    if "i < length (s_processes s)" for i
    using sl that keeps_slot by metis
  then have "resources s' = resources s"
    using sl by (intro nth_equalityI) (simp_all add: resources_def)
  moreover have "rel_option (\<lambda>p p'. p_parent_pid p = None \<longrightarrow> p_parent_pid p' = None) (s_processes s ! i) (s_processes s' ! i)"
    if "i < MAX_PROCESSES" for i
  proof -
    have "i < length (s_processes s)" using that sched_invD(1) [OF assms(1)] by simp
    with sl obtain f where "keeps f" "s_processes s' ! i = map_option f (s_processes s ! i)" by blast
    then show ?thesis by (cases "s_processes s ! i") (auto simp: keeps_def)
  qed
  ultimately show ?thesis using assms(2) by (auto simp: quiet_def)
qed

lemma keeps_steps [simp]:
  "keeps preempt" "keeps set_running" "keeps (wake_sleeper now)" "keeps wake" "keeps (clear_signal n)"
  "keeps (terminate_by n)" "keeps (default_action n)" "keeps (signal_process n)" "keeps (exit_process c)"
  "keeps (block_on r)" "keeps (send_signal n)"
  by (simp_all add: keeps_def preempt_def set_running_def wake_sleeper_def wake_def clear_signal_def terminate_by_def
      default_action_def signal_process_def exit_process_def block_on_def send_signal_def split: wake_reason.split)

lemma keeps_if [simp]: "keeps f \<Longrightarrow> keeps g \<Longrightarrow> keeps (\<lambda>p. if P p then f p else g p)"
  by (simp add: keeps_def)

lemma slotwise_preempt: "slotwise s (preempt_current s)"
  by (simp add: preempt_current_def slotwise_update split: option.split)

lemma slotwise_current: "slotwise s s' \<Longrightarrow> slotwise s (s'\<lparr>s_current_pid := c\<rparr>)"
  by (rule slotwise_trans, assumption, rule slotwise_same) simp

lemma slotwise_run_next: "run_next s = (pid, s') \<Longrightarrow> slotwise s s'"
  unfolding run_next_def Let_def prod.inject by (auto intro!: slotwise_current slotwise_update)

lemma slotwise_wake_parent: "slotwise s (wake_waiting_parent pid s)"
  unfolding wake_waiting_parent_def
  by (auto intro!: slotwise_update simp: keeps_def split: option.split)

lemma slotwise_deliver: "slotwise (fst st) (fst (deliver_signal pid st))"
proof -
  have "keeps (\<lambda>p. clear_signal n (p\<lparr>p_state := Zombie, p_exit_code := 11, p_terminated_by_signal := True\<rparr>))" for n
    by (simp add: keeps_def clear_signal_def)
  then show ?thesis
    by (cases st) (auto simp: deliver_signal_def deliver_to_handler_def Let_def split: option.split
        intro!: slotwise_update intro: slotwise_trans [OF _ slotwise_wake_parent])
qed

lemma slotwise_switch_next: "switch_next s = (sp, s') \<Longrightarrow> slotwise s s'"
  by (auto simp: switch_next_def split: prod.splits intro: slotwise_trans [OF slotwise_preempt] slotwise_run_next)

lemma slotwise_force: "slotwise (fst st) (fst (snd (switch_next_force st)))"
proof -
  obtain s m where st: "st = (s, m)" by (cases st)
  obtain pid s' where r: "run_next (preempt_current s) = (pid, s')" by (cases "run_next (preempt_current s)")
  have s': "slotwise s s'" by (rule slotwise_trans [OF slotwise_preempt slotwise_run_next [OF r]])
  then have "slotwise s (fst (deliver_signal pid (s', m)))"
    using slotwise_deliver [of "(s', m)"] by (auto intro: slotwise_trans)
  with s' show ?thesis by (simp add: st switch_next_force_def r)
qed

lemma slotwise_wake_sleepers: "slotwise s (wake_sleepers now s)"
  unfolding wake_sleepers_def by (rule slotwise_map) simp

lemma slotwise_counter: "slotwise s s' \<Longrightarrow> slotwise s (s'\<lparr>s_tick_counter := n\<rparr>)"
  by (rule slotwise_trans, assumption, rule slotwise_same) simp

lemma slotwise_on_tick:
  assumes "sched_inv (fst st)"
  shows "slotwise (fst st) (fst (snd (on_tick now st)))"
proof -
  obtain s m where st: "st = (s, m)" by (cases st)
  let ?s = "wake_sleepers now (s\<lparr>s_tick_counter := s_tick_counter s + 1\<rparr>)"
  have inv: "sched_inv ?s" using assms by (simp add: st wake_sleepers_inv)
  have sl: "slotwise s ?s" by (rule slotwise_trans [OF _ slotwise_wake_sleepers]) simp
  show ?thesis
  proof (cases "s_tick_counter ?s \<ge> s_quantum ?s")
    case True
    obtain sp s' where sw: "switch_next (?s\<lparr>s_tick_counter := 0\<rparr>) = (sp, s')" by (cases "switch_next (?s\<lparr>s_tick_counter := 0\<rparr>)")
    have s': "slotwise s s'" by (rule slotwise_trans [OF slotwise_counter [OF sl] slotwise_switch_next [OF sw]])
    then have "slotwise s (fst (deliver_signal pid (s', m)))" for pid
      using slotwise_deliver [of "(s', m)"] by (auto intro: slotwise_trans)
    with s' show ?thesis
      using True sw by (auto simp: st on_tick_def Let_def split: option.split)
  next
    case False
    then show ?thesis
      using sl current_stack_pointer_inv [OF inv]
      by (simp add: st on_tick_def Let_def case_prod_beta)
  qed
qed

lemma slotwise_save_sp: "slotwise s (save_current_sp sp cr3 s)"
  unfolding save_current_sp_def by (auto intro!: slotwise_update simp: keeps_def split: option.split)

lemma slotwise_dispatch_first: "slotwise s (snd (dispatch_first pid s))"
  unfolding dispatch_first_def Let_def
  by (auto intro!: slotwise_counter slotwise_current slotwise_update)

lemma slotwise_keyboard_wake: "slotwise s (keyboard_wake pipes s)"
  unfolding keyboard_wake_def by (rule slotwise_map) simp

lemma slotwise_wake_wait: "slotwise s (wake_wait_for_child pid s)"
  unfolding wake_wait_for_child_def by (rule slotwise_map_user) simp

lemma slotwise_signal_fg: "slotwise s (send_signal_to_fg signum pipes s)"
proof -
  have fold: "slotwise t (fold wake_parents_of pids t)" for t pids
  proof (induction pids arbitrary: t)
    case (Cons pid pids)
    have "slotwise t (wake_parents_of pid t)" unfolding wake_parents_of_def by (rule slotwise_map_user) simp
    with Cons show ?case by (auto intro: slotwise_trans)
  qed simp
  have kill: "slotwise s (map_user_slots (\<lambda>p. if signal_reaches signum pgid p then signal_process signum p else p) s)" for pgid
    by (rule slotwise_map_user) simp
  have "slotwise s (case fg_pgid s of None \<Rightarrow> s | Some pgid \<Rightarrow>
      fold wake_parents_of (killed_pids signum pgid s)
        (map_user_slots (\<lambda>p. if signal_reaches signum pgid p then signal_process signum p else p) s))"
    by (auto intro: slotwise_trans [OF kill fold] split: option.split)
  then show ?thesis
    unfolding send_signal_to_fg_def Let_def by (rule slotwise_trans) (rule slotwise_map, simp)
qed

text \<open>Re-parenting changes parents, but nobody without a parent gets one.\<close>

lemma reparent_quiet:
  assumes "sched_inv s" "init_ok init_pid s"
  shows "quiet s (reparent_orphans_to_init init_pid old s)"
proof -
  let ?s = "reparent_orphans_to_init init_pid old s"
  have inv: "sched_inv ?s"
    using assms(2) by (intro reparent_inv [OF assms(1)]) (auto simp: init_ok_def split: option.splits)
  have "slot_stack (map_option (\<lambda>p. if P p then p\<lparr>p_parent_pid := a, p_parent_generation := g\<rparr> else p) x) = slot_stack x
    \<and> slot_space (map_option (\<lambda>p. if P p then p\<lparr>p_parent_pid := a, p_parent_generation := g\<rparr> else p) x) = slot_space x" for P a g x
    by (cases x) (simp_all add: slot_stack_def slot_space_def)
  then have "resources ?s = resources s" by (simp add: resources_def reparent_orphans_to_init_def Let_def comp_def)
  then show ?thesis
    using inv sched_invD(1) [OF assms(1)]
    by (auto simp: quiet_def reparent_orphans_to_init_def Let_def option.rel_map intro!: option.rel_refl)
qed

lemma kill_process_quiet:
  assumes "sched_inv s" "init_ok init_pid s" "s_current_pid s = Some c" "c \<noteq> 0"
  shows "quiet s (snd (kill_process init_pid s))"
proof -
  let ?r = "reparent_orphans_to_init init_pid c s"
  let ?u = "update_process c (\<lambda>p. p\<lparr>p_state := Zombie\<rparr>) ?r"
  obtain pid s' where r: "run_next ?u = (pid, s')" by (cases "run_next ?u")
  have s': "snd (kill_process init_pid s) = s'" using assms(3) r by (simp add: kill_process_def Let_def)
  have inv: "sched_inv s'"
    unfolding s' [symmetric] using assms(2)
    by (intro kill_process_inv [OF assms(1) _ _ assms(3,4)]) (auto simp: init_ok_def split: option.splits)
  have "slotwise ?r ?u" by (rule slotwise_update) (simp add: keeps_def)
  then have "slotwise ?r s'" using slotwise_run_next [OF r] by (rule slotwise_trans)
  moreover have q: "quiet s ?r" by (rule reparent_quiet [OF assms(1,2)])
  moreover have "sched_inv ?r" using q by (simp add: quiet_def)
  ultimately show ?thesis
    unfolding s' using slotwise_quiet [OF _ inv] quiet_trans by blast
qed

subsection \<open>Resources that change hands\<close>

lemma mset_concat_update:
  assumes "i < length xs"
  shows "mset (concat (map f (xs[i := y]))) + mset (f (xs ! i)) = mset (concat (map f xs)) + mset (f y)"
  using assms
proof (induction xs arbitrary: i)
  case (Cons x xs)
  then show ?case by (cases i) (simp_all add: ac_simps)
qed simp

lemma mset_remove_eq: "mset xs = add_mset a M \<Longrightarrow> mset (remove1 a xs) = M"
  by simp

lemma table_stacks_update:
  assumes "i < length (s_processes s)" "s_processes s' = (s_processes s)[i := sl]"
  shows "table_stacks s' + mset (slot_stack (s_processes s ! i)) = table_stacks s + mset (slot_stack sl)"
    "table_spaces s' + mset (slot_space (s_processes s ! i)) = table_spaces s + mset (slot_space sl)"
  using mset_concat_update [OF assms(1)] by (simp_all add: table_stacks_def table_spaces_def assms(2))

text \<open>Dropping what a slot held.\<close>

lemma free_process_memory_lists:
  "k_stacks (free_process_memory p k) = fold remove1 (slot_stack (Some p)) (k_stacks k)"
  "k_spaces (free_process_memory p k) = fold remove1 (slot_space (Some p)) (k_spaces k)"
  "k_sched (free_process_memory p k) = k_sched k" "k_deferred (free_process_memory p k) = k_deferred k"
  "k_init_pid (free_process_memory p k) = k_init_pid k" "k_lost (free_process_memory p k) = k_lost k"
  by (auto simp: free_process_memory_def drop_process_memory_def free_stack_def free_space_def slot_stack_def slot_space_def)

lemma mset_fold_remove1: "mset (fold remove1 xs ys) = mset ys - mset xs"
  by (induction xs arbitrary: ys) (simp_all add: diff_diff_add_mset [symmetric])

lemma distinct_fold_remove1: "distinct ys \<Longrightarrow> distinct (fold remove1 xs ys)"
  by (induction xs arbitrary: ys) simp_all

lemma mset_subset_diff: "A + B + C \<subseteq># D \<Longrightarrow> A + C \<subseteq># D - B"
  by (auto simp: mset_subset_eq_exists_conv ac_simps)

lemma reap_memory_ok:
  assumes "kernel_ok k" "pid \<noteq> 0" "s_current_pid (k_sched k) \<noteq> Some pid" "pid < MAX_PROCESSES"
    and "s_processes (k_sched k) ! pid = Some p" "p_parent_pid p \<noteq> None"
  shows "kernel_ok (free_process_memory p (modify_sched (reap_zombie pid) k))"
proof -
  let ?k = "modify_sched (reap_zombie pid) k"
  have inv: "sched_inv (k_sched k)" using assms(1) by (rule sched_inv_of)
  have len: "pid < length (s_processes (k_sched k))" using assms(4) sched_invD(1) [OF inv] by simp
  have upd: "s_processes (k_sched ?k) = (s_processes (k_sched k))[pid := None]" by (simp add: modify_sched_def reap_zombie_def)
  note bal = table_stacks_update [OF len upd, unfolded assms(5)]
  have stacks: "mset (k_stacks k) = table_stacks (k_sched ?k) + mset (slot_stack (Some p)) + mset (deferred_stacks (k_deferred k)) + mset (k_lost k)"
    using assms(1) bal(1) by (simp add: kernel_ok_def held_eq slot_stack_def)
  have "table_spaces (k_sched k) = table_spaces (k_sched ?k) + mset (slot_space (Some p))"
    using bal(2) by (simp add: slot_space_def)
  then have spaces: "table_spaces (k_sched ?k) + mset (slot_space (Some p)) + mset (deferred_spaces (k_deferred k)) \<subseteq># mset (k_spaces k)"
    using assms(1) by (simp add: kernel_ok_def held_eq)
  have "init_ok (k_init_pid k) (k_sched ?k)"
    using assms(1,5,6) len by (auto simp: kernel_ok_def init_ok_def upd nth_list_update)
  moreover have "sched_inv (k_sched ?k)"
    using reap_zombie_inv [OF inv assms(2,3)] by (simp add: modify_sched_def)
  moreover have "mset (k_stacks k) - mset (slot_stack (Some p)) = table_stacks (k_sched ?k) + mset (deferred_stacks (k_deferred k)) + mset (k_lost k)"
    unfolding stacks by simp
  moreover have "table_spaces (k_sched ?k) + mset (deferred_spaces (k_deferred k)) \<subseteq># mset (k_spaces k) - mset (slot_space (Some p))"
    by (rule mset_subset_diff [OF spaces])
  ultimately show ?thesis
    using assms(1) unfolding kernel_ok_def held_eq free_process_memory_lists
    by (simp add: mset_fold_remove1 distinct_fold_remove1 modify_sched_def)
qed

end
