(* ===== verification/Kernel_Safety.thy ===== *)
theory Kernel_Safety
  imports Kernel_Invariant
begin

text \<open>
  Every step of the kernel keeps the invariant: the system calls, the context switch with its deferred
  release, spawning and reaping. The result is that it holds in every reachable state.
\<close>

subsection \<open>Operations that preserve a property of the state\<close>

definition preserves :: "('s \<Rightarrow> bool) \<Rightarrow> ('s, 'e, 'a) op \<Rightarrow> bool" where
  "preserves I m = (\<forall>k. I k \<longrightarrow> I (snd (m k)))"

named_theorems pres

lemma preservesD: "preserves I m \<Longrightarrow> I k \<Longrightarrow> I (snd (m k))"
  by (simp add: preserves_def)

lemma preserves_pure [pres]:
  "preserves I (sreturn x)" "preserves I (sfail e)" "preserves I (scrash c)" "preserves I (kget f)"
  by (simp_all add: preserves_def sreturn_def sfail_def scrash_def kget_def)

lemma preserves_sbind [pres]:
  assumes "preserves I m" "\<And>x. preserves I (f x)"
  shows "preserves I (sbind m f)"
  using assms unfolding preserves_def sbind_def by (auto split: prod.splits sum.splits)

lemma preserves_stry [pres]: "preserves I m \<Longrightarrow> preserves I (stry m)"
  unfolding preserves_def stry_def by (auto split: prod.splits sum.splits fault.splits)

lemma preserves_kmodify [pres]: "(\<And>k. I k \<Longrightarrow> I (f k)) \<Longrightarrow> preserves I (kmodify f)"
  by (simp add: preserves_def kmodify_def)

lemma preserves_if [pres]: "preserves I m \<Longrightarrow> preserves I m' \<Longrightarrow> preserves I (if b then m else m')"
  by simp

lemma preserves_option [pres]:
  "preserves I m \<Longrightarrow> (\<And>x. preserves I (f x)) \<Longrightarrow> preserves I (case r of None \<Rightarrow> m | Some x \<Rightarrow> f x)"
  by (cases r) simp_all

lemma preserves_sum [pres]:
  "(\<And>e. preserves I (f e)) \<Longrightarrow> (\<And>x. preserves I (g x)) \<Longrightarrow> preserves I (case r of Inl e \<Rightarrow> f e | Inr x \<Rightarrow> g x)"
  by (cases r) simp_all

lemma preserves_list [pres]:
  "preserves I m \<Longrightarrow> (\<And>x xs. preserves I (f x xs)) \<Longrightarrow> preserves I (case r of [] \<Rightarrow> m | x # xs \<Rightarrow> f x xs)"
  by (cases r) simp_all

lemma preserves_fd_type [pres]:
  assumes "preserves I none" "preserves I stdin" "preserves I stdout" "preserves I stderr" "preserves I tty" "preserves I null"
    and "\<And>idx w. preserves I (pipe idx w)" "\<And>index. preserves I (file index)"
  shows "preserves I (case t of FdNone \<Rightarrow> none | FdStdin \<Rightarrow> stdin | FdStdout \<Rightarrow> stdout | FdStderr \<Rightarrow> stderr
    | FdTty \<Rightarrow> tty | FdNull \<Rightarrow> null | FdPipe idx w \<Rightarrow> pipe idx w | FdFsFile index \<Rightarrow> file index)"
  using assms by (cases t) simp_all

lemma preserves_Let [pres]: "preserves I (f x) \<Longrightarrow> preserves I (let y = x in f y)"
  by simp

lemma preserves_with_current [pres]: "(\<And>pid p. preserves I (f pid p)) \<Longrightarrow> preserves I (with_current f)"
  unfolding preserves_def with_current_def sfail_def by (auto split: option.split)

lemma preserves_slot_of [pres]: "(\<And>pid p. preserves I (f pid p)) \<Longrightarrow> preserves I (slot_of a f)"
  unfolding preserves_def slot_of_def sfail_def by (auto split: option.split)

subsection \<open>The caller's slot stays\<close>

definition calling :: "pid \<Rightarrow> 'd kernel \<Rightarrow> bool" where
  "calling c k = (kernel_ok k \<and> s_current_pid (k_sched k) = Some c \<and> c \<noteq> 0)"

lemma calling_fields [simp]:
  "calling c (k\<lparr>k_machine := m\<rparr>) = calling c k" "calling c (k\<lparr>k_pipes := pt\<rparr>) = calling c k"
  "calling c (k\<lparr>k_console := con\<rparr>) = calling c k" "calling c (k\<lparr>k_force_switch := b\<rparr>) = calling c k"
  "calling c (k\<lparr>k_world := w\<rparr>) = calling c k" "calling c (k\<lparr>k_files := fs\<rparr>) = calling c k"
  by (simp_all add: calling_def)

lemma calling_sched:
  assumes "calling c k" "quiet (k_sched k) s'" "s_current_pid s' = s_current_pid (k_sched k)"
  shows "calling c (k\<lparr>k_sched := s'\<rparr>)"
  using assms kernel_ok_sched [of k s'] by (simp add: calling_def)

text \<open>A change of a process that concerns only its descriptors, directory, signals or group.\<close>

definition steady :: "(process \<Rightarrow> process) \<Rightarrow> bool" where
  "steady f = (keeps f \<and> (\<forall>p. p_pid (f p) = p_pid p \<and> p_state (f p) = p_state p))"

lemma quiet_update:
  assumes "sched_inv s" "keeps f" "\<And>p. slot_ok (s_current_pid s) pid p \<Longrightarrow> slot_ok (s_current_pid s) pid (f p)"
  shows "quiet s (update_process pid f s)"
  by (rule slotwise_quiet [OF assms(1) update_process_inv [OF assms(1)] slotwise_update [OF assms(2)]]) (rule assms(3))

lemma calling_update:
  assumes "calling c k" "keeps f" "\<And>p. slot_ok (Some c) pid p \<Longrightarrow> slot_ok (Some c) pid (f p)"
  shows "calling c (modify_sched (update_process pid f) k)"
  using assms unfolding modify_sched_def
  by (intro calling_sched quiet_update) (simp_all add: calling_def kernel_ok_def)

lemma steady_slot_ok: "steady f \<Longrightarrow> slot_ok cur i p \<Longrightarrow> slot_ok cur i (f p)"
  by (simp add: steady_def keeps_def slot_ok_def)

lemma calling_steady: "steady f \<Longrightarrow> calling c k \<Longrightarrow> calling c (modify_sched (update_process pid f) k)"
  by (rule calling_update) (auto simp: steady_slot_ok, simp add: steady_def)

lemma preserves_modify_process [pres]: "steady f \<Longrightarrow> preserves (calling c) (modify_process pid f)"
  unfolding modify_process_def by (intro pres calling_steady)

lemma steady_steps [simp]:
  "steady (place_pipe idx r w)" "steady (clear_fd fd)" "steady (set_fd fd t)" "steady (\<lambda>p. count_pipe_closed (clear_fd fd p))"
  "steady (install_file fd fh cell flags)" "steady (set_cwd path)" "steady (send_signal n)"
  "steady (\<lambda>p. p\<lparr>p_file_handles := h p\<rparr>)" "steady (\<lambda>p. p\<lparr>p_signal_handlers := g p\<rparr>)" "steady (\<lambda>p. p\<lparr>p_pgid := pgid\<rparr>)"
  by (simp_all add: steady_def keeps_def place_pipe_def clear_fd_def set_fd_def count_pipe_closed_def install_file_def
      set_cwd_def send_signal_def Let_def)

lemma calling_wake_blocked [simp]: "calling c k \<Longrightarrow> calling c (wake_blocked k)"
  unfolding wake_blocked_def modify_sched_def
  by (intro calling_sched slotwise_quiet keyboard_wake_inv slotwise_keyboard_wake)
    (simp_all add: calling_def kernel_ok_def keyboard_wake_def)

lemma block_current_pres [pres]: "preserves (calling c) (block_current reason)"
proof -
  have "calling c (modify_sched (update_process c (block_on reason)) k)" if "calling c k" for k :: "'a kernel"
    using that by (intro calling_update) (auto simp: slot_ok_def block_on_def calling_def)
  then show ?thesis
    unfolding preserves_def block_current_def set_force_switch_def by (auto simp: calling_def)
qed

lemma on_world_pres [pres]: "preserves (calling c) (on_world m)"
  by (simp add: preserves_def on_world_def split: prod.split)

lemma with_file_pres [pres]: "preserves (calling c) (with_file p index m)"
  by (auto simp: preserves_def with_file_def sfail_def split: prod.split option.split)

lemma store_pres [pres]: "preserves (calling c) (store_user pml4 a bs)" "preserves (calling c) (check_buffer pml4 a n)"
  by (simp_all add: preserves_def store_user_def check_buffer_def sfail_def)


lemma file_pres [pres]:
  "preserves (calling c) (drop_file dev f)" "preserves (calling c) (drop_cell dev others a)"
  "preserves (calling c) (drop_cells dev cells)"
proof -
  show on_file: "preserves (calling c) (drop_file dev f)" for f unfolding drop_file_def by (intro pres)
  show on_cell: "preserves (calling c) (drop_cell dev others a)" for others a
    using on_file unfolding preserves_def drop_cell_def drop_file_def by (auto simp: fun_eq_iff)
  show "preserves (calling c) (drop_cells dev cells)"
    by (induction cells) (simp_all add: pres on_cell)
qed

subsection \<open>The system calls\<close>

lemma sys_write_pres: "preserves (calling c) (sys_write fd buf_ptr nbytes)"
proof -
  have [pres]: "preserves (calling c) (write_pipe idx writable buf)" for idx writable buf
    unfolding preserves_def write_pipe_def Let_def
    by (auto simp: sfail_def preservesD [OF block_current_pres] split: option.split prod.split)
  have [pres]: "preserves (calling c) (write_console buf)" for buf
    by (simp add: preserves_def write_console_def)
  show ?thesis unfolding sys_write_def by (intro pres)
qed

lemma sys_read_pres: "preserves (calling c) (sys_read fd buf_ptr nbytes)"
proof -
  have store: "preserves (calling c) (sbind (store_user pml4 a bs) (\<lambda>n. sbind (kmodify wake_blocked) (\<lambda>_. sreturn n)))" for pml4 a bs
    by (intro pres) simp
  have [pres]: "preserves (calling c) (read_pipe idx writable pml4 a n)" for idx writable pml4 a n
    unfolding preserves_def read_pipe_def
    by (auto simp: sfail_def preservesD [OF block_current_pres] preservesD [OF store] split: option.split prod.split)
  have [pres]: "preserves (calling c) (read_console pml4 a n)" for pml4 a n
    unfolding preserves_def read_console_def
    by (auto simp: preservesD [OF block_current_pres] preservesD [OF store_pres(1)] split: option.split prod.split)
  show ?thesis unfolding sys_read_def by (intro pres)
qed

lemma sys_pipe_pres: "preserves (calling c) sys_pipe"
  unfolding preserves_def sys_pipe_def Let_def release_pipe_def
  by (auto simp: sfail_def calling_steady split: option.split prod.split list.split)

lemma sys_close_pres: "preserves (calling c) (sys_close fd)"
  unfolding sys_close_def by (intro pres) simp_all

lemma sys_dup_pres: "preserves (calling c) (sys_dup fd)"
proof -
  have dup: "preserves (calling c) (dup_to_free pid t p)" for pid t p
    unfolding dup_to_free_def by (intro pres) simp
  show ?thesis
    unfolding preserves_def sys_dup_def
    by (auto simp: sfail_def preservesD [OF dup] split: option.split fd_type.split)
qed

lemma sys_dup2_pres: "preserves (calling c) (sys_dup2 dev oldfd newfd)"
  unfolding sys_dup2_def release_handle_def by (intro pres) simp_all

lemma sys_readdir_pres: "preserves (calling c) (sys_readdir fd buf_ptr nbytes)"
proof -
  have [pres]: "preserves (calling c) (\<lambda>k. case readdir_loop n [] (k_files k ! cell, k_world k) of
      (r, f, w) \<Rightarrow> (r, k\<lparr>k_files := (k_files k)[cell := f], k_world := w\<rparr>))" for n cell
    by (simp add: preserves_def split: prod.split)
  show ?thesis unfolding sys_readdir_def by (intro pres)
qed

lemma get_path_pres [pres]: "preserves (calling c) (get_path valid_utf8 path_ptr)"
  unfolding get_path_def preserves_def with_current_def
  by (auto simp: sfail_def split: option.split)

lemma sys_open_pres: "preserves (calling c) (sys_open dev valid_utf8 path_ptr flags)"
proof -
  have [pres]: "preserves (calling c) (open_file_at dev vfs path flags)" for vfs path
    unfolding open_file_at_def by (intro pres)
  have seek: "preserves (calling c) (\<lambda>k. case file_seek (inode_size inode (k_world k)) (f, k_world k) of
      (f', w) \<Rightarrow> (Inr f', k\<lparr>k_world := w\<rparr>))" for inode f
    by (simp add: preserves_def split: prod.split)
  have [pres]: "preserves (calling c) (seek_to_end dev vfs path f)" for vfs path f
    unfolding seek_to_end_def by (intro pres seek)
  have drop: "preserves (calling c) (sbind (drop_file dev f) (\<lambda>_. sfail e))" for f e
    by (intro pres)
  have [pres]: "preserves (calling c) (place_file dev flags f)" for f
    unfolding preserves_def place_file_def
    by (auto simp: preservesD [OF drop] calling_steady split: option.split list.split)
  show ?thesis unfolding sys_open_def by (intro pres)
qed

lemma sys_dir_pres:
  "preserves (calling c) (sys_lseek fd offset)" "preserves (calling c) (sys_unlink dev valid_utf8 a)"
  "preserves (calling c) (sys_mkdir dev valid_utf8 a)" "preserves (calling c) (sys_chdir dev valid_utf8 a)"
  "preserves (calling c) (sys_getcwd a n)"
  unfolding sys_lseek_def sys_unlink_def sys_mkdir_def sys_chdir_def sys_getcwd_def
  by (intro pres steady_steps | simp)+

lemma sys_tc_pres: "preserves (calling c) (sys_tcgetattr fd a)" "preserves (calling c) (sys_tcsetattr fd a)"
proof -
  have [pres]: "preserves (calling c) (check_termios fd a)"
    by (simp add: preserves_def check_termios_def sfail_def Let_def)
  show "preserves (calling c) (sys_tcgetattr fd a)" "preserves (calling c) (sys_tcsetattr fd a)"
    unfolding sys_tcgetattr_def sys_tcsetattr_def by (intro pres steady_steps | simp)+
qed

lemma sys_simple_pres [pres]: "preserves (calling c) sys_getpid" "preserves (calling c) sys_yield"
  by (simp_all add: preserves_def sys_getpid_def sys_yield_def set_force_switch_def)

lemma or_current_pres [pres]: "preserves (calling c) (or_current pid)"
  unfolding or_current_def by (intro pres)

lemma sys_signal_pres:
  "preserves (calling c) (sys_sigaction signum h old)" "preserves (calling c) (sys_kill pid signum)"
  "preserves (calling c) (sys_setpgid pid pgid)" "preserves (calling c) (sys_getpgid pid)"
  unfolding sys_sigaction_def sys_kill_def sys_setpgid_def sys_getpgid_def
  by (intro pres steady_steps | simp)+


subsection \<open>Exit, waiting and reaping\<close>

lemma sys_sleep_pres: "preserves (calling c) (sys_sleep ticks)"
  using block_current_pres unfolding preserves_def sys_sleep_def by blast

lemma sys_exit_pres: "preserves (calling c) (sys_exit code)"
proof -
  have "calling c (modify_sched (wake_wait_for_child pid)
      (modify_sched (\<lambda>s. update_process c (exit_process code) (reparent_orphans_to_init (k_init_pid k) c s)) k))"
    if k: "calling c k" for k :: "'a kernel" and pid
  proof -
    let ?r = "reparent_orphans_to_init (k_init_pid k) c (k_sched k)"
    let ?u = "update_process c (exit_process code) ?r"
    have inv: "sched_inv (k_sched k)" "init_ok (k_init_pid k) (k_sched k)" using k by (simp_all add: calling_def kernel_ok_def)
    have q: "quiet (k_sched k) ?r" by (rule reparent_quiet [OF inv])
    moreover have u: "quiet ?r ?u"
      using q k by (intro quiet_update) (auto simp: quiet_def slot_ok_def exit_process_def reparent_orphans_to_init_def Let_def calling_def)
    moreover have "quiet ?u (wake_wait_for_child pid ?u)"
      using u by (intro slotwise_quiet wake_wait_for_child_inv slotwise_wake_wait) (simp_all add: quiet_def)
    ultimately have "quiet (k_sched k) (wake_wait_for_child pid ?u)" using quiet_trans by blast
    then show ?thesis
      unfolding modify_sched_def using k
      by (auto intro!: calling_sched simp: wake_wait_for_child_def reparent_orphans_to_init_def Let_def)
  qed
  then show ?thesis
    unfolding preserves_def sys_exit_def Let_def set_force_switch_def by (auto simp: calling_def)
qed

lemma free_process_memory_fields:
  "free_process_memory p (k\<lparr>k_pipes := pt\<rparr>) = (free_process_memory p k)\<lparr>k_pipes := pt\<rparr>"
  by (simp add: free_process_memory_def drop_process_memory_def free_stack_def free_space_def split: option.split)

lemma reap_process_calling:
  assumes "calling c k" "pid \<noteq> c" "pid < MAX_PROCESSES" "s_processes (k_sched k) ! pid = Some p" "p_parent_pid p \<noteq> None"
  shows "calling c (snd (reap_process dev pid k))"
proof -
  have ok: "kernel_ok k" "s_current_pid (k_sched k) = Some c" "c \<noteq> 0" using assms(1) by (simp_all add: calling_def)
  have "pid \<noteq> 0" using sched_invD(6) [OF sched_inv_of [OF ok(1)] assms(3,4)] assms(5) by (auto simp: slot_ok_def)
  then have "kernel_ok (free_process_memory p (modify_sched (reap_zombie pid) k))"
    using ok assms by (intro reap_memory_ok) simp_all
  then have "calling c (free_process_memory p (modify_sched (reap_zombie pid) k))"
    using ok by (simp add: calling_def free_process_memory_lists modify_sched_def reap_zombie_def)
  then have "calling c (free_process_memory p ((modify_sched (reap_zombie pid) k)\<lparr>k_pipes := pt\<rparr>))" for pt
    by (simp add: free_process_memory_fields)
  then have "calling c (snd (drop_process dev p (modify_sched (reap_zombie pid) k)))"
    unfolding drop_process_def sbind_def kmodify_def by (simp add: preservesD [OF file_pres(3)])
  then show ?thesis using assms(4) by (simp add: reap_process_def)
qed

lemma wait_for_calling:
  assumes "calling c k" "pid \<noteq> c" "pid < MAX_PROCESSES" "s_processes (k_sched k) ! pid = Some p" "p_parent_pid p \<noteq> None"
  shows "calling c (snd (wait_for dev pid flags k))"
proof -
  have "calling c (snd (sbind (reap_process dev pid) (\<lambda>_. sreturn x) k))" for x :: u64
    using reap_process_calling [OF assms, of dev]
    by (cases "reap_process dev pid k"; cases "fst (reap_process dev pid k)") (simp_all add: sbind_def sreturn_def)
  then show ?thesis using assms(1) by (simp add: wait_for_def preservesD [OF block_current_pres])
qed

lemma child_of_calling:
  assumes "calling c k" "is_child_of i c gen (k_sched k)"
  obtains p where "i \<noteq> c" "i < MAX_PROCESSES" "s_processes (k_sched k) ! i = Some p" "p_parent_pid p \<noteq> None" "p_pid p = i"
proof -
  have inv: "sched_inv (k_sched k)" using assms(1) by (simp add: calling_def kernel_ok_def)
  obtain p where p: "i < MAX_PROCESSES" "s_processes (k_sched k) ! i = Some p" "p_parent_pid p = Some c"
    using assms(2) sched_invD(1) [OF inv] by (auto simp: is_child_of_def split: option.splits)
  then have "slot_ok (s_current_pid (k_sched k)) i p" by (intro sched_invD(6) [OF inv])
  then show ?thesis using that p by (auto simp: slot_ok_def)
qed

lemma sys_waitpid_pres: "preserves (calling c) (sys_waitpid dev child_pid flags)"
  unfolding preserves_def
proof (intro allI impI)
  fix k :: "'a kernel"
  assume k: "calling c k"
  have cur: "s_current_pid (k_sched k) = Some c" using k by (simp add: calling_def)
  have any: "calling c (snd (wait_for dev pid flags k))" if "find_any_zombie_child (k_sched k) = Some (pid, q, x)" for pid q x
  proof -
    from that obtain i p where i: "is_child_of i c (get_generation c (k_sched k)) (k_sched k)"
        "s_processes (k_sched k) ! i = Some p" "pid = p_pid p"
      by (auto simp: find_any_zombie_child_def Let_def cur bind_eq_Some_conv find_Some_iff)
    show ?thesis
    proof (rule child_of_calling [OF k i(1)])
      fix p'
      assume p': "i \<noteq> c" "i < MAX_PROCESSES" "s_processes (k_sched k) ! i = Some p'" "p_parent_pid p' \<noteq> None" "p_pid p' = i"
      then have "pid = i" using i(2,3) by simp
      then show ?thesis using wait_for_calling [OF k p'(1-4)] by simp
    qed
  qed
  have one: "calling c (snd (wait_for dev pid flags k))" if "is_child_of pid c gen (k_sched k)" for pid gen
    by (rule child_of_calling [OF k that]) (rule wait_for_calling [OF k])
  have block: "calling c (snd (block_current reason k))" for reason by (rule preservesD [OF block_current_pres k])
  show "calling c (snd (sys_waitpid dev child_pid flags k))"
    using k any one block unfolding sys_waitpid_def Let_def cur
    by (auto simp: sfail_def split: option.split)
qed

lemma syscall_pres:
  assumes "unat num \<notin> special_calls"
  shows "preserves (calling c) (syscall_dispatch dev valid_utf8 other num arg0 arg1 arg2)"
proof -
  have "unat num \<notin> {8, 9, 17, 18, 22, 23}" using assms by (simp add: special_calls_def)
  then have "preserves (calling c) (syscall_number dev valid_utf8 other (unat num) arg0 arg1 arg2)"
    unfolding syscall_number_def
    by (simp only: simp_thms if_False)
      (intro pres sys_write_pres sys_exit_pres sys_waitpid_pres sys_read_pres sys_pipe_pres sys_close_pres sys_dup_pres
        sys_open_pres sys_dup2_pres sys_readdir_pres sys_dir_pres sys_tc_pres sys_signal_pres sys_sleep_pres)
  then show ?thesis unfolding syscall_dispatch_def by (intro pres)
qed


lemma reap_all_calling:
  assumes "calling c k" "distinct pids"
    and "\<And>pid. pid \<in> set pids \<Longrightarrow> pid \<noteq> c \<and> pid < MAX_PROCESSES \<and> (\<exists>p. s_processes (k_sched k) ! pid = Some p \<and> p_parent_pid p \<noteq> None)"
  shows "calling c (snd (reap_all dev pids k))"
  using assms
proof (induction pids arbitrary: k)
  case (Cons pid pids)
  obtain p where p: "pid \<noteq> c" "pid < MAX_PROCESSES" "s_processes (k_sched k) ! pid = Some p" "p_parent_pid p \<noteq> None"
    using Cons.prems(3) [of pid] by auto
  have k': "calling c (snd (reap_process dev pid k))" by (rule reap_process_calling [OF Cons.prems(1) p])
  have same: "preserves (\<lambda>k. k_sched k = s) (drop_cells dev cells)" for s and cells
  proof (induction cells)
    case (Cons a cells)
    have "preserves (\<lambda>k. k_sched k = s) (drop_cell dev cells a)"
      by (auto simp: preserves_def drop_cell_def sbind_def stry_def on_world_def sreturn_def split: prod.splits sum.splits fault.splits)
    with Cons show ?case by (simp add: pres)
  qed (simp add: pres)
  have "k_sched (snd (reap_process dev pid k)) = reap_zombie pid (k_sched k)"
    using preservesD [OF same] p(3)
    by (simp add: reap_process_def drop_process_def sbind_def kmodify_def free_process_memory_lists modify_sched_def)
  moreover have "xs[pid := None] ! q = xs ! q" if "q \<in> set pids" for q and xs :: "process option list"
    using that Cons.prems(2) by (intro nth_list_update_neq) auto
  ultimately have rest: "calling c (snd (reap_all dev pids (snd (reap_process dev pid k))))"
    using Cons.prems(2,3) by (intro Cons.IH [OF k']) (simp_all add: reap_zombie_def)
  obtain r k'' where r: "reap_process dev pid k = (r, k'')" by (cases "reap_process dev pid k")
  show ?case using rest k' by (cases r) (simp_all add: sbind_def r)
qed (simp add: sreturn_def)

lemma orphan_zombies_facts:
  assumes "sched_inv s" "s_current_pid s = Some 1"
  shows "distinct (orphan_zombies s)"
    and "pid \<in> set (orphan_zombies s) \<Longrightarrow> pid \<noteq> 1 \<and> pid < MAX_PROCESSES \<and> (\<exists>p. s_processes s ! pid = Some p \<and> p_parent_pid p \<noteq> None)"
proof -
  have pid: "p_pid p = i" "p_parent_pid p = Some q \<Longrightarrow> q \<noteq> i" if "i < MAX_PROCESSES" "s_processes s ! i = Some p" for i p q
    using sched_invD(6) [OF assms(1) that] by (auto simp: slot_ok_def)
  have "orphan_zombies s = filter (\<lambda>i. case s_processes s ! i of None \<Rightarrow> False | Some p \<Rightarrow> p_parent_pid p = Some 1 \<and> p_state p = Zombie) [0..<MAX_PROCESSES]"
  proof -
    have "concat (map (\<lambda>i. case s_processes s ! i of None \<Rightarrow> [] | Some p \<Rightarrow> if p_parent_pid p = Some 1 \<and> p_state p = Zombie then [p_pid p] else []) xs)
      = filter (\<lambda>i. case s_processes s ! i of None \<Rightarrow> False | Some p \<Rightarrow> p_parent_pid p = Some 1 \<and> p_state p = Zombie) xs"
      if "set xs \<subseteq> {..<MAX_PROCESSES}" for xs
      using that by (induction xs) (auto simp: pid(1) split: option.split)
    then show ?thesis by (simp add: orphan_zombies_def atLeast0LessThan)
  qed
  then show "distinct (orphan_zombies s)"
    and "pid \<in> set (orphan_zombies s) \<Longrightarrow> pid \<noteq> 1 \<and> pid < MAX_PROCESSES \<and> (\<exists>p. s_processes s ! pid = Some p \<and> p_parent_pid p \<noteq> None)"
    using pid(2) by (auto split: option.splits)
qed

lemma init_main_round_ok:
  assumes "kernel_ok k" "s_current_pid (k_sched k) = Some 1"
  shows "kernel_ok (snd (init_main_round dev k))"
proof -
  have "calling 1 k" using assms by (simp add: calling_def)
  then have "calling 1 (snd (init_main_round dev k))"
    unfolding init_main_round_def
    by (rule reap_all_calling) (use orphan_zombies_facts [OF sched_inv_of [OF assms(1)] assms(2)] in simp_all)
  then show ?thesis by (simp add: calling_def)
qed

subsection \<open>The context switch\<close>

lemma deferred_append:
  "deferred_stacks (ds @ [(stack, pml4, user)]) = deferred_stacks ds @ (if stack \<noteq> 0 then [stack] else [])"
  "deferred_spaces (ds @ [(stack, pml4, user)]) = deferred_spaces ds @ (if user \<and> pml4 \<noteq> 0 then [pml4] else [])"
  by (simp_all add: deferred_stacks_def deferred_spaces_def)

lemma drain_fields:
  "k_stacks (fold free_deferred ds k) = fold remove1 (deferred_stacks ds) (k_stacks k)"
  "k_spaces (fold free_deferred ds k) = fold remove1 (deferred_spaces ds) (k_spaces k)"
  "k_sched (fold free_deferred ds k) = k_sched k" "k_deferred (fold free_deferred ds k) = k_deferred k"
  "k_init_pid (fold free_deferred ds k) = k_init_pid k" "k_lost (fold free_deferred ds k) = k_lost k"
  by (induction ds arbitrary: k)
    (auto simp: deferred_stacks_def deferred_spaces_def free_deferred_def free_stack_def free_space_def Let_def)

lemma drain_ok: "kernel_ok k \<Longrightarrow> kernel_ok (drain_deferred_free k)"
  unfolding kernel_ok_def drain_deferred_free_def held_eq drain_fields
  using mset_subset_diff [of "table_spaces (k_sched k)" "mset (deferred_spaces (k_deferred k))" "{#}"]
  by (simp add: mset_fold_remove1 distinct_fold_remove1) (simp add: deferred_stacks_def deferred_spaces_def)

lemma load_process_ok [simp]: "kernel_ok (load_process k) = kernel_ok k"
  by (simp add: load_process_def split: option.split)

lemma checked_sp_state [simp]: "snd (checked_sp sp k) = k"
  by (simp add: checked_sp_def Let_def)

lemma defer_dead_ok:
  assumes "kernel_ok k" "pid < MAX_PROCESSES" "slot_stack (s_processes (k_sched k) ! pid) = slot_stack (Some p)"
    and "slot_space (s_processes (k_sched k) ! pid) = slot_space (Some p)"
  shows "kernel_ok (snd (defer_dead pid p k))"
proof (cases "(p_kernel_stack_base p \<noteq> 0 \<or> p_pml4_phys p \<noteq> 0) \<and> length (k_deferred k) < MAX_DEFERRED")
  case False
  then show ?thesis using assms(1) by (auto simp: defer_dead_def defer_free_def sbind_def sreturn_def)
next
  case True
  let ?s = "update_process pid strip_process (k_sched k)"
  have inv: "sched_inv (k_sched k)" using assms(1) by (rule sched_inv_of)
  have len: "pid < length (s_processes (k_sched k))" using assms(2) sched_invD(1) [OF inv] by simp
  have s: "sched_inv ?s"
    by (rule update_process_inv [OF inv]) (simp add: slot_ok_def strip_process_def)
  have upd: "s_processes ?s = (s_processes (k_sched k))[pid := map_option strip_process (s_processes (k_sched k) ! pid)]"
    by (simp add: update_process_def)
  have "slot_stack (map_option strip_process x) = []" "slot_space (map_option strip_process x) = []" for x
    by (cases x; simp add: slot_stack_def slot_space_def strip_process_def)+
  with table_stacks_update [OF len upd] assms(3,4)
  have bal: "table_stacks ?s + mset (slot_stack (Some p)) = table_stacks (k_sched k)"
      "table_spaces ?s + mset (slot_space (Some p)) = table_spaces (k_sched k)" by simp_all
  have "init_ok (k_init_pid k) ?s"
    using assms(1) len by (auto simp: kernel_ok_def init_ok_def upd nth_list_update strip_process_def split: option.splits)
  then show ?thesis
    using True assms(1) s bal [symmetric]
    by (simp add: defer_dead_def defer_free_def sbind_def kmodify_def modify_sched_def kernel_ok_def held_eq
        deferred_append slot_stack_def slot_space_def ac_simps split: if_splits)
qed


lemma wake_blocked_ok: "kernel_ok k \<Longrightarrow> kernel_ok (wake_blocked k)"
  unfolding wake_blocked_def modify_sched_def
  by (intro kernel_ok_sched slotwise_quiet keyboard_wake_inv slotwise_keyboard_wake) (simp_all add: kernel_ok_def)

lemma dispatch_ok:
  assumes "kernel_ok k" "s_current_pid (k_sched k) = None"
  shows "kernel_ok (snd (dispatch saved_rsp k))"
proof (cases "find_next_ready 0 (k_sched k)")
  case (Some pid)
  have inv: "sched_inv (k_sched k)" using assms(1) by (rule sched_inv_of)
  obtain sp s' where d: "dispatch_first pid (k_sched k) = (sp, s')" by (cases "dispatch_first pid (k_sched k)")
  have "occupied (k_sched k) pid"
    using find_next_ready_cases [OF Some] sched_invD(3) [OF inv]
    by (auto simp: occupied_def is_ready_def MAX_PROCESSES_def split: if_splits option.splits)
  then have "sched_inv s'" using dispatch_first_inv [OF inv assms(2)] d by (metis snd_conv)
  then have "quiet (k_sched k) s'"
    using slotwise_quiet [OF inv] slotwise_dispatch_first [of "k_sched k" pid] d by simp
  then show ?thesis
    using kernel_ok_sched [OF assms(1)] by (simp add: dispatch_def Some d Let_def split: option.split)
qed (simp add: dispatch_def assms)

lemma save_quiet: "sched_inv s \<Longrightarrow> quiet s (save_current_sp sp cr3 s)"
  by (intro slotwise_quiet save_current_sp_inv slotwise_save_sp)

lemma tick_process_ok:
  assumes "kernel_ok k"
  shows "kernel_ok (snd (tick_process saved_rsp k))"
proof -
  let ?s = "save_current_sp saved_rsp (k_cr3 k) (k_sched k)"
  obtain sp s' m where t: "on_tick (k_ticks k) (?s, k_machine k) = (sp, s', m)" by (cases "on_tick (k_ticks k) (?s, k_machine k)")
  have q: "quiet (k_sched k) ?s" by (rule save_quiet) (rule sched_inv_of [OF assms])
  then have inv: "sched_inv ?s" by (simp add: quiet_def)
  have "quiet ?s s'"
    using slotwise_quiet [OF inv] on_tick_inv [of "(?s, k_machine k)" "k_ticks k"] slotwise_on_tick [of "(?s, k_machine k)" "k_ticks k"] inv
    by (simp add: t)
  then have "kernel_ok (k\<lparr>k_sched := s'\<rparr>)" by (rule kernel_ok_sched [OF assms quiet_trans [OF q]])
  then show ?thesis by (simp add: tick_process_def Let_def t)
qed

lemma timer_ok:
  assumes "kernel_ok k"
  shows "kernel_ok (snd (timer_interrupt saved_rsp k))"
proof -
  let ?k = "take_pending_wake (drain_deferred_free k)"
  have "kernel_ok ?k" using drain_ok [OF assms] by (simp add: take_pending_wake_def wake_blocked_ok)
  then have "kernel_ok (snd (schedule saved_rsp k))"
    by (simp add: schedule_def Let_def dispatch_ok tick_process_ok)
  then show ?thesis
    by (cases "schedule saved_rsp k"; cases "fst (schedule saved_rsp k)")
      (simp_all add: timer_interrupt_def sbind_def kmodify_def sreturn_def)
qed

lemma quiet_slot:
  assumes "quiet s s'" "sched_inv s" "i < MAX_PROCESSES"
  shows "slot_stack (s_processes s' ! i) = slot_stack (s_processes s ! i)" "slot_space (s_processes s' ! i) = slot_space (s_processes s ! i)"
proof -
  have "length (s_processes s) = MAX_PROCESSES" "length (s_processes s') = MAX_PROCESSES"
    using assms(1,2) sched_invD(1) by (auto simp: quiet_def)
  then have "resources s' ! i = resources s ! i" "i < length (s_processes s)" "i < length (s_processes s')"
    using assms(1,3) by (simp_all add: quiet_def)
  then show "slot_stack (s_processes s' ! i) = slot_stack (s_processes s ! i)" "slot_space (s_processes s' ! i) = slot_space (s_processes s ! i)"
    by (simp_all add: resources_def)
qed

lemma switch_away_ok:
  assumes "kernel_ok k" "kernel_ok k'" "quiet s (k_sched k')" "sched_inv s"
  shows "kernel_ok (snd ((case (s_current_pid s, current_process s) of
      (Some pid, Some p) \<Rightarrow> if P p then defer_dead pid p else sreturn () | _ \<Rightarrow> sreturn ()) k'))"
proof (cases "(s_current_pid s, current_process s)")
  case (Pair c q)
  show ?thesis
  proof (cases c; cases q)
    fix pid p
    assume "c = Some pid" "q = Some p"
    then have cur: "s_current_pid s = Some pid" "s_processes s ! pid = Some p" using Pair by (auto simp: current_process_def)
    then have "pid < MAX_PROCESSES" using sched_invD(5) [OF assms(4)] by (auto simp: occupied_def)
    then have "kernel_ok (snd (defer_dead pid p k'))"
      using quiet_slot [OF assms(3,4)] cur by (intro defer_dead_ok [OF assms(2)]) simp_all
    then show ?thesis using assms(2) Pair \<open>c = _\<close> \<open>q = _\<close> by (simp add: sreturn_def)
  qed (use assms(2) Pair in \<open>simp_all add: sreturn_def\<close>)
qed

lemma schedule_force_ok:
  assumes "kernel_ok k"
  shows "kernel_ok (snd (schedule_force saved_rsp k))"
proof -
  let ?s = "save_current_sp saved_rsp (k_cr3 k) (k_sched k)"
  obtain sp s' m where t: "switch_next_force (?s, k_machine k) = (sp, s', m)" by (cases "switch_next_force (?s, k_machine k)")
  have q: "quiet (k_sched k) ?s" by (rule save_quiet) (rule sched_inv_of [OF assms])
  then have inv: "sched_inv ?s" by (simp add: quiet_def)
  have q': "quiet ?s s'"
    using slotwise_quiet [OF inv] switch_next_force_inv [of "(?s, k_machine k)"] slotwise_force [of "(?s, k_machine k)"] inv
    by (simp add: t)
  let ?k = "load_process (k\<lparr>k_sched := s', k_machine := m\<rparr>)"
  have k': "kernel_ok ?k" using kernel_ok_sched [OF assms quiet_trans [OF q q']] by simp
  have "k_sched ?k = s'" by (simp add: load_process_def split: option.split)
  with q' have "quiet ?s (k_sched ?k)" by simp
  from switch_away_ok [OF assms k' this inv, of "\<lambda>p. p_state p = Zombie"]
  show ?thesis
    by (auto simp: schedule_force_def Let_def t sbind_def split: prod.splits sum.splits)
qed

lemma kill_current_ok:
  assumes "kernel_ok k" "user_running k"
  shows "kernel_ok (snd (kill_current k))"
proof -
  have inv: "sched_inv (k_sched k)" "init_ok (k_init_pid k) (k_sched k)" using assms(1) by (simp_all add: kernel_ok_def)
  obtain c p where c: "s_current_pid (k_sched k) = Some c" "s_processes (k_sched k) ! c = Some p" "p_is_user p"
    using assms(2) by (auto simp: user_running_def current_process_def split: option.splits)
  have "c < MAX_PROCESSES" using sched_invD(5) [OF inv(1) c(1)] by (simp add: occupied_def)
  then have "c \<noteq> 0" using sched_invD(6) [OF inv(1) _ c(2)] c(3) by (auto simp: slot_ok_def)
  then have q: "quiet (k_sched k) (snd (kill_process (k_init_pid k) (k_sched k)))" by (rule kill_process_quiet [OF inv c(1)])
  obtain sp s' where t: "kill_process (k_init_pid k) (k_sched k) = (sp, s')" by (cases "kill_process (k_init_pid k) (k_sched k)")
  let ?k = "load_process (k\<lparr>k_sched := s'\<rparr>)"
  have k': "kernel_ok ?k" using kernel_ok_sched [OF assms(1) q] by (simp add: t)
  have "k_sched ?k = s'" by (simp add: load_process_def split: option.split)
  with q have "quiet (k_sched k) (k_sched ?k)" by (simp add: t)
  from switch_away_ok [OF assms(1) k' this inv(1), of "\<lambda>_. True", unfolded if_True]
  show ?thesis by (auto simp: kill_current_def t sbind_def sreturn_def split: prod.splits sum.splits)
qed

lemma syscall_exit_ok: "kernel_ok k \<Longrightarrow> kernel_ok (snd (syscall_exit saved_rsp k))"
  by (simp add: syscall_exit_def schedule_force_ok)

lemma keyboard_interrupt_ok:
  assumes "kernel_ok k"
  shows "kernel_ok (keyboard_interrupt scancode k)"
proof -
  have "quiet (k_sched k) (send_signal_to_fg n pt (k_sched k))" for n pt
    using sched_inv_of [OF assms] by (intro slotwise_quiet send_signal_to_fg_inv slotwise_signal_fg)
  then have "kernel_ok (k\<lparr>k_console := c, k_sched := send_signal_to_fg n pt (k_sched k)\<rparr>)" for n pt c
    using assms by (intro kernel_ok_sched) simp_all
  then show ?thesis
    using assms by (auto simp: keyboard_interrupt_def Let_def modify_sched_def split: prod.split option.split)
qed


subsection \<open>Spawning\<close>

lemma place_ok:
  assumes "kernel_ok k" "free_pid (k_sched k) = Some pid" "sched_inv s'" "s_processes s' = (s_processes (k_sched k))[pid := Some p]"
    and "p_kernel_stack_base p = a" "fresh_stack (Some a) k"
    and "mset (slot_space (Some p)) + mset (k_spaces k) \<subseteq># mset spaces"
  shows "kernel_ok (k\<lparr>k_stacks := a # k_stacks k, k_sched := s', k_spaces := spaces\<rparr>)"
proof -
  note f = free_pid_Some [OF assms(2)]
  have inv: "sched_inv (k_sched k)" using assms(1) by (rule sched_inv_of)
  have len: "pid < length (s_processes (k_sched k))" using f(2) sched_invD(1) [OF inv] by simp
  have bal: "table_stacks s' = table_stacks (k_sched k) + {#a#}" "table_spaces s' = table_spaces (k_sched k) + mset (slot_space (Some p))"
    using table_stacks_update [OF len assms(4)] f(3) assms(5,6) by (simp_all add: slot_stack_def slot_space_def fresh_stack_def)
  have "k_init_pid k \<noteq> pid" using assms(1) f(3) by (auto simp: kernel_ok_def init_ok_def)
  then have "init_ok (k_init_pid k) s'" using assms(1) by (simp add: kernel_ok_def init_ok_def assms(4))
  moreover have "held_spaces k + mset (slot_space (Some p)) \<subseteq># mset spaces"
    using assms(1,7) by (intro subset_mset.order_trans [OF _ assms(7)]) (simp add: kernel_ok_def add.commute)
  ultimately show ?thesis
    using assms(1,3,6) bal by (simp add: kernel_ok_def held_eq fresh_stack_def ac_simps)
qed

lemma generations_ok:
  assumes "kernel_ok k" "length gens = MAX_PROCESSES"
  shows "kernel_ok (k\<lparr>k_sched := (k_sched k)\<lparr>s_generations := gens\<rparr>\<rparr>)"
  using assms generations_inv [OF sched_inv_of [OF assms(1)] assms(2)]
  by (intro kernel_ok_sched) (simp_all add: quiet_def resources_def option.rel_refl)

lemma mset_subset_add: "A \<subseteq># B \<Longrightarrow> A \<subseteq># add_mset x B"
  by (rule mset_subset_eqI) (auto dest!: mset_subset_eq_count [of _ _ _] intro: le_SucI)

lemma spaces_ok: "kernel_ok k \<Longrightarrow> kernel_ok (k\<lparr>k_spaces := pml4 # k_spaces k\<rparr>)"
  by (simp add: kernel_ok_def held_eq mset_subset_add)

lemma spawn_kernel_ok:
  assumes "kernel_ok k" "fresh_stack stack k"
  shows "kernel_ok (snd (kernel_spawn_kernel entry_virt cr3 stack k))"
proof -
  obtain r s' m where t: "spawn_kernel entry_virt cr3 stack (k_sched k, k_machine k) = (r, s', m)"
    by (cases "spawn_kernel entry_virt cr3 stack (k_sched k, k_machine k)")
  have inv: "sched_inv s'"
    using spawn_kernel_inv [of "(k_sched k, k_machine k)" entry_virt cr3 stack] sched_inv_of [OF assms(1)] by (simp add: t)
  have gens: "length (s_generations (k_sched k)) = MAX_PROCESSES" using sched_invD(2) [OF sched_inv_of [OF assms(1)]] .
  show ?thesis
  proof (cases "free_pid (k_sched k)")
    case None
    then have "s' = k_sched k" using t by (simp add: spawn_kernel_def)
    then show ?thesis using assms(1) None by (simp add: kernel_spawn_kernel_def t take_stack_def)
  next
    case (Some pid)
    show ?thesis
    proof (cases stack)
      case None
      then have "s' = (k_sched k)\<lparr>s_generations := s_generations s'\<rparr>" "length (s_generations s') = MAX_PROCESSES"
        using t Some gens by (auto simp: spawn_kernel_def new_kernel_def Let_def)
      then have "kernel_ok (k\<lparr>k_sched := s'\<rparr>)" using generations_ok [OF assms(1)] by metis
      then show ?thesis using None Some t by (simp add: kernel_spawn_kernel_def take_stack_def)
    next
      case (Some a)
      obtain p where p: "s_processes s' = (s_processes (k_sched k))[pid := Some p]" "p_kernel_stack_base p = a" "\<not> p_is_user p"
        using t \<open>free_pid _ = _\<close> Some
        by (auto simp: spawn_kernel_def new_kernel_def setup_initial_stack_frame_kernel_def Let_def)
      have "kernel_ok (k\<lparr>k_stacks := a # k_stacks k, k_sched := s', k_spaces := k_spaces k\<rparr>)"
        using assms(2) p Some
        by (intro place_ok [OF assms(1) \<open>free_pid _ = _\<close> inv]) (auto simp: slot_space_def)
      then have "kernel_ok (k\<lparr>k_stacks := a # k_stacks k, k_sched := s'\<rparr>)" by simp
      then show ?thesis using Some \<open>free_pid _ = _\<close> t by (simp add: kernel_spawn_kernel_def take_stack_def)
    qed
  qed
qed


lemma spawn_user_ok:
  assumes "kernel_ok k" "fresh_stack stack k" "case parent of None \<Rightarrow> True | Some q \<Rightarrow> occupied (k_sched k) q"
  shows "kernel_ok (snd (kernel_spawn_user user_cs user_ss user_rip user_rsp pml4 parent stack k))"
proof -
  let ?spawn = "spawn_user user_cs user_ss user_rip user_rsp pml4 parent stack (k_sched k, k_machine k)"
  obtain r s' m where t: "?spawn = (r, s', m)" by (cases ?spawn)
  have inv: "sched_inv s'"
    using spawn_user_inv [of "(k_sched k, k_machine k)" parent user_cs user_ss user_rip user_rsp pml4 stack]
      sched_inv_of [OF assms(1)] assms(3) by (simp add: t split: option.splits)
  have gens: "length (s_generations (k_sched k)) = MAX_PROCESSES" using sched_invD(2) [OF sched_inv_of [OF assms(1)]] .
  show ?thesis
  proof (cases "free_pid (k_sched k)")
    case None
    then have "s' = k_sched k" using t by (simp add: spawn_user_def)
    then show ?thesis using spaces_ok [OF assms(1)] None by (simp add: kernel_spawn_user_def t take_stack_def)
  next
    case (Some pid)
    show ?thesis
    proof (cases stack)
      case None
      then have "s' = (k_sched k)\<lparr>s_generations := s_generations s'\<rparr>" "length (s_generations s') = MAX_PROCESSES"
        using t Some gens by (auto simp: spawn_user_def new_user_def Let_def)
      then have "kernel_ok (k\<lparr>k_sched := s'\<rparr>)" using generations_ok [OF assms(1)] by metis
      then have "kernel_ok (k\<lparr>k_sched := s', k_spaces := pml4 # k_spaces k\<rparr>)" using spaces_ok by fastforce
      then show ?thesis using None Some t by (simp add: kernel_spawn_user_def take_stack_def)
    next
      case (Some a)
      obtain p where p: "s_processes s' = (s_processes (k_sched k))[pid := Some p]" "p_kernel_stack_base p = a" "p_pml4_phys p = pml4"
        using t \<open>free_pid _ = _\<close> Some
        by (auto simp: spawn_user_def new_user_def setup_initial_stack_frame_user_def Let_def)
      have "kernel_ok (k\<lparr>k_stacks := a # k_stacks k, k_sched := s', k_spaces := pml4 # k_spaces k\<rparr>)"
        using assms(2) p Some
        by (intro place_ok [OF assms(1) \<open>free_pid _ = _\<close> inv]) (auto simp: slot_space_def mset_subset_add)
      then show ?thesis using Some \<open>free_pid _ = _\<close> t by (simp add: kernel_spawn_user_def take_stack_def)
    qed
  qed
qed

lemma start_init_ok:
  assumes "kernel_ok k" "fresh_stack stack k"
    and "kernel_spawn_user user_cs user_ss user_rip user_rsp pml4 None stack k = (Some pid, k')"
  shows "kernel_ok (k'\<lparr>k_init_pid := pid\<rparr>)"
proof -
  have "kernel_ok k'" using spawn_user_ok [OF assms(1,2), of None user_cs user_ss user_rip user_rsp pml4] assms(3) by simp
  moreover have "init_ok pid (k_sched k')"
    using assms(3) free_pid_Some [of "k_sched k"] sched_invD(1) [OF sched_inv_of [OF assms(1)]]
    by (auto simp: kernel_spawn_user_def spawn_user_def new_user_def setup_initial_stack_frame_user_def Let_def init_ok_def
        take_stack_def split: option.splits)
  ultimately show ?thesis by (simp add: kernel_ok_def held_stacks_def held_spaces_def)
qed

lemma boot_ok:
  assumes "k_sched k = fst (spawn_idle entry_virt cr3 stack (scheduler_init scheduler_new, m))" "stack \<noteq> 0"
    "k_stacks k = [stack]" "k_lost k = []" "k_spaces k = []" "k_deferred k = []" "k_init_pid k = 0"
  shows "kernel_ok k"
proof -
  obtain p where p: "s_processes (k_sched k) = Some p # replicate 31 None" "p_kernel_stack_base p = stack" "\<not> p_is_user p" "p_parent_pid p = None"
    using assms(1) by (simp add: spawn_idle_def new_kernel_def setup_initial_stack_frame_kernel_def Let_def scheduler_init_def
      scheduler_new_def MAX_PROCESSES_def numeral_eq_Suc)
  have "concat (map slot_stack (replicate n None)) = []" "concat (map slot_space (replicate n None)) = []" for n
    by (induction n) (simp_all add: slot_stack_def slot_space_def)
  with p have "held_stacks k = {#stack#}" "held_spaces k = {#}"
    using assms(2,6) by (simp_all add: held_stacks_def held_spaces_def slot_stack_def slot_space_def deferred_stacks_def deferred_spaces_def)
  moreover have "sched_inv (k_sched k)" unfolding assms(1) by (rule spawn_idle_inv)
  moreover have "init_ok 0 (k_sched k)" using p by (simp add: init_ok_def MAX_PROCESSES_def)
  ultimately show ?thesis using assms by (simp add: kernel_ok_def)
qed

subsection \<open>Forking\<close>

lemma lost_ok: "kernel_ok k \<Longrightarrow> fresh_stack (Some a) k \<Longrightarrow> kernel_ok (k\<lparr>k_stacks := a # k_stacks k, k_lost := a # k_lost k\<rparr>)"
  by (simp add: kernel_ok_def held_stacks_def held_spaces_def fresh_stack_def)

lemma fork_child_fields [simp]:
  "p_kernel_stack_base (fork_child a pml4 q parent c) = a" "p_pml4_phys (fork_child a pml4 q parent c) = pml4"
  "p_is_user (fork_child a pml4 q parent c) = p_is_user parent"
  by (simp_all add: fork_child_def)

lemma fork_child_slot:
  assumes "sched_inv s" "free_pid s = Some pid" "occupied s q" "new_kernel pid 0 cr3 kstack m = (Some c, m')"
  shows "sched_inv (s\<lparr>s_processes := (s_processes s)[pid := Some (fork_child a pml4 q parent c)]\<rparr>)"
proof -
  note f = free_pid_Some [OF assms(2)]
  have "q \<noteq> pid" "q < MAX_PROCESSES" using assms(3) f(3) by (auto simp: occupied_def)
  then have "slot_ok None pid (fork_child a pml4 q parent c)"
    using assms(4) f(1) by (auto simp: slot_ok_def fork_child_def new_kernel_def split: option.splits prod.splits)
  from place_inv [OF assms(1) f(1,2) this sched_invD(2) [OF assms(1)]] show ?thesis by simp
qed

lemma fork_place_ok:
  assumes "kernel_ok k" "fresh_stack (Some a) k" "fresh_stack kstack k" "kstack \<noteq> Some a" "occupied (k_sched k) q"
  shows "kernel_ok (snd (fork_place kernel_pml4 kstack a pml4 q parent
    (k\<lparr>k_spaces := pml4 # k_spaces k, k_stacks := a # k_stacks k, k_machine := m\<rparr>)))"
proof -
  let ?k = "k\<lparr>k_spaces := pml4 # k_spaces k\<rparr>"
  have k: "kernel_ok ?k" by (rule spaces_ok [OF assms(1)])
  have "kernel_ok (?k\<lparr>k_stacks := a # k_stacks k, k_lost := a # k_lost k\<rparr>)"
    using lost_ok [OF k, of a] assms(2) by (simp add: fresh_stack_def)
  then have lost: "kernel_ok (k\<lparr>k_spaces := pml4 # k_spaces k, k_stacks := a # k_stacks k, k_machine := m, k_lost := a # k_lost k\<rparr>)" for m
    by (simp add: kernel_ok_def held_stacks_def held_spaces_def)
  show ?thesis
  proof (cases "free_pid (k_sched k)")
    case None
    then show ?thesis using lost by (simp add: fork_place_def lose_stack_def sfail_def)
  next
    case (Some pid)
    obtain r m' where new: "new_kernel pid 0 kernel_pml4 kstack m = (r, m')" by (cases "new_kernel pid 0 kernel_pml4 kstack m")
    show ?thesis
    proof (cases r)
      case None
      then show ?thesis using lost Some new by (simp add: fork_place_def lose_stack_def sfail_def)
    next
      case r: (Some c)
      let ?child = "fork_child a pml4 q parent c"
      let ?s = "(k_sched k)\<lparr>s_processes := (s_processes (k_sched k))[pid := Some ?child]\<rparr>"
      have b: "kstack = Some (p_kernel_stack_base c)" "p_kernel_stack_base c \<noteq> 0" "p_kernel_stack_base c \<noteq> a"
        using new r assms(3,4) by (auto simp: new_kernel_def fresh_stack_def split: option.splits prod.splits)
      have inv: "sched_inv ?s" by (rule fork_child_slot [OF sched_inv_of [OF assms(1)] Some assms(5) new [unfolded r]])
      have "kernel_ok (k\<lparr>k_stacks := a # k_stacks k, k_sched := ?s, k_spaces := pml4 # k_spaces k\<rparr>)"
        using assms(2) by (intro place_ok [OF assms(1) Some inv, where p = ?child]) (simp_all add: slot_space_def mset_subset_add)
      then show ?thesis using Some new r b
        by (simp add: fork_place_def Let_def modify_sched_def free_stack_def) (simp add: kernel_ok_def held_stacks_def held_spaces_def)
    qed
  qed
qed

lemma fork_ok:
  assumes "kernel_ok k" "fresh_stack stack k" "fresh_stack kstack k" "stack = None \<or> stack \<noteq> kstack"
  shows "kernel_ok (snd (sys_fork copy kernel_pml4 stack kstack regs user_rsp k))"
proof (cases "s_current_pid (k_sched k)")
  case (Some q)
  have occ: "occupied (k_sched k) q" by (rule sched_invD(5) [OF sched_inv_of [OF assms(1)] Some])
  then obtain parent where p: "s_processes (k_sched k) ! q = Some parent" by (auto simp: occupied_def)
  have k: "kernel_ok (k\<lparr>k_machine := m, k_spaces := pml4 # k_spaces k\<rparr>)" for m pml4
    using spaces_ok [of "k\<lparr>k_machine := m\<rparr>" pml4] assms(1) by simp
  have place: "kernel_ok (snd (fork_place kernel_pml4 kstack a pml4 q parent
      (k\<lparr>k_spaces := pml4 # k_spaces k, k_stacks := a # k_stacks k, k_machine := m'\<rparr>)))" if "stack = Some a" for a pml4 m'
    using fork_place_ok [of k a kstack q kernel_pml4 pml4 parent m'] assms that occ by simp
  show ?thesis using Some p assms(1) k place
    by (auto simp: sys_fork_def Let_def sfail_def scrash_def split: sum.splits option.splits)
qed (simp add: sys_fork_def sfail_def assms(1))

subsection \<open>Memory calls\<close>

text \<open>A new version of a process that keeps its slot, its state, its parent and what it holds.\<close>

definition carry :: "process \<Rightarrow> process \<Rightarrow> process" where
  "carry p' p = p'\<lparr>p_pid := p_pid p, p_state := p_state p, p_parent_pid := p_parent_pid p, p_is_user := p_is_user p,
     p_kernel_stack_base := p_kernel_stack_base p, p_pml4_phys := p_pml4_phys p\<rparr>"

lemma set_process_quiet:
  assumes "sched_inv (ms_sched s)" "s_processes (ms_sched s) ! pid = Some p" "carry p' p = p'"
  shows "quiet (ms_sched s) (ms_sched (set_process pid p' s))"
proof -
  have "ms_sched (set_process pid p' s) = update_process pid (carry p') (ms_sched s)"
    using assms(2,3) by (simp add: set_process_def update_process_def)
  moreover have "sched_inv (update_process pid (carry p') (ms_sched s))"
    by (rule update_process_inv [OF assms(1)]) (simp add: slot_ok_def carry_def)
  moreover have "slotwise (ms_sched s) (update_process pid (carry p') (ms_sched s))"
    by (rule slotwise_update) (simp add: keeps_def carry_def)
  ultimately show ?thesis using slotwise_quiet [OF assms(1)] by simp
qed

text \<open>Whatever happens in virtual memory, the table is the old one or has new versions of the caller.\<close>

definition caller_step :: "msys \<Rightarrow> msys \<Rightarrow> bool" where
  "caller_step s s' \<longleftrightarrow> (sched_inv (ms_sched s) \<longrightarrow> quiet (ms_sched s) (ms_sched s'))"

lemma caller_step_same: "ms_sched s' = ms_sched s \<Longrightarrow> caller_step s s'"
  by (simp add: caller_step_def quiet_refl)

lemma caller_step_trans: "caller_step s s1 \<Longrightarrow> caller_step s1 s' \<Longrightarrow> caller_step s s'"
  unfolding caller_step_def by (metis quiet_def quiet_trans)

lemma caller_step_set: "s_processes (ms_sched s) ! pid = Some p \<Longrightarrow> carry p' p = p' \<Longrightarrow> caller_step s (set_process pid p' s)"
  unfolding caller_step_def by (simp add: set_process_quiet)

lemma in_kernel_space_step:
  assumes "\<And>v. caller_step (s\<lparr>ms_vm := v\<rparr>) (snd (m (s\<lparr>ms_vm := v\<rparr>)))"
  shows "caller_step s (snd (in_kernel_space m s))"
proof -
  let ?s = "s\<lparr>ms_vm := (ms_vm s)\<lparr>vm_cr3 := vm_kernel_pml4 (ms_vm s)\<rparr>\<rparr>"
  have "ms_sched (snd (in_kernel_space m s)) = ms_sched (snd (m ?s))"
    by (simp add: in_kernel_space_def Let_def split: prod.split sum.split fault.split)
  then show ?thesis using assms [of "(ms_vm s)\<lparr>vm_cr3 := vm_kernel_pml4 (ms_vm s)\<rparr>"] by (simp add: caller_step_def)
qed

lemma vmem_step:
  assumes "caller_step s s1" "\<And>x v. caller_step s (snd (f x (s1\<lparr>ms_vm := v\<rparr>)))"
  shows "caller_step s (snd (sbind (on_vmem m) f s1))"
proof -
  have "caller_step s (s1\<lparr>ms_vm := v\<rparr>)" for v using assms(1) by (simp add: caller_step_def)
  then show ?thesis using assms(2) by (simp add: sbind_def on_vmem_def split: prod.split sum.split)
qed

lemma with_caller_step:
  assumes "\<And>pid p. s_processes (ms_sched s) ! pid = Some p \<Longrightarrow> caller_step s (snd (f pid p s))"
  shows "caller_step s (snd (with_caller f s))"
  using assms caller_step_same [of s s] by (simp add: with_caller_def sfail_def split: option.split)

lemma set_process_twice:
  assumes "s_processes (ms_sched s) ! pid = Some p"
  shows "ms_sched (set_process pid p2 ((set_process pid p1 (s\<lparr>ms_prng := r\<rparr>))\<lparr>ms_vm := v\<rparr>)) = ms_sched (set_process pid p2 s)"
  using assms by (cases "pid < length (s_processes (ms_sched s))") (simp_all add: set_process_def update_process_def list_update_beyond)

lemma brk_step: "caller_step s (snd (sys_brk mp new_brk s))"
  unfolding sys_brk_def
proof (intro in_kernel_space_step with_caller_step)
  fix v pid p
  let ?s = "s\<lparr>ms_vm := v\<rparr>"
  assume p: "s_processes (ms_sched ?s) ! pid = Some p"
  obtain q prng where q: "heap_init p (ms_prng ?s) = (q, prng)" by (cases "heap_init p (ms_prng ?s)")
  let ?s1 = "set_process pid q (?s\<lparr>ms_prng := prng\<rparr>)"
  have cq: "carry q p = q" "carry (q\<lparr>p_heap_end := e\<rparr>) p = q\<lparr>p_heap_end := e\<rparr>" for e
    using q by (auto simp: heap_init_def carry_def split: if_splits prod.splits)
  have s1: "caller_step ?s ?s1" using caller_step_set [OF p cq(1)] by (simp add: caller_step_def set_process_def)
  have s2: "caller_step ?s (set_process pid (q\<lparr>p_heap_end := e\<rparr>) (?s1\<lparr>ms_vm := w\<rparr>))" for e w
    using caller_step_set [OF p cq(2) [of e]] unfolding caller_step_def set_process_twice [OF p] .
  show "caller_step ?s (snd ((case heap_init p (ms_prng ?s) of (p, prng) \<Rightarrow>
     let s = set_process pid p (?s\<lparr>ms_prng := prng\<rparr>); old_end = p_heap_end p; pml4 = p_pml4_phys p;
         moved = (\<lambda>heap_end. (\<lambda>s. (Inr heap_end, set_process pid (p\<lparr>p_heap_end := heap_end\<rparr>) s))) in
     if new_brk = 0 then (Inr old_end, s)
     else if new_brk < p_heap_start p then (Inr old_end, s)
     else if new_brk > BRK_MAX then sfail ENOMEM s
     else if new_brk > old_end then
       let addrs = pages_from old_end new_brk in
       sbind (on_vmem (heap_grow mp pml4 addrs (old_end + of_nat (length addrs) * PAGE_SIZE))) moved s
     else if new_brk < old_end then
       sbind (on_vmem (heap_shrink mp pml4 (pages_from new_brk old_end))) (\<lambda>_. moved new_brk) s
     else (Inr old_end, s))))"
    unfolding q Let_def prod.case using s1 s2 by (auto intro!: vmem_step simp: sfail_def)
qed

lemma replace_step:
  assumes "s_processes (ms_sched s) ! pid = Some p" "carry p' p = p'"
    and "\<And>x t. ms_sched (snd (f x t)) = ms_sched t \<or> snd (f x t) = set_process pid p' t"
  shows "caller_step s (snd (sbind (on_vmem m) f s))"
proof (rule vmem_step [OF caller_step_same])
  fix x v
  have "ms_sched (set_process pid p' (s\<lparr>ms_vm := v\<rparr>)) = ms_sched (set_process pid p' s)" by (simp add: set_process_def)
  then show "caller_step s (snd (f x (s\<lparr>ms_vm := v\<rparr>)))"
    using assms(3) [of x "s\<lparr>ms_vm := v\<rparr>"] caller_step_set [OF assms(1,2)] by (auto simp: caller_step_def quiet_refl)
qed simp

lemma munmap_step: "caller_step s (snd (sys_munmap mp addr len s))"
proof (cases "len = 0 \<or> addr = 0")
  case True
  then show ?thesis by (simp add: sys_munmap_def sfail_def caller_step_same)
next
  case False
  have carry: "carry (remove_region i p) p = remove_region i p" for i p by (simp add: remove_region_def carry_def)
  show ?thesis unfolding sys_munmap_def Let_def if_not_P [OF False]
  proof (intro in_kernel_space_step with_caller_step)
    fix v pid p
    let ?s = "s\<lparr>ms_vm := v\<rparr>" and ?P = "\<lambda>i. addr \<ge> fst (live_regions p ! i) \<and> addr + pages_for len * PAGE_SIZE \<le> region_limit (live_regions p ! i)"
    assume p: "s_processes (ms_sched ?s) ! pid = Some p"
    have r: "caller_step ?s (snd (sbind (on_vmem m) (\<lambda>_ s. (Inr 0, set_process pid (remove_region i p) s)) ?s))" for i m
      by (rule replace_step [OF p carry [of i]]) simp
    show "caller_step ?s (snd ((case List.find ?P [0..<p_mmap_count p] of None \<Rightarrow> sfail EINVAL
      | Some i \<Rightarrow> sbind (on_vmem (each (\<lambda>j. at_virt mp (fst (live_regions p ! i) + of_nat j * PAGE_SIZE) (unmap_if_mapped mp decref (p_pml4_phys p)))
          [0..<unat (snd (live_regions p ! i))])) (\<lambda>_ s. (Inr 0, set_process pid (remove_region i p) s))) ?s))"
      using r by (cases "List.find ?P [0..<p_mmap_count p]") (simp_all add: sfail_def caller_step_same)
  qed
qed

lemma mmap_step:
  assumes "sys_mmap mp addr len s = Some (r, s')"
  shows "caller_step s s'"
proof -
  have k: "caller_step s s'"
    if "in_kernel_space (sbind (on_vmem m) (\<lambda>ok. if \<not> ok then sfail ENOMEM
        else (\<lambda>s. (Inr b, set_process pid (p\<lparr>p_mmap_regions := rs, p_mmap_count := n\<rparr>) s)))) (s\<lparr>ms_prng := x\<rparr>) = (r, s')"
      "s_processes (ms_sched s) ! pid = Some p" for m b pid p rs n x
  proof -
    let ?p = "p\<lparr>p_mmap_regions := rs, p_mmap_count := n\<rparr>"
    have "caller_step (s\<lparr>ms_prng := x\<rparr>) (snd (in_kernel_space (sbind (on_vmem m) (\<lambda>ok. if \<not> ok then sfail ENOMEM
        else (\<lambda>s. (Inr b, set_process pid ?p s)))) (s\<lparr>ms_prng := x\<rparr>)))"
      by (intro in_kernel_space_step replace_step [where pid = pid and p = p and p' = ?p]) (simp_all add: that(2) carry_def sfail_def)
    then show ?thesis by (simp add: that(1) caller_step_def)
  qed
  have c: "caller_step s s'" if "in_kernel_space (scrash c) (s\<lparr>ms_prng := x\<rparr>) = (r, s')" for x and c :: panic
    using that by (auto simp: in_kernel_space_def scrash_def Let_def intro!: caller_step_same)
  show ?thesis using assms unfolding sys_mmap_def Let_def
    by (auto simp: sfail_def caller_step_same split: if_splits option.splits prod.splits sum.splits intro: k c)
qed

lemma memory_call_ok:
  assumes "kernel_ok k" "memory_call mp s s'" "ms_sched s = k_sched k"
  shows "kernel_ok (k\<lparr>k_sched := ms_sched s', k_machine := m\<rparr>)"
proof -
  have "caller_step s s'" using assms(2) mmap_step brk_step [of s mp] munmap_step [of s mp] unfolding memory_call_def by (metis snd_conv)
  then have "quiet (k_sched k) (ms_sched s')" using sched_inv_of [OF assms(1)] assms(3) by (simp add: caller_step_def)
  then show ?thesis using kernel_ok_sched [OF assms(1)] by simp
qed

subsection \<open>Every reachable state\<close>

lemma reachable_ok: "kernel_reachable dev valid_utf8 other k \<Longrightarrow> kernel_ok k"
proof (induction rule: kernel_reachable.induct)
  case (reach_syscall k num arg0 arg1 arg2)
  obtain c p where c: "s_current_pid (k_sched k) = Some c" "s_processes (k_sched k) ! c = Some p" "p_is_user p"
    using reach_syscall.hyps(2) by (auto simp: user_running_def current_process_def split: option.splits)
  have inv: "sched_inv (k_sched k)" by (rule sched_inv_of [OF reach_syscall.IH])
  have "c < MAX_PROCESSES" using sched_invD(5) [OF inv c(1)] by (simp add: occupied_def)
  then have "c \<noteq> 0" using sched_invD(6) [OF inv _ c(2)] c(3) by (auto simp: slot_ok_def)
  then have "calling c k" using c(1) reach_syscall.IH by (simp add: calling_def)
  then have "calling c (snd (syscall_dispatch dev valid_utf8 other num arg0 arg1 arg2 k))"
    by (rule preservesD [OF syscall_pres [OF reach_syscall.hyps(3)]])
  then show ?case by (simp add: calling_def)
next
  case (reach_memory k mp s s' m)
  show ?case by (rule memory_call_ok [OF reach_memory.IH reach_memory.hyps(3,4)])
qed (auto intro: boot_ok spawn_kernel_ok spawn_user_ok start_init_ok timer_ok keyboard_interrupt_ok syscall_exit_ok
    kill_current_ok init_main_round_ok fork_ok)


text \<open>
  C1. In every state the kernel reaches by timer interrupts, key strokes, system calls other than exec and execve, their
  switches, faults, spawning and reaping, in any order: the process table is well formed; every kernel stack that is
  allocated is held by exactly one process or waits once in the deferred list, or it was lost by a fork that failed after
  allocating it (for want of a slot or of a second stack), so none is shared or freed twice and none is leaked in another way; every address space
  that is held is allocated; and the deferred list stays within its bound.
\<close>

theorem kernel_reachable_ok:
  assumes "kernel_reachable dev valid_utf8 other k"
  shows "sched_inv (k_sched k) \<and> mset (k_stacks k) = held_stacks k + mset (k_lost k) \<and> distinct (k_stacks k)
    \<and> held_spaces k \<subseteq># mset (k_spaces k) \<and> length (k_deferred k) \<le> MAX_DEFERRED"
  using reachable_ok [OF assms] by (simp add: kernel_ok_def)

definition ex_boot_kernel :: "ramdisk kernel" where
  "ex_boot_kernel =
     \<lparr>k_sched = fst (spawn_idle 0x1000 0x2000 0x10000 (scheduler_init scheduler_new, \<lparr>m_kernel = \<lambda>_. 0, m_tables = \<lambda>_. 0, m_user = \<lambda>_ _. 0\<rparr>)),
      k_machine = \<lparr>m_kernel = \<lambda>_. 0, m_tables = \<lambda>_. 0, m_user = \<lambda>_ _. 0\<rparr>, k_pipes = replicate MAX_PIPES None,
      k_console = console_initial, k_ticks = 0, k_init_pid = 0, k_force_switch = False, k_cr3 = 0x2000, k_deferred_cr3 = 0,
      k_kernel_rsp = 0, k_deferred = [], k_stacks = [0x10000], k_lost = [], k_spaces = [], k_vfs = ex_vfs, k_world = ex_world, k_files = []\<rparr>"

definition ex_spawned_kernel :: "ramdisk kernel" where
  "ex_spawned_kernel = snd (kernel_spawn_user 0x1B 0x23 0x400000 0x7FF000 0x5000 None (Some 0x20000) ex_boot_kernel)"

definition ex_running_kernel :: "ramdisk kernel" where
  "ex_running_kernel = snd (timer_interrupt 0x9000 ex_spawned_kernel)"

definition ex_copy :: "u64 \<Rightarrow> machine \<Rightarrow> (u64 \<times> bool \<times> machine) or_panic" where
  "ex_copy parent m = Inr (0x6000, True, m\<lparr>m_user := (m_user m)(0x6000 := m_user m parent)\<rparr>)"

text \<open>A fork that succeeds, and one that finds no memory for the second stack.\<close>

definition ex_forked_kernel :: "ramdisk kernel" where
  "ex_forked_kernel = snd (sys_fork ex_copy 0x2000 (Some 0x30000) (Some 0x40000) 0x21F00 0x7FF000 ex_running_kernel)"

definition ex_failed_kernel :: "ramdisk kernel" where
  "ex_failed_kernel = snd (sys_fork ex_copy 0x2000 (Some 0x50000) None 0x21F00 0x7FF000 ex_forked_kernel)"

lemma example_pids:
  "s_processes s = Some q # replicate 31 None \<Longrightarrow> free_pid s = Some 1"
  "s_processes s = Some q # Some p # replicate 30 None \<Longrightarrow> free_pid s = Some 2"
  "s_processes s = Some q # Some p # Some c # replicate 29 None \<Longrightarrow> free_pid s = Some 3"
  "s_processes s = Some q # Some p # replicate 30 None \<Longrightarrow> p_state p = Ready \<Longrightarrow> s_idle_pid s = 0 \<Longrightarrow> find_next_ready 0 s = Some 1"
  by (simp_all add: free_pid_def find_next_ready_def is_ready_def MAX_PROCESSES_def upt_conv_Cons nth_Cons' Let_def)

lemma boot_sched: "\<exists>q. s_processes (k_sched ex_boot_kernel) = Some q # replicate 31 None"
  "s_current_pid (k_sched ex_boot_kernel) = None" "s_idle_pid (k_sched ex_boot_kernel) = 0"
  by (simp_all add: ex_boot_kernel_def spawn_idle_def new_kernel_def setup_initial_stack_frame_kernel_def Let_def
      scheduler_init_def scheduler_new_def MAX_PROCESSES_def numeral_eq_Suc)

lemma spawned_sched: "\<exists>q p. s_processes (k_sched ex_spawned_kernel) = Some q # Some p # replicate 30 None \<and> p_state p = Ready \<and> p_is_user p"
  "s_current_pid (k_sched ex_spawned_kernel) = None" "s_idle_pid (k_sched ex_spawned_kernel) = 0"
  "k_stacks ex_spawned_kernel = [0x20000, 0x10000]" "k_lost ex_spawned_kernel = []" "k_deferred ex_spawned_kernel = []"
  "\<not> con_wake_pending (k_console ex_spawned_kernel)"
proof -
  obtain q where q: "s_processes (k_sched ex_boot_kernel) = Some q # replicate 31 None" using boot_sched(1) by blast
  have f: "free_pid (k_sched ex_boot_kernel) = Some 1" by (rule example_pids(1) [OF q])
  have r: "replicate 31 None = None # replicate 30 (None :: process option)" by (simp add: numeral_eq_Suc)
  show "\<exists>q p. s_processes (k_sched ex_spawned_kernel) = Some q # Some p # replicate 30 None \<and> p_state p = Ready \<and> p_is_user p"
    "s_current_pid (k_sched ex_spawned_kernel) = None" "s_idle_pid (k_sched ex_spawned_kernel) = 0"
    using f q boot_sched(2,3)
    by (simp_all add: ex_spawned_kernel_def kernel_spawn_user_def spawn_user_def new_user_def setup_initial_stack_frame_user_def Let_def r)
  show "k_stacks ex_spawned_kernel = [0x20000, 0x10000]" "k_lost ex_spawned_kernel = []" "k_deferred ex_spawned_kernel = []"
    "\<not> con_wake_pending (k_console ex_spawned_kernel)"
    using f by (simp_all add: ex_spawned_kernel_def kernel_spawn_user_def take_stack_def split: prod.split)
      (simp_all add: ex_boot_kernel_def console_initial_def)
qed

lemma running_sched: "\<exists>q p. s_processes (k_sched ex_running_kernel) = Some q # Some p # replicate 30 None \<and> p_is_user p"
  "s_current_pid (k_sched ex_running_kernel) = Some 1" "k_stacks ex_running_kernel = [0x20000, 0x10000]" "k_lost ex_running_kernel = []"
proof -
  obtain q p where p: "s_processes (k_sched ex_spawned_kernel) = Some q # Some p # replicate 30 None" "p_state p = Ready" "p_is_user p"
    using spawned_sched(1) by blast
  note f = example_pids(4) [OF p(1,2) spawned_sched(3)]
  show "\<exists>q p. s_processes (k_sched ex_running_kernel) = Some q # Some p # replicate 30 None \<and> p_is_user p"
    "s_current_pid (k_sched ex_running_kernel) = Some 1" "k_stacks ex_running_kernel = [0x20000, 0x10000]" "k_lost ex_running_kernel = []"
    using f p spawned_sched(2-)
    by (simp_all add: ex_running_kernel_def timer_interrupt_def schedule_def drain_deferred_free_def take_pending_wake_def dispatch_def dispatch_first_def
        update_process_def set_running_def current_process_def sbind_def kmodify_def sreturn_def Let_def)
qed

lemma fork_examples:
  "k_stacks ex_forked_kernel = [0x30000, 0x20000, 0x10000]" "k_lost ex_forked_kernel = []"
  "k_stacks ex_failed_kernel = [0x50000, 0x30000, 0x20000, 0x10000]" "k_lost ex_failed_kernel = [0x50000]"
  "user_running ex_running_kernel" "user_running ex_forked_kernel"
proof -
  obtain q p where p: "s_processes (k_sched ex_running_kernel) = Some q # Some p # replicate 30 None" "p_is_user p"
    using running_sched(1) by blast
  have r: "replicate 30 None = None # replicate 29 (None :: process option)" by (simp add: numeral_eq_Suc)
  note f = example_pids(2) [OF p(1)]
  obtain c where c: "s_processes (k_sched ex_forked_kernel) = Some q # Some p # Some c # replicate 29 None" "s_current_pid (k_sched ex_forked_kernel) = Some 1"
      "k_stacks ex_forked_kernel = [0x30000, 0x20000, 0x10000]" "k_lost ex_forked_kernel = []"
    using f p running_sched(2-)
    by (simp add: ex_forked_kernel_def sys_fork_def ex_copy_def fork_place_def new_kernel_def setup_initial_stack_frame_kernel_def modify_sched_def free_stack_def Let_def r)
  note f' = example_pids(3) [OF c(1)]
  show "k_stacks ex_forked_kernel = [0x30000, 0x20000, 0x10000]" "k_lost ex_forked_kernel = []" by (rule c(3), rule c(4))
  show "k_stacks ex_failed_kernel = [0x50000, 0x30000, 0x20000, 0x10000]" "k_lost ex_failed_kernel = [0x50000]"
    using f' c by (simp_all add: ex_failed_kernel_def sys_fork_def ex_copy_def fork_place_def new_kernel_def lose_stack_def sfail_def Let_def)
  show "user_running ex_running_kernel" "user_running ex_forked_kernel"
    using p c running_sched(2) by (simp_all add: user_running_def current_process_def)
qed

theorem kernel_reachable_ok_witness:
  "mset (k_stacks ex_forked_kernel) = held_stacks ex_forked_kernel \<and> k_stacks ex_forked_kernel = [0x30000, 0x20000, 0x10000] \<and>
   mset (k_stacks ex_failed_kernel) = held_stacks ex_failed_kernel + {#0x50000#} \<and> distinct (k_stacks ex_failed_kernel)"
proof -
  let ?reach = "kernel_reachable ramdisk_dev (\<lambda>_. True) (\<lambda>_. sfail ENOSYS)"
  have boot: "?reach ex_boot_kernel"
  proof (rule reach_boot)
    show "k_sched ex_boot_kernel = fst (spawn_idle 0x1000 0x2000 0x10000
        (scheduler_init scheduler_new, \<lparr>m_kernel = \<lambda>_. 0, m_tables = \<lambda>_. 0, m_user = \<lambda>_ _. 0\<rparr>))"
      by (simp add: ex_boot_kernel_def)
  qed (simp_all add: ex_boot_kernel_def)
  have "?reach ex_spawned_kernel"
    unfolding ex_spawned_kernel_def by (rule reach_spawn_user [OF boot]) (simp_all add: fresh_stack_def ex_boot_kernel_def)
  then have running: "?reach ex_running_kernel" unfolding ex_running_kernel_def by (rule reach_timer)
  have forked: "?reach ex_forked_kernel"
    unfolding ex_forked_kernel_def by (rule reach_fork [OF running fork_examples(5)]) (simp_all add: fresh_stack_def running_sched(3))
  have "?reach ex_failed_kernel"
    unfolding ex_failed_kernel_def by (rule reach_fork [OF forked fork_examples(6)]) (simp_all add: fresh_stack_def fork_examples(1))
  from kernel_reachable_ok [OF this] kernel_reachable_ok [OF forked] show ?thesis
    by (simp add: fork_examples)
qed

end
