(* ===== verification/Memory_Pages.thy ===== *)
theory Memory_Pages
  imports Memory_Calls
begin

text \<open>
  What mapping new pages and unmapping pages does to the view a program has of its memory, under the contract of the paging
  crate: the pages are a finite map from paths to entries, which the operations of \<open>Memory_Calls\<close> extend and restrict.
\<close>

subsection \<open>The pages of an address space\<close>

definition pages :: "vmem \<Rightarrow> u64 \<Rightarrow> nat list \<rightharpoonup> u64" where
  "pages v p = map_of (mapped 4 (vm_mem v) p)"

lemma map_of_mset:
  assumes "mset xs = mset ys" "distinct (map fst xs)"
  shows "map_of xs = map_of ys"
proof
  fix k
  have st: "set xs = set ys" by (rule mset_eq_setD [OF assms(1)])
  show "map_of xs k = map_of ys k"
  proof (cases "map_of ys k")
    case None
    then have "map_of xs k = None" unfolding map_of_eq_None_iff st .
    then show ?thesis using None by (simp only:)
  next
    case (Some e)
    then have "(k, e) \<in> set xs" unfolding st by (rule map_of_SomeD)
    from map_of_is_SomeI [OF assms(2) this] show ?thesis using Some by (simp only:)
  qed
qed

lemma pages_add:
  assumes "mset (mapped 4 (vm_mem v') p) = add_mset (path, e) (mset (mapped 4 (vm_mem v) p))"
  shows "pages v' p = (pages v p)(path \<mapsto> e)"
proof -
  have "mset (mapped 4 (vm_mem v') p) = mset ((path, e) # mapped 4 (vm_mem v) p)" unfolding mset.simps by (rule assms)
  from map_of_mset [OF this distinct_paths] show ?thesis unfolding pages_def map_of.simps fst_conv snd_conv .
qed

text \<open>
  The address space \<open>p\<close> got new writable pages at the paths \<open>P\<close>, in free frames that keep their contents; nothing else
  changed for any program.
\<close>

definition extended :: "u64 \<Rightarrow> u64 list \<Rightarrow> nat list set \<Rightarrow> vmem \<Rightarrow> vmem \<Rightarrow> bool" where
  "extended p ps P v v' \<longleftrightarrow> (\<exists>N. granted N [] (vm_pmm v) (vm_pmm v') \<and> isolated (p # ps) v' \<and> no_huge 4 (vm_mem v') p \<and>
     (\<forall>path. path \<notin> P \<longrightarrow> pages v' p path = pages v p path) \<and>
     (\<forall>path \<in> P. pages v p path = None \<and> (\<exists>f \<in> set N. pte_addr f = f \<and> pages v' p path = Some (f OR USER_PAGE) \<and>
        (\<forall>n < 4096. vm_mem v' (f + of_nat n) = vm_mem v (f + of_nat n)))) \<and>
     (\<forall>q \<in> set ps. mapped 4 (vm_mem v') q = mapped 4 (vm_mem v) q) \<and>
     set (tables 4 (vm_mem v') p) \<subseteq> set (tables 4 (vm_mem v) p) \<union> set N \<and>
     (\<forall>x n. page_aligned x \<and> x \<notin> set (tables 4 (vm_mem v) p) \<and> x \<notin> set N \<and> n < 4096 \<longrightarrow> vm_mem v' (x + of_nat n) = vm_mem v (x + of_nat n)) \<and>
     vm_cr3 v' = vm_cr3 v \<and> vm_kernel_pml4 v' = vm_kernel_pml4 v)"

lemma user_page: "leaf_flags USER_PAGE" "pte_addr f = f \<Longrightarrow> pte_addr (f OR USER_PAGE) = f" "pte_writable (f OR USER_PAGE)"
proof -
  have u: "USER_PAGE = 7" by (simp add: USER_PAGE_def PTE_PRESENT_def PTE_WRITABLE_def PTE_USER_def)
  show l: "leaf_flags USER_PAGE" by (simp add: u leaf_flags_def pte_present_def pte_huge_def pte_addr_def bit_numeral_rec(2))
  show "pte_addr f = f \<Longrightarrow> pte_addr (f OR USER_PAGE) = f" using l by (simp add: leaf_flags_def)
  show "pte_writable (f OR USER_PAGE)" by (simp add: u pte_writable_def bit_or_iff bit_numeral_rec(2))
qed

lemma extended_refl:
  assumes "isolated (p # ps) v" "no_huge 4 (vm_mem v) p"
  shows "extended p ps {} v v"
  using assms spaces_okD(1) [OF isolatedD(2) [OF assms(1)]] granted_Nil unfolding extended_def by (intro exI [of _ "[]"]) simp

lemma pages_leaf: "pages v p path = Some e \<Longrightarrow> pte_addr e \<in> set (leaves 4 (vm_mem v) p)"
  using mapped_leaf [of "vm_mem v" p path e "[p]"] by (simp add: pages_def)

lemma extended_trans:
  assumes iso: "isolated (p # ps) v" and 1: "extended p ps P v v1" and 2: "extended p ps Q v1 v2" and disj: "P \<inter> Q = {}"
  shows "extended p ps (P \<union> Q) v v2"
proof -
  from 1 obtain N where N: "granted N [] (vm_pmm v) (vm_pmm v1)" "isolated (p # ps) v1" "no_huge 4 (vm_mem v1) p"
      "\<And>path. path \<notin> P \<Longrightarrow> pages v1 p path = pages v p path"
      "\<And>path. path \<in> P \<Longrightarrow> pages v p path = None \<and> (\<exists>f \<in> set N. pte_addr f = f \<and> pages v1 p path = Some (f OR USER_PAGE) \<and>
        (\<forall>n < 4096. vm_mem v1 (f + of_nat n) = vm_mem v (f + of_nat n)))"
      "\<And>q. q \<in> set ps \<Longrightarrow> mapped 4 (vm_mem v1) q = mapped 4 (vm_mem v) q"
      "set (tables 4 (vm_mem v1) p) \<subseteq> set (tables 4 (vm_mem v) p) \<union> set N"
      "\<And>x n. page_aligned x \<Longrightarrow> x \<notin> set (tables 4 (vm_mem v) p) \<Longrightarrow> x \<notin> set N \<Longrightarrow> n < 4096 \<Longrightarrow> vm_mem v1 (x + of_nat n) = vm_mem v (x + of_nat n)"
      "vm_cr3 v1 = vm_cr3 v" "vm_kernel_pml4 v1 = vm_kernel_pml4 v"
    unfolding extended_def by blast
  from 2 obtain M where M: "granted M [] (vm_pmm v1) (vm_pmm v2)" "isolated (p # ps) v2" "no_huge 4 (vm_mem v2) p"
      "\<And>path. path \<notin> Q \<Longrightarrow> pages v2 p path = pages v1 p path"
      "\<And>path. path \<in> Q \<Longrightarrow> pages v1 p path = None \<and> (\<exists>f \<in> set M. pte_addr f = f \<and> pages v2 p path = Some (f OR USER_PAGE) \<and>
        (\<forall>n < 4096. vm_mem v2 (f + of_nat n) = vm_mem v1 (f + of_nat n)))"
      "\<And>q. q \<in> set ps \<Longrightarrow> mapped 4 (vm_mem v2) q = mapped 4 (vm_mem v1) q"
      "set (tables 4 (vm_mem v2) p) \<subseteq> set (tables 4 (vm_mem v1) p) \<union> set M"
      "\<And>x n. page_aligned x \<Longrightarrow> x \<notin> set (tables 4 (vm_mem v1) p) \<Longrightarrow> x \<notin> set M \<Longrightarrow> n < 4096 \<Longrightarrow> vm_mem v2 (x + of_nat n) = vm_mem v1 (x + of_nat n)"
      "vm_cr3 v2 = vm_cr3 v1" "vm_kernel_pml4 v2 = vm_kernel_pml4 v1"
    unfolding extended_def by blast
  have free1: "is_free (vm_pmm v1) x" "managed (vm_pmm v1) x" if "x \<in> set M" for x using M(1) that by (simp_all add: granted_def)
  have notN: "x \<notin> set N" "is_free (vm_pmm v) x" if "x \<in> set M" for x
  proof -
    have "managed (vm_pmm v) x" using free1(2) [OF that] granted_managed [OF N(1)] by simp
    then have "is_free (vm_pmm v) x \<and> x \<notin> set N" using free1(1) [OF that] N(1) by (simp add: granted_def)
    then show "x \<notin> set N" "is_free (vm_pmm v) x" by simp_all
  qed
  have kept: "vm_mem v2 (f + of_nat n) = vm_mem v1 (f + of_nat n)" if l: "f \<in> set (leaves 4 (vm_mem v1) p)" "n < 4096" for f n
  proof -
    have a: "f \<in> set (all_leaves (vm_mem v1) (p # ps))" using l(1) by simp
    note k = spaces_okD(4) [OF isolatedD(2) [OF N(2)] a]
    have "f \<notin> set (tables 4 (vm_mem v1) p)" "f \<notin> set M" using k free1(1) [of f] by auto
    then show ?thesis using M(8) [of f n] k l(2) by (auto simp: managed_def)
  qed
  have new: "vm_mem v1 (f + of_nat n) = vm_mem v (f + of_nat n)" if f: "f \<in> set M" "n < 4096" for f n
  proof -
    have "managed (vm_pmm v) f" using free1(2) [OF f(1)] granted_managed [OF N(1)] by simp
    moreover have "f \<notin> set (tables 4 (vm_mem v) p)"
      using notN(2) [OF f(1)] spaces_okD(3) [OF isolatedD(2) [OF iso], of f] by auto
    ultimately show ?thesis using N(8) [of f n] notN(1) [OF f(1)] f(2) by (simp add: managed_def)
  qed
  have pg: "pages v p path = None \<and> (\<exists>f \<in> set (N @ M). pte_addr f = f \<and> pages v2 p path = Some (f OR USER_PAGE) \<and>
      (\<forall>n < 4096. vm_mem v2 (f + of_nat n) = vm_mem v (f + of_nat n)))" if path: "path \<in> P \<union> Q" for path
  proof (cases "path \<in> P")
    case True
    then obtain f where f: "pages v p path = None" "f \<in> set N" "pte_addr f = f" "pages v1 p path = Some (f OR USER_PAGE)"
        "\<And>n. n < 4096 \<Longrightarrow> vm_mem v1 (f + of_nat n) = vm_mem v (f + of_nat n)" using N(5) [OF True] by blast
    have "f \<in> set (leaves 4 (vm_mem v1) p)" using pages_leaf [OF f(4)] user_page(2) [OF f(3)] by simp
    moreover have "pages v2 p path = Some (f OR USER_PAGE)" using M(4) [of path] True disj f(4) by auto
    ultimately show ?thesis using f kept by auto
  next
    case False
    then obtain f where f: "pages v1 p path = None" "f \<in> set M" "pte_addr f = f" "pages v2 p path = Some (f OR USER_PAGE)"
        "\<And>n. n < 4096 \<Longrightarrow> vm_mem v2 (f + of_nat n) = vm_mem v1 (f + of_nat n)" using M(5) [of path] path by blast
    then show ?thesis using N(4) [OF False] new by auto
  qed
  have g: "granted (N @ M) [] (vm_pmm v) (vm_pmm v2)" using granted_append [OF N(1) M(1)] by simp
  have mem: "vm_mem v2 (x + of_nat n) = vm_mem v (x + of_nat n)"
    if "page_aligned x" "x \<notin> set (tables 4 (vm_mem v) p)" "x \<notin> set (N @ M)" "n < 4096" for x n
  proof -
    have "x \<notin> set (tables 4 (vm_mem v1) p)" using that N(7) by auto
    then show ?thesis using that N(8) M(8) by simp
  qed
  have t: "set (tables 4 (vm_mem v2) p) \<subseteq> set (tables 4 (vm_mem v) p) \<union> set (N @ M)" using N(7) M(7) by auto
  have q: "pages v2 p path = pages v p path" if "path \<notin> P \<union> Q" for path using that N(4) M(4) by simp
  show ?thesis unfolding extended_def
    by (intro exI [of _ "N @ M"] conjI) (use g M(2,3) q pg N(6,9,10) M(6,9,10) t mem in \<open>simp_all\<close>)
qed

subsection \<open>New pages\<close>

context page_mapper
begin

lemma map_new_page_result:
  assumes iso: "isolated (p # ps) v" and low: "lower_half virt" and new: "pages v p (path_of virt) = None" and nh: "no_huge 4 (vm_mem v) p"
  shows "case (map_new_page mp p virt v :: ('e, bool) outcome \<times> vmem) of
      (Inr ok, v') \<Rightarrow> if ok then extended p ps {path_of virt} v v' else v' = v \<and> free_set (vm_pmm v) = {}
    | (Inl (Err _), _) \<Rightarrow> False
    | (Inl (Crash _), v') \<Rightarrow> free_set (vm_pmm v') = {}"
proof -
  let ?m = "vm_mem v" and ?s = "vm_pmm v"
  note ok = isolatedD(2) [OF iso]
  have np: "path_of virt \<notin> fst ` set (mapped 4 ?m p)" using new by (simp add: pages_def map_of_eq_None_iff)
  from spaces_okD(1) [OF ok] show ?thesis
  proof (cases rule: alloc_grants)
    case 1
    then show ?thesis by (simp add: map_new_page_def sbind_def pmm_alloc_def sreturn_def)
  next
    case (2 f s1)
    let ?v1 = "v\<lparr>vm_pmm := s1\<rparr>"
    have pb: "page_base f = f" by (rule page_base_pte_addr [OF 2(3)])
    have ok1: "spaces_ok (p # ps) ?v1" by (rule granted_spaces(1) [OF ok 2(2)])
    obtain r v' where run: "map_to mp allocate_frame p (page_base virt) f USER_PAGE ?v1 = (r, v')"
      by (cases "map_to mp allocate_frame p (page_base virt) f USER_PAGE ?v1")
    have eff: "map_effect 4 p (path_of virt) (f OR USER_PAGE) ?v1 (r, v')"
      using map_to_effect [OF ok1, of "page_base virt" f USER_PAGE] low user_page(1) 2(3) run by (simp add: path_of_page_base)
    then obtain m' s' N where e: "v' = ?v1\<lparr>vm_mem := m', vm_pmm := s'\<rparr>" "granted N [] s1 s'"
        "mset (tables 4 m' p) = mset (tables 4 ?m p) + mset N"
        "\<forall>x n. page_aligned x \<and> n < 4096 \<and> x \<notin> set (tables 4 ?m p) \<and> x \<notin> set N \<longrightarrow> m' (x + of_nat n) = ?m (x + of_nat n)"
        "map_result 4 p (path_of virt) (f OR USER_PAGE) ?m m' s' r"
      unfolding map_effect_def by auto
    show ?thesis
    proof (cases r)
      case (Inr u)
      have mp: "map_page mp p virt f USER_PAGE (v\<lparr>vm_pmm := s1\<rparr>) = (Inr () :: ('e, unit) outcome, v')"
        using run Inr by (simp add: map_page_def sexpect_value pb)
      note new = map_page_new [OF iso 2(2,3) low user_page(1) mp]
      have res: "map_new_page mp p virt v = (Inr True :: ('e, bool) outcome, v')"
        using 2(1) mp by (simp add: map_new_page_def sbind_def pmm_alloc_def sreturn_def)
      have g: "granted (f # N) [] ?s (vm_pmm v')" using granted_append [OF 2(2) e(2)] e(1) by simp
      have "pages v' p = (pages v p)(path_of virt \<mapsto> f OR USER_PAGE)" by (rule pages_add [OF new(3)])
      moreover have "set (tables 4 (vm_mem v') p) = set (tables 4 ?m p) \<union> set N"
        using mset_eq_setD [of "tables 4 m' p" "tables 4 ?m p @ N"] e(1,3) by simp
      moreover have "pages v p (path_of virt) = None" by (rule assms(3))
      ultimately have "extended p ps {path_of virt} v v'"
        unfolding extended_def using g new(1,4,5,6,7,8) nh 2(3) e(1,4)
        by (intro exI [of _ "f # N"] conjI) auto
      then show ?thesis unfolding res by simp
    next
      case (Inl x)
      have "free_set s' = {}" using e(5) np nh Inl by (cases x) (auto simp: map_result_def)
      then show ?thesis using 2(1) run Inl e(1)
        by (cases x) (auto simp: map_new_page_def sbind_def pmm_alloc_def map_page_def sexpect_def pb)
    qed
  qed
qed

lemma map_new_page_frames:
  assumes iso: "isolated (p # ps) v" and low: "lower_half virt"
  shows "card (free_set (vm_pmm v)) \<le> card (free_set (vm_pmm (snd (map_new_page mp p virt v :: ('e, bool) outcome \<times> vmem)))) + 4"
proof -
  note ok = isolatedD(2) [OF iso]
  from spaces_okD(1) [OF ok] show ?thesis
  proof (cases rule: alloc_grants)
    case 1
    then show ?thesis by (simp add: map_new_page_def sbind_def pmm_alloc_def sreturn_def)
  next
    case (2 f s1)
    let ?v1 = "v\<lparr>vm_pmm := s1\<rparr>"
    obtain r v' where run: "map_to mp allocate_frame p (page_base virt) f USER_PAGE ?v1 = (r, v')"
      by (cases "map_to mp allocate_frame p (page_base virt) f USER_PAGE ?v1")
    have "map_effect 4 p (path_of virt) (f OR USER_PAGE) ?v1 (r, v')"
      using map_to_effect [OF granted_spaces(1) [OF ok 2(2)], of "page_base virt" f USER_PAGE] low user_page(1) 2(3) run by (simp add: path_of_page_base)
    then obtain m' s' N where e: "v' = ?v1\<lparr>vm_mem := m', vm_pmm := s'\<rparr>" and N: "granted N [] s1 s'" "length N < 4"
      unfolding map_effect_def snd_conv by (elim exE conjE) simp
    have s1: "pmm_inv s1" using 2(2) by (simp add: granted_def)
    have "card (free_set s1) + 1 = card (free_set (vm_pmm v))" using granted_card [OF 2(2) spaces_okD(1) [OF ok]] by simp
    moreover have "card (free_set s') + length N = card (free_set s1)" by (rule granted_card [OF N(1) s1])
    ultimately have "card (free_set (vm_pmm v)) \<le> card (free_set (vm_pmm v')) + 4" using N(2) e by simp
    moreover have "snd (map_new_page mp p virt v :: ('e, bool) outcome \<times> vmem) = v'"
      using 2(1) run page_base_pte_addr [OF 2(3)]
      by (auto simp: map_new_page_def sbind_def pmm_alloc_def map_page_def sexpect_def sreturn_def split: sum.splits fault.splits)
    ultimately show ?thesis by simp
  qed
qed

end

text \<open>Addresses of the lower half.\<close>

lemma low_bits: "a < 2 ^ 47 \<Longrightarrow> 47 \<le> n \<Longrightarrow> \<not> bit (a :: u64) n"
proof -
  assume "a < 2 ^ 47" and n: "47 \<le> n"
  then have z: "drop_bit 47 a = 0" by (simp only: below_47)
  have "bit (drop_bit 47 a) (n - 47) = bit a n" using n by (simp add: bit_drop_bit_eq)
  then show ?thesis unfolding z by simp
qed

lemma low_address: "a < 2 ^ 47 \<Longrightarrow> lower_half a"
proof -
  assume a: "a < 2 ^ 47"
  have m: "(0x1FF :: u64) = mask 9" by (simp add: mask_eq_exp_minus_1)
  have "drop_bit 39 a AND 0x1FF = take_bit 8 (drop_bit 39 a)"
    unfolding m
  proof (rule bit_word_eqI)
    fix n :: nat
    show "bit (drop_bit 39 a AND mask 9) n = bit (take_bit 8 (drop_bit 39 a)) n"
      using low_bits [OF a, of "39 + n"] by (cases "n = 8") (auto simp: bit_and_iff bit_mask_iff bit_take_bit_iff bit_drop_bit_eq)
  qed
  then have "unat (drop_bit 39 a AND 0x1FF) = take_bit 8 (unat (drop_bit 39 a))" by (simp only: unsigned_take_bit_eq)
  also have "\<dots> < 2 ^ 8" by (rule take_bit_nat_less_exp)
  finally show ?thesis by (simp add: lower_half_def page_index_def)
qed

text \<open>A path determines the page.\<close>

lemma path_of_inject:
  assumes "a < 2 ^ 47" "b < 2 ^ 47"
  shows "path_of a = path_of b \<longleftrightarrow> page_base a = page_base b"
proof
  assume p: "path_of a = path_of b"
  have m: "(0x1FF :: u64) = mask 9" by (simp add: mask_eq_exp_minus_1)
  have i: "bit a (k + n) = bit b (k + n)" if "page_index k a = page_index k b" "n < 9" for k n
  proof -
    have "drop_bit k a AND mask 9 = drop_bit k b AND mask 9" using that(1) unfolding page_index_def m by (simp only: word_unat_eq_iff)
    then have "bit (drop_bit k a AND mask 9) n = bit (drop_bit k b AND mask 9) n" by (simp only:)
    then show ?thesis using that(2) by (auto simp: bit_and_iff bit_mask_iff bit_drop_bit_eq dest: bit_imp_le_length)
  qed
  have x: "page_index 39 a = page_index 39 b" "page_index 30 a = page_index 30 b" "page_index 21 a = page_index 21 b" "page_index 12 a = page_index 12 b"
    using p by (simp_all add: path_of_def)
  show "page_base a = page_base b"
  proof (rule bit_word_eqI)
    fix n :: nat
    show "bit (page_base a) n = bit (page_base b) n"
      unfolding bit_page_base using i [OF x(1), of "n - 39"] i [OF x(2), of "n - 30"] i [OF x(3), of "n - 21"] i [OF x(4), of "n - 12"]
        low_bits [OF assms(1), of n] low_bits [OF assms(2), of n]
      by (cases "47 \<le> n"; cases "39 \<le> n"; cases "30 \<le> n"; cases "21 \<le> n"; cases "12 \<le> n") auto
  qed
next
  assume "page_base a = page_base b"
  then show "path_of a = path_of b" using path_of_page_base(1) [of a] path_of_page_base(1) [of b] by simp
qed

lemma unat_page_base: "unat (page_base x) = unat x div 4096 * 4096"
proof -
  have "page_base x = push_bit 12 (drop_bit 12 x)" by (rule bit_word_eqI) (auto simp: bit_page_base bit_push_bit_iff bit_drop_bit_eq)
  then have e: "page_base x = x div 4096 * 4096" by (simp add: push_bit_eq_mult drop_bit_eq_div)
  have "unat x < 2 ^ 64" using unsigned_less [of x, where ?'a = nat] by simp
  moreover have "unat x div 4096 * 4096 \<le> unat x" by (metis div_mult_mod_eq le_add1)
  ultimately have "unat x div 4096 * 4096 < 2 ^ 64" by linarith
  then show ?thesis unfolding e by (simp add: unat_word_ariths unat_div)
qed

lemma unat_page_step:
  assumes "unat a + k * 4096 \<le> 2 ^ 47" "i < k"
  shows "unat (a + of_nat i * PAGE_SIZE) = unat a + i * 4096"
proof -
  have "i * 4096 < 2 ^ 47" "unat a + i * 4096 < 2 ^ 47" using assms by linarith+
  then show ?thesis by (simp add: unat_word_ariths unat_of_nat PAGE_SIZE_def)
qed

lemma path_in_range:
  assumes "page_aligned a" "unat a + k * 4096 \<le> 2 ^ 47" "virt < 2 ^ 47"
  shows "path_of virt \<in> path_of ` (\<lambda>i. a + of_nat i * PAGE_SIZE) ` {..<k} \<longleftrightarrow> a \<le> virt \<and> unat virt < unat a + k * 4096"
proof -
  obtain q where q: "unat a = 4096 * q" using unat_page_aligned [OF assms(1)] by blast
  have "path_of virt = path_of (a + of_nat i * PAGE_SIZE) \<longleftrightarrow> unat virt div 4096 = q + i" if i: "i < k" for i
  proof -
    note s = unat_page_step [OF assms(2) i]
    have l: "a + of_nat i * PAGE_SIZE < 2 ^ 47" using s assms(2) i by (simp add: word_less_nat_alt)
    have "path_of virt = path_of (a + of_nat i * PAGE_SIZE) \<longleftrightarrow> unat (page_base virt) = unat (page_base (a + of_nat i * PAGE_SIZE))"
      unfolding path_of_inject [OF assms(3) l] by (simp only: word_unat_eq_iff)
    moreover have "unat virt div 4096 * 4096 = (4096 * q + i * 4096) div 4096 * 4096 \<longleftrightarrow> unat virt div 4096 = q + i"
    proof -
      have n: "4096 * q + i * 4096 = (q + i) * 4096" by (simp only: distrib_right mult.commute)
      have "(q + i) * 4096 div 4096 = q + i" by (rule nonzero_mult_div_cancel_right) simp
      then show ?thesis unfolding n by (simp only: mult_cancel2) simp
    qed
    ultimately show ?thesis unfolding unat_page_base s q by (rule trans)
  qed
  then have "path_of virt \<in> path_of ` (\<lambda>i. a + of_nat i * PAGE_SIZE) ` {..<k} \<longleftrightarrow> (\<exists>i < k. unat virt div 4096 = q + i)" by auto
  also have "\<dots> \<longleftrightarrow> q \<le> unat virt div 4096 \<and> unat virt div 4096 < q + k" by (auto simp: le_iff_add)
  also have "\<dots> \<longleftrightarrow> a \<le> virt \<and> unat virt < unat a + k * 4096"
    unfolding word_le_nat_alt q by (auto simp: less_eq_div_iff_mult_less_eq div_less_iff_less_mult algebra_simps)
  finally show ?thesis .
qed

text \<open>The same range of pages from an address inside its first page.\<close>

lemma page_base_step:
  assumes "unat a + k * 4096 \<le> 2 ^ 47" "i \<le> k"
  shows "unat (page_base (a + of_nat i * PAGE_SIZE)) = unat (page_base a) + i * 4096"
proof -
  have "i * 4096 \<le> k * 4096" using assms(2) by simp
  then have "unat a + i * 4096 \<le> 2 ^ 47" "i * 4096 \<le> 2 ^ 47" using assms(1) by linarith+
  then have "unat (a + of_nat i * PAGE_SIZE) = unat a + i * 4096" by (simp add: unat_word_ariths unat_of_nat PAGE_SIZE_def)
  then show ?thesis by (simp add: unat_page_base add_mult_distrib)
qed

lemma path_in_pages:
  assumes "unat a + k * 4096 \<le> 2 ^ 47" "virt < 2 ^ 47"
  shows "path_of virt \<in> path_of ` (\<lambda>i. a + of_nat i * PAGE_SIZE) ` {..<k} \<longleftrightarrow> page_base a \<le> virt \<and> virt < page_base (a + of_nat k * PAGE_SIZE)"
proof -
  have le: "unat (page_base a) + k * 4096 \<le> 2 ^ 47" using assms(1) by (simp add: unat_page_base)
  have al: "page_aligned (page_base a)" by (simp add: page_aligned_def word_unat_eq_iff unat_mod unat_page_base)
  have "page_base (a + of_nat i * PAGE_SIZE) = page_base a + of_nat i * PAGE_SIZE" if "i < k" for i
    using page_base_step [OF assms(1), of i] unat_page_step [OF le that] that by (simp add: word_unat_eq_iff)
  then have "path_of (a + of_nat i * PAGE_SIZE) = path_of (page_base a + of_nat i * PAGE_SIZE)" if "i < k" for i
    using that path_of_page_base(1) [of "a + of_nat i * PAGE_SIZE"] by simp
  then have "path_of ` (\<lambda>i. a + of_nat i * PAGE_SIZE) ` {..<k} = path_of ` (\<lambda>i. page_base a + of_nat i * PAGE_SIZE) ` {..<k}"
    unfolding image_image by (intro image_cong) simp_all
  then show ?thesis unfolding path_in_range [OF al le assms(2), symmetric]
    using path_in_range [OF al le assms(2)] page_base_step [OF assms(1), of k] by (simp add: word_less_nat_alt)
qed

lemma pages_from_length: "unat b \<le> unat a + length (pages_from a b) * 4096" "a < b \<Longrightarrow> unat a + length (pages_from a b) * 4096 < unat b + 4096"
proof -
  show "unat b \<le> unat a + length (pages_from a b) * 4096" by (simp add: pages_from_def)
  show "a < b \<Longrightarrow> unat a + length (pages_from a b) * 4096 < unat b + 4096" by (simp add: pages_from_def word_less_nat_alt)
qed

subsection \<open>Removed pages\<close>

text \<open>
  The address space \<open>p\<close> lost its pages at the paths \<open>P\<close>, and each frame the holders these pages were; nothing else changed for
  any program.
\<close>

definition frames_at :: "vmem \<Rightarrow> u64 \<Rightarrow> nat list set \<Rightarrow> u64 set" where
  "frames_at v p P = {pte_addr e | e. \<exists>path \<in> P. pages v p path = Some e}"

definition reduced :: "u64 \<Rightarrow> u64 list \<Rightarrow> nat list set \<Rightarrow> vmem \<Rightarrow> vmem \<Rightarrow> bool" where
  "reduced p ps P v v' \<longleftrightarrow> isolated (p # ps) v' \<and> no_huge 4 (vm_mem v') p \<and>
     (\<forall>path. pages v' p path = (if path \<in> P then None else pages v p path)) \<and>
     (\<forall>q \<in> set ps. mapped 4 (vm_mem v') q = mapped 4 (vm_mem v) q) \<and>
     tables 4 (vm_mem v') p = tables 4 (vm_mem v) p \<and> total_frames (vm_pmm v') = total_frames (vm_pmm v) \<and>
     (\<forall>f. managed (vm_pmm v) f \<and> f \<notin> frames_at v p P \<longrightarrow>
        holders (vm_pmm v') f = holders (vm_pmm v) f \<and> is_free (vm_pmm v') f = is_free (vm_pmm v) f) \<and>
     (\<forall>x n. page_aligned x \<and> x \<notin> set (tables 4 (vm_mem v) p) \<and> n < 4096 \<longrightarrow> vm_mem v' (x + of_nat n) = vm_mem v (x + of_nat n)) \<and>
     vm_cr3 v' = vm_cr3 v \<and> vm_kernel_pml4 v' = vm_kernel_pml4 v"

lemma map_of_filter_key: "map_of (filter (\<lambda>x. fst x \<noteq> k) xs) j = (if j = k then None else map_of xs j)"
  by (induction xs) auto

lemma reduced_refl:
  assumes "isolated (p # ps) v" "no_huge 4 (vm_mem v) p"
  shows "reduced p ps {} v v"
  using assms by (simp add: reduced_def)

lemma reducedD:
  assumes "reduced p ps P v v'"
  shows "isolated (p # ps) v'" "no_huge 4 (vm_mem v') p" "pages v' p path = (if path \<in> P then None else pages v p path)"
    "q \<in> set ps \<Longrightarrow> mapped 4 (vm_mem v') q = mapped 4 (vm_mem v) q"
    "tables 4 (vm_mem v') p = tables 4 (vm_mem v) p" "total_frames (vm_pmm v') = total_frames (vm_pmm v)"
    "managed (vm_pmm v) f \<Longrightarrow> f \<notin> frames_at v p P \<Longrightarrow>
      holders (vm_pmm v') f = holders (vm_pmm v) f \<and> is_free (vm_pmm v') f = is_free (vm_pmm v) f"
    "page_aligned x \<Longrightarrow> x \<notin> set (tables 4 (vm_mem v) p) \<Longrightarrow> n < 4096 \<Longrightarrow> vm_mem v' (x + of_nat n) = vm_mem v (x + of_nat n)"
    "vm_cr3 v' = vm_cr3 v" "vm_kernel_pml4 v' = vm_kernel_pml4 v"
  using assms unfolding reduced_def by blast+

lemma reduced_trans:
  assumes 1: "reduced p ps P v v1" and 2: "reduced p ps Q v1 v2"
  shows "reduced p ps (P \<union> Q) v v2"
proof -
  note D1 = reducedD [OF 1] and D2 = reducedD [OF 2]
  have m: "managed (vm_pmm v1) = managed (vm_pmm v)" using D1(6) by (rule managed_cong)
  have h: "holders (vm_pmm v2) f = holders (vm_pmm v) f \<and> is_free (vm_pmm v2) f = is_free (vm_pmm v) f"
    if f: "managed (vm_pmm v) f" "f \<notin> frames_at v p (P \<union> Q)" for f
  proof -
    have "f \<notin> frames_at v p P" "f \<notin> frames_at v1 p Q" using f(2) by (auto simp: frames_at_def D1(3) split: if_splits)
    then show ?thesis using D1(7) [of f] D2(7) [of f] f(1) m by simp
  qed
  have pg: "pages v2 p path = (if path \<in> P \<union> Q then None else pages v p path)" for path by (simp add: D2(3) D1(3))
  have mem: "vm_mem v2 (x + of_nat n) = vm_mem v (x + of_nat n)" if "page_aligned x" "x \<notin> set (tables 4 (vm_mem v) p)" "n < 4096" for x n
    using D1(8) [OF that] D2(8) [of x n] D1(5) that by simp
  show ?thesis unfolding reduced_def
    using D2(1,2) pg D1(4,5,6,9,10) D2(4,5,6,9,10) h mem by (intro conjI allI impI ballI) (blast | simp only:)+
qed

lemma two_pages_holders:
  assumes "isolated (p # ps) v" "pages v p a = Some e" "pages v p b = Some e'" "a \<noteq> b" "pte_addr e = pte_addr e'"
  shows "1 < holders (vm_pmm v) (pte_addr e)"
proof -
  have in1: "(a, e) \<in> set (mapped 4 (vm_mem v) p)" and in2: "(b, e') \<in> set (mapped 4 (vm_mem v) p)"
    using assms(2,3) by (auto simp: pages_def dest: map_of_SomeD)
  from two_leaves [OF in1 in2, of "pte_addr \<circ> snd"] assms(4,5) have "1 < count_list (leaves 4 (vm_mem v) p) (pte_addr e)"
    by (simp add: leaves_def)
  moreover have "pte_addr e \<in> set (all_leaves (vm_mem v) (p # ps))" using pages_leaf [OF assms(2)] by simp
  ultimately show ?thesis using spaces_okD(4) [OF isolatedD(2) [OF assms(1)], of "pte_addr e"] by auto
qed

context page_mapper
begin

lemma translate_pages: "pte_addr p = p \<Longrightarrow> lower_half virt \<Longrightarrow> translate_addr mp (vm_mem v) p virt = map_option pte_addr (pages v p (path_of virt))"
  using translate [of p "page_base virt" "vm_mem v"] by (simp add: translate_addr_def pages_def path_of_page_base)

lemma unmap_page_reduces:
  assumes iso: "isolated (p # ps) v" and low: "lower_half virt" and e: "pages v p (path_of virt) = Some e" and nh: "no_huge 4 (vm_mem v) p"
    and rel: "release = decref \<or> release = free_frame \<and> holders (vm_pmm v) (pte_addr e) = 1"
  obtains v' where "unmap_if_mapped mp release p virt v = (Inr () :: ('e, unit) outcome, v')" "reduced p ps {path_of virt} v v'"
proof -
  let ?m = "vm_mem v" and ?f = "pte_addr e"
  note ok = isolatedD(2) [OF iso]
  have p: "pte_addr p = p" by (rule spaces_front [OF ok])
  have inp: "path_of virt \<in> fst ` set (mapped 4 ?m p)" using e by (auto simp: pages_def map_of_eq_None_iff dest: map_of_SomeD intro: image_eqI [where x = "(path_of virt, e)"])
  note eff = unmap_effect [OF ok, of "page_base virt", unfolded path_of_page_base, OF low]
  obtain r v1 where run: "unmap mp p (page_base virt) v = (r, v1)" by (cases "unmap mp p (page_base virt) v")
  have "\<exists>f. r = Inr f" using eff inp unfolding run unmap_effect_def by (cases r) (auto split: fault.splits)
  then obtain f where r: "r = Inr f" ..
  from eff obtain e' m' where m': "v1 = v\<lparr>vm_mem := m'\<rparr>" "(path_of virt, e') \<in> set (mapped 4 ?m p)" "f = pte_addr e'"
      "mapped 4 m' p = filter (\<lambda>x. fst x \<noteq> path_of virt) (mapped 4 ?m p)" "tables 4 m' p = tables 4 ?m p"
      "\<forall>x n. page_aligned x \<and> n < 4096 \<and> x \<notin> set (tables 4 ?m p) \<longrightarrow> m' (x + of_nat n) = ?m (x + of_nat n)"
      "no_huge 4 ?m p \<longrightarrow> no_huge 4 m' p"
    unfolding run r unmap_effect_def prod.case sum.case by blast
  have "e' = e" using e m'(2) map_of_is_SomeI [OF distinct_paths m'(2)] by (simp add: pages_def)
  then have f: "f = ?f" using m'(3) by simp
  have up: "unmap_page mp p virt v = (Inr f :: ('e, u64) outcome, v1)" using run r by (simp add: unmap_page_def sexpect_value)
  note sp = unmap_effect_spaces [OF ok unmap_page_effect [OF ok low up]]
  obtain s where s: "release f (vm_pmm v1) = Inr s" "decref f (vm_pmm v1) = Inr s \<or> free_frame f (vm_pmm v1) = Inr s"
      "total_frames s = total_frames (vm_pmm v)"
      "\<And>g. managed (vm_pmm v) g \<Longrightarrow> g \<noteq> f \<Longrightarrow> holders s g = holders (vm_pmm v) g \<and> is_free s g = is_free (vm_pmm v) g"
    using rel
  proof
    assume rel: "release = decref"
    have "droppable [] [f] (vm_pmm v1)" using spaces_okD(1) [OF ok] sp(4,5,6) by (simp add: droppable_def)
    then obtain s where "decref f (vm_pmm v1) = Inr s" "dropped [] [f] (vm_pmm v1) s" by (rule decref_drops)
    then show ?thesis using rel sp(4) by (intro that [of s]) (auto simp: dropped_def)
  next
    assume rel: "release = free_frame \<and> holders (vm_pmm v) ?f = 1"
    then have "droppable [f] [] (vm_pmm v1)" using spaces_okD(1) [OF ok] sp(4,5) f by (simp add: droppable_def)
    then obtain s where "free_frame f (vm_pmm v1) = Inr s" "dropped [f] [] (vm_pmm v1) s" by (rule free_frame_drops)
    then show ?thesis using rel sp(4) by (intro that [of s]) (auto simp: dropped_def)
  qed
  have iso': "isolated (p # ps) (v1\<lparr>vm_pmm := s\<rparr>)" by (rule unmap_page_isolated [OF iso low up s(2)])
  have pg: "pages (v1\<lparr>vm_pmm := s\<rparr>) p path = (if path \<in> {path_of virt} then None else pages v p path)" for path
    unfolding pages_def by (simp add: m'(1,4) map_of_filter_key)
  have "reduced p ps {path_of virt} v (v1\<lparr>vm_pmm := s\<rparr>)"
    unfolding reduced_def using iso' pg nh sp(2) m'(1,5,6,7) s(3,4) e f by (auto simp: frames_at_def)
  moreover have "unmap_if_mapped mp release p virt v = (Inr () :: ('e, unit) outcome, v1\<lparr>vm_pmm := s\<rparr>)"
    using up s(1) f by (simp add: unmap_if_mapped_def translate_pages [OF p low] e sbind_def pmm_op_def)
  ultimately show ?thesis by (intro that)
qed

lemma unmap_each:
  assumes "isolated (p # ps) v" "no_huge 4 (vm_mem v) p" "\<forall>a \<in> set as. a < 2 ^ 47"
    "release = decref \<or> release = free_frame \<and>
      (\<forall>a \<in> set as. \<forall>e. pages v p (path_of a) = Some e \<longrightarrow> holders (vm_pmm v) (pte_addr e) = 1)"
  shows "\<exists>v'. each (\<lambda>a. at_virt mp a (unmap_if_mapped mp release p)) as v = (Inr () :: ('e, unit) outcome, v') \<and>
    reduced p ps (path_of ` set as) v v'"
  using assms
proof (induction as arbitrary: v)
  case Nil
  then show ?case using reduced_refl by (simp add: sreturn_def)
next
  case (Cons a as)
  have p: "pte_addr p = p" using spaces_front [OF isolatedD(2) [OF Cons.prems(1)]] .
  have low: "lower_half a" "virt_addr_new mp a = Inr a" using Cons.prems(3) low_address virt_new by auto
  obtain v1 where v1: "unmap_if_mapped mp release p a v = (Inr () :: ('e, unit) outcome, v1)" "reduced p ps {path_of a} v v1"
  proof (cases "pages v p (path_of a)")
    case None
    have "reduced p ps {} v v" using Cons.prems(1,2) by (rule reduced_refl)
    then have "reduced p ps {path_of a} v v" using None by (auto simp: reduced_def frames_at_def)
    then show ?thesis using that [of v] by (simp add: unmap_if_mapped_def translate_pages [OF p low(1)] None sreturn_def)
  next
    case (Some e)
    have "release = decref \<or> release = free_frame \<and> holders (vm_pmm v) (pte_addr e) = 1" using Cons.prems(4) Some by auto
    from unmap_page_reduces [OF Cons.prems(1) low(1) Some Cons.prems(2) this, where 'e = 'e] show ?thesis using that by blast
  qed
  note D = reducedD [OF v1(2)]
  have "release = decref \<or> release = free_frame \<and> (\<forall>b \<in> set as. \<forall>e. pages v1 p (path_of b) = Some e \<longrightarrow> holders (vm_pmm v1) (pte_addr e) = 1)"
  proof (cases "release = decref")
    case False
    then have fr: "release = free_frame" and one: "\<And>b e. b \<in> set (a # as) \<Longrightarrow> pages v p (path_of b) = Some e \<Longrightarrow> holders (vm_pmm v) (pte_addr e) = 1"
      using Cons.prems(4) by blast+
    have "holders (vm_pmm v1) (pte_addr e) = 1" if b: "b \<in> set as" "pages v1 p (path_of b) = Some e" for b e
    proof -
      have e: "pages v p (path_of b) = Some e" "path_of b \<noteq> path_of a" using b(2) D(3) [of "path_of b"] by (auto split: if_splits)
      have h: "holders (vm_pmm v) (pte_addr e) = 1" using one [OF _ e(1)] b(1) by simp
      have "pte_addr e \<notin> frames_at v p {path_of a}"
      proof
        assume "pte_addr e \<in> frames_at v p {path_of a}"
        then obtain e' where "pages v p (path_of a) = Some e'" "pte_addr e = pte_addr e'" by (auto simp: frames_at_def)
        then show False using two_pages_holders [OF Cons.prems(1) e(1) _ e(2)] h by simp
      qed
      moreover have "managed (vm_pmm v) (pte_addr e)"
        using pages_leaf [OF e(1)] spaces_okD(4) [OF isolatedD(2) [OF Cons.prems(1)], of "pte_addr e"] by simp
      ultimately show ?thesis using D(7) [of "pte_addr e"] h by simp
    qed
    then show ?thesis using fr by blast
  qed simp
  then obtain v2 where v2: "each (\<lambda>a. at_virt mp a (unmap_if_mapped mp release p)) as v1 = (Inr () :: ('e, unit) outcome, v2)"
      "reduced p ps (path_of ` set as) v1 v2"
    using Cons.IH [OF D(1,2)] Cons.prems(3) by auto
  have "reduced p ps ({path_of a} \<union> path_of ` set as) v v2" by (rule reduced_trans [OF v1(2) v2(2)])
  then show ?case using v1(1) v2(1) low(2) by (simp add: sbind_def at_virt_def)
qed

end

end
