(* ===== verification/Memory_Claims.thy ===== *)
theory Memory_Claims
  imports Memory_Pages
begin

text \<open>
  The memory system calls from a program's view: what \<^verbatim>\<open>brk\<close>, \<^verbatim>\<open>mmap\<close> and \<^verbatim>\<open>munmap\<close> do to what the caller and everyone else
  can read and write.
\<close>

subsection \<open>Growing the heap\<close>

lemma extended_more:
  "extended p ps P v v' \<Longrightarrow> path \<in> P \<Longrightarrow> pages v' p path \<noteq> None"
  "extended p ps P v v' \<Longrightarrow> path \<in> P \<Longrightarrow> pages v p path = None"
  "extended p ps P v v' \<Longrightarrow> path \<notin> P \<Longrightarrow> pages v' p path = pages v p path"
  "extended p ps P v v' \<Longrightarrow> isolated (p # ps) v'"
  "extended p ps P v v' \<Longrightarrow> no_huge 4 (vm_mem v') p"
  by (auto simp: extended_def)

lemma dom_extended: "extended p ps P v v' \<Longrightarrow> dom (pages v' p) = dom (pages v p) \<union> P"
proof (rule set_eqI)
  fix path
  assume e: "extended p ps P v v'"
  show "path \<in> dom (pages v' p) \<longleftrightarrow> path \<in> dom (pages v p) \<union> P"
    using extended_more(1,3) [OF e, of path] by (cases "path \<in> P") (simp_all add: domIff)
qed

text \<open>Of the addresses \<open>as\<close> the first \<open>k\<close> were made present; the loop stops early only when no frame is left.\<close>

definition grown :: "u64 \<Rightarrow> u64 list \<Rightarrow> u64 list \<Rightarrow> u64 \<Rightarrow> vmem \<Rightarrow> u64 \<Rightarrow> vmem \<Rightarrow> bool" where
  "grown p ps as e v r v' \<longleftrightarrow> (\<exists>k \<le> length as. extended p ps (path_of ` set (take k as) - dom (pages v p)) v v' \<and>
     (if k = length as then r = e else r = as ! k \<and> free_set (vm_pmm v') = {}))"

context page_mapper
begin

lemma heap_grow_result:
  assumes "isolated (p # ps) v" "no_huge 4 (vm_mem v) p" "\<forall>a \<in> set as. a < 2 ^ 47"
  shows "case (heap_grow mp p as e v :: ('e, u64) outcome \<times> vmem) of
      (Inr r, v') \<Rightarrow> grown p ps as e v r v'
    | (Inl (Err _), _) \<Rightarrow> False
    | (Inl (Crash _), v') \<Rightarrow> free_set (vm_pmm v') = {}"
  using assms
proof (induction as arbitrary: v)
  case Nil
  then show ?case using extended_refl [of p ps v] by (simp add: sreturn_def grown_def)
next
  case (Cons a as)
  have p: "pte_addr p = p" using spaces_front [OF isolatedD(2) [OF Cons.prems(1)]] .
  have low: "lower_half a" "virt_addr_new mp a = Inr a" using Cons.prems(3) low_address virt_new by auto
  note tr = translate_pages [OF p low(1), of v]
  show ?case
  proof (cases "pages v p (path_of a)")
    case (Some x)
    then have "heap_grow mp p (a # as) e v = (heap_grow mp p as e v :: ('e, u64) outcome \<times> vmem)"
      by (simp add: at_virt_def low tr)
    moreover have "grown p ps (a # as) e v r v'" if "grown p ps as e v r v'" for r v'
    proof -
      from that obtain k where k: "k \<le> length as" "extended p ps (path_of ` set (take k as) - dom (pages v p)) v v'"
          "if k = length as then r = e else r = as ! k \<and> free_set (vm_pmm v') = {}" unfolding grown_def by blast
      have "path_of ` set (take (Suc k) (a # as)) - dom (pages v p) = path_of ` set (take k as) - dom (pages v p)" using Some by auto
      then show ?thesis unfolding grown_def using k by (intro exI [of _ "Suc k"]) simp
    qed
    ultimately show ?thesis using Cons.IH [OF Cons.prems(1,2)] Cons.prems(3)
      by (auto split: prod.splits sum.splits fault.splits)
  next
    case None
    note new = map_new_page_result [OF Cons.prems(1) low(1) None Cons.prems(2), where 'e = 'e]
    obtain r v1 where r: "map_new_page mp p a v = (r :: ('e, bool) outcome, v1)" by (cases "map_new_page mp p a v :: ('e, bool) outcome \<times> vmem")
    have run: "heap_grow mp p (a # as) e v = (case r of Inl x \<Rightarrow> (Inl x, v1) | Inr ok \<Rightarrow> if ok then heap_grow mp p as e v1 else (Inr a, v1))"
      by (simp add: at_virt_def low tr None sbind_def r sreturn_def split: sum.splits)
    show ?thesis
    proof (cases r)
      case (Inl x)
      then show ?thesis using new unfolding run by (cases x) (simp_all add: r)
    next
      case (Inr ok)
      show ?thesis
      proof (cases ok)
        case False
        then have "v1 = v" "free_set (vm_pmm v) = {}" using new Inr by (simp_all add: r)
        moreover have "extended p ps {} v v" using Cons.prems(1,2) by (rule extended_refl)
        ultimately show ?thesis unfolding run using Inr False by (simp add: grown_def) (intro exI [of _ 0], simp)
      next
        case True
        then have e1: "extended p ps {path_of a} v v1" using new Inr by (simp add: r)
        note IH = Cons.IH [OF extended_more(4,5) [OF e1]]
        have "grown p ps (a # as) e v x v'" if g: "grown p ps as e v1 x v'" for x v'
        proof -
          from g obtain k where k: "k \<le> length as" "extended p ps (path_of ` set (take k as) - dom (pages v1 p)) v1 v'"
              "if k = length as then x = e else x = as ! k \<and> free_set (vm_pmm v') = {}" unfolding grown_def by blast
          have d: "dom (pages v1 p) = dom (pages v p) \<union> {path_of a}" by (rule dom_extended [OF e1])
          have "extended p ps ({path_of a} \<union> (path_of ` set (take k as) - dom (pages v1 p))) v v'"
            by (rule extended_trans [OF Cons.prems(1) e1 k(2)]) (simp add: d)
          moreover have "{path_of a} \<union> (path_of ` set (take k as) - dom (pages v1 p)) = path_of ` set (take (Suc k) (a # as)) - dom (pages v p)"
            using None by (auto simp: d)
          ultimately show ?thesis unfolding grown_def using k by (intro exI [of _ "Suc k"]) simp
        qed
        then show ?thesis unfolding run using IH Cons.prems(3) Inr True
          by (auto split: prod.splits sum.splits fault.splits)
      qed
    qed
  qed
qed

end

subsection \<open>What programs see\<close>

lemma user_load_pages: "pte_addr p = p \<Longrightarrow> lower_half virt \<Longrightarrow> user_load v p virt = None \<longleftrightarrow> pages v p (path_of virt) = None"
  by (simp add: user_load_mapped pages_def)

text \<open>
  The caller keeps what it could read, and gets exactly the pages \<open>P\<close> in addition, writable and with the contents some free frame had; the others
  see no difference.
\<close>

definition shows_free_frame :: "vmem \<Rightarrow> u64 \<Rightarrow> u64 \<Rightarrow> vmem \<Rightarrow> bool" where
  "shows_free_frame v p virt v' \<longleftrightarrow> (\<exists>f. is_free (vm_pmm v) f \<and> user_load v' p virt = Some (vm_mem v (f + (virt AND 0xFFF))))"

definition more_pages :: "u64 \<Rightarrow> u64 list \<Rightarrow> (u64 \<Rightarrow> bool) \<Rightarrow> vmem \<Rightarrow> vmem \<Rightarrow> bool" where
  "more_pages p ps P v v' \<longleftrightarrow> isolated (p # ps) v' \<and> reads_same ps v v' \<and>
     (\<forall>virt. virt < 2 ^ 47 \<longrightarrow>
        (if user_load v p virt \<noteq> None then user_load v' p virt = user_load v p virt
         else if P virt then shows_free_frame v p virt v' \<and> (\<forall>b. user_store v' p virt b \<noteq> None)
         else user_load v' p virt = None))"

lemma extended_more_pages:
  assumes iso: "isolated (p # ps) v" and e: "extended p ps P v v'"
    and P: "\<And>virt. virt < 2 ^ 47 \<Longrightarrow> user_load v p virt = None \<Longrightarrow> Q virt \<longleftrightarrow> path_of virt \<in> P"
  shows "more_pages p ps Q v v'"
proof -
  from e obtain N where N: "granted N [] (vm_pmm v) (vm_pmm v')" "isolated (p # ps) v'"
      "\<And>path. path \<notin> P \<Longrightarrow> pages v' p path = pages v p path"
      "\<And>path. path \<in> P \<Longrightarrow> pages v p path = None \<and> (\<exists>f \<in> set N. pte_addr f = f \<and> pages v' p path = Some (f OR USER_PAGE) \<and>
        (\<forall>n < 4096. vm_mem v' (f + of_nat n) = vm_mem v (f + of_nat n)))"
      "\<And>q. q \<in> set ps \<Longrightarrow> mapped 4 (vm_mem v') q = mapped 4 (vm_mem v) q"
      "\<And>x n. page_aligned x \<Longrightarrow> x \<notin> set (tables 4 (vm_mem v) p) \<Longrightarrow> x \<notin> set N \<Longrightarrow> n < 4096 \<Longrightarrow> vm_mem v' (x + of_nat n) = vm_mem v (x + of_nat n)"
    unfolding extended_def by blast
  note ok = isolatedD(2) [OF iso]
  have al: "pte_addr q = q" if "q \<in> set (p # ps)" for q using spaces_okD(5) [OF ok] that by simp
  have p: "pte_addr p = p" by (rule al) simp
  have same: "vm_mem v' (h + of_nat n) = vm_mem v (h + of_nat n)" if "h \<in> set (all_leaves (vm_mem v) (p # ps))" "n < 4096" for h n
  proof -
    note k = spaces_okD(4) [OF ok that(1)]
    have "h \<notin> set N"
    proof
      assume "h \<in> set N"
      then have "is_free (vm_pmm v) h" using N(1) by (simp add: granted_def)
      then show False using k by simp
    qed
    then show ?thesis using N(6) [of h n] k that(2) by (auto simp: managed_def)
  qed
  have "reads_same ps v v'" using N(5) al same by (intro reads_same_mapped) auto
  moreover have "if user_load v p virt \<noteq> None then user_load v' p virt = user_load v p virt
      else if Q virt then shows_free_frame v p virt v' \<and> (\<forall>b. user_store v' p virt b \<noteq> None)
      else user_load v' p virt = None" if l: "virt < 2 ^ 47" for virt
  proof (cases "user_load v p virt = None")
    case True
    note low = low_address [OF l]
    note ld = user_load_pages [OF p low] and Q = P [OF l True]
    show ?thesis
    proof (cases "path_of virt \<in> P")
      case inP: True
      then obtain f where f: "f \<in> set N" "pte_addr f = f" "pages v' p (path_of virt) = Some (f OR USER_PAGE)"
          "\<And>n. n < 4096 \<Longrightarrow> vm_mem v' (f + of_nat n) = vm_mem v (f + of_nat n)" using N(4) by blast
      have "user_load v' p virt = Some (vm_mem v' (f + of_nat (unat (virt AND 0xFFF))))"
        using f(3) user_page(2) [OF f(2)] by (simp add: user_load_mapped [OF p low] pages_def)
      also have "\<dots> = Some (vm_mem v (f + of_nat (unat (virt AND 0xFFF))))" using f(4) [OF byte_offset(1)] by simp
      finally have "user_load v' p virt = Some (vm_mem v (f + (virt AND 0xFFF)))" by simp
      moreover have "is_free (vm_pmm v) f" using N(1) f(1) by (simp add: granted_def)
      moreover have "user_store v' p virt b \<noteq> None" for b
        using f(3) user_page(3) by (simp add: user_store_mapped [OF p low] pages_def)
      ultimately show ?thesis using Q inP True unfolding shows_free_frame_def by auto
    next
      case False
      then have "pages v' p (path_of virt) = None" using N(3) ld True by simp
      then show ?thesis using Q False ld True by simp
    qed
  next
    case False
    then obtain e where e: "pages v p (path_of virt) = Some e" using user_load_pages [OF p low_address [OF l]] by auto
    then have "pages v' p (path_of virt) = Some e" using N(3,4) by (cases "path_of virt \<in> P") auto
    moreover have "pte_addr e \<in> set (all_leaves (vm_mem v) (p # ps))" using pages_leaf [OF e] by simp
    ultimately have "user_load v' p virt = user_load v p virt"
      using e same by (intro user_load_eqI [OF p p low_address [OF l]]) (simp add: pages_def)
    then show ?thesis unfolding if_P [OF False] .
  qed
  ultimately show ?thesis using N(2) unfolding more_pages_def by blast
qed

lemma grown_pages:
  assumes "isolated (p # ps) v" "a < b" "b \<le> BRK_MAX"
    "grown p ps (pages_from a b) (a + of_nat (length (pages_from a b)) * PAGE_SIZE) v r v'"
  shows "more_pages p ps (\<lambda>virt. page_base a \<le> virt \<and> virt < page_base r) v v' \<and> (\<exists>k. unat r = unat a + k * 4096) \<and> (r < b \<longrightarrow> free_set (vm_pmm v') = {})"
proof -
  let ?n = "length (pages_from a b)"
  have b: "unat b < 2 ^ 47 - 4096 + 1" using assms(3) by (simp add: BRK_MAX_def word_le_nat_alt)
  have n: "unat a + ?n * 4096 \<le> 2 ^ 47 - 1" using pages_from_length(2) [OF assms(2)] b by simp
  from assms(4) obtain k where k: "k \<le> ?n" "extended p ps (path_of ` set (take k (pages_from a b)) - dom (pages v p)) v v'"
      "if k = ?n then r = a + of_nat ?n * PAGE_SIZE else r = pages_from a b ! k \<and> free_set (vm_pmm v') = {}"
    unfolding grown_def by blast
  have kn: "unat a + k * 4096 \<le> 2 ^ 47" "unat a + Suc k * 4096 \<le> 2 ^ 64 - 1" using n k(1) by simp_all
  have r: "r = a + of_nat k * PAGE_SIZE" using k(1,3) by (auto simp: pages_from_def split: if_splits)
  have ur: "unat r = unat a + k * 4096" using kn unfolding r by (simp add: unat_word_ariths unat_of_nat PAGE_SIZE_def)
  have tk: "set (take k (pages_from a b)) = (\<lambda>i. a + of_nat i * PAGE_SIZE) ` {..<k}"
    using k(1) by (auto simp: pages_from_def take_map take_upt)
  have "more_pages p ps (\<lambda>virt. page_base a \<le> virt \<and> virt < page_base r) v v'"
  proof (rule extended_more_pages [OF assms(1) k(2)])
    fix virt
    assume v: "virt < 2 ^ 47" "user_load v p virt = None"
    have "path_of virt \<notin> dom (pages v p)"
      using v(2) user_load_pages [OF spaces_front [OF isolatedD(2) [OF assms(1)]] low_address [OF v(1)]] by (simp add: domIff)
    then show "(page_base a \<le> virt \<and> virt < page_base r) = (path_of virt \<in> path_of ` set (take k (pages_from a b)) - dom (pages v p))"
      unfolding tk using path_in_pages [OF kn(1) v(1)] by (simp add: r)
  qed
  moreover have "\<exists>k. unat r = unat a + k * 4096" using ur by blast
  moreover have "free_set (vm_pmm v') = {}" if "r < b"
  proof -
    have "k \<noteq> ?n" using pages_from_length(1) [of b a] that ur by (auto simp: word_less_nat_alt)
    then show ?thesis using k(3) by simp
  qed
  ultimately show ?thesis by blast
qed

lemma cr3_irrelevant:
  "more_pages p ps P (v\<lparr>vm_cr3 := c\<rparr>) v' = more_pages p ps P v v'" "more_pages p ps P v (v'\<lparr>vm_cr3 := c\<rparr>) = more_pages p ps P v v'"
  by (simp_all add: more_pages_def reads_same_def shows_free_frame_def user_cr3)

text \<open>The process that makes a memory call.\<close>

definition caller :: "msys \<Rightarrow> (pid \<times> process) option" where
  "caller s = (case s_current_pid (ms_sched s) of None \<Rightarrow> None
     | Some pid \<Rightarrow> map_option (Pair pid) (if pid < length (s_processes (ms_sched s)) then s_processes (ms_sched s) ! pid else None))"

lemma with_caller_run: "caller s = Some (pid, p) \<Longrightarrow> with_caller f s = f pid p s"
  by (auto simp: caller_def with_caller_def split: option.splits if_splits)

lemma caller_set_process: "caller s = Some (pid, p) \<Longrightarrow> caller (set_process pid p' s) = Some (pid, p')"
  by (auto simp: caller_def set_process_def update_process_def split: option.splits if_splits)

lemma set_process_fields [simp]: "ms_vm (set_process pid p s) = ms_vm s" "ms_prng (set_process pid p s) = ms_prng s"
  by (simp_all add: set_process_def)

lemma caller_vm [simp]: "caller (s\<lparr>ms_vm := v\<rparr>) = caller s" "caller (s\<lparr>ms_prng := r\<rparr>) = caller s"
  by (simp_all add: caller_def split: option.splits)

lemma set_process_vm [simp]: "set_process pid p (s\<lparr>ms_vm := v\<rparr>) = (set_process pid p s)\<lparr>ms_vm := v\<rparr>"
  by (simp add: set_process_def)

lemma set_pages_from: "set (pages_from a b) = (\<lambda>i. a + of_nat i * PAGE_SIZE) ` {..<length (pages_from a b)}"
  unfolding pages_from_def length_map length_upt diff_zero by (simp add: lessThan_atLeast0)

lemma pages_from_low:
  assumes "a < b" "b \<le> BRK_MAX" "x \<in> set (pages_from a b)"
  shows "x < 2 ^ 47"
proof -
  obtain i where i: "i < length (pages_from a b)" "x = a + of_nat i * PAGE_SIZE" using assms(3) unfolding set_pages_from by auto
  have k: "unat a + length (pages_from a b) * 4096 \<le> 2 ^ 47"
    using pages_from_length(2) [OF assms(1)] assms(2) by (simp add: BRK_MAX_def word_le_nat_alt)
  show ?thesis using unat_page_step [OF k i(1)] k i by (simp add: word_less_nat_alt)
qed

lemma heap_init_space: "p_pml4_phys (fst (heap_init p r)) = p_pml4_phys p"
  by (simp add: heap_init_def split: prod.splits)

lemma brk_grow_run:
  assumes "caller s = Some (pid, p)" "heap_init p (ms_prng s) = (p', prng)" "p_heap_start p' \<le> p_heap_end p'" "p_heap_end p' < new_brk" "new_brk \<le> BRK_MAX"
  shows "sys_brk mp new_brk s = in_kernel_space (\<lambda>s.
    sbind (on_vmem (heap_grow mp (p_pml4_phys p) (pages_from (p_heap_end p') new_brk)
      (p_heap_end p' + of_nat (length (pages_from (p_heap_end p') new_brk)) * PAGE_SIZE)))
      (\<lambda>e s. (Inr e, set_process pid (p'\<lparr>p_heap_end := e\<rparr>) s)) (set_process pid p' (s\<lparr>ms_prng := prng\<rparr>))) s"
proof -
  have "\<not> new_brk < p_heap_start p'" "new_brk \<noteq> 0" "\<not> BRK_MAX < new_brk" using assms(3-5) by auto
  moreover have "p_pml4_phys p' = p_pml4_phys p" using heap_init_space [of p "ms_prng s"] assms(2) by simp
  ultimately show ?thesis using assms unfolding sys_brk_def in_kernel_space_def
    by (simp add: with_caller_run Let_def)
qed


end
