(* ===== verification/Munmap.thy ===== *)
theory Munmap
  imports Memory_Claims
begin

text \<open>Unmapping memory: \<^verbatim>\<open>munmap\<close>, and shrinking the heap with \<^verbatim>\<open>brk\<close>.\<close>

subsection \<open>What programs see\<close>

text \<open>The caller can no longer access the addresses of \<open>P\<close>; nothing else changes for anyone.\<close>

definition fewer_pages :: "u64 \<Rightarrow> u64 list \<Rightarrow> (u64 \<Rightarrow> bool) \<Rightarrow> vmem \<Rightarrow> vmem \<Rightarrow> bool" where
  "fewer_pages p ps P v v' \<longleftrightarrow> isolated (p # ps) v' \<and> reads_same ps v v' \<and>
     (\<forall>virt. virt < 2 ^ 47 \<longrightarrow> user_load v' p virt = (if P virt then None else user_load v p virt))"

lemma reduced_fewer_pages:
  assumes iso: "isolated (p # ps) v" and r: "reduced p ps P v v'" and Q: "\<And>virt. virt < 2 ^ 47 \<Longrightarrow> Q virt \<longleftrightarrow> path_of virt \<in> P"
  shows "fewer_pages p ps Q v v'"
proof -
  note D = reducedD [OF r] and ok = isolatedD(2) [OF iso]
  have al: "pte_addr q = q" if "q \<in> set (p # ps)" for q using spaces_okD(5) [OF ok] that by simp
  have p: "pte_addr p = p" by (rule al) simp
  have same: "vm_mem v' (h + of_nat n) = vm_mem v (h + of_nat n)" if "h \<in> set (all_leaves (vm_mem v) (p # ps))" "n < 4096" for h n
    using spaces_okD(4) [OF ok that(1)] that(2) by (intro D(8)) (auto simp: managed_def)
  have "reads_same ps v v'" using D(4) al same by (intro reads_same_mapped) auto
  moreover have "user_load v' p virt = (if Q virt then None else user_load v p virt)" if l: "virt < 2 ^ 47" for virt
  proof (cases "Q virt")
    case True
    then have "pages v' p (path_of virt) = None" using D(3) Q [OF l] by simp
    then show ?thesis using user_load_pages [OF p low_address [OF l]] True by simp
  next
    case False
    then have pg: "pages v' p (path_of virt) = pages v p (path_of virt)" using D(3) Q [OF l] by simp
    have "user_load v' p virt = user_load v p virt"
    proof (rule user_load_eqI [OF p p low_address [OF l]])
      show "rel_option (\<lambda>e e'. \<forall>n<4096. vm_mem v' (pte_addr e' + of_nat n) = vm_mem v (pte_addr e + of_nat n))
        (map_of (mapped 4 (vm_mem v) p) (path_of virt)) (map_of (mapped 4 (vm_mem v') p) (path_of virt))"
        using pg same pages_leaf [of v p "path_of virt"] unfolding pages_def [symmetric]
        by (cases "pages v p (path_of virt)") auto
    qed
    then show ?thesis using False by simp
  qed
  ultimately show ?thesis using D(1) by (simp add: fewer_pages_def)
qed

lemma fewer_pages_cr3:
  "fewer_pages p ps P (v\<lparr>vm_cr3 := c\<rparr>) v' = fewer_pages p ps P v v'" "fewer_pages p ps P v (v'\<lparr>vm_cr3 := c\<rparr>) = fewer_pages p ps P v v'"
  by (simp_all add: fewer_pages_def reads_same_def user_cr3)

subsection \<open>The table of regions\<close>

lemma shift_nth:
  assumes "j < length xs" "n < length xs"
  shows "fold (\<lambda>j rs. rs[j := rs ! (j + 1)]) [i..<n] xs ! j = (if i \<le> j \<and> j < n then xs ! (j + 1) else xs ! j)"
    "length (fold (\<lambda>j rs. rs[j := rs ! (j + 1)]) [i..<n] xs) = length xs"
proof -
  have "length (fold (\<lambda>j rs. rs[j := rs ! (j + 1)]) [i..<n] xs) = length xs \<and>
    (\<forall>j < length xs. fold (\<lambda>j rs. rs[j := rs ! (j + 1)]) [i..<n] xs ! j = (if i \<le> j \<and> j < n then xs ! (j + 1) else xs ! j))"
    using assms(2)
  proof (induction n)
    case (Suc n)
    show ?case
    proof (cases "i \<le> n")
      case True
      then show ?thesis using Suc by (auto simp: nth_list_update less_Suc_eq)
    qed (use Suc in auto)
  qed simp
  then show "fold (\<lambda>j rs. rs[j := rs ! (j + 1)]) [i..<n] xs ! j = (if i \<le> j \<and> j < n then xs ! (j + 1) else xs ! j)"
    "length (fold (\<lambda>j rs. rs[j := rs ! (j + 1)]) [i..<n] xs) = length xs"
    using assms(1) by blast+
qed

lemma live_remove_region:
  assumes "i < p_mmap_count p" "p_mmap_count p \<le> length (p_mmap_regions p)"
  shows "live_regions (remove_region i p) = take i (live_regions p) @ drop (Suc i) (live_regions p)"
proof (rule nth_equalityI)
  let ?n = "p_mmap_count p" and ?xs = "p_mmap_regions p"
  have n: "?n - 1 < length ?xs" using assms by simp
  have len: "length (fold (\<lambda>j rs. rs[j := rs ! (j + 1)]) [i..<?n - 1] ?xs) = length ?xs" by (rule shift_nth(2)) (use n in simp_all)
  show "length (live_regions (remove_region i p)) = length (take i (live_regions p) @ drop (Suc i) (live_regions p))"
    using assms len by (simp add: live_regions_def remove_region_def)
  fix j
  assume "j < length (live_regions (remove_region i p))"
  then have j: "j < ?n - 1" using len by (simp add: live_regions_def remove_region_def)
  then have "live_regions (remove_region i p) ! j = (if i \<le> j then ?xs ! (j + 1) else ?xs ! j)"
    using shift_nth(1) [of j ?xs "?n - 1" i] n by (simp add: live_regions_def remove_region_def)
  also have "\<dots> = (take i (live_regions p) @ drop (Suc i) (live_regions p)) ! j"
    using j assms by (auto simp: live_regions_def nth_append min_def)
  finally show "live_regions (remove_region i p) ! j = (take i (live_regions p) @ drop (Suc i) (live_regions p)) ! j" .
qed

subsection \<open>munmap\<close>

text \<open>Regions lie at page boundaries in the lower half.\<close>

definition region_ok :: "u64 \<times> u64 \<Rightarrow> bool" where
  "region_ok r \<longleftrightarrow> page_aligned (fst r) \<and> unat (fst r) + unat (snd r) * 4096 \<le> 2 ^ 47"

definition regions_ok :: "process \<Rightarrow> bool" where
  "regions_ok p \<longleftrightarrow> p_mmap_count p \<le> length (p_mmap_regions p) \<and> length (p_mmap_regions p) = MAX_MMAP_REGIONS \<and>
     (\<forall>r \<in> set (live_regions p). region_ok r)"

lemma unat_region_limit: "region_ok r \<Longrightarrow> unat (region_limit r) = unat (fst r) + unat (snd r) * 4096"
  by (simp add: region_ok_def region_limit_def unat_word_ariths PAGE_SIZE_def)

text \<open>A range of \<open>len\<close> bytes, rounded up to pages, that lies within a region: the addresses are numbers, nothing wraps.\<close>

definition contains_range :: "u64 \<times> u64 \<Rightarrow> u64 \<Rightarrow> u64 \<Rightarrow> bool" where
  "contains_range r addr len \<longleftrightarrow>
     unat (fst r) \<le> unat addr \<and> unat addr + (unat len + 4095) div 4096 * 4096 \<le> unat (fst r) + unat (snd r) * 4096"

lemma contains_range_code:
  assumes "region_ok r" "unat addr + unat len + 4095 < 2 ^ 64"
  shows "addr \<ge> fst r \<and> addr + pages_for len * PAGE_SIZE \<le> region_limit r \<longleftrightarrow> contains_range r addr len"
proof -
  have "unat len + 4095 < 2 ^ 64" using assms(2) by simp
  then have pages: "unat (pages_for len) = (unat len + 4095) div 4096"
    by (simp add: pages_for_def PAGE_SIZE_def unat_div unat_word_ariths)
  have "(unat len + 4095) div 4096 * 4096 \<le> unat len + 4095" by simp
  then have "unat addr + (unat len + 4095) div 4096 * 4096 < 2 ^ 64" using assms(2) by linarith
  then have "unat (addr + pages_for len * PAGE_SIZE) = unat addr + (unat len + 4095) div 4096 * 4096"
    by (simp add: unat_word_ariths PAGE_SIZE_def pages)
  then show ?thesis by (simp add: contains_range_def word_le_nat_alt unat_region_limit [OF assms(1)])
qed

text \<open>The sum in the code does wrap: this range ends at 0, below the limit of every region.\<close>

lemma munmap_wraps: "(0x200000000000 :: u64) + pages_for (- 0x200000000000) * PAGE_SIZE = 0"
  by (simp add: pages_for_def PAGE_SIZE_def)

lemma region_pages:
  assumes "region_ok r" "virt < 2 ^ 47"
  shows "path_of virt \<in> path_of ` set (map (\<lambda>j. fst r + of_nat j * PAGE_SIZE) [0..<unat (snd r)]) \<longleftrightarrow> fst r \<le> virt \<and> virt < region_limit r"
proof -
  have "path_of virt \<in> path_of ` (\<lambda>i. fst r + of_nat i * PAGE_SIZE) ` {..<unat (snd r)} \<longleftrightarrow>
      fst r \<le> virt \<and> unat virt < unat (fst r) + unat (snd r) * 4096"
    using assms by (intro path_in_range) (simp_all add: region_ok_def)
  then show ?thesis by (simp add: word_less_nat_alt unat_region_limit [OF assms(1)] lessThan_atLeast0)
qed

lemma region_pages_low:
  assumes "region_ok r" "a \<in> set (map (\<lambda>j. fst r + of_nat j * PAGE_SIZE) [0..<unat (snd r)])"
  shows "a < 2 ^ 47"
proof -
  from assms(2) obtain j where j: "j < unat (snd r)" "a = fst r + of_nat j * PAGE_SIZE" by auto
  have k: "unat (fst r) + unat (snd r) * 4096 \<le> 2 ^ 47" using assms(1) by (simp add: region_ok_def)
  show ?thesis using unat_page_step [OF k j(1)] k j by (simp add: word_less_nat_alt)
qed

lemma each_map: "each f (map g xs) = each (\<lambda>x. f (g x)) xs"
  by (induction xs) simp_all

text \<open>
  C12. For a range that does not wrap around the end of the address space, munmap succeeds exactly if some region contains the
  range, its length rounded up to pages. It then removes the whole region: the caller can no
  longer access any address of it, keeps everything else, no other program sees a difference, and the region leaves the
  table. Otherwise the call is invalid and changes nothing; it never panics.
\<close>

theorem munmap_unmaps:
  assumes "page_mapper mp" "caller s = Some (pid, p)" "regions_ok p"
    and "isolated (p_pml4_phys p # ps) (ms_vm s)" "no_huge 4 (vm_mem (ms_vm s)) (p_pml4_phys p)"
    and "len \<noteq> 0" "addr \<noteq> 0" "unat addr + unat len + 4095 < 2 ^ 64"
  shows "case sys_munmap mp addr len s of
      (Inr r, s') \<Rightarrow> r = 0 \<and> (\<exists>i < p_mmap_count p. let reg = live_regions p ! i in
        contains_range reg addr len \<and>
        fewer_pages (p_pml4_phys p) ps (\<lambda>virt. fst reg \<le> virt \<and> virt < region_limit reg) (ms_vm s) (ms_vm s') \<and>
        caller s' = Some (pid, remove_region i p) \<and>
        live_regions (remove_region i p) = take i (live_regions p) @ drop (Suc i) (live_regions p))
    | (Inl (Err e), s') \<Rightarrow> e = EINVAL \<and> s' = s \<and>
        (\<forall>reg \<in> set (live_regions p). \<not> contains_range reg addr len)
    | (Inl (Crash _), _) \<Rightarrow> False"
proof -
  let ?m = "p_pml4_phys p" and ?v = "(ms_vm s)\<lparr>vm_cr3 := vm_kernel_pml4 (ms_vm s)\<rparr>"
  let ?P = "\<lambda>i. contains_range (live_regions p ! i) addr len"
  have n: "p_mmap_count p = length (live_regions p)" using assms(3) by (simp add: regions_ok_def live_regions_def)
  have "List.find (\<lambda>i. addr \<ge> fst (live_regions p ! i) \<and> addr + pages_for len * PAGE_SIZE \<le> region_limit (live_regions p ! i)) [0..<p_mmap_count p] =
      List.find ?P [0..<p_mmap_count p]"
    using assms(3) contains_range_code [OF _ assms(8)] by (intro find_cong) (simp_all add: n regions_ok_def)
  note find = this [simplified]
  have run: "sys_munmap mp addr len s = in_kernel_space (\<lambda>s.
      (case List.find ?P [0..<p_mmap_count p] of None \<Rightarrow> sfail EINVAL
        | Some i \<Rightarrow> sbind (on_vmem (each (\<lambda>a. at_virt mp a (unmap_if_mapped mp decref ?m))
              (map (\<lambda>j. fst (live_regions p ! i) + of_nat j * PAGE_SIZE) [0..<unat (snd (live_regions p ! i))])))
            (\<lambda>_ s. (Inr 0, set_process pid (remove_region i p) s))) s) s"
    using assms(2,6,7) unfolding sys_munmap_def in_kernel_space_def Let_def each_map
    by (simp add: with_caller_run find)
  show ?thesis
  proof (cases "List.find ?P [0..<p_mmap_count p]")
    case None
    then have "\<forall>reg \<in> set (live_regions p). \<not> contains_range reg addr len"
      unfolding find_None_iff n by (simp add: all_set_conv_all_nth)
    moreover have "s\<lparr>ms_vm := (ms_vm s)\<rparr> = s" "(ms_vm s)\<lparr>vm_cr3 := vm_cr3 (ms_vm s)\<rparr> = ms_vm s" by simp_all
    ultimately show ?thesis unfolding run using assms(2) None
      by (simp add: in_kernel_space_def Let_def sfail_def)
  next
    case (Some i)
    then have i: "i < p_mmap_count p" "?P i" by (auto simp: find_Some_iff)
    let ?r = "live_regions p ! i"
    have rok: "region_ok ?r" using assms(3) i(1) n by (simp add: regions_ok_def)
    let ?as = "map (\<lambda>j. fst ?r + of_nat j * PAGE_SIZE) [0..<unat (snd ?r)]"
    have iso: "isolated (?m # ps) ?v" "no_huge 4 (vm_mem ?v) ?m" using assms(4,5) by simp_all
    obtain v' where v': "each (\<lambda>a. at_virt mp a (unmap_if_mapped mp decref ?m)) ?as ?v = (Inr () :: (int, unit) outcome, v')"
        "reduced ?m ps (path_of ` set ?as) ?v v'"
      using page_mapper.unmap_each [OF assms(1) iso, of ?as decref, where 'e = int] region_pages_low [OF rok] by blast
    have "fewer_pages ?m ps (\<lambda>virt. fst ?r \<le> virt \<and> virt < region_limit ?r) ?v v'"
      using region_pages [OF rok] by (intro reduced_fewer_pages [OF iso(1) v'(2)]) simp
    moreover have "live_regions (remove_region i p) = take i (live_regions p) @ drop (Suc i) (live_regions p)"
      using i(1) assms(3) by (intro live_remove_region) (simp_all add: regions_ok_def)
    moreover have "caller (set_process pid (remove_region i p) s) = Some (pid, remove_region i p)" by (rule caller_set_process [OF assms(2)])
    ultimately show ?thesis unfolding run using assms(2) Some v'(1) i
      by (auto simp: in_kernel_space_def Let_def sbind_def on_vmem_def fewer_pages_cr3)
  qed
qed

subsection \<open>Shrinking the heap\<close>

lemma brk_shrink_run:
  assumes "caller s = Some (pid, p)" "p_heap_start p \<noteq> 0" "p_heap_start p \<le> new_brk" "new_brk < p_heap_end p" "new_brk \<le> BRK_MAX"
  shows "sys_brk mp new_brk s = in_kernel_space (\<lambda>s.
    sbind (on_vmem (heap_shrink mp (p_pml4_phys p) (pages_from new_brk (p_heap_end p))))
      (\<lambda>_ s. (Inr new_brk, set_process pid (p\<lparr>p_heap_end := new_brk\<rparr>) s)) (set_process pid p s)) s"
proof -
  have "\<not> new_brk < p_heap_start p" "new_brk \<noteq> 0" "\<not> BRK_MAX < new_brk" "\<not> p_heap_end p < new_brk" using assms(2-5) by auto
  then show ?thesis using assms unfolding sys_brk_def in_kernel_space_def
    by (simp add: with_caller_run heap_init_def Let_def)
qed

context page_mapper
begin

lemma shared_page_panics:
  assumes iso: "isolated (p # ps) v" and a: "a < 2 ^ 47" and e: "pages v p (path_of a) = Some e" "1 < holders (vm_pmm v) (pte_addr e)"
  shows "\<exists>c v'. each (\<lambda>a. at_virt mp a (unmap_if_mapped mp free_frame p)) (a # as) v = (Inl (Crash c) :: ('e, unit) outcome, v')"
proof -
  note ok = isolatedD(2) [OF iso] and low = low_address [OF a]
  have p: "pte_addr p = p" by (rule spaces_front [OF ok])
  have tr: "translate_addr mp (vm_mem v) p a = Some (pte_addr e)" using translate_pages [OF p low, of v] e(1) by simp
  obtain r v1 where up: "unmap_page mp p a v = (r :: ('e, u64) outcome, v1)" by (cases "unmap_page mp p a v :: ('e, u64) outcome \<times> vmem")
  have t: "total_frames (vm_pmm v) \<le> MAX_FRAMES" using spaces_okD(1) [OF ok] by (simp add: pmm_inv_def)
  show ?thesis
  proof (cases r)
    case (Inr f)
    have "vm_pmm v1 = vm_pmm v" using unmap_effect_spaces(4) [OF ok unmap_page_effect [OF ok low]] up Inr by simp
    moreover have "free_frame (pte_addr e) (vm_pmm v) \<noteq> Inr s" for s
      using e(2) by (auto simp: free_frame_Inr [OF t] holders_def)
    then obtain c where "free_frame (pte_addr e) (vm_pmm v) = Inl c" by (cases "free_frame (pte_addr e) (vm_pmm v)") auto
    ultimately show ?thesis using up Inr virt_new [OF a]
      by (simp add: at_virt_def unmap_if_mapped_def tr sbind_def pmm_op_def)
  next
    case (Inl x)
    then obtain c where "r = Inl (Crash c)" using up
      by (cases x) (auto simp: unmap_page_def sexpect_def split: prod.splits sum.splits fault.splits)
    then show ?thesis using up virt_new [OF a] by (simp add: at_virt_def unmap_if_mapped_def tr sbind_def)
  qed
qed

end

lemma pages_from_paths:
  assumes "page_aligned a" "page_aligned b" "a < b" "b \<le> BRK_MAX" "virt < 2 ^ 47"
  shows "path_of virt \<in> path_of ` set (pages_from a b) \<longleftrightarrow> a \<le> virt \<and> virt < b"
proof -
  let ?n = "length (pages_from a b)"
  have k: "unat a + ?n * 4096 \<le> 2 ^ 47"
    using pages_from_length(2) [OF assms(3)] assms(4) by (simp add: BRK_MAX_def word_le_nat_alt)
  obtain q where q: "unat a = 4096 * q" using unat_page_aligned [OF assms(1)] by blast
  obtain r where r: "unat b = 4096 * r" using unat_page_aligned [OF assms(2)] by blast
  have "4096 * r \<le> 4096 * (q + ?n)" "4096 * (q + ?n) < 4096 * (r + 1)"
    using pages_from_length(1) [of b a] pages_from_length(2) [OF assms(3)] unfolding q r by (simp_all only: add_mult_distrib2 mult.commute [of _ 4096] mult_1_right)
  then have "r \<le> q + ?n" "q + ?n < r + 1" by (simp_all only: mult_le_cancel1 mult_less_cancel1)
  then have "unat b = unat a + ?n * 4096" using q r by simp
  then show ?thesis unfolding set_pages_from path_in_range [OF assms(1) k assms(5)] by (simp add: word_less_nat_alt)
qed

text \<open>
  C39. Shrinking the heap to a page boundary: if every frame given back has one holder, the caller loses exactly the pages from
  the new break on and no other program sees a difference. If the first page is shared with a forked process, the kernel panics.
\<close>

theorem brk_shrinks:
  assumes "page_mapper mp" "caller s = Some (pid, p)"
    and "isolated (p_pml4_phys p # ps) (ms_vm s)" "no_huge 4 (vm_mem (ms_vm s)) (p_pml4_phys p)"
    and "p_heap_start p \<noteq> 0" "p_heap_start p \<le> new_brk" "new_brk < p_heap_end p" "p_heap_end p \<le> BRK_MAX"
    and "page_aligned new_brk" "page_aligned (p_heap_end p)"
  shows "(if \<forall>a e. new_brk \<le> a \<and> a < p_heap_end p \<and> pages (ms_vm s) (p_pml4_phys p) (path_of a) = Some e \<longrightarrow> holders (vm_pmm (ms_vm s)) (pte_addr e) = 1
      then \<exists>s'. sys_brk mp new_brk s = (Inr new_brk, s') \<and> caller s' = Some (pid, p\<lparr>p_heap_end := new_brk\<rparr>) \<and>
        fewer_pages (p_pml4_phys p) ps (\<lambda>virt. new_brk \<le> virt \<and> virt < p_heap_end p) (ms_vm s) (ms_vm s')
      else \<forall>e. pages (ms_vm s) (p_pml4_phys p) (path_of new_brk) = Some e \<and> 1 < holders (vm_pmm (ms_vm s)) (pte_addr e) \<longrightarrow>
        (\<exists>c s'. sys_brk mp new_brk s = (Inl (Crash c), s')))"
proof -
  let ?m = "p_pml4_phys p" and ?v = "(ms_vm s)\<lparr>vm_cr3 := vm_kernel_pml4 (ms_vm s)\<rparr>" and ?as = "pages_from new_brk (p_heap_end p)"
  have bm: "new_brk \<le> BRK_MAX" using assms(7,8) by simp
  note run = brk_shrink_run [OF assms(2,5,6,7) bm, of mp]
  have iso: "isolated (?m # ps) ?v" "no_huge 4 (vm_mem ?v) ?m" using assms(3,4) by simp_all
  have pv: "pages ?v = pages (ms_vm s)" by (simp add: pages_def fun_eq_iff)
  have low: "\<forall>a \<in> set ?as. a < 2 ^ 47" using pages_from_low [OF assms(7,8)] by simp
  note pp = pages_from_paths [OF assms(9,10,7,8)]
  show ?thesis
  proof (rule if_split [THEN iffD2], intro conjI impI)
    assume one: "\<forall>a e. new_brk \<le> a \<and> a < p_heap_end p \<and> pages (ms_vm s) ?m (path_of a) = Some e \<longrightarrow> holders (vm_pmm (ms_vm s)) (pte_addr e) = 1"
    have "holders (vm_pmm ?v) (pte_addr e) = 1" if a: "a \<in> set ?as" "pages ?v ?m (path_of a) = Some e" for a e
      using one pp [of a] low a pv by auto
    then obtain v' where v': "each (\<lambda>a. at_virt mp a (unmap_if_mapped mp free_frame ?m)) ?as ?v = (Inr () :: (int, unit) outcome, v')"
        "reduced ?m ps (path_of ` set ?as) ?v v'"
      using page_mapper.unmap_each [OF assms(1) iso low, of free_frame, where 'e = int] by blast
    have "fewer_pages ?m ps (\<lambda>virt. new_brk \<le> virt \<and> virt < p_heap_end p) ?v v'"
      using pp by (intro reduced_fewer_pages [OF iso(1) v'(2)]) simp
    moreover have "caller (set_process pid (p\<lparr>p_heap_end := new_brk\<rparr>) (set_process pid p s)) = Some (pid, p\<lparr>p_heap_end := new_brk\<rparr>)"
      using caller_set_process [OF caller_set_process [OF assms(2)]] by simp
    ultimately show "\<exists>s'. sys_brk mp new_brk s = (Inr new_brk, s') \<and> caller s' = Some (pid, p\<lparr>p_heap_end := new_brk\<rparr>) \<and>
        fewer_pages ?m ps (\<lambda>virt. new_brk \<le> virt \<and> virt < p_heap_end p) (ms_vm s) (ms_vm s')"
      unfolding run using v'(1) by (simp add: in_kernel_space_def Let_def heap_shrink_def sbind_def on_vmem_def fewer_pages_cr3)
  next
    show "\<forall>e. pages (ms_vm s) ?m (path_of new_brk) = Some e \<and> 1 < holders (vm_pmm (ms_vm s)) (pte_addr e) \<longrightarrow>
        (\<exists>c s'. sys_brk mp new_brk s = (Inl (Crash c), s'))"
    proof (intro allI impI, elim conjE)
      fix e
      assume e: "pages (ms_vm s) ?m (path_of new_brk) = Some e" "1 < holders (vm_pmm (ms_vm s)) (pte_addr e)"
      have "0 < length ?as" using pages_from_length(1) [of "p_heap_end p" new_brk] assms(7) by (auto simp: word_less_nat_alt)
      then obtain as' where as: "?as = new_brk # as'" by (auto simp: pages_from_def upt_conv_Cons)
      have "new_brk < 2 ^ 47" using low as by simp
      then obtain c v' where "each (\<lambda>a. at_virt mp a (unmap_if_mapped mp free_frame ?m)) ?as ?v = (Inl (Crash c) :: (int, unit) outcome, v')"
        using page_mapper.shared_page_panics [OF assms(1) iso(1), of new_brk e as', where 'e = int] e pv unfolding as by auto
      then show "\<exists>c s'. sys_brk mp new_brk s = (Inl (Crash c), s')"
        unfolding run by (simp add: in_kernel_space_def Let_def heap_shrink_def sbind_def on_vmem_def)
    qed
  qed
qed

end
