(* ===== verification/Mmap.thy ===== *)
theory Mmap
  imports Munmap
begin

text \<open>
  Mapping memory: the search for a free area always ends and finds the lowest one, and \<^verbatim>\<open>mmap\<close> gives the caller fresh pages, or leaves its
  view as it was if there is no area or too few frames.
\<close>

subsection \<open>The search for a free area\<close>

text \<open>An area of \<open>n\<close> pages from \<open>b\<close> below the stack that meets no region and holds no mapped page.\<close>

definition free_area :: "vmem \<Rightarrow> u64 \<Rightarrow> (u64 \<times> u64) list \<Rightarrow> u64 \<Rightarrow> u64 \<Rightarrow> bool" where
  "free_area v p regions n b \<longleftrightarrow> page_aligned b \<and> unat b + unat n * 4096 \<le> unat (USER_STACK_TOP - 5 * PAGE_SIZE) \<and>
     (\<forall>r \<in> set regions. b + n * PAGE_SIZE \<le> fst r \<or> region_limit r \<le> b) \<and>
     (\<forall>i < unat n. pages v p (path_of (b + of_nat i * PAGE_SIZE)) = None)"

lemma area_end:
  assumes "unat b \<le> 2 ^ 47" "unat n * 4096 < 2 ^ 47"
  shows "unat (b + n * PAGE_SIZE) = unat b + unat n * 4096"
  using assms by (simp add: unat_word_ariths PAGE_SIZE_def)

lemma region_limit_aligned: "region_ok r \<Longrightarrow> page_aligned (region_limit r)"
  using aligned_offset(1) [of "fst r" "unat (snd r)"] by (simp add: region_ok_def region_limit_def PAGE_SIZE_def)

text \<open>The answer of the search from \<open>base\<close>: the lowest free area from there on, or that there is none.\<close>

definition lowest_area :: "vmem \<Rightarrow> u64 \<Rightarrow> (u64 \<times> u64) list \<Rightarrow> u64 \<Rightarrow> u64 \<Rightarrow> u64 option \<Rightarrow> bool" where
  "lowest_area v p regions n base r \<longleftrightarrow> (case r of
     None \<Rightarrow> \<forall>c. base \<le> c \<longrightarrow> \<not> free_area v p regions n c
   | Some b \<Rightarrow> base \<le> b \<and> free_area v p regions n b \<and> (\<forall>c. base \<le> c \<and> c < b \<longrightarrow> \<not> free_area v p regions n c))"

lemma lowest_area_skip:
  assumes "lowest_area v p regions n base' r" "base < base'" "\<And>c. base \<le> c \<Longrightarrow> c < base' \<Longrightarrow> \<not> free_area v p regions n c"
  shows "lowest_area v p regions n base r"
proof (cases r)
  case None
  then show ?thesis using assms unfolding lowest_area_def by (auto simp: not_less [symmetric])
next
  case (Some b)
  then show ?thesis using assms unfolding lowest_area_def by (auto simp: not_less [symmetric])
qed

lemma free_area_limit:
  assumes "free_area v p regions n c"
  shows "unat (c + n * PAGE_SIZE) = unat c + unat n * 4096" "unat c + unat n * 4096 \<le> unat (USER_STACK_TOP - 5 * PAGE_SIZE)"
proof -
  have "unat (USER_STACK_TOP - 5 * PAGE_SIZE) < 2 ^ 47" by (simp add: USER_STACK_TOP_def PAGE_SIZE_def)
  then show "unat (c + n * PAGE_SIZE) = unat c + unat n * 4096" "unat c + unat n * 4096 \<le> unat (USER_STACK_TOP - 5 * PAGE_SIZE)"
    using assms area_end [of c n] by (simp_all add: free_area_def)
qed

text \<open>No free area starts between a candidate and the limit of a region it meets, nor up to a mapped page of it.\<close>

lemma skip_region:
  assumes "r \<in> set regions" "base + n * PAGE_SIZE > fst r" "unat (base + n * PAGE_SIZE) = unat base + unat n * 4096"
    "base \<le> c" "c < region_limit r"
  shows "\<not> free_area v p regions n c"
proof
  assume f: "free_area v p regions n c"
  then have "c + n * PAGE_SIZE \<le> fst r" using assms(1,5) by (auto simp: free_area_def not_less [symmetric])
  then show False using assms(2-4) free_area_limit(1) [OF f] by (simp add: word_le_nat_alt word_less_nat_alt)
qed

lemma skip_mapped:
  assumes "page_aligned base" "i < unat n" "unat base + unat n * 4096 \<le> 2 ^ 47" "pages v p (path_of (base + of_nat i * PAGE_SIZE)) \<noteq> None"
    "base \<le> c" "c < base + of_nat (i + 1) * PAGE_SIZE"
  shows "\<not> free_area v p regions n c"
proof
  assume f: "free_area v p regions n c"
  obtain q where q: "unat base = 4096 * q" using unat_page_aligned [OF assms(1)] by blast
  have "page_aligned c" using f by (simp add: free_area_def)
  then obtain k where k: "unat c = 4096 * k" using unat_page_aligned by blast
  have "(i + 1) * 4096 \<le> unat n * 4096" using assms(2) by simp
  then have "unat (base + of_nat (i + 1) * PAGE_SIZE) = unat base + (i + 1) * 4096"
    using assms(3) by (simp add: unat_word_ariths unat_of_nat PAGE_SIZE_def)
  then have "4096 * k < 4096 * (q + i + 1)" using assms(6) k q by (simp add: word_less_nat_alt)
  moreover have "4096 * q \<le> 4096 * k" using assms(5) k q by (simp add: word_le_nat_alt)
  ultimately have kq: "q \<le> k" "k \<le> q + i" by simp_all
  then have c: "c = base + of_nat (k - q) * PAGE_SIZE"
    using unat_page_step [OF assms(3), of "k - q"] assms(2) k q by (simp add: word_unat_eq_iff)
  have "c + of_nat (i - (k - q)) * PAGE_SIZE = base + of_nat i * PAGE_SIZE"
  proof -
    have "of_nat i = (of_nat (k - q) + of_nat (i - (k - q)) :: u64)" using kq unfolding of_nat_add [symmetric] by simp
    then show ?thesis unfolding c by (simp only: distrib_right add.assoc)
  qed
  moreover have "pages v p (path_of (c + of_nat j * PAGE_SIZE)) = None" if "j < unat n" for j
    using f that by (simp only: free_area_def)
  then have "pages v p (path_of (c + of_nat (i - (k - q)) * PAGE_SIZE)) = None" using assms(2) less_imp_diff_less by blast
  ultimately show False using assms(4) by simp
qed

context page_mapper
begin

lemma probe_result:
  assumes "pte_addr p = p" "\<forall>i \<in> set is. base + of_nat i * PAGE_SIZE < 2 ^ 47"
  shows "probe_pages mp (vm_mem v) p base is = Inr (List.find (\<lambda>i. pages v p (path_of (base + of_nat i * PAGE_SIZE)) \<noteq> None) is)"
  using assms(2)
proof (induction "is")
  case (Cons i "is")
  have l: "base + of_nat i * PAGE_SIZE < 2 ^ 47" using Cons.prems by simp
  then show ?case using Cons translate_pages [OF assms(1) low_address [OF l], of v] by (simp add: virt_new)
qed simp

lemma mmap_search_result:
  assumes "pte_addr p = p" "\<forall>r \<in> set regions. region_ok r" "page_aligned base" "unat base \<le> 2 ^ 47" "unat n * 4096 < 2 ^ 47"
  shows "\<exists>r. mmap_search mp (vm_mem v) p regions n base = Some (Inr r) \<and> lowest_area v p regions n base r"
  using assms(3,4)
proof (induction "2 ^ 47 - unat base" arbitrary: base rule: less_induct)
  case less
  let ?once = "mmap_try mp (vm_mem v) p regions n base"
  note e = area_end [OF less.prems(2) assms(5)]
  have retry: "\<exists>r. mmap_search mp (vm_mem v) p regions n base = Some (Inr r) \<and> lowest_area v p regions n base r"
    if o: "?once = Inr (Retry base')" and b': "unat base < unat base'" "page_aligned base'" "unat base' \<le> 2 ^ 47"
      and skip: "\<And>c. base \<le> c \<Longrightarrow> c < base' \<Longrightarrow> \<not> free_area v p regions n c" for base'
  proof -
    obtain r where r: "mmap_search mp (vm_mem v) p regions n base' = Some (Inr r)" "lowest_area v p regions n base' r"
      using less.hyps [OF diff_less_mono2 [OF b'(1)] b'(2,3)] b'(1,3) by fastforce
    have "base < base'" using b'(1) by (simp add: word_less_nat_alt)
    then have "lowest_area v p regions n base r" by (rule lowest_area_skip [OF r(2) _ skip])
    then show ?thesis using r(1) o by (simp add: mmap_search.simps [of _ _ _ _ _ base])
  qed
  show ?case
  proof (cases "List.find (\<lambda>r. base < region_limit r \<and> base + n * PAGE_SIZE > fst r) regions")
    case (Some r)
    then have r: "r \<in> set regions" "base < region_limit r" "base + n * PAGE_SIZE > fst r" by (auto simp: find_Some_iff)
    then have "region_ok r" using assms(2) by simp
    then show ?thesis using r(2) Some region_limit_aligned unat_region_limit [of r]
      by (intro retry [of "region_limit r"] skip_region [OF r(1,3) e]) (simp_all add: mmap_try_def word_less_nat_alt region_ok_def)
  next
    case None
    then have apart: "\<forall>r \<in> set regions. base + n * PAGE_SIZE \<le> fst r \<or> region_limit r \<le> base"
      unfolding find_None_iff not_less [symmetric] by blast
    show ?thesis
    proof (cases "base + n * PAGE_SIZE > USER_STACK_TOP - 5 * PAGE_SIZE")
      case True
      then have "?once = Inr NoRoom" using None by (simp add: mmap_try_def)
      moreover have "\<not> free_area v p regions n c" if "base \<le> c" for c
        using free_area_limit(2) [of v p regions n c] that True e by (auto simp: word_less_nat_alt word_le_nat_alt)
      ultimately show ?thesis by (simp add: mmap_search.simps [of _ _ _ _ _ base] lowest_area_def)
    next
      case False
      have top: "unat (USER_STACK_TOP - 5 * PAGE_SIZE) < 2 ^ 47" by (simp add: USER_STACK_TOP_def PAGE_SIZE_def)
      have room: "unat base + unat n * 4096 \<le> unat (USER_STACK_TOP - 5 * PAGE_SIZE)" using False e by (simp add: word_less_nat_alt)
      have k: "unat base + unat n * 4096 \<le> 2 ^ 47" using room top by simp
      have "\<forall>i \<in> set [0..<unat n]. base + of_nat i * PAGE_SIZE < 2 ^ 47"
      proof
        fix i
        assume "i \<in> set [0..<unat n]"
        then show "base + of_nat i * PAGE_SIZE < 2 ^ 47" using unat_page_step [OF k, of i] k by (simp add: word_less_nat_alt)
      qed
      note pr = probe_result [OF assms(1) this, of v]
      show ?thesis
      proof (cases "List.find (\<lambda>i. pages v p (path_of (base + of_nat i * PAGE_SIZE)) \<noteq> None) [0..<unat n]")
        case f: (Some i)
        then have i: "i < unat n" "pages v p (path_of (base + of_nat i * PAGE_SIZE)) \<noteq> None" by (auto simp: find_Some_iff)
        have "Suc i * 4096 \<le> unat n * 4096" using i(1) by simp
        then have u: "unat (base + of_nat (i + 1) * PAGE_SIZE) = unat base + (i + 1) * 4096" "unat base + (i + 1) * 4096 \<le> 2 ^ 47"
          using k by (simp_all add: unat_word_ariths unat_of_nat PAGE_SIZE_def)
        have "page_aligned (base + of_nat (i + 1) * PAGE_SIZE)" using aligned_offset(1) [OF less.prems(1), of "i + 1"] by (simp add: PAGE_SIZE_def)
        then show ?thesis using u None False pr f
          by (intro retry [of "base + of_nat (i + 1) * PAGE_SIZE"] skip_mapped [OF less.prems(1) i(1) k i(2)]) (simp_all add: mmap_try_def)
      next
        case n: None
        then have "?once = Inr Found" using None False pr by (simp add: mmap_try_def)
        moreover have "free_area v p regions n base"
          using less.prems(1) room apart n by (auto simp: free_area_def find_None_iff)
        then have "lowest_area v p regions n base (Some base)" by (auto simp: lowest_area_def dest: leD)
        ultimately show ?thesis by (simp add: mmap_search.simps [of _ _ _ _ _ base])
      qed
    qed
  qed
qed

end

subsection \<open>Mapping the pages of an area\<close>

definition area_paths :: "u64 \<Rightarrow> nat \<Rightarrow> nat list set" where
  "area_paths base i = path_of ` (\<lambda>j. base + of_nat j * PAGE_SIZE) ` {..<i}"

lemma step_path_inject:
  assumes "page_aligned base" "unat base + n * 4096 \<le> 2 ^ 47" "i < n" "j < n"
    "path_of (base + of_nat i * PAGE_SIZE) = path_of (base + of_nat j * PAGE_SIZE)"
  shows "i = j"
proof -
  note u = unat_page_step [OF assms(2)]
  have l: "base + of_nat k * PAGE_SIZE < 2 ^ 47" if "k < n" for k using u [OF that] assms(2) that by (simp add: word_less_nat_alt)
  have "page_base (base + of_nat i * PAGE_SIZE) = page_base (base + of_nat j * PAGE_SIZE)"
    using assms(5) path_of_inject [OF l [OF assms(3)] l [OF assms(4)]] by simp
  then have "unat (base + of_nat i * PAGE_SIZE) div 4096 * 4096 = unat (base + of_nat j * PAGE_SIZE) div 4096 * 4096"
    by (simp only: unat_page_base [symmetric])
  moreover obtain q where "unat base = 4096 * q" using unat_page_aligned [OF assms(1)] by blast
  ultimately show ?thesis using u [OF assms(3)] u [OF assms(4)] by simp
qed

lemma extended_holder:
  assumes "extended p ps P v v'" "path \<in> P" "pages v' p path = Some e"
  shows "holders (vm_pmm v') (pte_addr e) = 1"
proof -
  from assms(1) obtain N where N: "granted N [] (vm_pmm v) (vm_pmm v')"
      "\<forall>path \<in> P. pages v p path = None \<and> (\<exists>f \<in> set N. pte_addr f = f \<and> pages v' p path = Some (f OR USER_PAGE) \<and>
        (\<forall>n < 4096. vm_mem v' (f + of_nat n) = vm_mem v (f + of_nat n)))"
    unfolding extended_def by (elim exE conjE)
  from bspec [OF N(2) assms(2)] obtain f where f: "f \<in> set N" "pte_addr f = f" "pages v' p path = Some (f OR USER_PAGE)" by (elim conjE bexE)
  have "managed (vm_pmm v) f" using N(1) f(1) by (simp add: granted_def)
  then have "holders (vm_pmm v') f = 1" using N(1) f(1) by (simp add: granted_def)
  moreover have "pte_addr e = f" using f(3) assms(3) user_page(2) [OF f(2)] by simp
  ultimately show ?thesis by simp
qed

text \<open>Pages that were added and removed again leave no trace in what programs see.\<close>

lemma extended_reduced:
  assumes iso: "isolated (p # ps) v" and e: "extended p ps P v v1" and r: "reduced p ps P v1 v2"
  shows "more_pages p ps (\<lambda>_. False) v v2"
proof -
  note D = reducedD [OF r] and ok = isolatedD(2) [OF iso]
  have m1: "more_pages p ps (\<lambda>virt. path_of virt \<in> P) v v1"
    by (rule extended_more_pages [OF iso e]) simp
  have iso1: "isolated (p # ps) v1" by (rule extended_more(4) [OF e])
  have f: "fewer_pages p ps (\<lambda>virt. path_of virt \<in> P) v1 v2" by (rule reduced_fewer_pages [OF iso1 r]) simp
  have p: "pte_addr p = p" by (rule spaces_front [OF ok])
  have "reads_same ps v v2" using m1 f by (simp add: more_pages_def fewer_pages_def reads_same_def)
  moreover have "if user_load v p virt \<noteq> None then user_load v2 p virt = user_load v p virt
      else if False then shows_free_frame v p virt v2 \<and> (\<forall>b. user_store v2 p virt b \<noteq> None)
      else user_load v2 p virt = None" if l: "virt < 2 ^ 47" for virt
  proof (cases "user_load v p virt = None")
    case True
    note ld = user_load_pages [OF p low_address [OF l]]
    have "pages v2 p (path_of virt) = None"
      using True ld D(3) [of "path_of virt"] extended_more(3) [OF e, of "path_of virt"] by simp
    then show ?thesis using True ld by simp
  next
    case False
    then have "path_of virt \<notin> P" using extended_more(2) [OF e] user_load_pages [OF p low_address [OF l]] by auto
    then have "user_load v2 p virt = user_load v1 p virt" using f l by (simp add: fewer_pages_def)
    moreover have "user_load v1 p virt = user_load v p virt"
      using m1 l False unfolding more_pages_def by (simp only: if_True simp_thms)
    ultimately show ?thesis unfolding if_P [OF False] by (rule trans)
  qed
  ultimately show ?thesis using D(1) unfolding more_pages_def by blast
qed

context page_mapper
begin

lemma mmap_pages_result:
  assumes iso: "isolated (p # ps) v0" and al: "page_aligned base" and n: "unat base + n * 4096 \<le> 2 ^ 47"
    and new: "\<forall>j < n. pages v0 p (path_of (base + of_nat j * PAGE_SIZE)) = None"
    and "extended p ps (area_paths base i) v0 v" "i \<le> n" "card (free_set (vm_pmm v0)) \<le> card (free_set (vm_pmm v)) + 4 * i"
  shows "case (mmap_pages mp p base [i..<n] v :: ('e, bool) outcome \<times> vmem) of
      (Inr ok, v') \<Rightarrow> if ok then extended p ps (area_paths base n) v0 v'
        else more_pages p ps (\<lambda>_. False) v0 v' \<and> card (free_set (vm_pmm v0)) \<le> 4 * n
    | (Inl (Err _), _) \<Rightarrow> False
    | (Inl (Crash _), v') \<Rightarrow> card (free_set (vm_pmm v0)) \<le> 4 * n"
  using assms(5-7)
proof (induction "n - i" arbitrary: i v)
  case 0
  then have "i = n" by simp
  then show ?case using 0(2) by (simp add: sreturn_def)
next
  case (Suc k)
  have i: "i < n" using Suc.hyps(2) by linarith
  let ?a = "base + of_nat i * PAGE_SIZE"
  have l: "base + of_nat j * PAGE_SIZE < 2 ^ 47" if "j < n" for j using unat_page_step [OF n that] n that by (simp add: word_less_nat_alt)
  note ext = Suc.prems(1)
  have notin: "path_of ?a \<notin> area_paths base i"
  proof
    assume "path_of ?a \<in> area_paths base i"
    then obtain j where j: "j < i" "path_of ?a = path_of (base + of_nat j * PAGE_SIZE)" unfolding area_paths_def by blast
    have "i = j" using j(1) i by (intro step_path_inject [OF al n i _ j(2)]) simp
    then show False using j(1) by simp
  qed
  have none: "pages v p (path_of ?a) = None" using extended_more(3) [OF ext notin] new i by simp
  note iso1 = extended_more(4) [OF ext] and nh = extended_more(5) [OF ext]
  note map = map_new_page_result [OF iso1 low_address [OF l [OF i]] none nh, where 'e = 'e]
  obtain r v1 where r: "map_new_page mp p ?a v = (r :: ('e, bool) outcome, v1)" by (cases "map_new_page mp p ?a v :: ('e, bool) outcome \<times> vmem")
  have used: "card (free_set (vm_pmm v0)) \<le> card (free_set (vm_pmm v1)) + 4 * Suc i"
    using map_new_page_frames [OF iso1 low_address [OF l [OF i]], where 'e = 'e] Suc.prems(3) by (simp add: r)
  have most: "card (free_set (vm_pmm v0)) \<le> 4 * n" if "free_set (vm_pmm v1) = {}" using used that i by simp
  have run: "mmap_pages mp p base [i..<n] v = (case r of Inl x \<Rightarrow> (Inl x, v1)
      | Inr ok \<Rightarrow> if ok then mmap_pages mp p base [Suc i..<n] v1
          else sbind (each (\<lambda>a. at_virt mp a (unmap_if_mapped mp free_frame p)) (map (\<lambda>j. base + of_nat j * PAGE_SIZE) [0..<i])) (\<lambda>_. sreturn False) v1)"
    using i virt_new [OF l [OF i]] by (simp add: upt_conv_Cons at_virt_def sbind_def r each_map split: sum.splits)
  show ?case
  proof (cases r)
    case (Inl x)
    then show ?thesis unfolding run using map most by (cases x) (simp_all add: r)
  next
    case (Inr ok)
    show ?thesis
    proof (cases ok)
      case True
      then have "extended p ps {path_of ?a} v v1" using map Inr by (simp add: r)
      then have "extended p ps (area_paths base i \<union> {path_of ?a}) v0 v1"
        by (rule extended_trans [OF iso ext]) (simp add: notin)
      moreover have "area_paths base i \<union> {path_of ?a} = area_paths base (Suc i)" by (auto simp: area_paths_def lessThan_Suc)
      ultimately show ?thesis unfolding run using Suc.hyps(1) [of "Suc i" v1] Suc.hyps(2) used i Inr True by simp
    next
      case False
      then have v1: "v1 = v" "free_set (vm_pmm v) = {}" using map Inr by (simp_all add: r)
      let ?as = "map (\<lambda>j. base + of_nat j * PAGE_SIZE) [0..<i]"
      have P: "path_of ` set ?as = area_paths base i" by (simp add: area_paths_def lessThan_atLeast0)
      have one: "holders (vm_pmm v) (pte_addr e) = 1" if a: "a \<in> set ?as" "pages v p (path_of a) = Some e" for a e
      proof -
        have "path_of a \<in> area_paths base i" using a(1) P by auto
        then show ?thesis by (rule extended_holder [OF ext _ a(2)])
      qed
      have "\<forall>a \<in> set ?as. a < 2 ^ 47" using l i by auto
      from unmap_each [OF iso1 nh this, of free_frame, where 'e = 'e, unfolded P] one
      obtain v2 where v2: "each (\<lambda>a. at_virt mp a (unmap_if_mapped mp free_frame p)) ?as v = (Inr () :: ('e, unit) outcome, v2)"
          "reduced p ps (area_paths base i) v v2" by auto
      show ?thesis unfolding run using Inr False v1(1) v2(1) extended_reduced [OF iso ext v2(2)] most v1(2) by (simp add: sbind_def sreturn_def)
    qed
  qed
qed

end

subsection \<open>mmap\<close>

lemma view_unchanged:
  assumes "isolated (p # ps) v"
  shows "more_pages p ps (\<lambda>_. False) v v"
proof -
  show ?thesis using assms by (simp add: more_pages_def reads_same_def)
qed

lemma area_more_pages:
  assumes iso: "isolated (p # ps) v" and a: "free_area v p regions n b" and e: "extended p ps (area_paths b (unat n)) v v'"
  shows "more_pages p ps (\<lambda>virt. b \<le> virt \<and> virt < b + n * PAGE_SIZE) v v'"
proof (rule extended_more_pages [OF iso e])
  fix virt :: u64
  assume v: "virt < 2 ^ 47"
  have top: "unat (USER_STACK_TOP - 5 * PAGE_SIZE) < 2 ^ 47" by (simp add: USER_STACK_TOP_def PAGE_SIZE_def)
  have b: "page_aligned b" "unat b + unat n * 4096 \<le> 2 ^ 47" using a top by (simp_all add: free_area_def)
  have "unat (b + n * PAGE_SIZE) = unat b + unat n * 4096" using b(2) by (simp add: unat_word_ariths PAGE_SIZE_def)
  then show "(b \<le> virt \<and> virt < b + n * PAGE_SIZE) = (path_of virt \<in> area_paths b (unat n))"
    unfolding area_paths_def path_in_range [OF b v] by (simp add: word_less_nat_alt)
qed

definition add_region :: "u64 \<Rightarrow> u64 \<Rightarrow> process \<Rightarrow> process" where
  "add_region base n p = p\<lparr>p_mmap_regions := (p_mmap_regions p)[p_mmap_count p := (base, n)], p_mmap_count := p_mmap_count p + 1\<rparr>"

lemma add_region_live:
  assumes "regions_ok p" "p_mmap_count p < MAX_MMAP_REGIONS" "free_area v m (live_regions p) n b"
  shows "live_regions (add_region b n p) = live_regions p @ [(b, n)]" "regions_ok (add_region b n p)"
proof -
  have c: "p_mmap_count p < length (p_mmap_regions p)" using assms(1,2) by (simp add: regions_ok_def)
  show l: "live_regions (add_region b n p) = live_regions p @ [(b, n)]"
    using c by (simp add: live_regions_def add_region_def take_Suc_conv_app_nth)
  have "unat (USER_STACK_TOP - 5 * PAGE_SIZE) < 2 ^ 47" by (simp add: USER_STACK_TOP_def PAGE_SIZE_def)
  then have "region_ok (b, n)" using assms(3) by (simp add: region_ok_def free_area_def)
  then show "regions_ok (add_region b n p)"
    using assms(1) c unfolding regions_ok_def l by (simp add: add_region_def)
qed

lemma mmap_run:
  assumes "caller s = Some (pid, p)" "p_pml4_phys p \<noteq> 0" "p_mmap_count p < MAX_MMAP_REGIONS" "len \<noteq> 0"
    and "randomize_mmap_base (ms_prng s) = (base, prng)"
    and "mmap_search mp (vm_mem (ms_vm s)) (p_pml4_phys p) (live_regions p) (pages_for len) base = Some (Inr (Some b))"
    and "mmap_pages mp (p_pml4_phys p) b [0..<unat (pages_for len)] ((ms_vm s)\<lparr>vm_cr3 := vm_kernel_pml4 (ms_vm s)\<rparr>) = (x, v')"
  defines "fin \<equiv> s\<lparr>ms_prng := prng, ms_vm := v'\<lparr>vm_cr3 := vm_cr3 (ms_vm s)\<rparr>\<rparr>"
  shows "sys_mmap mp addr len s = Some (case x of
      Inl (Crash c) \<Rightarrow> (Inl (Crash c), s\<lparr>ms_prng := prng, ms_vm := v'\<rparr>)
    | Inl (Err e) \<Rightarrow> (Inl (Err e), fin)
    | Inr ok \<Rightarrow> if ok then (Inr b, set_process pid (add_region b (pages_for len) p) fin) else (Inl (Err ENOMEM), fin))"
proof -
  have "s_current_pid (ms_sched s) = Some pid" "s_processes (ms_sched s) ! pid = Some p"
    using assms(1) by (auto simp: caller_def split: option.splits if_splits)
  then show ?thesis using assms(2-7) unfolding fin_def
    by (simp add: sys_mmap_def in_kernel_space_def Let_def sbind_def on_vmem_def sfail_def add_region_def split: sum.splits fault.splits)
qed

text \<open>
  C10. mmap always returns: the search for an area ends. It picks the lowest area from the random base on that lies below the stack, meets no other
  region and has no page mapped. On success the caller gets exactly the pages of this area, which show the contents of
  free frames, and the area is entered in the table. If there is no such area, the call fails with ENOMEM. If more than four frames are free for every page of the area, it does not fail for
  another reason; with fewer it fails with ENOMEM or panics, the latter when a frame for a page table is missing. After ENOMEM nobody's view of memory has changed.
\<close>

theorem mmap_maps:
  assumes "page_mapper mp" "caller s = Some (pid, p)" "regions_ok p"
    and "isolated (p_pml4_phys p # ps) (ms_vm s)" "no_huge 4 (vm_mem (ms_vm s)) (p_pml4_phys p)"
    and "p_pml4_phys p \<noteq> 0" "p_mmap_count p < MAX_MMAP_REGIONS" "len \<noteq> 0" "unat (pages_for len) * 4096 < 2 ^ 47"
  shows "\<exists>r s' area. sys_mmap mp addr len s = Some (r, s') \<and>
    lowest_area (ms_vm s) (p_pml4_phys p) (live_regions p) (pages_for len) (fst (randomize_mmap_base (ms_prng s))) area \<and> (case r of
      Inr b \<Rightarrow> area = Some b \<and>
        more_pages (p_pml4_phys p) ps (\<lambda>virt. b \<le> virt \<and> virt < b + pages_for len * PAGE_SIZE) (ms_vm s) (ms_vm s') \<and>
        (\<exists>p'. caller s' = Some (pid, p') \<and> regions_ok p' \<and> live_regions p' = live_regions p @ [(b, pages_for len)])
    | Inl (Err e) \<Rightarrow> e = ENOMEM \<and> more_pages (p_pml4_phys p) ps (\<lambda>_. False) (ms_vm s) (ms_vm s') \<and> caller s' = Some (pid, p) \<and>
        (area = None \<or> card (free_set (vm_pmm (ms_vm s))) \<le> 4 * unat (pages_for len))
    | Inl (Crash _) \<Rightarrow> area \<noteq> None \<and> card (free_set (vm_pmm (ms_vm s))) \<le> 4 * unat (pages_for len))"
proof -
  let ?m = "p_pml4_phys p" and ?n = "pages_for len" and ?rs = "live_regions p"
  let ?v = "(ms_vm s)\<lparr>vm_cr3 := vm_kernel_pml4 (ms_vm s)\<rparr>"
  obtain base prng where base: "randomize_mmap_base (ms_prng s) = (base, prng)" by (cases "randomize_mmap_base (ms_prng s)")
  let ?s = "s\<lparr>ms_prng := prng\<rparr>"
  have pid: "s_current_pid (ms_sched s) = Some pid" "s_processes (ms_sched s) ! pid = Some p"
    using assms(2) by (auto simp: caller_def split: option.splits if_splits)
  have m: "pte_addr ?m = ?m" by (rule spaces_front [OF isolatedD(2) [OF assms(4)]])
  have bb: "page_aligned base" "unat base \<le> 2 ^ 47" using randomize_mmap_window [of "ms_prng s"] base by simp_all
  obtain r where r: "mmap_search mp (vm_mem (ms_vm s)) ?m ?rs ?n base = Some (Inr r)" "lowest_area (ms_vm s) ?m ?rs ?n base r"
    using page_mapper.mmap_search_result [OF assms(1) m _ bb assms(9), of ?rs "ms_vm s"] assms(3) by (auto simp: regions_ok_def)
  show ?thesis
  proof (cases r)
    case None
    have "sys_mmap mp addr len s = Some (Inl (Err ENOMEM), ?s)"
      using assms(6,7,8) pid base r(1) None by (simp add: sys_mmap_def sfail_def)
    then show ?thesis using view_unchanged [OF assms(4)] assms(2) r(2) None
      by (intro exI [of _ "Inl (Err ENOMEM)"] exI [of _ ?s] exI [of _ None]) (simp add: base)
  next
    case (Some b)
    have a: "free_area (ms_vm s) ?m ?rs ?n b" using r(2) Some by (simp add: lowest_area_def)
    have top: "unat (USER_STACK_TOP - 5 * PAGE_SIZE) < 2 ^ 47" by (simp add: USER_STACK_TOP_def PAGE_SIZE_def)
    have ab: "page_aligned b" "unat b + unat ?n * 4096 \<le> 2 ^ 47" "\<forall>i < unat ?n. pages ?v ?m (path_of (b + of_nat i * PAGE_SIZE)) = None"
      using a top by (simp_all add: free_area_def pages_def)
    have iso: "isolated (?m # ps) ?v" "no_huge 4 (vm_mem ?v) ?m" using assms(4,5) by simp_all
    have e0: "extended ?m ps (area_paths b 0) ?v ?v" using extended_refl [OF iso] by (simp add: area_paths_def)
    obtain x v' where x: "mmap_pages mp ?m b [0..<unat ?n] ?v = (x :: (int, bool) outcome, v')"
      by (cases "mmap_pages mp ?m b [0..<unat ?n] ?v :: (int, bool) outcome \<times> vmem")
    note res = page_mapper.mmap_pages_result [OF assms(1) iso(1) ab e0 le0, where 'e = int, unfolded x prod.case, simplified]
    note run = mmap_run [OF assms(2,6,7,8) base r(1) [unfolded Some] x]
    note low = r(2) [unfolded Some]
    show ?thesis
    proof (cases x)
      case (Inl y)
      then obtain c where "x = Inl (Crash c)" using res by (cases y) simp_all
      then show ?thesis unfolding run using res low by (auto simp: base)
    next
      case (Inr ok)
      show ?thesis
      proof (cases ok)
        case True
        then have ext: "extended ?m ps (area_paths b (unat ?n)) ?v v'" using res Inr by simp
        have "free_area ?v ?m ?rs ?n b" using a by (simp add: free_area_def pages_def)
        then have "more_pages ?m ps (\<lambda>virt. b \<le> virt \<and> virt < b + ?n * PAGE_SIZE) ?v v'" by (rule area_more_pages [OF iso(1) _ ext])
        moreover have "caller (set_process pid (add_region b ?n p) s) = Some (pid, add_region b ?n p)" by (rule caller_set_process [OF assms(2)])
        moreover have "set_process pid (add_region b ?n p) ?s = (set_process pid (add_region b ?n p) s)\<lparr>ms_prng := prng\<rparr>" by (simp add: set_process_def)
        ultimately show ?thesis unfolding run using Inr True low add_region_live [OF assms(3,7) a] by (simp add: cr3_irrelevant base)
      next
        case False
        then have "more_pages ?m ps (\<lambda>_. False) ?v v'" "card (free_set (vm_pmm (ms_vm s))) \<le> 4 * unat ?n" using res Inr by simp_all
        then show ?thesis unfolding run using Inr False assms(2) low by (auto simp: cr3_irrelevant base)
      qed
    qed
  qed
qed

end
