(* ===== verification/Mem_Witness.thy ===== *)
theory Mem_Witness
  imports Mmap
begin

text \<open>The memory calls on a concrete system: two address spaces, and a process that has mapped one page, which is both its heap and its only region.\<close>

definition mem_process :: process where
  "mem_process = (example_process 1 Running)\<lparr>p_pml4_phys := 0x1000, p_heap_start := 0x1000, p_heap_end := 0x2000,
     p_mmap_regions := (0x1000, 1) # replicate (MAX_MMAP_REGIONS - 1) (0, 0), p_mmap_count := 1\<rparr>"

definition mem_example :: msys where
  "mem_example = \<lparr>ms_sched = update_process 1 (\<lambda>_. mem_process) example_table, ms_vm = example_mapped, ms_prng = 1\<rparr>"

lemma mem_process_fields [simp]:
  "p_pml4_phys mem_process = 0x1000" "p_heap_start mem_process = 0x1000" "p_heap_end mem_process = 0x2000"
  "p_mmap_count mem_process = 1" "live_regions mem_process = [(0x1000, 1)]"
  by (simp_all add: mem_process_def live_regions_def MAX_MMAP_REGIONS_def)

lemma mem_caller: "caller mem_example = Some (1, mem_process)"
  by (simp add: caller_def mem_example_def update_process_def example_table_def scheduler_new_def MAX_PROCESSES_def)

lemma mem_isolated: "isolated [0x1000, 0x2000] (ms_vm mem_example)"
  using example_isolated by (simp add: mem_example_def)

lemma mem_regions: "regions_ok mem_process"
  by (simp add: regions_ok_def region_ok_def page_aligned_def) (simp add: mem_process_def MAX_MMAP_REGIONS_def)

lemma mem_no_huge: "no_huge 4 (vm_mem (ms_vm mem_example)) 0x1000"
proof -
  have "\<not> pte_huge 0x4007" "\<not> pte_huge 0x5007" "\<not> pte_huge 0x6007" "\<not> pte_huge 0x3007" by (simp_all add: pte_huge_def bit_numeral_rec(2))
  then show ?thesis by (simp add: no_huge_def mem_example_def example_mapped_def example_space example_entries pte_present_def)
qed


theorem munmap_unmaps_witness:
  "\<exists>s'. sys_munmap reference_mapper 0x1000 5 mem_example = (Inr 0, s') \<and> user_load (ms_vm s') 0x1000 0x1000 = None \<and>
    user_load (ms_vm s') 0x2000 0x1000 = user_load example_mapped 0x2000 0x1000"
proof -
  have iso: "isolated (p_pml4_phys mem_process # [0x2000]) (ms_vm mem_example)" "no_huge 4 (vm_mem (ms_vm mem_example)) (p_pml4_phys mem_process)"
    using mem_isolated mem_no_huge by simp_all
  have m: "ms_vm mem_example = example_mapped" by (simp add: mem_example_def)
  obtain r s' where r: "sys_munmap reference_mapper 0x1000 5 mem_example = (r, s')" by (cases "sys_munmap reference_mapper 0x1000 5 mem_example")
  have p: "contains_range (0x1000, 1) 0x1000 5" "region_limit (0x1000, 1) = 0x2000"
    by (simp_all add: contains_range_def region_limit_def pages_for_def PAGE_SIZE_def)
  have "r = Inr 0 \<and> fewer_pages 0x1000 [0x2000] (\<lambda>virt. 0x1000 \<le> virt \<and> virt < 0x2000) example_mapped (ms_vm s')"
    using munmap_unmaps [OF reference.page_mapper_axioms mem_caller mem_regions iso, of 5 "0x1000"] p
    by (auto simp: r m Let_def split: sum.splits fault.splits)
  then show ?thesis using r example_path(2) by (simp add: fewer_pages_def reads_same_def)
qed

theorem brk_shrinks_witness:
  "\<exists>s'. sys_brk reference_mapper 0x1000 mem_example = (Inr 0x1000, s') \<and> user_load (ms_vm s') 0x1000 0x1000 = None"
proof -
  have iso: "isolated (p_pml4_phys mem_process # [0x2000]) (ms_vm mem_example)" "no_huge 4 (vm_mem (ms_vm mem_example)) (p_pml4_phys mem_process)"
    using mem_isolated mem_no_huge by simp_all
  have m: "ms_vm mem_example = example_mapped" by (simp add: mem_example_def)
  have one: "holders (vm_pmm example_mapped) (pte_addr e) = 1" if "pages example_mapped 0x1000 path = Some e" for path e
    using that by (auto simp: pages_def example_mapped_def example_space holders_def pte_addr_def frame_index_def PAGE_SIZE_def
        simp del: taken.simps split: if_splits)
  have "\<exists>s'. sys_brk reference_mapper 0x1000 mem_example = (Inr 0x1000, s') \<and>
      fewer_pages 0x1000 [0x2000] (\<lambda>virt. 0x1000 \<le> virt \<and> virt < 0x2000) example_mapped (ms_vm s')"
    using brk_shrinks [OF reference.page_mapper_axioms mem_caller iso, of "0x1000"] one
    by (auto simp: page_aligned_def BRK_MAX_def m split: if_splits)
  then show ?thesis by (auto simp: fewer_pages_def)
qed

text \<open>With nine free frames and an untouched area at the random base, mapping one page succeeds there.\<close>

lemma example_base: "fst (randomize_mmap_base 1) = 0x200000001000"
  by (simp add: randomize_mmap_base_def random_page_offset_def rand_range_def next_u64_def USER_MMAP_BASE_def)

lemma example_area: "free_area example_mapped 0x1000 [(0x1000, 1)] 1 0x200000001000"
proof -
  have "pages example_mapped 0x1000 (path_of 0x200000001000) = None"
    by (simp add: pages_def example_mapped_def example_space path_of_def page_index_def)
  then show ?thesis by (simp add: free_area_def page_aligned_def USER_STACK_TOP_def PAGE_SIZE_def region_limit_def)
qed

lemma example_frames: "card (free_set (vm_pmm example_mapped)) = 9"
proof -
  have "free_set (vm_pmm example_mapped) = {7..<16}" by (auto simp: free_set_def example_mapped_def simp del: taken.simps)
  then show ?thesis by simp
qed

theorem mmap_maps_witness:
  "\<exists>s' p'. sys_mmap reference_mapper 0 4096 mem_example = Some (Inr 0x200000001000, s') \<and>
    caller s' = Some (1, p') \<and> live_regions p' = [(0x1000, 1), (0x200000001000, 1)]"
proof -
  have iso: "isolated (p_pml4_phys mem_process # [0x2000]) (ms_vm mem_example)" "no_huge 4 (vm_mem (ms_vm mem_example)) (p_pml4_phys mem_process)"
    using mem_isolated mem_no_huge by simp_all
  have n: "pages_for 4096 = 1" by (simp add: pages_for_def PAGE_SIZE_def)
  have m: "ms_vm mem_example = example_mapped" "ms_prng mem_example = 1" by (simp_all add: mem_example_def)
  have area: "area = Some 0x200000001000" if "lowest_area example_mapped 0x1000 [(0x1000, 1)] 1 0x200000001000 area" for area
    using that example_area by (cases area) (auto simp: lowest_area_def not_less [symmetric])
  obtain r s' where r: "sys_mmap reference_mapper 0 4096 mem_example = Some (r, s')"
      "case r of Inr b \<Rightarrow> b = 0x200000001000 \<and> (\<exists>p'. caller s' = Some (1, p') \<and> live_regions p' = [(0x1000, 1), (b, 1)]) | Inl _ \<Rightarrow> False"
    using mmap_maps [OF reference.page_mapper_axioms mem_caller mem_regions iso, of 4096 0, unfolded mem_process_fields n m example_base]
    by (fastforce dest!: area simp: MAX_MMAP_REGIONS_def example_frames split: sum.splits fault.splits)
  then show ?thesis by (cases r) auto
qed

end
