(* ===== verification/Spec2Isabelle.thy ===== *)
theory Spec2Isabelle
  imports Pmm Kernel_Safety Mem_Witness
begin

text \<open>
  Verification of the core of the INDOMINUS operating system: a 64-bit kernel written in Rust
  (\<^verbatim>\<open>src/indo-kernel/src\<close>), the library it shares with its boot loader (\<^verbatim>\<open>src/libs/indo-core\<close>) and its user
  space. Paths below are relative to \<^verbatim>\<open>src/indo-kernel/src\<close> unless they start with \<^verbatim>\<open>src\<close>.

  \<^bold>\<open>Conventions\<close> (theory \<open>Kernel_Prelude\<close>). Machine integers are words and wrap as in a release build; where the code
  uses an index as a plain number (\<open>usize\<close> loop counters, process ids, descriptor numbers) the model has \<open>nat\<close>.
  A panic is a value of \<open>panic\<close>. Code that returns a \<open>Result\<close> and changes state is an \<open>op\<close>: a function from the state
  to an outcome and the new state, where the outcome is a value, an error of the code (\<open>Err\<close>) or a panic (\<open>Crash\<close>).
  Strings are lists of UTF-8 bytes. Locks are taken for single operations by one processor with interrupts off, so
  an operation is one step; what interleaves is the order of operations. Diagnostic output is left out, except
  for the bytes the terminal echoes and user programs write.

  \<^bold>\<open>Parts and their theories.\<close>

  \<^item> Boot hand-off, \<^verbatim>\<open>src/libs/indo-core/src/lib.rs\<close>: \<open>Boot_Info\<close> (memory map and its validation).
  \<^item> Physical memory, \<^verbatim>\<open>memory/pmm.rs\<close>: \<open>Pmm\<close>. Bitmap, reference counts and the free counter of the record \<open>pmm\<close>;
    \<open>init\<close>, \<open>alloc_frame\<close>, \<open>free_frame\<close>, \<open>incref\<close>, \<open>decref\<close>, \<open>reserve_range\<close>. The locale \<open>frame_allocator\<close> states what
    clients of an allocator rely on and is interpreted on these operations. Shown: the invariant of every reachable
    state, lowest-free allocation, round trips of allocation and release, exact errors, reserved frames never handed
    out, and what happens when a reference count saturates.
  \<^item> Block devices, \<^verbatim>\<open>block/\<close>: \<open>Block\<close>. The device trait is the record \<open>blockdev\<close> of operations on an arbitrary device
    state \<open>'d\<close>; the locale \<open>block_device\<close> is its contract, interpreted on the RAM disk, which is shown to refine an
    array of sectors. The registry hands out device numbers.
  \<^item> FAT file system, \<^verbatim>\<open>fat32.rs\<close>: \<open>Fat_Bpb\<close> (boot sector), \<open>Fat_Table\<close> (allocation table), \<open>Fat_Data\<close> (file data along
    chains), \<open>Fat_Dir\<close> (directories and 8.3 names), \<open>Fat_Fs\<close> (inodes and handles). Shown: round trips of entries, data
    and directory entries, allocation, extension and release of chains, and bounded traversal on any table content.
  \<^item> RAM file system and VFS, \<^verbatim>\<open>vfs/\<close>: \<open>Vfs_Types\<close>, \<open>Vfs_File\<close> (the locales \<open>readable_file\<close> and \<open>seekable_file\<close>, interpreted on
    the handles of both file systems), \<open>Ramfs\<close> (inodes as cells of a store), \<open>Vfs\<close> (mounts, resolution, path
    operations). Shown: write and read by path, termination of whole-file reads, the tree of names (every path leads to one node), and where the path
    operations ignore mounts.
  \<^item> Pipes, \<^verbatim>\<open>process/pipe.rs\<close> and the transfer loops of \<^verbatim>\<open>syscall/mod.rs\<close>: \<open>Pipe\<close>, a refinement of a byte queue (locale
    \<open>byte_channel\<close>) up to the exhaustion of the 32-bit counters.
  \<^item> Terminal, \<^verbatim>\<open>tty.rs\<close> and \<^verbatim>\<open>keyboard.rs\<close>: \<open>Keyboard\<close>, line editing from key strokes to the reader.
  \<^item> Processes and scheduling, \<^verbatim>\<open>process/\<close>: \<open>Process\<close> (the process record, initial stack frames, signals, what dropping
    a process releases), \<open>Scheduler\<close> (the table of 32 slots and every operation on it, its invariant \<open>sched_inv\<close>, the
    choice of the next process, and that a ready process runs within a bounded number of ticks), \<open>Process_Events\<close> (waking,
    terminal signals, orphans).
  \<^item> User memory, \<^verbatim>\<open>syscall/mod.rs\<close>: \<open>User_Memory\<close>, the checks on user pointers against the access rule of the processor;
    \<open>Paths\<close>, normalisation and working directories.
  \<^item> The kernel, \<^verbatim>\<open>process/context_switch.rs\<close> and \<^verbatim>\<open>syscall/mod.rs\<close>: \<open>Kernel_State\<close> (one record for everything calls change,
    with the live kernel stacks and address spaces as lists), \<open>Context_Switch\<close> (timer, forced switch, fault, deferred
    release), \<open>Syscalls\<close> (24 system calls and the dispatcher), \<open>Fork\<close> (the stack, the frame and the slot of a forked process),
    \<open>Kernel_Invariant\<close> and \<open>Kernel_Safety\<close> (interrupts, faults, spawning, reaping and all system calls but exec and execve, in any
    order, keep the table well formed; every kernel stack is held exactly once or was lost by a failed fork).

  \<^item> Virtual memory, \<^verbatim>\<open>memory/vmm.rs\<close>: \<open>Phys_Mem\<close> (physical memory as bytes, page tables as frames of 512 entries), \<open>Vmm\<close>
    (the record \<open>vmem\<close> of memory, frame allocator and page-table registers, and every operation of the manager),
    \<open>Address_Space\<close> (the tree of tables below a PML4, as the lists of its tables and of its mappings), \<open>Space_Release\<close> and
    \<open>Space_Copy\<close> (what release and fork do to frames and trees), \<open>Copy_On_Write\<close> (the invariant \<open>spaces_ok\<close> and write faults),
    \<open>Paging\<close> (the locale \<open>page_mapper\<close>, the documented contract of the paging crate, interpreted on a reference mapper),
    \<open>Isolation\<close>, \<open>Vm_Safety\<close> (all operations as steps) and \<open>Vm_Claims\<close>. Shown: address spaces stay isolated whatever
    happens, fork duplicates what a process reads, write faults are invisible to everyone, and release frees exactly the
    frames an address space held.
  \<^item> Memory calls, \<^verbatim>\<open>syscall/mod.rs\<close> and \<^verbatim>\<open>aslr.rs\<close>: \<open>Aslr\<close> (the generator and the placement of areas), \<open>Memory_Calls\<close> (\<open>brk\<close>, \<open>mmap\<close> and
    \<open>munmap\<close> on the record \<open>msys\<close> of process table, virtual memory and generator), \<open>Memory_Pages\<close> (adding and removing pages),
    \<open>Memory_Claims\<close>, \<open>Munmap\<close>, \<open>Mmap\<close> and \<open>Mem_Witness\<close>. Shown: which pages the caller gains and loses, that no other program
    sees a difference, that the search of \<open>mmap\<close> ends and finds the lowest free area, when it
    succeeds, and when the kernel panics.

  \<^bold>\<open>How they interact.\<close> System calls run on the kernel state, find the caller through the scheduler, reach files through
  the VFS and devices through the registry, and block by changing the caller's slot and asking for a switch. Interrupts
  wake and switch processes. A process that dies keeps its slot until it is reaped; its stack and page table wait in
  a list of at most eight entries until the next timer tick.

  \<^bold>\<open>Bounds.\<close> Following a cluster chain stops after 0x100001 clusters as in the code; its termination measure is that bound.
  Whole-file reads and directory loops may run for ever in the code: they are partial functions (\<open>None\<close> is not
  returning) with theorems on when they return. The search of \<open>mmap\<close> is a partial function too; it is shown to return.

  \<^bold>\<open>Parameters.\<close> \<open>valid_utf8\<close> is the check of \<open>core::str::from_utf8\<close>; the state of a block device is arbitrary; the heap is
  represented by the addresses it returns. \<open>other\<close> stands in the dispatcher for the calls that change memory or load programs; fork and the
  memory calls have definitions of their own. \<open>copy\<close> stands in \<open>Fork\<close> for the operations of \<open>Vmm\<close> that copy an address space. \<open>mapper\<close> holds the three
  operations of the x86_64 crate that map, unmap and translate pages.

  \<^bold>\<open>Not modelled.\<close> Assembly (entry stubs, register and FPU saves), descriptor tables, interrupt controllers, ACPI, PCI and
  AHCI access, the serial port, the boot loader, the system calls exec and execve with the
  loading of programs, caches of address translations, the self tests of \<^verbatim>\<open>main.rs\<close>, embedded program images and user programs.
\<close>

end
